(* ===== verification/Runtime_Prelude.thy ===== *)
theory Runtime_Prelude
  imports Main "HOL-Library.Word" "HOL-Library.Signed_Division"
begin

text \<open>
  Shared vocabulary of the development: the C integer types of a 64-bit little-endian
  target as fixed-width words, the exceptions an OCaml primitive can raise as values of
  a sum type, C's truncating division, three-way comparison, and the little-endian
  encoding of words as byte lists.  The lemmas proved here are the ones the component
  theories share; the collections \<open>c_arith\<close> and \<open>exn_simps\<close> gather those that are
  used as rewrite rules.
\<close>

unbundle bit_operations_syntax

named_theorems c_arith \<open>facts about C integer arithmetic on words\<close>
named_theorems exn_simps \<open>facts about results that may be an exception\<close>

section \<open>C integer types\<close>

type_synonym byte = "8 word"
type_synonym int32 = "32 word"
type_synonym int64 = "64 word"
type_synonym intnat = "64 word"
type_synonym uintnat = "64 word"
type_synonym bytes = "byte list"

text \<open>Character constants of the sources, as bytes.\<close>

definition chr :: "char \<Rightarrow> byte" where
  "chr c = of_char c"

lemma chr_vals [simp]:
  "chr CHR ''-'' = 45"
  "chr CHR ''+'' = 43"
  "chr CHR ''0'' = 48"
  "chr CHR ''9'' = 57"
  "chr CHR ''A'' = 65"
  "chr CHR ''F'' = 70"
  "chr CHR ''a'' = 97"
  "chr CHR ''f'' = 102"
  "chr CHR ''x'' = 120"
  "chr CHR ''X'' = 88"
  "chr CHR ''o'' = 111"
  "chr CHR ''O'' = 79"
  "chr CHR ''b'' = 98"
  "chr CHR ''B'' = 66"
  "chr CHR ''u'' = 117"
  "chr CHR ''U'' = 85"
  "chr CHR ''_'' = 95"
  "chr CHR ''%'' = 37"
  "chr CHR ''d'' = 100"
  "chr CHR ''l'' = 108"
  "chr CHR ''n'' = 110"
  "chr CHR ''L'' = 76"
  by (simp_all add: chr_def)

section \<open>Exceptions raised by primitives\<close>

datatype exn =
    Failure string
  | Invalid_argument string
  | Division_by_zero
  | Array_bound_error
  | Out_of_memory
  | Not_found
  | Fatal_error string

type_synonym 'a result = "exn + 'a"

definition bind_result :: "'a result \<Rightarrow> ('a \<Rightarrow> 'b result) \<Rightarrow> 'b result" where
  "bind_result r f = (case r of Inl e \<Rightarrow> Inl e | Inr x \<Rightarrow> f x)"

definition map_result :: "('a \<Rightarrow> 'b) \<Rightarrow> 'a result \<Rightarrow> 'b result" where
  "map_result f r = bind_result r (\<lambda>x. Inr (f x))"

lemma bind_result_simps [simp, exn_simps]:
  "bind_result (Inl e) f = Inl e"
  "bind_result (Inr x) f = f x"
  by (simp_all add: bind_result_def)

lemma map_result_simps [simp, exn_simps]:
  "map_result f (Inl e) = Inl e"
  "map_result f (Inr x) = Inr (f x)"
  by (simp_all add: map_result_def)

lemma bind_result_eq_Inr [exn_simps]:
  "bind_result r f = Inr y \<longleftrightarrow> (\<exists>x. r = Inr x \<and> f x = Inr y)"
  by (cases r) auto

lemma map_result_eq_Inr [exn_simps]:
  "map_result f r = Inr y \<longleftrightarrow> (\<exists>x. r = Inr x \<and> y = f x)"
  by (cases r) auto

section \<open>Three-way comparison\<close>

text \<open>\<open>(i1 > i2) - (i1 < i2)\<close>, the idiom of all integer comparisons in the runtime.\<close>

definition cmp_int :: "int \<Rightarrow> int \<Rightarrow> int" where
  "cmp_int a b = of_bool (a > b) - of_bool (a < b)"

lemma cmp_int_cases [c_arith]:
  "cmp_int a b = 0 \<longleftrightarrow> a = b"
  "cmp_int a b = 1 \<longleftrightarrow> a > b"
  "cmp_int a b = - 1 \<longleftrightarrow> a < b"
  "cmp_int a b < 0 \<longleftrightarrow> a < b"
  "cmp_int a b > 0 \<longleftrightarrow> a > b"
  by (auto simp: cmp_int_def)

lemma cmp_int_antisym: "cmp_int b a = - cmp_int a b"
  by (simp add: cmp_int_def)

lemma cmp_int_range: "cmp_int a b \<in> {- 1, 0, 1}"
  by (auto simp: cmp_int_def)

section \<open>Truncating division of C\<close>

text \<open>The most negative value, \<open>1 << (w - 1)\<close>.\<close>

definition min_int :: "'a::len word" where
  "min_int = push_bit (LENGTH('a) - 1) 1"

text \<open>The operators \<open>/\<close> and \<open>%\<close> on signed operands: not defined for a zero divisor nor when the
  quotient is not representable.  There the processor traps, which is \<open>None\<close>.\<close>

definition c_divides :: "'a::len word \<Rightarrow> 'a word \<Rightarrow> bool" where
  "c_divides a b \<longleftrightarrow> b \<noteq> 0 \<and> \<not> (a = min_int \<and> b = - 1)"

definition c_sdiv :: "'a::len word \<Rightarrow> 'a word \<Rightarrow> 'a word option" where
  "c_sdiv a b = (if c_divides a b then Some (word_of_int (sint a sdiv sint b)) else None)"

definition c_smod :: "'a::len word \<Rightarrow> 'a word \<Rightarrow> 'a word option" where
  "c_smod a b = (if c_divides a b then Some (word_of_int (sint a smod sint b)) else None)"

lemma sint_min_int [c_arith]: "sint (min_int :: 'a::len word) = - (2 ^ (LENGTH('a) - 1))"
proof -
  have "sint (min_int :: 'a word) = signed_take_bit (LENGTH('a) - 1) (2 ^ (LENGTH('a) - 1))"
    unfolding min_int_def by (transfer) (simp add: push_bit_eq_mult)
  also have "\<dots> = - (2 ^ (LENGTH('a) - 1))"
    by (simp add: signed_take_bit_eq_if_negative bit_exp_iff minus_exp_eq_not_mask)
  finally show ?thesis .
qed

lemma min_int_neg [c_arith]: "- min_int = (min_int :: 'a::len word)"
proof -
  have "(min_int :: 'a word) + min_int = 2 * 2 ^ (LENGTH('a) - 1)"
    by (simp add: min_int_def push_bit_eq_mult)
  also have "\<dots> = (2 ^ LENGTH('a) :: 'a word)" by (simp flip: power_Suc)
  also have "\<dots> = 0" by simp
  finally show ?thesis by (simp add: eq_neg_iff_add_eq_0 [symmetric])
qed

lemma quotient_remainder_eq:
  fixes a b :: "'a::len word"
  shows "word_of_int (sint a sdiv sint b) * b + word_of_int (sint a smod sint b) = a"
proof -
  have "word_of_int (sint a sdiv sint b * sint b + sint a smod sint b) = a"
    by (simp only: sdiv_mult_smod_eq) simp
  then show ?thesis by simp
qed

lemma signed_take_bit_in_range:
  assumes "- (2 ^ (LENGTH('a::len) - 1)) \<le> k" "k < 2 ^ (LENGTH('a) - 1)"
  shows "sint (word_of_int k :: 'a word) = k"
  using assms by (simp add: sint_sbintrunc' signed_take_bit_int_eq_self)

lemma abs_div_le: "\<bar>\<bar>a\<bar> div \<bar>b\<bar>\<bar> \<le> \<bar>a::int\<bar>"
proof (cases "b = 0")
  case False
  then have "\<bar>a\<bar> div \<bar>b\<bar> \<le> \<bar>a\<bar>"
    using div_le_dividend[of "nat \<bar>a\<bar>" "nat \<bar>b\<bar>"] by (simp add: nat_div_distrib[symmetric] nat_le_eq_zle)
  then show ?thesis by (simp add: pos_imp_zdiv_nonneg_iff False)
qed simp

lemma abs_sdiv_le: "\<bar>a sdiv b\<bar> \<le> \<bar>a::int\<bar>"
  by (simp add: signed_divide_int_def abs_mult abs_sgn_eq abs_div_le)

lemma abs_sdiv_less: 
  assumes "\<bar>b\<bar> \<ge> 2" "a \<noteq> 0" shows "\<bar>a sdiv b\<bar> < \<bar>a::int\<bar>"
  using assms by (auto simp: signed_divide_int_def abs_mult abs_sgn_eq int_div_less_self pos_imp_zdiv_nonneg_iff)

lemma abs_smod_less: "b \<noteq> 0 \<Longrightarrow> \<bar>a smod b\<bar> < \<bar>b::int\<bar>"
  by (simp add: signed_modulo_int_def abs_mult abs_sgn_eq)

lemma sint_quotient:
  fixes a b :: "'a::len word"
  assumes "b \<noteq> 0" "\<not> (a = min_int \<and> b = - 1)"
  shows "sint (word_of_int (sint a sdiv sint b) :: 'a word) = sint a sdiv sint b"
proof -
  let ?h = "2 ^ (LENGTH('a) - 1) :: int"
  have a: "- ?h \<le> sint a" "sint a < ?h" by (rule sint_ge, rule sint_lt)
  have "sint a sdiv sint b < ?h"
  proof (cases "sint a = - ?h")
    case False
    then have "\<bar>sint a\<bar> < ?h" using a by arith
    then show ?thesis using abs_sdiv_le[of "sint a" "sint b"] by arith
  next
    case True
    then have "a = min_int" by (metis signed_word_eqI sint_min_int)
    then have "sint b \<noteq> - 1" using assms by (metis sint_n1 signed_word_eqI)
    moreover have "sint b \<noteq> 0" using assms by (metis sint_0 signed_word_eqI)
    ultimately consider "sint b = 1" | "\<bar>sint b\<bar> \<ge> 2" by arith
    then show ?thesis
    proof cases
      case 1 then show ?thesis using a by simp
    next
      case 2 
      have "\<bar>sint a sdiv sint b\<bar> < \<bar>sint a\<bar>" by (rule abs_sdiv_less[OF 2]) (simp add: True)
      then show ?thesis using True by simp
    qed
  qed
  moreover have "- ?h \<le> sint a sdiv sint b"
    using abs_sdiv_le[of "sint a" "sint b"] a by arith
  ultimately show ?thesis
    by (intro signed_take_bit_in_range)
qed

lemma sint_remainder:
  fixes a b :: "'a::len word"
  assumes "b \<noteq> 0"
  shows "sint (word_of_int (sint a smod sint b) :: 'a word) = sint a smod sint b"
proof -
  have "sint b \<noteq> 0" using assms by (metis sint_0 signed_word_eqI)
  then have "\<bar>sint a smod sint b\<bar> < \<bar>sint b\<bar>" by (rule abs_smod_less)
  then show ?thesis
    using sint_ge[of b] sint_lt[of b]
    by (intro signed_take_bit_in_range) arith+
qed

text \<open>Where C divides, quotient and remainder satisfy the division law and truncate towards zero.\<close>

lemma c_division [c_arith]:
  assumes "c_divides a b"
  shows "\<exists>q r. c_sdiv a b = Some q \<and> c_smod a b = Some r \<and> q * b + r = a \<and>
    sint q = sint a sdiv sint b \<and> sint r = sint a smod sint b"
  using assms sint_quotient[of b a] sint_remainder[of b a] quotient_remainder_eq[of a b]
  by (simp add: c_sdiv_def c_smod_def c_divides_def)

lemma unat_uminus: "(d :: 'a::len word) \<noteq> 0 \<Longrightarrow> unat (- d) = 2 ^ LENGTH('a) - unat d"
proof -
  assume d: "d \<noteq> 0"
  have "(unat (- d) + unat d) mod 2 ^ LENGTH('a) = 0"
    using unat_word_ariths(1)[of "- d" d] by simp
  then have "2 ^ LENGTH('a) dvd unat (- d) + unat d" by (simp add: dvd_eq_mod_eq_0)
  then obtain k where k: "unat (- d) + unat d = 2 ^ LENGTH('a) * k" by (rule dvdE)
  have "unat (- d) < 2 ^ LENGTH('a)" "unat d < 2 ^ LENGTH('a)" "unat d > 0"
    using d by (simp_all add: unat_gt_0 del: unat_minus_one)
  then have "unat (- d) + unat d < 2 ^ LENGTH('a) * 2" "unat d > 0" by linarith+
  then have "k = 1" using k by (cases k) (auto simp: algebra_simps)
  then show ?thesis using k by simp
qed

lemma unat_drop_bit_less: "n \<noteq> 0 \<Longrightarrow> 0 < k \<Longrightarrow> unat (drop_bit k (n :: 'a::len word)) < unat n"
proof -
  assume n: "n \<noteq> 0" and k: "0 < k"
  have "(1 :: nat) < 2 ^ k" using k by (intro one_less_power) auto
  then have "unat n div 2 ^ k < unat n"
    using n by (intro div_less_dividend) (auto simp: unat_gt_0)
  then show ?thesis by (simp only: unat_drop_bit_eq drop_bit_eq_div [where ?'a = nat])
qed

section \<open>Little-endian encoding\<close>

text \<open>A word read from consecutive bytes of memory, lowest address first, and the bytes of a word.\<close>

fun le_word :: "bytes \<Rightarrow> 'a::len word" where
  "le_word [] = 0"
| "le_word (b # bs) = ucast b OR push_bit 8 (le_word bs)"

fun le_bytes :: "nat \<Rightarrow> 'a::len word \<Rightarrow> bytes" where
  "le_bytes 0 w = []"
| "le_bytes (Suc n) w = ucast w # le_bytes n (drop_bit 8 w)"

lemma bit_le_word:
  "bit (le_word bs :: 'a::len word) i \<longleftrightarrow>
     i < LENGTH('a) \<and> i div 8 < length bs \<and> bit (bs ! (i div 8)) (i mod 8)"
proof (induction bs arbitrary: i)
  case (Cons b bs)
  show ?case
  proof (cases "i < 8")
    case False
    then obtain j where j: "i = j + 8" using le_Suc_ex[of 8 i] by (auto simp: add.commute)
    have "(j + 8) div 8 = Suc (j div 8)" by simp
    with j show ?thesis
      by (auto simp: bit_simps Cons.IH not_le simp del: div_add_self2 dest: bit_imp_le_length)
  qed (auto simp: bit_simps)
qed simp

lemma length_le_bytes [simp]: "length (le_bytes n w) = n"
  by (induction n arbitrary: w) auto

lemma nth_le_bytes: "i < n \<Longrightarrow> le_bytes n w ! i = ucast (drop_bit (8 * i) w)"
proof (induction n arbitrary: w i)
  case (Suc n)
  then show ?case by (cases i) (auto simp: drop_bit_drop_bit add.commute)
qed simp

lemma le_word_le_bytes:
  fixes w :: "'a::len word"
  assumes "LENGTH('a) \<le> 8 * n"
  shows "le_word (le_bytes n w) = w"
proof (rule bit_word_eqI)
  fix i assume i: "i < LENGTH('a)"
  then have "i div 8 < n" using assms by auto
  then show "bit (le_word (le_bytes n w) :: 'a word) i = bit w i"
    using i by (simp add: bit_le_word nth_le_bytes bit_simps)
qed

lemma le_bytes_le_word:
  assumes "length bs = n" "8 * n \<le> LENGTH('a::len)"
  shows "le_bytes n (le_word bs :: 'a word) = bs"
proof (rule nth_equalityI)
  fix i assume "i < length (le_bytes n (le_word bs :: 'a word))"
  then have i: "i < n" by simp
  show "le_bytes n (le_word bs :: 'a word) ! i = bs ! i"
  proof (rule bit_word_eqI)
    fix j :: nat assume j: "j < LENGTH(8)"
    then have "8 * i + j < LENGTH('a)" using i assms by simp
    then show "bit (le_bytes n (le_word bs :: 'a word) ! i) j = bit (bs ! i) j"
      using i j assms by (simp add: nth_le_bytes bit_simps bit_le_word add.commute)
  qed
qed (simp add: assms)

lemma ucast_of_nat_32: "ucast (of_nat n :: 64 word) = (of_nat n :: 32 word)"
  by (simp add: unsigned_of_nat word_of_nat_eq_iff)

lemma ucast_word_of_int_32: "ucast (word_of_int k :: 64 word) = (word_of_int k :: 32 word)"
  by (simp add: unsigned_of_int word_of_int_eq_iff)

end
