(* ===== verification/Mlvalues.thy ===== *)
theory Mlvalues
  imports Runtime_Prelude
begin

text \<open>
  The representation of OCaml values, from \<open>runtime/caml/mlvalues.h\<close> for a 64-bit
  little-endian target with 8 reserved header bits: tagged integers, block headers and
  the accessors of block contents.  Memory is a function from byte addresses to bytes,
  and a \<open>mlvalue\<close> is a 64-bit word that is either a tagged integer or the address of the
  first field of a block, whose header is the word just below it.
\<close>

section \<open>Tagged integers\<close>

type_synonym mlvalue = "64 word"
type_synonym header_t = "64 word"
type_synonym mem = "64 word \<Rightarrow> byte"

definition Is_long :: "mlvalue \<Rightarrow> bool" where
  "Is_long x = (x AND 1 \<noteq> 0)"

definition Is_block :: "mlvalue \<Rightarrow> bool" where
  "Is_block x = (x AND 1 = 0)"

definition Val_long :: "intnat \<Rightarrow> mlvalue" where
  "Val_long x = push_bit 1 x + 1"

definition Long_val :: "mlvalue \<Rightarrow> intnat" where
  "Long_val x = signed_drop_bit 1 x"

definition Max_long :: intnat where
  "Max_long = push_bit 62 1 - 1"

definition Min_long :: intnat where
  "Min_long = - push_bit 62 1"

definition Val_int :: "int32 \<Rightarrow> mlvalue" where
  "Val_int x = Val_long (scast x)"

definition Int_val :: "mlvalue \<Rightarrow> int32" where
  "Int_val x = ucast (Long_val x)"

definition Unsigned_long_val :: "mlvalue \<Rightarrow> uintnat" where
  "Unsigned_long_val x = drop_bit 1 x"

definition Val_bool :: "bool \<Rightarrow> mlvalue" where
  "Val_bool b = Val_int (of_bool b)"

abbreviation Val_false :: mlvalue where "Val_false \<equiv> Val_bool False"
abbreviation Val_true :: mlvalue where "Val_true \<equiv> Val_bool True"
abbreviation Val_unit :: mlvalue where "Val_unit \<equiv> Val_int 0"

definition Val_not :: "mlvalue \<Rightarrow> mlvalue" where
  "Val_not x = Val_false + Val_true - x"

text \<open>The integers a value can hold without loss.\<close>

definition fits_long :: "intnat \<Rightarrow> bool" where
  "fits_long x \<longleftrightarrow> sint Min_long \<le> sint x \<and> sint x \<le> sint Max_long"

subsection \<open>Encoded exceptional results\<close>

definition Make_exception_result :: "mlvalue \<Rightarrow> mlvalue" where
  "Make_exception_result v = v OR 2"

definition Is_exception_result :: "mlvalue \<Rightarrow> bool" where
  "Is_exception_result v = (v AND 3 = 2)"

definition Extract_exception :: "mlvalue \<Rightarrow> mlvalue" where
  "Extract_exception v = v AND NOT 3"

section \<open>Block headers\<close>

abbreviation HEADER_TAG_MASK :: header_t where "HEADER_TAG_MASK \<equiv> mask 8"
abbreviation HEADER_COLOR_MASK :: header_t where "HEADER_COLOR_MASK \<equiv> push_bit 8 (mask 2)"
abbreviation HEADER_WOSIZE_MASK :: header_t where "HEADER_WOSIZE_MASK \<equiv> push_bit 10 (mask 46)"

definition Tag_hd :: "header_t \<Rightarrow> byte" where
  "Tag_hd h = ucast (h AND HEADER_TAG_MASK)"

definition Hd_with_tag :: "header_t \<Rightarrow> byte \<Rightarrow> header_t" where
  "Hd_with_tag h tag = (h AND NOT HEADER_TAG_MASK) OR ucast tag"

definition Allocated_wosize_hd :: "header_t \<Rightarrow> uintnat" where
  "Allocated_wosize_hd h = drop_bit 10 (h AND HEADER_WOSIZE_MASK)"

definition Cleanhd_hd :: "header_t \<Rightarrow> header_t" where
  "Cleanhd_hd h = h AND (HEADER_TAG_MASK OR HEADER_WOSIZE_MASK)"

definition Reserved_hd :: "header_t \<Rightarrow> 64 word" where
  "Reserved_hd h = drop_bit 56 h"

definition Hd_reserved :: "64 word \<Rightarrow> header_t" where
  "Hd_reserved res = push_bit 56 res"

definition Color_hd :: "header_t \<Rightarrow> 64 word" where
  "Color_hd h = h AND HEADER_COLOR_MASK"

definition Hd_with_color :: "header_t \<Rightarrow> 64 word \<Rightarrow> header_t" where
  "Hd_with_color h color = (h AND NOT HEADER_COLOR_MASK) OR color"

definition Is_mixed_block_reserved :: "64 word \<Rightarrow> bool" where
  "Is_mixed_block_reserved res \<longleftrightarrow> res > 0"

text \<open>The native-code size of the part of a block that holds values.\<close>

definition Scannable_wosize_hd_native :: "header_t \<Rightarrow> uintnat" where
  "Scannable_wosize_hd_native h =
     (let res = Reserved_hd h
      in if Is_mixed_block_reserved res then res - 1 else Allocated_wosize_hd h)"

definition Max_wosize :: uintnat where
  "Max_wosize = mask 46"

definition Bsize_wsize :: "uintnat \<Rightarrow> uintnat" where
  "Bsize_wsize sz = sz * 8"

subsection \<open>Tags\<close>

abbreviation Forcing_tag :: byte where "Forcing_tag \<equiv> 244"
abbreviation Cont_tag :: byte where "Cont_tag \<equiv> 245"
abbreviation Lazy_tag :: byte where "Lazy_tag \<equiv> 246"
abbreviation Closure_tag :: byte where "Closure_tag \<equiv> 247"
abbreviation Object_tag :: byte where "Object_tag \<equiv> 248"
abbreviation Infix_tag :: byte where "Infix_tag \<equiv> 249"
abbreviation Forward_tag :: byte where "Forward_tag \<equiv> 250"
abbreviation No_scan_tag :: byte where "No_scan_tag \<equiv> 251"
abbreviation Abstract_tag :: byte where "Abstract_tag \<equiv> 251"
abbreviation String_tag :: byte where "String_tag \<equiv> 252"
abbreviation Double_tag :: byte where "Double_tag \<equiv> 253"
abbreviation Double_array_tag :: byte where "Double_array_tag \<equiv> 254"
abbreviation Custom_tag :: byte where "Custom_tag \<equiv> 255"

section \<open>Memory and block contents\<close>

definition load_bytes :: "mem \<Rightarrow> 64 word \<Rightarrow> nat \<Rightarrow> bytes" where
  "load_bytes m a n = map (\<lambda>i. m (a + of_nat i)) [0..<n]"

definition store_bytes :: "mem \<Rightarrow> 64 word \<Rightarrow> bytes \<Rightarrow> mem" where
  "store_bytes m a bs =
     (\<lambda>x. if unat (x - a) < length bs then bs ! unat (x - a) else m x)"

definition mem_load64 :: "mem \<Rightarrow> 64 word \<Rightarrow> 64 word" where
  "mem_load64 m a = le_word (load_bytes m a 8)"

definition mem_load32 :: "mem \<Rightarrow> 64 word \<Rightarrow> 32 word" where
  "mem_load32 m a = le_word (load_bytes m a 4)"

definition mem_store64 :: "mem \<Rightarrow> 64 word \<Rightarrow> 64 word \<Rightarrow> mem" where
  "mem_store64 m a w = store_bytes m a (le_bytes 8 w)"

definition mem_store32 :: "mem \<Rightarrow> 64 word \<Rightarrow> 32 word \<Rightarrow> mem" where
  "mem_store32 m a w = store_bytes m a (le_bytes 4 w)"

definition Field :: "mem \<Rightarrow> mlvalue \<Rightarrow> nat \<Rightarrow> mlvalue" where
  "Field m x i = mem_load64 m (x + 8 * of_nat i)"

definition Hd_val :: "mem \<Rightarrow> mlvalue \<Rightarrow> header_t" where
  "Hd_val m v = mem_load64 m (v - 8)"

definition Tag_val :: "mem \<Rightarrow> mlvalue \<Rightarrow> byte" where
  "Tag_val m v = m (v - 8)"

definition Allocated_wosize_val :: "mem \<Rightarrow> mlvalue \<Rightarrow> uintnat" where
  "Allocated_wosize_val m v = Allocated_wosize_hd (Hd_val m v)"

definition Allocated_bosize_val :: "mem \<Rightarrow> mlvalue \<Rightarrow> uintnat" where
  "Allocated_bosize_val m v = Bsize_wsize (Allocated_wosize_val m v)"

definition Reserved_val :: "mem \<Rightarrow> mlvalue \<Rightarrow> 64 word" where
  "Reserved_val m v = Reserved_hd (Hd_val m v)"

definition Byte_u :: "mem \<Rightarrow> mlvalue \<Rightarrow> 64 word \<Rightarrow> byte" where
  "Byte_u m x i = m (x + i)"

definition Infix_offset_hd :: "header_t \<Rightarrow> uintnat" where
  "Infix_offset_hd h = Bsize_wsize (Allocated_wosize_hd h)"

definition Infix_offset_val :: "mem \<Rightarrow> mlvalue \<Rightarrow> uintnat" where
  "Infix_offset_val m v = Infix_offset_hd (Hd_val m v)"

definition Forward_val :: "mem \<Rightarrow> mlvalue \<Rightarrow> mlvalue" where
  "Forward_val m v = Field m v 0"

definition Oid_val :: "mem \<Rightarrow> mlvalue \<Rightarrow> intnat" where
  "Oid_val m v = Long_val (Field m v 1)"

definition Int32_val :: "mem \<Rightarrow> mlvalue \<Rightarrow> int32" where
  "Int32_val m v = mem_load32 m (v + 8)"

definition Int64_val :: "mem \<Rightarrow> mlvalue \<Rightarrow> int64" where
  "Int64_val m v = mem_load64 m (v + 8)"

definition Nativeint_val :: "mem \<Rightarrow> mlvalue \<Rightarrow> intnat" where
  "Nativeint_val m v = mem_load64 m (v + 8)"

subsection \<open>Closure information\<close>

definition Closinfo_val :: "mem \<Rightarrow> mlvalue \<Rightarrow> mlvalue" where
  "Closinfo_val m v = Field m v 1"

definition Arity_closinfo :: "mlvalue \<Rightarrow> intnat" where
  "Arity_closinfo info = signed_drop_bit 56 info"

definition Start_env_closinfo :: "mlvalue \<Rightarrow> uintnat" where
  "Start_env_closinfo info = drop_bit 10 (push_bit 9 info)"

definition Is_last_closinfo :: "mlvalue \<Rightarrow> uintnat" where
  "Is_last_closinfo info = drop_bit 63 (push_bit 8 info)"

definition Make_closinfo :: "64 word \<Rightarrow> 64 word \<Rightarrow> 64 word \<Rightarrow> mlvalue" where
  "Make_closinfo arity delta is_last =
     push_bit 56 arity + push_bit 55 is_last + push_bit 1 delta + 1"

section \<open>Laws of the representation\<close>

lemma Is_long_iff_odd: "Is_long x \<longleftrightarrow> odd x"
  by (simp add: Is_long_def and_one_eq odd_iff_mod_2_eq_one)

lemma Is_block_iff [simp]: "Is_block x \<longleftrightarrow> \<not> Is_long x"
  by (simp add: Is_long_def Is_block_def)

lemma bit_Val_long: "bit (Val_long x) n \<longleftrightarrow> n = 0 \<or> (0 < n \<and> n < 64 \<and> bit x (n - 1))"
proof -
  have push: "bit (push_bit 1 x) n \<longleftrightarrow> 0 < n \<and> n < 64 \<and> bit x (n - 1)" for n
    unfolding bit_push_bit_iff by (auto dest: bit_imp_le_length)
  have "push_bit 1 x + 1 = push_bit 1 x OR 1"
    by (rule disjunctive_add) (metis push bit_1_iff less_irrefl)
  then show ?thesis
    unfolding Val_long_def by (metis push bit_or_iff bit_1_iff)
qed

lemma Is_long_Val_long [simp]: "Is_long (Val_long x)"
  by (simp add: bit_Val_long Is_long_iff_odd flip: bit_0)

lemma Val_long_Long_val: "Is_long v \<Longrightarrow> Val_long (Long_val v) = v"
  by (rule bit_word_eqI) (auto simp: bit_Val_long Long_val_def bit_simps bit_0 Is_long_iff_odd)

lemma sint_Long_val: "sint (Long_val v) = sint v div 2"
  by (simp add: Long_val_def sint_signed_drop_bit_eq drop_bit_eq_div)

lemma fits_long_iff: "fits_long x \<longleftrightarrow> - (2 ^ 62) \<le> sint x \<and> sint x < 2 ^ 62"
  by (auto simp add: fits_long_def Max_long_def Min_long_def)

lemma sint_Val_long: "fits_long x \<Longrightarrow> sint (Val_long x) = 2 * sint x + 1"
  unfolding fits_long_iff Val_long_def
  by (simp add: push_bit_eq_mult sint_word_ariths signed_take_bit_int_eq_self)

lemma Long_val_Val_long: "fits_long x \<Longrightarrow> Long_val (Val_long x) = x"
  using sint_Long_val[of "Val_long x"] by (simp add: sint_Val_long signed_word_eqI)

lemma fits_long_Long_val: "fits_long (Long_val v)"
  using sint_ge[of v] sint_lt[of v] unfolding fits_long_iff sint_Long_val
  by simp linarith

lemma fits_long_scast32: "fits_long (scast (x :: int32))"
  using sint_ge[of x] sint_lt[of x] by (simp add: fits_long_iff sint_up_scast is_up)

lemma Int_val_Val_int [simp]: "Int_val (Val_int x) = x"
proof -
  have "Long_val (Val_long (scast x)) = scast x" by (simp add: Long_val_Val_long fits_long_scast32)
  moreover have "ucast (scast x :: 64 word) = x"
    by (rule bit_word_eqI) (simp add: bit_simps)
  ultimately show ?thesis
    by (simp add: Int_val_def Val_int_def)
qed

lemma Val_long_eq_iff: "fits_long x \<Longrightarrow> fits_long y \<Longrightarrow> Val_long x = Val_long y \<longleftrightarrow> x = y"
  by (metis Long_val_Val_long)

lemma Val_int_eq_iff [simp]: "Val_int x = Val_int y \<longleftrightarrow> x = y"
  by (metis Int_val_Val_int)

lemma sint_Val_int: "sint (Val_int x) = 2 * sint x + 1"
  by (simp add: Val_int_def sint_Val_long fits_long_scast32 sint_up_scast is_up)

lemma Is_long_Val_int [simp]: "Is_long (Val_int x)"
  by (simp add: Val_int_def)

lemma Val_not_simps [simp]: "Val_not Val_true = Val_false" "Val_not Val_false = Val_true"
  by (simp_all add: Val_not_def)

lemma tagged_compare:
  assumes "Is_long v" "Is_long w"
  shows "cmp_int (sint v) (sint w) = cmp_int (sint (Long_val v)) (sint (Long_val w))"
proof -
  have "sint v = 2 * sint (Long_val v) + 1" "sint w = 2 * sint (Long_val w) + 1"
    using assms by (metis Val_long_Long_val fits_long_Long_val sint_Val_long)+
  then show ?thesis by (simp add: cmp_int_def)
qed

lemma load_bytes_length [simp]: "length (load_bytes m a n) = n"
  by (simp add: load_bytes_def)

lemma mem_load64_eq_iff: "mem_load64 m a = mem_load64 m' b \<longleftrightarrow> load_bytes m a 8 = load_bytes m' b 8"
proof
  assume "mem_load64 m a = mem_load64 m' b"
  then have "le_bytes 8 (mem_load64 m a) = le_bytes 8 (mem_load64 m' b)" by simp
  then show "load_bytes m a 8 = load_bytes m' b 8"
    by (simp add: mem_load64_def le_bytes_le_word)
qed (simp add: mem_load64_def)

lemma load_bytes_store_bytes_same:
  assumes "length bs \<le> 2 ^ 63"
  shows "load_bytes (store_bytes m a bs) a (length bs) = bs"
proof (rule nth_equalityI)
  fix i assume "i < length (load_bytes (store_bytes m a bs) a (length bs))"
  then have i: "i < length bs" by simp
  then have "unat (of_nat i :: 64 word) = i" using assms by (simp add: unat_of_nat)
  with i show "load_bytes (store_bytes m a bs) a (length bs) ! i = bs ! i"
    by (simp add: load_bytes_def store_bytes_def)
qed simp

lemma mem_load64_store64_same [simp]: "mem_load64 (mem_store64 m a w) a = w"
  using load_bytes_store_bytes_same[of "le_bytes 8 w" m a]
  by (simp add: mem_load64_def mem_store64_def le_word_le_bytes)

lemma mem_load32_store32_same [simp]: "mem_load32 (mem_store32 m a w) a = w"
  using load_bytes_store_bytes_same[of "le_bytes 4 w" m a]
  by (simp add: mem_load32_def mem_store32_def le_word_le_bytes)

text \<open>Reads outside a written range are not affected.\<close>

lemma load_bytes_store_bytes_other:
  assumes "\<And>i. i < n \<Longrightarrow> length bs \<le> unat (b + of_nat i - a)"
  shows "load_bytes (store_bytes m a bs) b n = load_bytes m b n"
proof -
  have "\<not> unat (b + of_nat i - a) < length bs" if "i < n" for i
    using assms[OF that] by simp
  then show ?thesis by (simp add: load_bytes_def store_bytes_def)
qed

lemma mem_load64_store64_other:
  assumes "unat (b - a) \<ge> 8" "unat (a - b) \<ge> 8"
  shows "mem_load64 (mem_store64 m a w) b = mem_load64 m b"
proof -
  have "8 \<le> unat (b + of_nat i - a)" if i: "i < 8" for i
  proof -
    define d where "d = b - a"
    have "d \<noteq> 0" using assms by (auto simp: d_def)
    then have neg: "unat (- d) = 2 ^ 64 - unat d" by (simp add: unat_uminus)
    have "unat (d + of_nat i) = unat d + i"
      using i assms neg by (simp add: unat_word_ariths unat_of_nat d_def split: if_splits)
    moreover have "b + of_nat i - a = d + of_nat i" by (simp add: d_def)
    ultimately show ?thesis using assms(1) unfolding d_def by (metis trans_le_add1)
  qed
  then show ?thesis
    unfolding mem_load64_def mem_store64_def by (subst load_bytes_store_bytes_other) auto
qed

end
