(* ===== verification/Marshal_Prims.thy ===== *)
theory Marshal_Prims
  imports Mlvalues
begin

text \<open>
  The byte-level primitives shared by marshalling (\<open>runtime/extern.c\<close>) and unmarshalling
  (\<open>runtime/intern.c\<close>): big-endian integers, variable-length quantities and the functions
  offered to custom serializers.  The output buffer is the list of bytes written so far;
  the input pointer is the list of bytes still to be read, and \<open>None\<close> is a read past its
  end, which the C code does not check.
\<close>

section \<open>Big-endian stores\<close>

definition store16 :: "32 word \<Rightarrow> bytes" where
  "store16 n = [ucast (signed_drop_bit 8 n), ucast n]"

definition store32 :: "intnat \<Rightarrow> bytes" where
  "store32 n = [ucast (signed_drop_bit 24 n), ucast (signed_drop_bit 16 n),
                ucast (signed_drop_bit 8 n), ucast n]"

definition store64 :: "int64 \<Rightarrow> bytes" where
  "store64 n =
     [ucast (signed_drop_bit 56 n), ucast (signed_drop_bit 48 n),
      ucast (signed_drop_bit 40 n), ucast (signed_drop_bit 32 n),
      ucast (signed_drop_bit 24 n), ucast (signed_drop_bit 16 n),
      ucast (signed_drop_bit 8 n), ucast n]"

text \<open>The digit count and the digits of a variable-length quantity: the C code walks the
  number twice, first to find where the last digit goes, then writing backwards from it.\<close>

function vlq_ndigits :: "uintnat \<Rightarrow> nat \<Rightarrow> nat" where
  "vlq_ndigits m ndigits = (if m \<noteq> 0 then vlq_ndigits (drop_bit 7 m) (ndigits + 1) else ndigits)"
  by pat_completeness auto
termination
  by (relation "measure (\<lambda>(m, nd). unat m)") (auto simp: unat_drop_bit_less)

function vlq_fill :: "uintnat \<Rightarrow> bytes \<Rightarrow> bytes" where
  "vlq_fill n dst =
     (if n \<noteq> 0 then vlq_fill (drop_bit 7 n) ((0x80 OR ucast (n AND 0x7F)) # dst) else dst)"
  by pat_completeness auto
termination
  by (relation "measure (\<lambda>(n, dst). unat n)") (auto simp: unat_drop_bit_less)

definition storevlq :: "uintnat \<Rightarrow> nat \<times> bytes" where
  "storevlq n = (vlq_ndigits (drop_bit 7 n) 1, vlq_fill (drop_bit 7 n) [ucast (n AND 0x7F)])"

section \<open>Writing to the output buffer\<close>

definition writebyte :: "bytes \<Rightarrow> byte \<Rightarrow> bytes" where
  "writebyte out c = out @ [c]"

definition writeblock :: "bytes \<Rightarrow> bytes \<Rightarrow> bytes" where
  "writeblock out data = out @ data"

definition writecode8 :: "bytes \<Rightarrow> byte \<Rightarrow> intnat \<Rightarrow> bytes" where
  "writecode8 out code v = out @ [code, ucast v]"

definition writecode16 :: "bytes \<Rightarrow> byte \<Rightarrow> intnat \<Rightarrow> bytes" where
  "writecode16 out code v = out @ [code] @ store16 (ucast v)"

definition writecode32 :: "bytes \<Rightarrow> byte \<Rightarrow> intnat \<Rightarrow> bytes" where
  "writecode32 out code v = out @ [code] @ store32 v"

definition writecode64 :: "bytes \<Rightarrow> byte \<Rightarrow> intnat \<Rightarrow> bytes" where
  "writecode64 out code v = out @ [code] @ store64 v"

definition caml_serialize_int_1 :: "bytes \<Rightarrow> int32 \<Rightarrow> bytes" where
  "caml_serialize_int_1 out i = out @ [ucast i]"

definition caml_serialize_int_2 :: "bytes \<Rightarrow> int32 \<Rightarrow> bytes" where
  "caml_serialize_int_2 out i = out @ store16 i"

definition caml_serialize_int_4 :: "bytes \<Rightarrow> int32 \<Rightarrow> bytes" where
  "caml_serialize_int_4 out i = out @ store32 (scast i)"

definition caml_serialize_int_8 :: "bytes \<Rightarrow> int64 \<Rightarrow> bytes" where
  "caml_serialize_int_8 out i = out @ store64 i"

text \<open>Arrays of 1, 2, 4 and 8-byte quantities; the data is the memory image, little-endian.\<close>

definition caml_serialize_block_1 :: "bytes \<Rightarrow> bytes \<Rightarrow> bytes" where
  "caml_serialize_block_1 out data = out @ data"

fun reverse_chunks :: "nat \<Rightarrow> nat \<Rightarrow> bytes \<Rightarrow> bytes" where
  "reverse_chunks w 0 data = []"
| "reverse_chunks w (Suc len) data = rev (take w data) @ reverse_chunks w len (drop w data)"

definition caml_serialize_block_2 :: "bytes \<Rightarrow> bytes \<Rightarrow> nat \<Rightarrow> bytes" where
  "caml_serialize_block_2 out data len = out @ reverse_chunks 2 len data"

definition caml_serialize_block_4 :: "bytes \<Rightarrow> bytes \<Rightarrow> nat \<Rightarrow> bytes" where
  "caml_serialize_block_4 out data len = out @ reverse_chunks 4 len data"

definition caml_serialize_block_8 :: "bytes \<Rightarrow> bytes \<Rightarrow> nat \<Rightarrow> bytes" where
  "caml_serialize_block_8 out data len = out @ reverse_chunks 8 len data"

section \<open>Reading from the input\<close>

type_synonym 'a reader = "bytes \<Rightarrow> ('a \<times> bytes) option"

fun read8u :: "byte reader" where
  "read8u (b0 # src) = Some (b0, src)"
| "read8u _ = None"

fun read16u :: "16 word reader" where
  "read16u (b0 # b1 # src) = Some (push_bit 8 (ucast b0) + ucast b1, src)"
| "read16u _ = None"

fun read32u :: "32 word reader" where
  "read32u (b0 # b1 # b2 # b3 # src) =
     Some (push_bit 24 (ucast b0) + push_bit 16 (ucast b1) + push_bit 8 (ucast b2) + ucast b3, src)"
| "read32u _ = None"

fun read64u :: "64 word reader" where
  "read64u (b0 # b1 # b2 # b3 # b4 # b5 # b6 # b7 # src) =
     Some (push_bit 56 (ucast b0) + push_bit 48 (ucast b1) + push_bit 40 (ucast b2)
           + push_bit 32 (ucast b3) + push_bit 24 (ucast b4) + push_bit 16 (ucast b5)
           + push_bit 8 (ucast b6) + ucast b7, src)"
| "read64u _ = None"

text \<open>The signed variants return the same bits at a signed type; \<open>int\<close> results are extended.\<close>

definition read8s :: "8 word reader" where "read8s src = read8u src"
definition read16s :: "16 word reader" where "read16s src = read16u src"
definition read32s :: "int32 reader" where "read32s src = read32u src"

fun readvlq_loop :: "byte \<Rightarrow> uintnat \<Rightarrow> int \<Rightarrow> (uintnat \<times> int) reader" where
  "readvlq_loop c n retcode src =
     (if c AND 0x80 \<noteq> 0 then
        (case src of
           [] \<Rightarrow> None
         | c' # src' \<Rightarrow>
             (let n7 = push_bit 7 n;
                  retcode' = (if n \<noteq> drop_bit 7 n7 then - 1 else retcode)
              in readvlq_loop c' (n7 OR ucast (c' AND 0x7F)) retcode' src'))
      else Some ((n, retcode), src))"

fun readvlq :: "(uintnat \<times> int) reader" where
  "readvlq [] = None"
| "readvlq (c # src) = readvlq_loop c (ucast (c AND 0x7F)) 0 src"

definition map_reader :: "('a \<Rightarrow> 'b) \<Rightarrow> 'a reader \<Rightarrow> 'b reader" where
  "map_reader f r src = map_option (\<lambda>(x, rest). (f x, rest)) (r src)"

definition caml_deserialize_uint_1 :: "int32 reader" where
  "caml_deserialize_uint_1 = map_reader ucast read8u"

definition caml_deserialize_sint_1 :: "int32 reader" where
  "caml_deserialize_sint_1 = map_reader scast read8s"

definition caml_deserialize_uint_2 :: "int32 reader" where
  "caml_deserialize_uint_2 = map_reader ucast read16u"

definition caml_deserialize_sint_2 :: "int32 reader" where
  "caml_deserialize_sint_2 = map_reader scast read16s"

definition caml_deserialize_uint_4 :: "int32 reader" where
  "caml_deserialize_uint_4 = read32u"

definition caml_deserialize_sint_4 :: "int32 reader" where
  "caml_deserialize_sint_4 = read32s"

definition caml_deserialize_block :: "nat \<Rightarrow> nat \<Rightarrow> bytes reader" where
  "caml_deserialize_block w len src =
     (if length src < w * len then None
      else Some (reverse_chunks w len (take (w * len) src), drop (w * len) src))"

definition caml_deserialize_block_2 :: "nat \<Rightarrow> bytes reader" where
  "caml_deserialize_block_2 = caml_deserialize_block 2"

definition caml_deserialize_block_4 :: "nat \<Rightarrow> bytes reader" where
  "caml_deserialize_block_4 = caml_deserialize_block 4"

definition caml_deserialize_block_8 :: "nat \<Rightarrow> bytes reader" where
  "caml_deserialize_block_8 = caml_deserialize_block 8"

text \<open>An 8-byte integer is read through the memory image of one reversed chunk.\<close>

definition caml_deserialize_uint_8 :: "64 word reader" where
  "caml_deserialize_uint_8 = map_reader le_word (caml_deserialize_block_8 1)"

definition caml_deserialize_sint_8 :: "64 word reader" where
  "caml_deserialize_sint_8 = map_reader le_word (caml_deserialize_block_8 1)"

declare vlq_ndigits.simps [simp del] vlq_fill.simps [simp del] readvlq_loop.simps [simp del]

section \<open>Round trips\<close>

lemma le_word_Cons_add:
  "8 \<le> LENGTH('a::len) \<Longrightarrow> (le_word (b # bs) :: 'a word) = ucast b + 256 * le_word bs"
proof -
  assume "8 \<le> LENGTH('a)"
  have "ucast b OR push_bit 8 (le_word bs :: 'a word) = ucast b + push_bit 8 (le_word bs)"
    by (rule disjunctive_add [symmetric]) (auto simp: bit_simps dest: bit_imp_le_length)
  then show ?thesis by (simp add: push_bit_eq_mult mult.commute)
qed

lemma ucast_signed_drop_bit:
  assumes "k + 8 \<le> LENGTH('a::len)"
  shows "(ucast (signed_drop_bit k (n :: 'a word)) :: byte) = ucast (drop_bit k n)"
  by (rule bit_word_eqI) (use assms in \<open>auto simp: bit_simps\<close>)

lemma store64_eq: "store64 n = rev (le_bytes 8 n)"
  by (simp add: store64_def numeral_eq_Suc ucast_signed_drop_bit drop_bit_drop_bit)

lemma store32_eq: "store32 n = rev (le_bytes 4 n)"
  by (simp add: store32_def numeral_eq_Suc ucast_signed_drop_bit drop_bit_drop_bit)

lemma store16_eq: "store16 n = rev (le_bytes 2 n)"
  by (simp add: store16_def numeral_eq_Suc ucast_signed_drop_bit drop_bit_drop_bit)

lemma read64u_eq: "read64u (b0 # b1 # b2 # b3 # b4 # b5 # b6 # b7 # src) =
    Some (le_word [b7, b6, b5, b4, b3, b2, b1, b0], src)"
  by (simp add: le_word_Cons_add push_bit_eq_mult del: le_word.simps(2))

lemma read32u_eq: "read32u (b0 # b1 # b2 # b3 # src) = Some (le_word [b3, b2, b1, b0], src)"
  by (simp add: le_word_Cons_add push_bit_eq_mult del: le_word.simps(2))

lemma read16u_eq: "read16u (b0 # b1 # src) = Some (le_word [b1, b0], src)"
  by (simp add: le_word_Cons_add push_bit_eq_mult del: le_word.simps(2))

lemma read64u_store64 [simp]: "read64u (store64 n @ rest) = Some (n, rest)"
proof -
  have "read64u (store64 n @ rest) = Some (le_word (le_bytes 8 n), rest)"
    by (simp add: store64_eq numeral_eq_Suc read64u_eq del: le_word.simps read64u.simps)
  then show ?thesis by (simp add: le_word_le_bytes)
qed

lemma read32u_store32 [simp]: "read32u (store32 n @ rest) = Some (ucast n, rest)"
proof -
  have "read32u (store32 n @ rest) = Some (le_word (le_bytes 4 n), rest)"
    by (simp add: store32_eq numeral_eq_Suc read32u_eq del: le_word.simps read32u.simps)
  moreover have "(le_word (le_bytes 4 n) :: 32 word) = ucast n"
    by (rule bit_word_eqI) (auto simp: bit_le_word nth_le_bytes bit_simps)
  ultimately show ?thesis by simp
qed

lemma read16u_store16 [simp]: "read16u (store16 n @ rest) = Some (ucast n, rest)"
proof -
  have "read16u (store16 n @ rest) = Some (le_word (le_bytes 2 n), rest)"
    by (simp add: store16_eq numeral_eq_Suc read16u_eq del: le_word.simps read16u.simps)
  moreover have "(le_word (le_bytes 2 n) :: 16 word) = ucast n"
    by (rule bit_word_eqI) (auto simp: bit_le_word nth_le_bytes bit_simps)
  ultimately show ?thesis by simp
qed

lemma caml_deserialize_sint_8_store64 [simp]:
  "caml_deserialize_sint_8 (store64 n @ rest) = Some (n, rest)"
proof -
  have "caml_deserialize_block_8 1 (store64 n @ rest) = Some (le_bytes 8 n, rest)"
    by (simp add: caml_deserialize_block_8_def caml_deserialize_block_def store64_eq)
  then show ?thesis
    by (simp add: caml_deserialize_sint_8_def map_reader_def le_word_le_bytes)
qed

lemma caml_deserialize_sint_4_store32 [simp]:
  "caml_deserialize_sint_4 (store32 n @ rest) = Some (ucast n, rest)"
  by (simp add: caml_deserialize_sint_4_def read32s_def)

subsection \<open>Variable-length quantities\<close>

text \<open>The reference decoder works on unbounded naturals.\<close>

fun vlq_value :: "nat \<Rightarrow> bytes \<Rightarrow> (nat \<times> bytes) option" where
  "vlq_value n [] = None"
| "vlq_value n (c # src) =
     (let n' = 128 * n + unat (c AND 0x7F)
      in if c AND 0x80 \<noteq> 0 then vlq_value n' src else Some (n', src))"

definition vlq_result :: "nat \<Rightarrow> uintnat \<times> int" where
  "vlq_result v = (of_nat v, if v < 2 ^ 64 then 0 else - 1)"

lemma and_7F: "c AND 0x7F = take_bit 7 (c :: 'a::len word)"
  by (simp add: take_bit_eq_mask mask_eq_exp_minus_1)

lemma unat_and_7F: "unat (c AND 0x7F :: 'a::len word) = unat c mod 128"
  unfolding and_7F unsigned_take_bit_eq by (simp add: take_bit_eq_mod)

lemma shift7_lossless: "n = drop_bit 7 (push_bit 7 n) \<longleftrightarrow> unat (n :: uintnat) < 2 ^ 57"
proof -
  have eq: "drop_bit 7 (push_bit 7 n) = take_bit 57 n"
    by (rule bit_word_eqI) (auto simp: bit_simps)
  have "unat (take_bit 57 n) = take_bit 57 (unat n)" by (rule unsigned_take_bit_eq)
  then show ?thesis
    unfolding eq by (metis take_bit_nat_eq_self_iff unsigned_word_eqI)
qed

lemma push7_or:
  "push_bit 7 (of_nat v) OR ucast (c AND 0x7F) =
     (of_nat (128 * v + unat (c AND 0x7F :: byte)) :: uintnat)"
proof -
  have "push_bit 7 w OR ucast (take_bit 7 c) = (push_bit 7 w + ucast (take_bit 7 c))" for w :: uintnat
  proof (rule disjunctive_add [symmetric])
    show "\<not> bit (push_bit 7 w) i \<or> \<not> bit (ucast (take_bit 7 c) :: uintnat) i" for i
      unfolding bit_push_bit_iff bit_ucast_iff bit_take_bit_iff by auto
  qed
  then show ?thesis by (simp add: and_7F push_bit_eq_mult mult.commute)
qed

lemma readvlq_loop_spec:
  "readvlq_loop c (of_nat v) (snd (vlq_result v)) src =
     (if c AND 0x80 \<noteq> 0
      then map_option (\<lambda>(v, rest). (vlq_result v, rest)) (vlq_value v src)
      else Some (vlq_result v, src))"
proof (induction src arbitrary: c v)
  case (Cons c' src)
  let ?v = "128 * v + unat (c' AND 0x7F)"
  have rc: "(if of_nat v \<noteq> drop_bit 7 (push_bit 7 (of_nat v :: uintnat)) then - 1
             else snd (vlq_result v)) = snd (vlq_result ?v)"
    unfolding shift7_lossless vlq_result_def
    by (auto simp: unat_of_nat unat_and_7F)
  show ?case
    unfolding readvlq_loop.simps[of c "of_nat v"] Let_def list.case push7_or rc Cons.IH
    by (auto simp: vlq_result_def Let_def)
qed (simp add: readvlq_loop.simps vlq_result_def)

lemma readvlq_eq:
  "readvlq src = map_option (\<lambda>(v, rest). (vlq_result v, rest)) (vlq_value 0 src)"
proof (cases src)
  case (Cons c cs)
  have "readvlq (c # cs) = readvlq_loop c (of_nat (unat (c AND 0x7F)))
          (snd (vlq_result (unat (c AND 0x7F)))) cs"
  proof -
    have "unat (c AND 0x7F) < 2 ^ 64" by (simp add: unat_and_7F)
    then show ?thesis by (simp add: vlq_result_def)
  qed
  then show ?thesis unfolding Cons readvlq_loop_spec by (simp add: Let_def)
qed simp

text \<open>C0: on every input the reader computes the value of the digits reduced modulo
  \<open>2 ^ 64\<close>, and reports overflow exactly when that value does not fit in a word.\<close>

theorem readvlq_overflow_exact:
  "readvlq src =
     (case vlq_value 0 src of
        None \<Rightarrow> None
      | Some (v, rest) \<Rightarrow> Some ((of_nat v, if v < 2 ^ 64 then 0 else - 1), rest))"
  by (auto simp: readvlq_eq vlq_result_def split: option.split)


lemma vlq_value_fill:
  "vlq_value 0 (vlq_fill n dst @ rest) = vlq_value (unat n) (dst @ rest)"
proof (induction n dst rule: vlq_fill.induct)
  case (1 n dst)
  show ?case
  proof (cases "n = 0")
    case False
    let ?c = "0x80 OR ucast (n AND 0x7F) :: byte"
    have c: "?c AND 0x80 \<noteq> 0" "unat (?c AND 0x7F) = unat n mod 128"
    proof -
      show "unat (?c AND 0x7F) = unat n mod 128" 
      proof -
        have "take_bit 7 ?c = ucast (take_bit 7 n)"
          unfolding and_7F by (rule bit_word_eqI) (auto simp: bit_simps bit_numeral_word_iff)
        moreover have "unat (ucast (take_bit 7 n) :: byte) = unat n mod 128"
          unfolding unsigned_ucast_eq unsigned_take_bit_eq
          by (simp add: take_bit_eq_mod mod_mod_cancel)
        ultimately show ?thesis by (simp only: and_7F)
      qed
      have "?c AND 0x80 = 0x80" by (simp add: word_ao_absorbs)
      then show "?c AND 0x80 \<noteq> 0" by simp
    qed
    have "128 * unat (drop_bit 7 n) + unat n mod 128 = unat n"
      unfolding unat_drop_bit_eq by (simp add: drop_bit_eq_div)
    with 1 False c show ?thesis
      by (subst vlq_fill.simps) (simp add: Let_def)
  qed (simp add: vlq_fill.simps)
qed

lemma vlq_ndigits_fill: "vlq_ndigits n k + length dst = k + length (vlq_fill n dst)"
proof (induction n k arbitrary: dst rule: vlq_ndigits.induct)
  case (1 m k)
  show ?case
  proof (cases "m = 0")
    case False
    then have "vlq_ndigits m k = vlq_ndigits (drop_bit 7 m) (k + 1)"
      by (subst vlq_ndigits.simps) simp
    moreover have "vlq_fill m dst = vlq_fill (drop_bit 7 m) ((0x80 OR ucast (m AND 0x7F)) # dst)"
      using False by (subst vlq_fill.simps) simp
    ultimately show ?thesis
      using 1 [OF False, of "(0x80 OR ucast (m AND 0x7F)) # dst"] by simp
  qed (simp add: vlq_fill.simps vlq_ndigits.simps)
qed

text \<open>C0: a word written as a variable-length quantity is read back unchanged, without an
  overflow report, leaving the input just after it; and the digit count computed before
  writing is exactly the number of bytes written, so nothing is stored outside the
  \<open>ndigits\<close> bytes reserved.\<close>

theorem storevlq_readvlq:
  "case storevlq n of (ndigits, out) \<Rightarrow>
     readvlq (out @ rest) = Some ((n, 0), rest) \<and> length out = ndigits"
proof -
  obtain nd out where st: "storevlq n = (nd, out)" by (rule prod.exhaust)
  have out: "out = vlq_fill (drop_bit 7 n) [ucast (n AND 0x7F)]"
    and nd: "nd = vlq_ndigits (drop_bit 7 n) 1"
    using st by (simp_all add: storevlq_def)
  have "vlq_value 0 (out @ rest) = vlq_value (unat (drop_bit 7 n)) (ucast (n AND 0x7F) # rest)"
    unfolding out vlq_value_fill by (simp only: append.simps)
  also have "\<dots> = Some (unat n, rest)"
  proof -
    have "ucast (n AND 0x7F) AND (0x80 :: byte) = 0"
    proof -
      have "(0x80 :: byte) = push_bit 7 1" by simp
      then have "\<not> bit (0x80 :: byte) i" if "i < 7" for i
        using that by (simp only: bit_push_bit_iff) simp
      then show ?thesis
        by (intro bit_word_eqI) (unfold and_7F bit_and_iff bit_ucast_iff bit_take_bit_iff, auto)
    qed
    moreover have "unat (ucast (n AND 0x7F) AND 0x7F :: byte) = unat n mod 128"
      unfolding unat_and_7F by (simp add: unsigned_ucast_eq unat_and_7F take_bit_eq_mod)
    moreover have "128 * unat (drop_bit 7 n) + unat n mod 128 = unat n"
      unfolding unat_drop_bit_eq by (simp add: drop_bit_eq_div)
    ultimately show ?thesis by (simp add: Let_def)
  qed
  finally have "readvlq (out @ rest) = Some (vlq_result (unat n), rest)"
    by (simp add: readvlq_eq)
  moreover have "vlq_result (unat n) = (n, 0)"
    using unsigned_less[of n, where ?'a = nat] by (simp add: vlq_result_def)
  moreover have "length out = nd"
    using vlq_ndigits_fill[of "drop_bit 7 n" 1 "[ucast (n AND 0x7F)]"]
    unfolding out nd by simp
  ultimately show ?thesis using st by simp
qed

end
