(* ===== verification/Ints.thy ===== *)
theory Ints
  imports Marshal_Prims
begin

text \<open>
  Integer primitives, \<open>runtime/ints.c\<close>: parsing of literals, the arithmetic of the boxed
  types \<open>int32\<close>, \<open>int64\<close> and \<open>nativeint\<close>, byte swapping, and the operations these types
  offer as custom blocks.  A boxed integer is modelled by its payload, so
  \<open>caml_copy_int32\<close> and its siblings are the identity; an OCaml string is the list of its
  bytes, followed by the NUL byte that terminates it.  Arithmetic wraps, as the runtime is
  compiled with wrapping signed overflow.
\<close>

section \<open>Parsing integer literals\<close>

text \<open>A \<open>char *\<close> into an OCaml string is the rest of the string; dereferencing it at the end
  reads the terminating NUL.\<close>

definition c_deref :: "bytes \<Rightarrow> byte" where
  "c_deref p = (case p of [] \<Rightarrow> 0 | c # _ \<Rightarrow> c)"

definition parse_sign_and_base :: "bytes \<Rightarrow> bytes \<times> int \<times> bool \<times> int" where
  "parse_sign_and_base p0 =
     (let (sign, p) = (if c_deref p0 = chr CHR ''-'' then (- 1, tl p0)
                       else if c_deref p0 = chr CHR ''+'' then (1, tl p0)
                       else (1, p0))
      in if c_deref p = chr CHR ''0'' then
           (let c = c_deref (tl p)
            in if c = chr CHR ''x'' \<or> c = chr CHR ''X'' then (drop 2 p, 16, False, sign)
               else if c = chr CHR ''o'' \<or> c = chr CHR ''O'' then (drop 2 p, 8, False, sign)
               else if c = chr CHR ''b'' \<or> c = chr CHR ''B'' then (drop 2 p, 2, False, sign)
               else if c = chr CHR ''u'' \<or> c = chr CHR ''U'' then (drop 2 p, 10, False, sign)
               else (p, 10, True, sign))
         else (p, 10, True, sign))"

definition parse_digit :: "byte \<Rightarrow> int" where
  "parse_digit c =
     (if chr CHR ''0'' \<le> c \<and> c \<le> chr CHR ''9'' then uint c - uint (chr CHR ''0'')
      else if chr CHR ''A'' \<le> c \<and> c \<le> chr CHR ''F'' then uint c - uint (chr CHR ''A'') + 10
      else if chr CHR ''a'' \<le> c \<and> c \<le> chr CHR ''f'' then uint c - uint (chr CHR ''a'') + 10
      else - 1)"

text \<open>The digit loop; it stops at the first byte that is neither a digit nor an underscore.\<close>

fun parse_digits :: "string \<Rightarrow> int \<Rightarrow> uintnat \<Rightarrow> bytes \<Rightarrow> uintnat \<Rightarrow> (bytes \<times> uintnat) result" where
  "parse_digits errmsg base threshold [] res = Inr ([], res)"
| "parse_digits errmsg base threshold (c # p) res =
     (if c = chr CHR ''_'' then parse_digits errmsg base threshold p res
      else
        (let d = parse_digit c
         in if d < 0 \<or> d \<ge> base then Inr (c # p, res)
            else if res > threshold then Inl (Failure errmsg)
            else
              (let res' = of_int base * res + of_int d
               in if res' < of_int d then Inl (Failure errmsg)
                  else parse_digits errmsg base threshold p res')))"

definition parse_intnat :: "bytes \<Rightarrow> nat \<Rightarrow> string \<Rightarrow> intnat result" where
  "parse_intnat s nbits errmsg =
     (let (p, base, signedness, sign) = parse_sign_and_base s;
          threshold = (- 1) div of_int base;
          d = parse_digit (c_deref p)
      in if d < 0 \<or> d \<ge> base then Inl (Failure errmsg)
         else
           bind_result (parse_digits errmsg base threshold (tl p) (of_int d)) (\<lambda>(p, res).
             if p \<noteq> [] then Inl (Failure errmsg)
             else if signedness \<and> sign \<ge> 0 \<and> res \<ge> push_bit (nbits - 1) 1 then Inl (Failure errmsg)
             else if signedness \<and> \<not> sign \<ge> 0 \<and> res > push_bit (nbits - 1) 1 then Inl (Failure errmsg)
             else if \<not> signedness \<and> nbits < 64 \<and> res \<ge> push_bit nbits 1 then Inl (Failure errmsg)
             else Inr (if sign < 0 then - res else res)))"

definition caml_int_of_string :: "bytes \<Rightarrow> mlvalue result" where
  "caml_int_of_string s = map_result Val_long (parse_intnat s 63 ''int_of_string'')"

definition caml_int32_of_string_unboxed :: "bytes \<Rightarrow> int32 result" where
  "caml_int32_of_string_unboxed s = map_result ucast (parse_intnat s 32 ''Int32.of_string'')"

definition caml_int32_of_string :: "bytes \<Rightarrow> int32 result" where
  "caml_int32_of_string s = caml_int32_of_string_unboxed s"

definition caml_nativeint_of_string_unboxed :: "bytes \<Rightarrow> intnat result" where
  "caml_nativeint_of_string_unboxed s = parse_intnat s 64 ''Nativeint.of_string''"

definition caml_nativeint_of_string :: "bytes \<Rightarrow> intnat result" where
  "caml_nativeint_of_string s = caml_nativeint_of_string_unboxed s"

text \<open>The 64-bit parser is a separate copy of the same loop.\<close>

fun int64_parse_digits :: "int \<Rightarrow> 64 word \<Rightarrow> bytes \<Rightarrow> 64 word \<Rightarrow> (bytes \<times> 64 word) result" where
  "int64_parse_digits base threshold [] res = Inr ([], res)"
| "int64_parse_digits base threshold (c # p) res =
     (if c = chr CHR ''_'' then int64_parse_digits base threshold p res
      else
        (let d = parse_digit c
         in if d < 0 \<or> d \<ge> base then Inr (c # p, res)
            else if res > threshold then Inl (Failure ''Int64.of_string'')
            else
              (let res' = of_int base * res + of_int d
               in if res' < of_int d then Inl (Failure ''Int64.of_string'')
                  else int64_parse_digits base threshold p res')))"

definition caml_int64_of_string_unboxed :: "bytes \<Rightarrow> int64 result" where
  "caml_int64_of_string_unboxed s =
     (let (p, base, signedness, sign) = parse_sign_and_base s;
          threshold = (- 1) div of_int base;
          d = parse_digit (c_deref p)
      in if d < 0 \<or> d \<ge> base then Inl (Failure ''Int64.of_string'')
         else
           bind_result (int64_parse_digits base threshold (tl p) (of_int d)) (\<lambda>(p, res).
             if p \<noteq> [] then Inl (Failure ''Int64.of_string'')
             else if signedness \<and> sign \<ge> 0 \<and> res \<ge> push_bit 63 1 then Inl (Failure ''Int64.of_string'')
             else if signedness \<and> \<not> sign \<ge> 0 \<and> res > push_bit 63 1 then Inl (Failure ''Int64.of_string'')
             else Inr (if sign < 0 then - res else res)))"

definition caml_int64_of_string :: "bytes \<Rightarrow> int64 result" where
  "caml_int64_of_string s = caml_int64_of_string_unboxed s"

section \<open>Formats\<close>

text \<open>\<open>parse_format\<close> copies an OCaml format to a C format, with the length suffix placed before
  the conversion letter.  Formats of fewer than two bytes make the C code read before its
  buffer; \<open>None\<close> stands for that.  The result is the conversion letter and the C format.\<close>

definition parse_format :: "bytes \<Rightarrow> bytes \<Rightarrow> (byte \<times> bytes) result option" where
  "parse_format fmt suffix =
     (if length fmt + length suffix + 1 \<ge> 32
      then Some (Inl (Invalid_argument ''format_int: format too long''))
      else if length fmt < 2 then None
      else
        (let lastletter = last fmt;
             body = butlast fmt;
             body' = (if last body \<in> {chr CHR ''l'', chr CHR ''n'', chr CHR ''L''}
                      then butlast body else body)
         in Some (Inr (lastletter, body' @ suffix @ [lastletter]))))"

text \<open>\<open>sprintf\<close> stands for the C library's formatting of one integer argument.\<close>

definition caml_format_int ::
  "(bytes \<Rightarrow> 64 word \<Rightarrow> bytes) \<Rightarrow> bytes \<Rightarrow> mlvalue \<Rightarrow> bytes result option" where
  "caml_format_int sprintf fmt arg =
     map_option (\<lambda>r. map_result (\<lambda>(conv, format_string).
         if conv \<in> {chr CHR ''u'', chr CHR ''x'', chr CHR ''X'', chr CHR ''o''}
         then sprintf format_string (Unsigned_long_val arg)
         else sprintf format_string (Long_val arg)) r)
       (parse_format fmt [chr CHR ''l''])"

definition caml_int32_format ::
  "(bytes \<Rightarrow> int32 \<Rightarrow> bytes) \<Rightarrow> bytes \<Rightarrow> int32 \<Rightarrow> bytes result option" where
  "caml_int32_format sprintf fmt arg =
     map_option (map_result (\<lambda>(conv, format_string). sprintf format_string arg)) (parse_format fmt [])"

definition caml_int64_format ::
  "(bytes \<Rightarrow> int64 \<Rightarrow> bytes) \<Rightarrow> bytes \<Rightarrow> int64 \<Rightarrow> bytes result option" where
  "caml_int64_format sprintf fmt arg =
     map_option (map_result (\<lambda>(conv, format_string). sprintf format_string arg))
       (parse_format fmt [chr CHR ''l''])"

definition caml_nativeint_format ::
  "(bytes \<Rightarrow> intnat \<Rightarrow> bytes) \<Rightarrow> bytes \<Rightarrow> intnat \<Rightarrow> bytes result option" where
  "caml_nativeint_format sprintf fmt arg =
     map_option (map_result (\<lambda>(conv, format_string). sprintf format_string arg))
       (parse_format fmt [chr CHR ''l''])"

section \<open>Byte swapping\<close>

definition caml_bswap16_direct :: "64 word \<Rightarrow> 64 word" where
  "caml_bswap16_direct x = (push_bit 8 (x AND 0x00FF)) OR (signed_drop_bit 8 (x AND 0xFF00))"

definition caml_bswap16 :: "mlvalue \<Rightarrow> mlvalue" where
  "caml_bswap16 v =
     (let x = scast (Int_val v)
      in Val_long ((push_bit 8 (x AND 0x00FF)) OR (signed_drop_bit 8 (x AND 0xFF00))))"

text \<open>The mask \<open>0xFF000000\<close> is an unsigned constant, so the last shift is logical.\<close>

definition caml_swap32 :: "int32 \<Rightarrow> int32" where
  "caml_swap32 x =
     push_bit 24 (x AND 0x000000FF) OR push_bit 8 (x AND 0x0000FF00) OR
     signed_drop_bit 8 (x AND 0x00FF0000) OR drop_bit 24 (x AND 0xFF000000)"

definition caml_swap64 :: "64 word \<Rightarrow> 64 word" where
  "caml_swap64 x =
     push_bit 56 (x AND 0x00000000000000FF) OR push_bit 40 (x AND 0x000000000000FF00) OR
     push_bit 24 (x AND 0x0000000000FF0000) OR push_bit 8 (x AND 0x00000000FF000000) OR
     signed_drop_bit 8 (x AND 0x000000FF00000000) OR signed_drop_bit 24 (x AND 0x0000FF0000000000) OR
     signed_drop_bit 40 (x AND 0x00FF000000000000) OR drop_bit 56 (x AND 0xFF00000000000000)"

definition caml_int32_direct_bswap :: "64 word \<Rightarrow> 64 word" where
  "caml_int32_direct_bswap v = scast (caml_swap32 (ucast v))"

definition caml_int32_bswap :: "int32 \<Rightarrow> int32" where
  "caml_int32_bswap v = caml_swap32 v"

definition caml_int64_direct_bswap :: "64 word \<Rightarrow> 64 word" where
  "caml_int64_direct_bswap v = caml_swap64 v"

text \<open>Here all masks are unsigned, so all shifts are logical.\<close>

definition caml_int64_bswap :: "int64 \<Rightarrow> int64" where
  "caml_int64_bswap x =
     push_bit 56 (x AND 0x00000000000000FF) OR push_bit 40 (x AND 0x000000000000FF00) OR
     push_bit 24 (x AND 0x0000000000FF0000) OR push_bit 8 (x AND 0x00000000FF000000) OR
     drop_bit 8 (x AND 0x000000FF00000000) OR drop_bit 24 (x AND 0x0000FF0000000000) OR
     drop_bit 40 (x AND 0x00FF000000000000) OR drop_bit 56 (x AND 0xFF00000000000000)"

definition caml_nativeint_direct_bswap :: "64 word \<Rightarrow> 64 word" where
  "caml_nativeint_direct_bswap v = caml_swap64 v"

definition caml_nativeint_bswap :: "intnat \<Rightarrow> intnat" where
  "caml_nativeint_bswap v = caml_swap64 v"

section \<open>Arithmetic of boxed integers\<close>

text \<open>Shift amounts are an \<open>int\<close>; outside \<open>0 .. width - 1\<close> (read unsigned) the C shift is not
  defined, which is \<open>None\<close> here.\<close>

subsection \<open>Type \<open>int32\<close>\<close>

definition caml_int32_neg :: "int32 \<Rightarrow> int32" where
  "caml_int32_neg v = - v"

definition caml_int32_add :: "int32 \<Rightarrow> int32 \<Rightarrow> int32" where
  "caml_int32_add v1 v2 = v1 + v2"

definition caml_int32_sub :: "int32 \<Rightarrow> int32 \<Rightarrow> int32" where
  "caml_int32_sub v1 v2 = v1 - v2"

definition caml_int32_mul :: "int32 \<Rightarrow> int32 \<Rightarrow> int32" where
  "caml_int32_mul v1 v2 = v1 * v2"

definition caml_int32_div :: "int32 \<Rightarrow> int32 \<Rightarrow> int32 result option" where
  "caml_int32_div dividend divisor =
     (if divisor = 0 then Some (Inl Division_by_zero)
      else if dividend = push_bit 31 1 \<and> divisor = - 1 then Some (Inr dividend)
      else map_option Inr (c_sdiv dividend divisor))"

definition caml_int32_mod :: "int32 \<Rightarrow> int32 \<Rightarrow> int32 result option" where
  "caml_int32_mod dividend divisor =
     (if divisor = 0 then Some (Inl Division_by_zero)
      else if dividend = push_bit 31 1 \<and> divisor = - 1 then Some (Inr 0)
      else map_option Inr (c_smod dividend divisor))"

definition caml_int32_and :: "int32 \<Rightarrow> int32 \<Rightarrow> int32" where
  "caml_int32_and v1 v2 = v1 AND v2"

definition caml_int32_or :: "int32 \<Rightarrow> int32 \<Rightarrow> int32" where
  "caml_int32_or v1 v2 = v1 OR v2"

definition caml_int32_xor :: "int32 \<Rightarrow> int32 \<Rightarrow> int32" where
  "caml_int32_xor v1 v2 = v1 XOR v2"

definition caml_int32_shift_left :: "int32 \<Rightarrow> int32 \<Rightarrow> int32 option" where
  "caml_int32_shift_left v n = (if n < 32 then Some (push_bit (unat n) v) else None)"

definition caml_int32_shift_right :: "int32 \<Rightarrow> int32 \<Rightarrow> int32 option" where
  "caml_int32_shift_right v n = (if n < 32 then Some (signed_drop_bit (unat n) v) else None)"

definition caml_int32_shift_right_unsigned :: "int32 \<Rightarrow> int32 \<Rightarrow> int32 option" where
  "caml_int32_shift_right_unsigned v n = (if n < 32 then Some (drop_bit (unat n) v) else None)"

definition caml_int32_compare_unboxed :: "int32 \<Rightarrow> int32 \<Rightarrow> int" where
  "caml_int32_compare_unboxed i1 i2 = cmp_int (sint i1) (sint i2)"

definition caml_int32_compare :: "int32 \<Rightarrow> int32 \<Rightarrow> mlvalue" where
  "caml_int32_compare v1 v2 = Val_long (of_int (caml_int32_compare_unboxed v1 v2))"

subsection \<open>Type \<open>int64\<close>\<close>

definition caml_int64_neg :: "int64 \<Rightarrow> int64" where
  "caml_int64_neg v = - v"

definition caml_int64_add :: "int64 \<Rightarrow> int64 \<Rightarrow> int64" where
  "caml_int64_add v1 v2 = v1 + v2"

definition caml_int64_sub :: "int64 \<Rightarrow> int64 \<Rightarrow> int64" where
  "caml_int64_sub v1 v2 = v1 - v2"

definition caml_int64_mul :: "int64 \<Rightarrow> int64 \<Rightarrow> int64" where
  "caml_int64_mul v1 v2 = v1 * v2"

definition caml_int64_div :: "int64 \<Rightarrow> int64 \<Rightarrow> int64 result option" where
  "caml_int64_div dividend divisor =
     (if divisor = 0 then Some (Inl Division_by_zero)
      else if dividend = push_bit 63 1 \<and> divisor = - 1 then Some (Inr dividend)
      else map_option Inr (c_sdiv dividend divisor))"

definition caml_int64_mod :: "int64 \<Rightarrow> int64 \<Rightarrow> int64 result option" where
  "caml_int64_mod dividend divisor =
     (if divisor = 0 then Some (Inl Division_by_zero)
      else if dividend = push_bit 63 1 \<and> divisor = - 1 then Some (Inr 0)
      else map_option Inr (c_smod dividend divisor))"

definition caml_int64_and :: "int64 \<Rightarrow> int64 \<Rightarrow> int64" where
  "caml_int64_and v1 v2 = v1 AND v2"

definition caml_int64_or :: "int64 \<Rightarrow> int64 \<Rightarrow> int64" where
  "caml_int64_or v1 v2 = v1 OR v2"

definition caml_int64_xor :: "int64 \<Rightarrow> int64 \<Rightarrow> int64" where
  "caml_int64_xor v1 v2 = v1 XOR v2"

definition caml_int64_shift_left :: "int64 \<Rightarrow> int32 \<Rightarrow> int64 option" where
  "caml_int64_shift_left v n = (if n < 64 then Some (push_bit (unat n) v) else None)"

definition caml_int64_shift_right :: "int64 \<Rightarrow> int32 \<Rightarrow> int64 option" where
  "caml_int64_shift_right v n = (if n < 64 then Some (signed_drop_bit (unat n) v) else None)"

definition caml_int64_shift_right_unsigned :: "int64 \<Rightarrow> int32 \<Rightarrow> int64 option" where
  "caml_int64_shift_right_unsigned v n = (if n < 64 then Some (drop_bit (unat n) v) else None)"

definition caml_int64_compare_unboxed :: "int64 \<Rightarrow> int64 \<Rightarrow> int" where
  "caml_int64_compare_unboxed i1 i2 = cmp_int (sint i1) (sint i2)"

definition caml_int64_compare :: "int64 \<Rightarrow> int64 \<Rightarrow> mlvalue" where
  "caml_int64_compare v1 v2 = Val_long (of_int (caml_int64_compare_unboxed v1 v2))"

subsection \<open>Type \<open>nativeint\<close>\<close>

definition caml_nativeint_neg :: "intnat \<Rightarrow> intnat" where
  "caml_nativeint_neg v = - v"

definition caml_nativeint_add :: "intnat \<Rightarrow> intnat \<Rightarrow> intnat" where
  "caml_nativeint_add v1 v2 = v1 + v2"

definition caml_nativeint_sub :: "intnat \<Rightarrow> intnat \<Rightarrow> intnat" where
  "caml_nativeint_sub v1 v2 = v1 - v2"

definition caml_nativeint_mul :: "intnat \<Rightarrow> intnat \<Rightarrow> intnat" where
  "caml_nativeint_mul v1 v2 = v1 * v2"

definition caml_nativeint_div :: "intnat \<Rightarrow> intnat \<Rightarrow> intnat result option" where
  "caml_nativeint_div dividend divisor =
     (if divisor = 0 then Some (Inl Division_by_zero)
      else if dividend = push_bit 63 1 \<and> divisor = - 1 then Some (Inr dividend)
      else map_option Inr (c_sdiv dividend divisor))"

definition caml_nativeint_mod :: "intnat \<Rightarrow> intnat \<Rightarrow> intnat result option" where
  "caml_nativeint_mod dividend divisor =
     (if divisor = 0 then Some (Inl Division_by_zero)
      else if dividend = push_bit 63 1 \<and> divisor = - 1 then Some (Inr 0)
      else map_option Inr (c_smod dividend divisor))"

definition caml_nativeint_and :: "intnat \<Rightarrow> intnat \<Rightarrow> intnat" where
  "caml_nativeint_and v1 v2 = v1 AND v2"

definition caml_nativeint_or :: "intnat \<Rightarrow> intnat \<Rightarrow> intnat" where
  "caml_nativeint_or v1 v2 = v1 OR v2"

definition caml_nativeint_xor :: "intnat \<Rightarrow> intnat \<Rightarrow> intnat" where
  "caml_nativeint_xor v1 v2 = v1 XOR v2"

definition caml_nativeint_shift_left :: "intnat \<Rightarrow> int32 \<Rightarrow> intnat option" where
  "caml_nativeint_shift_left v n = (if n < 64 then Some (push_bit (unat n) v) else None)"

definition caml_nativeint_shift_right :: "intnat \<Rightarrow> int32 \<Rightarrow> intnat option" where
  "caml_nativeint_shift_right v n = (if n < 64 then Some (signed_drop_bit (unat n) v) else None)"

definition caml_nativeint_shift_right_unsigned :: "intnat \<Rightarrow> int32 \<Rightarrow> intnat option" where
  "caml_nativeint_shift_right_unsigned v n = (if n < 64 then Some (drop_bit (unat n) v) else None)"

definition caml_nativeint_compare_unboxed :: "intnat \<Rightarrow> intnat \<Rightarrow> int" where
  "caml_nativeint_compare_unboxed i1 i2 = cmp_int (sint i1) (sint i2)"

definition caml_nativeint_compare :: "intnat \<Rightarrow> intnat \<Rightarrow> mlvalue" where
  "caml_nativeint_compare v1 v2 = Val_long (of_int (caml_nativeint_compare_unboxed v1 v2))"

subsection \<open>Tagged integers and conversions\<close>

text \<open>Tagged integers are compared without removing the tag.\<close>

definition caml_int_compare :: "mlvalue \<Rightarrow> mlvalue \<Rightarrow> mlvalue" where
  "caml_int_compare v1 v2 = Val_long (of_int (cmp_int (sint v1) (sint v2)))"

definition caml_int32_of_int :: "mlvalue \<Rightarrow> int32" where
  "caml_int32_of_int v = ucast (Long_val v)"

definition caml_int32_to_int :: "int32 \<Rightarrow> mlvalue" where
  "caml_int32_to_int v = Val_long (scast v)"

definition caml_int64_of_int :: "mlvalue \<Rightarrow> int64" where
  "caml_int64_of_int v = Long_val v"

definition caml_int64_to_int :: "int64 \<Rightarrow> mlvalue" where
  "caml_int64_to_int v = Val_long v"

definition caml_int64_of_int32 :: "int32 \<Rightarrow> int64" where
  "caml_int64_of_int32 v = scast v"

definition caml_int64_to_int32 :: "int64 \<Rightarrow> int32" where
  "caml_int64_to_int32 v = ucast v"

definition caml_int64_of_nativeint :: "intnat \<Rightarrow> int64" where
  "caml_int64_of_nativeint v = v"

definition caml_int64_to_nativeint :: "int64 \<Rightarrow> intnat" where
  "caml_int64_to_nativeint v = v"

definition caml_nativeint_of_int :: "mlvalue \<Rightarrow> intnat" where
  "caml_nativeint_of_int v = Long_val v"

definition caml_nativeint_to_int :: "intnat \<Rightarrow> mlvalue" where
  "caml_nativeint_to_int v = Val_long v"

definition caml_nativeint_of_int32 :: "int32 \<Rightarrow> intnat" where
  "caml_nativeint_of_int32 v = scast v"

definition caml_nativeint_to_int32 :: "intnat \<Rightarrow> int32" where
  "caml_nativeint_to_int32 v = ucast v"

section \<open>Custom operations of the boxed types\<close>

text \<open>Serializers return the bytes appended to the output and the two block sizes;
  deserializers return the payload and the size, or report an ill-formed input.\<close>

definition int32_cmp :: "int32 \<Rightarrow> int32 \<Rightarrow> int" where
  "int32_cmp i1 i2 = cmp_int (sint i1) (sint i2)"

definition int32_hash :: "int32 \<Rightarrow> intnat" where
  "int32_hash v = scast v"

definition int32_serialize :: "bytes \<Rightarrow> int32 \<Rightarrow> bytes \<times> nat \<times> nat" where
  "int32_serialize out v = (caml_serialize_int_4 out v, 4, 4)"

definition int32_deserialize :: "bytes \<Rightarrow> (int32 \<times> bytes \<times> nat) result option" where
  "int32_deserialize src = map_option (\<lambda>(v, rest). Inr (v, rest, 4)) (caml_deserialize_sint_4 src)"

definition int64_cmp :: "int64 \<Rightarrow> int64 \<Rightarrow> int" where
  "int64_cmp i1 i2 = cmp_int (sint i1) (sint i2)"

definition int64_hash :: "int64 \<Rightarrow> intnat" where
  "int64_hash x =
     (let lo = ucast x :: 32 word; hi = ucast (signed_drop_bit 32 x) :: 32 word
      in ucast (hi XOR lo))"

definition int64_serialize :: "bytes \<Rightarrow> int64 \<Rightarrow> bytes \<times> nat \<times> nat" where
  "int64_serialize out v = (caml_serialize_int_8 out v, 8, 8)"

definition int64_deserialize :: "bytes \<Rightarrow> (int64 \<times> bytes \<times> nat) result option" where
  "int64_deserialize src = map_option (\<lambda>(v, rest). Inr (v, rest, 8)) (caml_deserialize_sint_8 src)"

definition nativeint_cmp :: "intnat \<Rightarrow> intnat \<Rightarrow> int" where
  "nativeint_cmp i1 i2 = cmp_int (sint i1) (sint i2)"

definition nativeint_hash :: "intnat \<Rightarrow> intnat" where
  "nativeint_hash n = signed_drop_bit 32 n XOR signed_drop_bit 63 n XOR n"

definition nativeint_serialize :: "bytes \<Rightarrow> intnat \<Rightarrow> bytes \<times> nat \<times> nat" where
  "nativeint_serialize out l =
     ((if sint l \<ge> - (2 ^ 31) \<and> sint l < 2 ^ 31
       then caml_serialize_int_4 (caml_serialize_int_1 out 1) (ucast l)
       else caml_serialize_int_8 (caml_serialize_int_1 out 2) l), 4, 8)"

definition nativeint_deserialize :: "bytes \<Rightarrow> (intnat \<times> bytes \<times> nat) result option" where
  "nativeint_deserialize src =
     (case caml_deserialize_uint_1 src of
        None \<Rightarrow> None
      | Some (code, src1) \<Rightarrow>
          (if code = 1 then
             map_option (\<lambda>(v, rest). Inr (scast v, rest, 8)) (caml_deserialize_sint_4 src1)
           else if code = 2 then
             map_option (\<lambda>(v, rest). Inr (v, rest, 8)) (caml_deserialize_sint_8 src1)
           else Some (Inl (Failure ''input_value: ill-formed native integer''))))"

section \<open>The grammar of integer literals\<close>

text \<open>The specification of the parser: an optional sign, an optional base marker, then a digit
  of that base followed by digits and underscores.  Decimal literals without the \<open>0u\<close> marker
  are signed, all others unsigned.\<close>

definition sign_prefixes :: "(bytes \<times> int) set" where
  "sign_prefixes = {([], 1), ([chr CHR ''-''], - 1), ([chr CHR ''+''], 1)}"

definition base_prefixes :: "(bytes \<times> int \<times> bool) set" where
  "base_prefixes =
     {([], 10, True),
      (map chr ''0x'', 16, False), (map chr ''0X'', 16, False),
      (map chr ''0o'', 8, False), (map chr ''0O'', 8, False),
      (map chr ''0b'', 2, False), (map chr ''0B'', 2, False),
      (map chr ''0u'', 10, False), (map chr ''0U'', 10, False)}"

definition is_digit :: "int \<Rightarrow> byte \<Rightarrow> bool" where
  "is_digit base c \<longleftrightarrow> 0 \<le> parse_digit c \<and> parse_digit c < base"

definition is_literal_char :: "int \<Rightarrow> byte \<Rightarrow> bool" where
  "is_literal_char base c \<longleftrightarrow> c = chr CHR ''_'' \<or> is_digit base c"

definition int_literal :: "bytes \<Rightarrow> int \<Rightarrow> int \<Rightarrow> bool \<Rightarrow> bytes \<Rightarrow> bool" where
  "int_literal s sign base signedness body \<longleftrightarrow>
     (\<exists>sg pre. (sg, sign) \<in> sign_prefixes \<and> (pre, base, signedness) \<in> base_prefixes \<and>
        s = sg @ pre @ body \<and> body \<noteq> [] \<and> is_digit base (hd body) \<and>
        (\<forall>c\<in>set body. is_literal_char base c))"

fun literal_value :: "int \<Rightarrow> int \<Rightarrow> bytes \<Rightarrow> int" where
  "literal_value base acc [] = acc"
| "literal_value base acc (c # cs) =
     literal_value base (if c = chr CHR ''_'' then acc else base * acc + parse_digit c) cs"

definition literal_in_range :: "nat \<Rightarrow> bool \<Rightarrow> int \<Rightarrow> int \<Rightarrow> bool" where
  "literal_in_range nbits signedness sign v \<longleftrightarrow>
     (if signedness then (if sign \<ge> 0 then v < 2 ^ (nbits - 1) else v \<le> 2 ^ (nbits - 1))
      else v < 2 ^ nbits)"

lemma literal_value_ge:
  assumes "1 \<le> base" "0 \<le> acc" "\<forall>c\<in>set cs. is_literal_char base c"
  shows "acc \<le> literal_value base acc cs"
  using assms(2,3)
proof (induction cs arbitrary: acc)
  case (Cons c cs)
  let ?a = "if c = chr CHR ''_'' then acc else base * acc + parse_digit c"
  have "acc \<le> base * acc" using assms(1) Cons.prems(1) by (simp add: mult_le_cancel_right1)
  then have "acc \<le> ?a" using Cons.prems(2) by (auto simp: is_literal_char_def is_digit_def)
  also have "\<dots> \<le> literal_value base ?a cs"
    using Cons.prems \<open>acc \<le> ?a\<close> by (intro Cons.IH) auto
  finally show ?case by simp
qed simp

lemma add_wraps_iff:
  assumes "0 \<le> x" "x < 2 ^ 64" "0 \<le> d" "d < 2 ^ 63"
  shows "(of_int (x + d) :: uintnat) < of_int d \<longleftrightarrow> x + d \<ge> 2 ^ 64"
proof -
  have "uint (of_int (x + d) :: uintnat) = (if x + d < 2 ^ 64 then x + d else x + d - 2 ^ 64)"
  proof (cases "x + d < 2 ^ 64")
    case False
    then have "(x + d) mod 2 ^ 64 = (x + d - 2 ^ 64) mod 2 ^ 64" by simp
    also have "\<dots> = x + d - 2 ^ 64" using assms False by (intro mod_pos_pos_trivial) auto
    finally show ?thesis using False by (simp add: uint_word_of_int del: of_int_add)
  qed (use assms in \<open>simp add: uint_word_of_int del: of_int_add\<close>)
  moreover have "uint (of_int d :: uintnat) = d" using assms by (simp add: uint_word_of_int)
  ultimately show ?thesis using assms by (auto simp: word_less_def simp del: of_int_add)
qed

text \<open>The two overflow tests of the digit loop detect exactly the values that do not fit.\<close>

lemma digit_overflow:
  assumes base: "1 < base" "base \<le> 36" and R: "0 \<le> R" "R < 2 ^ 64" and d: "0 \<le> d" "d < base"
  shows "of_int R > ((- 1) div of_int base :: uintnat) \<or>
         (of_int base * of_int R + of_int d :: uintnat) < of_int d \<longleftrightarrow> base * R + d \<ge> 2 ^ 64"
proof -
  have "uint (of_int base :: uintnat) = base" "uint (of_int R :: uintnat) = R"
    using base R by (simp_all add: uint_word_of_int)
  then have thr: "of_int R > ((- 1) div of_int base :: uintnat) \<longleftrightarrow> R > (2 ^ 64 - 1) div base"
    by (simp add: word_less_def uint_div unsigned_minus_1_eq_mask mask_eq_exp_minus_1)
  show ?thesis
  proof (cases "R > (2 ^ 64 - 1) div base")
    case True
    have "(2 ^ 64 - 1) < base * ((2 ^ 64 - 1) div base + 1)"
      using pos_mod_bound[of base "2 ^ 64 - 1"] mult_div_mod_eq[of base "2 ^ 64 - 1"] base
      unfolding distrib_left by linarith
    also have "\<dots> \<le> base * R" using True base by (intro mult_left_mono) auto
    finally show ?thesis using d thr True by simp
  next
    case False
    have "base * R \<le> base * ((2 ^ 64 - 1) div base)" using False base by (intro mult_left_mono) auto
    also have "\<dots> \<le> 2 ^ 64 - 1"
      using pos_mod_sign[of base "2 ^ 64 - 1"] mult_div_mod_eq[of base "2 ^ 64 - 1"] base by linarith
    finally have "base * R < 2 ^ 64" by simp
    then show ?thesis using add_wraps_iff[of "base * R" d] base R d thr False by simp
  qed
qed

lemma parse_digits_spec:
  assumes base: "1 < base" "base \<le> 36" and R: "0 \<le> R" "R < 2 ^ 64"
  shows "parse_digits errmsg base ((- 1) div of_int base) p (of_int R) =
    (let V = literal_value base R (takeWhile (is_literal_char base) p)
     in if V < 2 ^ 64 then Inr (dropWhile (is_literal_char base) p, of_int V)
        else Inl (Failure errmsg))"
  using R
proof (induction p arbitrary: R)
  case (Cons c p)
  show ?case
  proof (cases "c = chr CHR ''_'' \<or> \<not> is_digit base c")
    case True
    then show ?thesis using Cons by (auto simp: is_literal_char_def is_digit_def not_le Let_def)
  next
    case False
    define d where "d = parse_digit c"
    define V where "V = base * R + d"
    from False have d: "0 \<le> d" "d < base" "c \<noteq> chr CHR ''_''" "is_literal_char base c"
      by (auto simp: is_digit_def d_def is_literal_char_def)
    have V: "0 \<le> V" using d base Cons.prems by (simp add: V_def)
    have final: "V \<le> literal_value base V (takeWhile (is_literal_char base) p)"
      using base V by (intro literal_value_ge) (auto dest: set_takeWhileD)
    have step: "parse_digits errmsg base ((- 1) div of_int base) (c # p) (of_int R) =
      (if V < 2 ^ 64 then parse_digits errmsg base ((- 1) div of_int base) p (of_int V)
       else Inl (Failure errmsg))"
      using d digit_overflow[OF base Cons.prems d(1,2)] by (auto simp: Let_def d_def V_def)
    have "literal_value base R (takeWhile (is_literal_char base) (c # p)) =
        literal_value base V (takeWhile (is_literal_char base) p)"
      "dropWhile (is_literal_char base) (c # p) = dropWhile (is_literal_char base) p"
      using d(3,4) by (simp_all add: V_def d_def)
    then show ?thesis
      unfolding step using final V by (auto simp: Cons.IH Let_def)
  qed
qed simp

lemma is_digit_not_sign: "is_digit base c \<Longrightarrow> c \<noteq> chr CHR ''-'' \<and> c \<noteq> chr CHR ''+''"
  by (auto simp: is_digit_def parse_digit_def)

lemma decimal_not_marker:
  "is_literal_char 10 c \<Longrightarrow>
     c \<notin> chr ` {CHR ''x'', CHR ''X'', CHR ''o'', CHR ''O'', CHR ''b'', CHR ''B'', CHR ''u'', CHR ''U''}"
  by (auto simp: is_literal_char_def is_digit_def parse_digit_def)

lemma parse_sign_and_base_sign:
  assumes "(sg, sign) \<in> sign_prefixes" "c_deref q \<noteq> 43" "c_deref q \<noteq> 45"
  shows "parse_sign_and_base (sg @ q) =
    (case parse_sign_and_base q of (p, base, signedness, _) \<Rightarrow> (p, base, signedness, sign))"
proof -
  have [simp]: "c_deref (x # xs) = x" for x xs by (simp add: c_deref_def)
  show ?thesis
    using assms unfolding sign_prefixes_def
    by (elim insertE emptyE) (simp_all add: parse_sign_and_base_def Let_def)
qed

lemma parse_sign_and_base_base:
  assumes "(pre, base, signedness) \<in> base_prefixes" "c \<noteq> 43" "c \<noteq> 45"
    and "base = 10 \<Longrightarrow> c_deref cs \<notin> {120, 88, 111, 79, 98, 66, 117, 85}"
  shows "parse_sign_and_base (pre @ c # cs) = (c # cs, base, signedness, 1)"
proof -
  have [simp]: "c_deref (x # xs) = x" for x xs by (simp add: c_deref_def)
  show ?thesis
    using assms unfolding base_prefixes_def
    by (elim insertE emptyE) (simp_all add: parse_sign_and_base_def)
qed

lemma base_prefix_no_sign:
  "(pre, base, signedness) \<in> base_prefixes \<Longrightarrow> c \<noteq> 43 \<Longrightarrow> c \<noteq> 45 \<Longrightarrow>
     c_deref (pre @ c # cs) \<noteq> 43 \<and> c_deref (pre @ c # cs) \<noteq> 45"
  unfolding base_prefixes_def by (elim insertE emptyE) (simp_all add: c_deref_def)

lemma parse_sign_and_base_complete:
  assumes "(sg, sign) \<in> sign_prefixes" "(pre, base, signedness) \<in> base_prefixes"
    and "body \<noteq> []" "is_digit base (hd body)" "\<forall>c\<in>set body. is_literal_char base c"
  shows "parse_sign_and_base (sg @ pre @ body) = (body, base, signedness, sign)"
proof -
  obtain c cs where body: "body = c # cs" using assms(3) by (cases body) auto
  have c: "c \<noteq> 43" "c \<noteq> 45" using is_digit_not_sign[of base c] assms(4) body by auto
  have "c_deref cs \<notin> {120, 88, 111, 79, 98, 66, 117, 85}" if "base = 10"
    using assms(5) body that decimal_not_marker[of "c_deref cs"]
    by (cases cs) (auto simp: c_deref_def)
  then show ?thesis
    using parse_sign_and_base_sign[OF assms(1)] base_prefix_no_sign[OF assms(2) c]
      parse_sign_and_base_base[OF assms(2) c] by (simp add: body)
qed

lemma c_deref_cases: "c_deref p \<noteq> 0 \<Longrightarrow> p = c_deref p # tl p"
  by (cases p) (auto simp: c_deref_def)

lemma two_deref: "c_deref q = a \<Longrightarrow> c_deref (tl q) = b \<Longrightarrow> a \<noteq> 0 \<Longrightarrow> b \<noteq> 0 \<Longrightarrow> q = a # b # drop 2 q"
  by (cases q; cases "tl q") (auto simp: c_deref_def)

lemma parse_sign_and_base_sound:
  assumes "parse_sign_and_base s = (p, base, signedness, sign)"
  shows "\<exists>sg pre. (sg, sign) \<in> sign_prefixes \<and> (pre, base, signedness) \<in> base_prefixes \<and>
           s = sg @ pre @ p"
proof -
  obtain sg sign' q where s: "s = sg @ q" and sg: "(sg, sign') \<in> sign_prefixes"
    and eq: "(if c_deref s = chr CHR ''-'' then (- 1 :: int, tl s)
              else if c_deref s = chr CHR ''+'' then (1, tl s) else (1, s)) = (sign', q)"
  proof (cases "c_deref s = chr CHR ''-'' \<or> c_deref s = chr CHR ''+''")
    case True
    then have "s = [c_deref s] @ tl s" using c_deref_cases[of s] by auto
    then show ?thesis
      using that[of "[c_deref s]" "tl s" "if c_deref s = chr CHR ''-'' then - 1 else 1"] True
      by (auto simp: sign_prefixes_def)
  next
    case False
    then show ?thesis using that[of "[]" s 1] by (simp add: sign_prefixes_def)
  qed
  have "sign = sign' \<and> (\<exists>pre. (pre, base, signedness) \<in> base_prefixes \<and> q = pre @ p)"
  proof (cases "c_deref q = chr CHR ''0''")
    case True
    then have q: "c_deref (tl q) \<noteq> 0 \<Longrightarrow> q = chr CHR ''0'' # c_deref (tl q) # drop 2 q"
      using two_deref[of q] by (simp add:)
    have "sign = sign' \<and>
        (p = q \<and> base = 10 \<and> signedness \<or>
         p = drop 2 q \<and> c_deref (tl q) \<noteq> 0 \<and>
         ([chr CHR ''0'', c_deref (tl q)], base, signedness) \<in> base_prefixes)"
      using assms True unfolding parse_sign_and_base_def eq
      by (auto simp: base_prefixes_def Let_def split: if_splits)
    then show ?thesis
    proof (elim conjE disjE)
      assume "p = q" "base = 10" "signedness" "sign = sign'"
      then show ?thesis by (auto simp: base_prefixes_def)
    next
      assume "p = drop 2 q" "c_deref (tl q) \<noteq> 0" "sign = sign'"
        and mem: "([chr CHR ''0'', c_deref (tl q)], base, signedness) \<in> base_prefixes"
      then have "q = [chr CHR ''0'', c_deref (tl q)] @ p" using q by simp
      then show ?thesis using mem \<open>sign = sign'\<close> by blast
    qed
  next
    case False
    then show ?thesis
      using assms unfolding parse_sign_and_base_def eq by (auto simp: base_prefixes_def)
  qed
  with s sg show ?thesis by blast
qed

lemma base_prefixes_range: "(pre, base, signedness) \<in> base_prefixes \<Longrightarrow> 1 < base \<and> base \<le> 36"
  by (auto simp: base_prefixes_def)

lemma literal_value_hd:
  "is_digit base c \<Longrightarrow> literal_value base 0 (c # cs) = literal_value base (parse_digit c) cs"
  by (auto simp: is_digit_def parse_digit_def)

lemma range_test:
  assumes n: "1 \<le> nbits" "nbits \<le> 64" and V: "0 \<le> V" "V < 2 ^ 64"
  shows "(of_int V :: uintnat) \<ge> push_bit (nbits - 1) 1 \<longleftrightarrow> V \<ge> 2 ^ (nbits - 1)"
    and "(of_int V :: uintnat) > push_bit (nbits - 1) 1 \<longleftrightarrow> V > 2 ^ (nbits - 1)"
    and "nbits < 64 \<Longrightarrow> (of_int V :: uintnat) \<ge> push_bit nbits 1 \<longleftrightarrow> V \<ge> 2 ^ nbits"
proof -
  have "uint (push_bit k 1 :: uintnat) = 2 ^ k" if "k < 64" for k
    using that by (simp add: uint_2p word_gt_0)
  moreover have "uint (of_int V :: uintnat) = V" using V by (simp add: uint_word_of_int)
  ultimately show "(of_int V :: uintnat) \<ge> push_bit (nbits - 1) 1 \<longleftrightarrow> V \<ge> 2 ^ (nbits - 1)"
    and "(of_int V :: uintnat) > push_bit (nbits - 1) 1 \<longleftrightarrow> V > 2 ^ (nbits - 1)"
    and "nbits < 64 \<Longrightarrow> (of_int V :: uintnat) \<ge> push_bit nbits 1 \<longleftrightarrow> V \<ge> 2 ^ nbits"
    using n by (simp_all add: word_le_def word_less_def)
qed

text \<open>The last part of the parser: the range tests, on the value as an integer.\<close>

definition finish_literal :: "string \<Rightarrow> nat \<Rightarrow> bool \<Rightarrow> int \<Rightarrow> int \<Rightarrow> intnat result" where
  "finish_literal errmsg nbits signedness sign v =
     (if literal_in_range nbits signedness sign v then Inr (of_int (sign * v))
      else Inl (Failure errmsg))"

lemma finish_tests:
  assumes n: "1 \<le> nbits" "nbits \<le> 64" and V: "0 \<le> V" "V < 2 ^ 64" and sign: "sign = 1 \<or> sign = - 1"
  shows "(let res = of_int V :: uintnat in
          if signedness \<and> sign \<ge> 0 \<and> res \<ge> push_bit (nbits - 1) 1 then Inl (Failure errmsg)
          else if signedness \<and> \<not> sign \<ge> 0 \<and> res > push_bit (nbits - 1) 1 then Inl (Failure errmsg)
          else if \<not> signedness \<and> nbits < 64 \<and> res \<ge> push_bit nbits 1 then Inl (Failure errmsg)
          else Inr (if sign < 0 then - res else res)) =
         finish_literal errmsg nbits signedness sign V"
proof (cases signedness)
  case True
  then show ?thesis
    using sign unfolding Let_def range_test(1,2)[OF n V] finish_literal_def literal_in_range_def
    by (auto simp: not_le)
next
  case False
  show ?thesis
  proof (cases "nbits < 64")
    case True
    then show ?thesis
      using sign False unfolding Let_def range_test(3)[OF n V True] finish_literal_def literal_in_range_def
      by (auto simp: not_le)
  next
    case nb: False
    then have "nbits = 64" using n by simp
    then show ?thesis using sign False V by (auto simp: Let_def finish_literal_def literal_in_range_def)
  qed
qed

lemma in_range_64:
  assumes n: "1 \<le> nbits" "nbits \<le> 64" and r: "literal_in_range nbits signedness sign V"
  shows "V < 2 ^ 64"
proof -
  have "(2 :: int) ^ nbits \<le> 2 ^ 64" "(2 :: int) ^ (nbits - 1) < 2 ^ 64"
    using n power_increasing[of nbits 64 "2 :: int"] power_strict_increasing[of "nbits - 1" 64 "2 :: int"]
    by auto
  then show ?thesis using r unfolding literal_in_range_def by (auto split: if_splits)
qed

lemma parse_intnat_literal:
  assumes n: "1 \<le> nbits" "nbits \<le> 64" and lit: "int_literal s sign base signedness body"
  shows "parse_intnat s nbits errmsg =
    finish_literal errmsg nbits signedness sign (literal_value base 0 body)"
proof -
  obtain sg pre where sg: "(sg, sign) \<in> sign_prefixes" and pre: "(pre, base, signedness) \<in> base_prefixes"
    and s: "s = sg @ pre @ body" and body: "body \<noteq> []" "is_digit base (hd body)"
      "\<forall>c\<in>set body. is_literal_char base c"
    using lit by (auto simp: int_literal_def)
  obtain c cs where cs: "body = c # cs" using body by (cases body) auto
  define d V where "d = parse_digit c" and "V = literal_value base 0 body"
  have V: "V = literal_value base d cs" 
    unfolding V_def cs d_def by (rule literal_value_hd) (use body cs in simp)
  have base: "1 < base" "base \<le> 36" using base_prefixes_range[OF pre] by auto
  have d: "0 \<le> d" "d < base" "d < 2 ^ 64" using body base by (auto simp: cs is_digit_def d_def)
  have "0 \<le> V" using literal_value_ge[of base d cs] body base d by (simp add: V cs)
  have all: "takeWhile (is_literal_char base) cs = cs" "dropWhile (is_literal_char base) cs = []"
    using body by (auto simp: cs takeWhile_eq_all_conv dropWhile_eq_Nil_conv)
  have "parse_intnat s nbits errmsg =
      (if V < 2 ^ 64 then
         (let res = of_int V :: uintnat in
          if signedness \<and> sign \<ge> 0 \<and> res \<ge> push_bit (nbits - 1) 1 then Inl (Failure errmsg)
          else if signedness \<and> \<not> sign \<ge> 0 \<and> res > push_bit (nbits - 1) 1 then Inl (Failure errmsg)
          else if \<not> signedness \<and> nbits < 64 \<and> res \<ge> push_bit nbits 1 then Inl (Failure errmsg)
          else Inr (if sign < 0 then - res else res))
       else Inl (Failure errmsg))"
    unfolding parse_intnat_def s parse_sign_and_base_complete[OF sg pre body]
    using d base parse_digits_spec[of base d errmsg cs]
    by (simp add: cs c_deref_def all V Let_def flip: d_def)
  moreover have "sign = 1 \<or> sign = - 1" using sg by (auto simp: sign_prefixes_def)
  ultimately have "parse_intnat s nbits errmsg =
      (if V < 2 ^ 64 then finish_literal errmsg nbits signedness sign V else Inl (Failure errmsg))"
    using finish_tests[OF n \<open>0 \<le> V\<close>] by simp
  then show ?thesis
    using in_range_64[OF n] unfolding V_def[symmetric] by (auto simp: finish_literal_def)
qed

lemma parse_intnat_only_literals:
  assumes ok: "parse_intnat s nbits errmsg = Inr r"
  shows "\<exists>sign base signedness body. int_literal s sign base signedness body"
proof -
  obtain p base signedness sign where psb: "parse_sign_and_base s = (p, base, signedness, sign)"
    by (metis surj_pair)
  from parse_sign_and_base_sound[OF psb] obtain sg pre where
    sg: "(sg, sign) \<in> sign_prefixes" and pre: "(pre, base, signedness) \<in> base_prefixes"
    and s: "s = sg @ pre @ p" by auto
  let ?d = "parse_digit (c_deref p)"
  have d: "0 \<le> ?d" "?d < base"
    using ok unfolding parse_intnat_def psb Let_def by (auto split: if_splits)
  have base: "1 < base" "base \<le> 36" using base_prefixes_range[OF pre] by auto
  have "p \<noteq> []" using d by (auto simp: c_deref_def parse_digit_def)
  then have p: "p = c_deref p # tl p" by (cases p) (auto simp: c_deref_def)
  obtain p' res where "parse_digits errmsg base ((- 1) div of_int base) (tl p) (of_int ?d) = Inr (p', res)"
      and "p' = []"
    using ok d unfolding parse_intnat_def psb Let_def
    by (auto simp: bind_result_eq_Inr split: if_splits prod.splits)
  then have "dropWhile (is_literal_char base) (tl p) = []"
    using parse_digits_spec[OF base, of ?d errmsg "tl p"] d base by (auto simp: Let_def split: if_splits)
  then have "\<forall>c\<in>set (tl p). is_literal_char base c" by (simp add: dropWhile_eq_Nil_conv)
  moreover have "is_digit base (c_deref p)" using d by (simp add: is_digit_def)
  moreover have "hd p = c_deref p" using p by (metis list.sel(1))
  moreover have "set p = insert (c_deref p) (set (tl p))" using p by (metis list.simps(15))
  ultimately have "int_literal s sign base signedness p"
    unfolding int_literal_def using sg pre s \<open>p \<noteq> []\<close> by (auto simp: is_literal_char_def)
  then show ?thesis by blast
qed

lemma parse_digits_error: "parse_digits errmsg base threshold p res = Inl e \<Longrightarrow> e = Failure errmsg"
  by (induction errmsg base threshold p res rule: parse_digits.induct) (auto simp: Let_def split: if_splits)

lemma parse_intnat_error: "parse_intnat s nbits errmsg = Inl e \<Longrightarrow> e = Failure errmsg"
  unfolding parse_intnat_def Let_def bind_result_def
  by (auto dest: parse_digits_error split: prod.splits if_splits sum.splits)

text \<open>C12: the literal parser accepts exactly the strings of the literal grammar whose value is
  in the range of the requested width, and returns that value; on every other string it
  fails with the given message.  In the grammar of the code a literal has a digit right after its sign and
  its prefix and digits or underscores after it, so that an underscore before the first digit
  is rejected, although the documentation of \<open>int_of_string\<close> allows one anywhere.\<close>

theorem parse_intnat_correct:
  assumes n: "1 \<le> nbits" "nbits \<le> 64"
  shows "(case parse_intnat s nbits errmsg of
      Inr r \<Rightarrow> \<exists>sign base signedness body. int_literal s sign base signedness body \<and>
          literal_in_range nbits signedness sign (literal_value base 0 body) \<and>
          r = of_int (sign * literal_value base 0 body)
    | Inl e \<Rightarrow> e = Failure errmsg \<and>
        (\<forall>sign base signedness body. int_literal s sign base signedness body \<longrightarrow>
          \<not> literal_in_range nbits signedness sign (literal_value base 0 body)))"
proof (cases "parse_intnat s nbits errmsg")
  case (Inl e)
  have "\<not> literal_in_range nbits signedness sign (literal_value base 0 body)"
    if "int_literal s sign base signedness body" for sign base signedness body
    using parse_intnat_literal[OF n that, of errmsg] Inl by (auto simp: finish_literal_def)
  then show ?thesis using parse_intnat_error[OF Inl] Inl by auto
next
  case (Inr r)
  from parse_intnat_only_literals[OF Inr] obtain sign base signedness body
    where lit: "int_literal s sign base signedness body" by blast
  have "literal_in_range nbits signedness sign (literal_value base 0 body)"
    "r = of_int (sign * literal_value base 0 body)"
    using parse_intnat_literal[OF n lit, of errmsg] Inr
    by (simp_all only: finish_literal_def split: if_splits) auto
  then show ?thesis using lit Inr by auto
qed

theorem parse_intnat_correct_witness:
  "(case parse_intnat (map chr ''-0x1_f'') 63 ''int_of_string'' of
      Inr r \<Rightarrow> r = - 31 | Inl e \<Rightarrow> False) \<and>
   (\<exists>sign base signedness body. int_literal (map chr ''-0x1_f'') sign base signedness body \<and>
     literal_in_range 63 signedness sign (literal_value base 0 body) \<and>
     (- 31 :: intnat) = of_int (sign * literal_value base 0 body))"
proof -
  have v: "parse_intnat (map chr ''-0x1_f'') 63 ''int_of_string'' = Inr (- 31)" by code_simp
  show ?thesis
    using parse_intnat_correct[where nbits = 63 and s = "map chr ''-0x1_f''" and errmsg = "''int_of_string''"]
    unfolding v by simp
qed

lemma int64_parse_digits_eq:
  "int64_parse_digits base threshold p res = parse_digits ''Int64.of_string'' base threshold p res"
  by (induction base threshold p res rule: int64_parse_digits.induct) (simp_all add: Let_def)

text \<open>C26: the separate 64-bit parser is the generic one at width 64.\<close>

theorem int64_of_string_eq_generic:
  "caml_int64_of_string_unboxed s = parse_intnat s 64 ''Int64.of_string''"
  unfolding caml_int64_of_string_unboxed_def parse_intnat_def int64_parse_digits_eq
  by (simp cong: if_cong)

section \<open>Decimal output\<close>

fun decimal_digits :: "nat \<Rightarrow> bytes" where
  "decimal_digits n =
     (if n < 10 then [48 + of_nat n] else decimal_digits (n div 10) @ [48 + of_nat (n mod 10)])"

declare decimal_digits.simps [simp del]

definition decimal :: "int \<Rightarrow> bytes" where
  "decimal i = (if i < 0 then chr CHR ''-'' # decimal_digits (nat (- i)) else decimal_digits (nat i))"

lemma literal_value_append:
  "literal_value base acc (xs @ ys) = literal_value base (literal_value base acc xs) ys"
  by (induction xs arbitrary: acc) auto

lemma digit_char: "k < 10 \<Longrightarrow> parse_digit (48 + of_nat k) = int k \<and> 48 + of_nat k \<noteq> chr CHR ''_''"
proof -
  assume k: "k < 10"
  have "uint (48 + of_nat k :: byte) = (48 + int k) mod 256"
    by (simp add: uint_word_ariths of_nat_mod take_bit_eq_mod mod_simps unsigned_of_nat)
  also have "\<dots> = 48 + int k" using k by simp
  finally have u: "uint (48 + of_nat k :: byte) = 48 + int k" .
  moreover have "48 + of_nat k \<noteq> (95 :: byte)"
  proof
    assume "48 + of_nat k = (95 :: byte)"
    then have "uint (48 + of_nat k :: byte) = 95" by simp
    then show False using u k by simp
  qed
  ultimately show ?thesis using k by (simp add: parse_digit_def word_le_def)
qed

lemma decimal_digits_value: "literal_value 10 0 (decimal_digits n) = int n"
proof (induction n rule: decimal_digits.induct)
  case (1 n)
  show ?case
    using 1 digit_char[of n] digit_char[of "n mod 10"]
    by (subst decimal_digits.simps) (auto simp: literal_value_append zmod_int zdiv_int)
qed

lemma decimal_digits_literal:
  "decimal_digits n \<noteq> [] \<and> is_digit 10 (hd (decimal_digits n)) \<and>
   (\<forall>c\<in>set (decimal_digits n). is_literal_char 10 c)"
proof (induction n rule: decimal_digits.induct)
  case (1 n)
  show ?case
    using 1 digit_char[of n] digit_char[of "n mod 10"]
    by (subst decimal_digits.simps)
      (auto simp: is_digit_def is_literal_char_def decimal_digits.simps[of n])
qed

lemma int_literal_decimal:
  "int_literal (decimal i) (if i < 0 then - 1 else 1) 10 True (decimal_digits (nat \<bar>i\<bar>))"
  using decimal_digits_literal[of "nat (- i)"] decimal_digits_literal[of "nat i"]
  by (auto simp: int_literal_def decimal_def sign_prefixes_def base_prefixes_def)

text \<open>C0: printing a tagged integer with \<open>%d\<close> and parsing the result gives the integer back,
  provided the C library prints a \<open>long\<close> with \<open>%ld\<close> in decimal.\<close>

theorem int_of_string_format_int:
  assumes sprintf_ld: "\<And>w. sprintf (map chr ''%ld'') w = decimal (sint w)" and v: "Is_long v"
  shows "\<exists>s. caml_format_int sprintf (map chr ''%d'') v = Some (Inr s) \<and> caml_int_of_string s = Inr v"
proof -
  let ?i = "sint (Long_val v)"
  have "caml_format_int sprintf (map chr ''%d'') v = Some (Inr (decimal ?i))"
    using sprintf_ld[of "Long_val v"] by (simp add: caml_format_int_def parse_format_def)
  moreover have "caml_int_of_string (decimal ?i) = Inr v"
  proof -
    have "literal_in_range 63 True (if ?i < 0 then - 1 else 1) (int (nat \<bar>?i\<bar>))"
      using fits_long_Long_val[of v] by (auto simp: literal_in_range_def fits_long_iff)
    then have "parse_intnat (decimal ?i) 63 ''int_of_string'' = Inr (of_int ?i)"
      using parse_intnat_literal[OF _ _ int_literal_decimal, where nbits = 63 and errmsg = "''int_of_string''"]
      by (auto simp: finish_literal_def decimal_digits_value)
    then show ?thesis using v by (simp add: caml_int_of_string_def Val_long_Long_val)
  qed
  ultimately show ?thesis by blast
qed

theorem int_of_string_format_int_witness:
  "\<exists>s. caml_format_int (\<lambda>f w. decimal (sint w)) (map chr ''%d'') (Val_long (- 42)) = Some (Inr s) \<and>
       caml_int_of_string s = Inr (Val_long (- 42))"
  by (rule int_of_string_format_int) simp_all

section \<open>Byte swapping\<close>

text \<open>Byte-reversal of a word, and its bits.\<close>

definition byte_reverse :: "'a::len word \<Rightarrow> 'a word" where
  "byte_reverse x = le_word (rev (le_bytes (LENGTH('a) div 8) x))"

lemma byte_reverse_involution:
  assumes "8 dvd LENGTH('a::len)"
  shows "byte_reverse (byte_reverse x) = (x :: 'a word)"
proof -
  have "le_bytes (LENGTH('a) div 8) (byte_reverse x) = rev (le_bytes (LENGTH('a) div 8) x)"
    using assms unfolding byte_reverse_def by (intro le_bytes_le_word) auto
  then show ?thesis
    using assms by (simp add: byte_reverse_def[of "byte_reverse x"] le_word_le_bytes)
qed

lemma bit_byte_reverse:
  assumes "8 dvd LENGTH('a::len)" "m < LENGTH('a)"
  shows "bit (byte_reverse (x :: 'a word)) m = bit x (LENGTH('a) - 8 - 8 * (m div 8) + m mod 8)"
proof -
  obtain k where k: "LENGTH('a) = 8 * k" using assms(1) by (rule dvdE)
  have "m div 8 < k" using assms(2) k by auto
  then have "bit (byte_reverse x) m = bit (ucast (drop_bit (8 * (k - Suc (m div 8))) x) :: byte) (m mod 8)"
    using assms(2) by (simp add: byte_reverse_def k bit_le_word rev_nth nth_le_bytes)
  also have "\<dots> = bit x (8 * (k - Suc (m div 8)) + m mod 8)"
    by (simp add: bit_simps)
  also have "8 * (k - Suc (m div 8)) + m mod 8 = LENGTH('a) - 8 - 8 * (m div 8) + m mod 8"
    by (simp add: k diff_mult_distrib2)
  finally show ?thesis .
qed

lemma bit_and_byte:
  "bit (x AND push_bit k (mask 8) :: 'a::len word) m \<longleftrightarrow> k \<le> m \<and> m < k + 8 \<and> bit x m"
  unfolding bit_and_iff bit_push_bit_iff bit_mask_iff by (auto dest: bit_imp_le_length)

lemma byte_masks_64:
  "(0x00000000000000FF :: 64 word) = push_bit 0 (mask 8)"
  "(0x000000000000FF00 :: 64 word) = push_bit 8 (mask 8)"
  "(0x0000000000FF0000 :: 64 word) = push_bit 16 (mask 8)"
  "(0x00000000FF000000 :: 64 word) = push_bit 24 (mask 8)"
  "(0x000000FF00000000 :: 64 word) = push_bit 32 (mask 8)"
  "(0x0000FF0000000000 :: 64 word) = push_bit 40 (mask 8)"
  "(0x00FF000000000000 :: 64 word) = push_bit 48 (mask 8)"
  "(0xFF00000000000000 :: 64 word) = push_bit 56 (mask 8)"
  by (simp_all add: mask_eq_exp_minus_1)

lemma byte_masks_32:
  "(0x000000FF :: 32 word) = push_bit 0 (mask 8)"
  "(0x0000FF00 :: 32 word) = push_bit 8 (mask 8)"
  "(0x00FF0000 :: 32 word) = push_bit 16 (mask 8)"
  "(0xFF000000 :: 32 word) = push_bit 24 (mask 8)"
  by (simp_all add: mask_eq_exp_minus_1)

lemma octet_cases:
  assumes "m < (64 :: nat)"
  obtains k r where "m = 8 * k + r" "r < 8" "k \<in> {0, 1, 2, 3, 4, 5, 6, 7}"
proof
  show "m = 8 * (m div 8) + m mod 8" "m mod 8 < 8" by simp_all
  show "m div 8 \<in> {0, 1, 2, 3, 4, 5, 6, 7}" using assms by auto
qed

lemma int64_bswap_eq: "caml_int64_bswap x = byte_reverse x"
proof (rule bit_word_eqI)
  fix m :: nat assume m: "m < LENGTH(64)"
  then have "m < 64" by simp
  then obtain k r where kr: "m = 8 * k + r" "r < 8" "k \<in> {0, 1, 2, 3, 4, 5, 6, 7}"
    by (rule octet_cases)
  have d: "m div 8 = k" "m mod 8 = r" using kr by auto
  have "bit (byte_reverse x) m = bit x (56 - 8 * k + r)"
    using m by (simp add: bit_byte_reverse d)
  moreover have "bit (caml_int64_bswap x) m = bit x (56 - 8 * k + r)"
    unfolding caml_int64_bswap_def byte_masks_64 bit_or_iff bit_push_bit_iff bit_drop_bit_eq comp_def bit_and_byte
    using kr by (elim insertE emptyE) auto
  ultimately show "bit (caml_int64_bswap x) m = bit (byte_reverse x) m" by simp
qed

lemma signed_drop_bit_nonneg:
  assumes "\<not> bit w (LENGTH('a::len) - 1)"
  shows "signed_drop_bit k (w :: 'a word) = drop_bit k w"
proof (rule bit_word_eqI)
  fix n assume "n < LENGTH('a)"
  then show "bit (signed_drop_bit k w) n = bit (drop_bit k w) n"
    using assms bit_imp_le_length[of w "k + n"]
    by (auto simp: bit_signed_drop_bit_iff bit_drop_bit_eq not_less not_le split: if_splits)
qed

lemma signed_drop_bit_byte:
  "j + 8 < LENGTH('a::len) \<Longrightarrow>
     signed_drop_bit k (x AND push_bit j (mask 8) :: 'a word) = drop_bit k (x AND push_bit j (mask 8))"
  by (rule signed_drop_bit_nonneg) (auto simp: bit_and_byte)

lemma swap64_eq: "caml_swap64 x = byte_reverse x"
proof -
  have "caml_swap64 x = caml_int64_bswap x"
  proof -
    have "signed_drop_bit 8 (x AND push_bit 32 (mask 8)) = drop_bit 8 (x AND push_bit 32 (mask 8))"
      "signed_drop_bit 24 (x AND push_bit 40 (mask 8)) = drop_bit 24 (x AND push_bit 40 (mask 8))"
      "signed_drop_bit 40 (x AND push_bit 48 (mask 8)) = drop_bit 40 (x AND push_bit 48 (mask 8))"
      by (rule signed_drop_bit_byte, simp)+
    then show ?thesis unfolding caml_swap64_def caml_int64_bswap_def byte_masks_64 by metis
  qed
  then show ?thesis by (simp add: int64_bswap_eq)
qed

lemma swap32_eq: "caml_swap32 x = byte_reverse x"
proof (rule bit_word_eqI)
  fix m :: nat assume m: "m < LENGTH(32)"
  then have "m < 64" by simp
  then obtain k r where kr: "m = 8 * k + r" "r < 8" "k \<in> {0, 1, 2, 3, 4, 5, 6, 7}"
    by (rule octet_cases)
  have d: "m div 8 = k" "m mod 8 = r" "k \<in> {0, 1, 2, 3}" using kr m by auto
  have s: "signed_drop_bit 8 (x AND push_bit 16 (mask 8)) = drop_bit 8 (x AND push_bit 16 (mask 8))"
    by (rule signed_drop_bit_byte) simp
  have "bit (byte_reverse x) m = bit x (24 - 8 * k + r)"
    using m by (simp add: bit_byte_reverse d)
  moreover have "bit (caml_swap32 x) m = bit x (24 - 8 * k + r)"
    unfolding caml_swap32_def byte_masks_32 s bit_or_iff bit_push_bit_iff bit_drop_bit_eq comp_def bit_and_byte
    using d(3) kr(1,2) by (elim insertE emptyE) auto
  ultimately show "bit (caml_swap32 x) m = bit (byte_reverse x) m" by simp
qed

text \<open>The byte-swap primitives of \<open>int32\<close>, \<open>int64\<close> and \<open>nativeint\<close> reverse the bytes of
  their argument, whether written with signed or unsigned shifts, and are involutions.\<close>

lemma bswap_reverses_bytes:
  "caml_int32_bswap i = le_word (rev (le_bytes 4 i)) \<and>
   caml_int64_bswap j = le_word (rev (le_bytes 8 j)) \<and>
   caml_nativeint_bswap n = le_word (rev (le_bytes 8 n)) \<and>
   caml_int64_direct_bswap j = caml_int64_bswap j \<and>
   caml_int32_bswap (caml_int32_bswap i) = i \<and>
   caml_int64_bswap (caml_int64_bswap j) = j"
proof -
  have "byte_reverse i = le_word (rev (le_bytes 4 i))" by (simp add: byte_reverse_def)
  moreover have "byte_reverse w = le_word (rev (le_bytes 8 w))" for w :: "64 word"
    by (simp add: byte_reverse_def)
  moreover have "byte_reverse (byte_reverse i) = i" "byte_reverse (byte_reverse j) = j"
    by (rule byte_reverse_involution, simp)+
  ultimately show ?thesis
    by (simp add: caml_int32_bswap_def caml_nativeint_bswap_def caml_int64_direct_bswap_def
        int64_bswap_eq swap64_eq swap32_eq)
qed

section \<open>Division of boxed integers\<close>

text \<open>The contract shared by the three division primitives.\<close>

locale boxed_division =
  fixes dv md :: "'a::len word \<Rightarrow> 'a word \<Rightarrow> 'a word result option"
  assumes div_zero: "dv a 0 = Some (Inl Division_by_zero)"
    and mod_zero: "md a 0 = Some (Inl Division_by_zero)"
    and div_min: "dv min_int (- 1) = Some (Inr min_int)"
    and mod_min: "md min_int (- 1) = Some (Inr 0)"
    and div_other: "c_divides a b \<Longrightarrow> dv a b = map_option Inr (c_sdiv a b)"
    and mod_other: "c_divides a b \<Longrightarrow> md a b = map_option Inr (c_smod a b)"
begin

lemma correct:
  "if b = 0 then dv a b = Some (Inl Division_by_zero) \<and> md a b = Some (Inl Division_by_zero)
   else \<exists>q r. dv a b = Some (Inr q) \<and> md a b = Some (Inr r) \<and> q * b + r = a \<and>
          (if a = min_int \<and> b = - 1 then q = min_int \<and> r = 0
           else sint q = sint a sdiv sint b \<and> sint r = sint a smod sint b)"
proof (cases "c_divides a b")
  case True
  then obtain q r where "c_sdiv a b = Some q" "c_smod a b = Some r" "q * b + r = a"
    "sint q = sint a sdiv sint b" "sint r = sint a smod sint b"
    using c_division by blast
  then show ?thesis using True div_other[OF True] mod_other[OF True] by (auto simp: c_divides_def)
next
  case False
  then show ?thesis using div_zero mod_zero div_min mod_min by (auto simp: min_int_neg c_divides_def)
qed

end

interpretation int32_division: boxed_division caml_int32_div caml_int32_mod
  by unfold_locales (auto simp: caml_int32_div_def caml_int32_mod_def min_int_def c_divides_def)

interpretation int64_division: boxed_division caml_int64_div caml_int64_mod
  by unfold_locales (auto simp: caml_int64_div_def caml_int64_mod_def min_int_def c_divides_def)

interpretation nativeint_division: boxed_division caml_nativeint_div caml_nativeint_mod
  by unfold_locales (auto simp: caml_nativeint_div_def caml_nativeint_mod_def min_int_def c_divides_def)


text \<open>C25: division of boxed integers of each width never traps: it raises on a zero divisor,
  satisfies the division law for every other divisor, truncates towards zero, and at the one
  overflowing pair, where the division of C is not defined, gives the dividend with remainder
  zero.\<close>

theorem boxed_division_correct:
  "(if b = 0 then caml_int32_div a b = Some (Inl Division_by_zero) \<and> caml_int32_mod a b = Some (Inl Division_by_zero)
    else \<exists>q r. caml_int32_div a b = Some (Inr q) \<and> caml_int32_mod a b = Some (Inr r) \<and> q * b + r = a \<and>
          (if a = min_int \<and> b = - 1 then q = min_int \<and> r = 0
           else sint q = sint a sdiv sint b \<and> sint r = sint a smod sint b)) \<and>
   (if d = 0 then caml_int64_div c d = Some (Inl Division_by_zero) \<and> caml_int64_mod c d = Some (Inl Division_by_zero)
    else \<exists>q r. caml_int64_div c d = Some (Inr q) \<and> caml_int64_mod c d = Some (Inr r) \<and> q * d + r = c \<and>
          (if c = min_int \<and> d = - 1 then q = min_int \<and> r = 0
           else sint q = sint c sdiv sint d \<and> sint r = sint c smod sint d)) \<and>
   (if f = 0 then caml_nativeint_div e f = Some (Inl Division_by_zero) \<and> caml_nativeint_mod e f = Some (Inl Division_by_zero)
    else \<exists>q r. caml_nativeint_div e f = Some (Inr q) \<and> caml_nativeint_mod e f = Some (Inr r) \<and> q * f + r = e \<and>
          (if e = min_int \<and> f = - 1 then q = min_int \<and> r = 0
           else sint q = sint e sdiv sint f \<and> sint r = sint e smod sint f))"
  by (intro conjI int32_division.correct int64_division.correct nativeint_division.correct)

section \<open>Custom operations\<close>

text \<open>What the runtime expects of a custom type: a total order, a hash that does not tell equal
  elements apart, and a deserializer that undoes the serializer and stops where it did.\<close>

locale custom_type =
  fixes compare :: "'a \<Rightarrow> 'a \<Rightarrow> int"
    and serialize :: "bytes \<Rightarrow> 'a \<Rightarrow> bytes \<times> nat \<times> nat"
    and deserialize :: "bytes \<Rightarrow> ('a \<times> bytes \<times> nat) result option"
  assumes compare_eq: "compare a b = 0 \<longleftrightarrow> a = b"
    and compare_antisym: "compare b a = - compare a b"
    and compare_trans: "compare a b \<le> 0 \<Longrightarrow> compare b c \<le> 0 \<Longrightarrow> compare a c \<le> 0"
    and serialize_appends: "\<exists>enc. fst (serialize out a) = out @ enc \<and>
          (\<forall>rest. deserialize (enc @ rest) = Some (Inr (a, rest, snd (snd (serialize out a)))))"
begin

lemma compare_total: "compare a b \<le> 0 \<or> compare b a \<le> 0"
  using compare_antisym[of b a] by linarith

text \<open>A sequence of elements written one after the other is read back in order.\<close>

fun read_many :: "nat \<Rightarrow> bytes \<Rightarrow> ('a list \<times> bytes) option" where
  "read_many 0 src = Some ([], src)"
| "read_many (Suc n) src =
     (case deserialize src of
        Some (Inr (a, rest, _)) \<Rightarrow> map_option (\<lambda>(as, r). (a # as, r)) (read_many n rest)
      | _ \<Rightarrow> None)"

lemma read_many_written:
  "\<exists>enc. fold (\<lambda>a out. fst (serialize out a)) as out = out @ enc \<and>
         read_many (length as) (enc @ rest) = Some (as, rest)"
proof (induction as arbitrary: out)
  case (Cons a as)
  obtain enc where enc: "fst (serialize out a) = out @ enc"
    "\<forall>r. deserialize (enc @ r) = Some (Inr (a, r, snd (snd (serialize out a))))"
    using serialize_appends[of out a] by auto
  obtain enc' where "fold (\<lambda>a out. fst (serialize out a)) as (out @ enc) = (out @ enc) @ enc'"
    "read_many (length as) (enc' @ rest) = Some (as, rest)"
    using Cons.IH[of "out @ enc"] by auto
  then show ?case using enc by (intro exI[of _ "enc @ enc'"]) simp
qed simp

end

lemma sint_eq_iff: "sint (a :: 'a::len word) = sint b \<longleftrightarrow> a = b"
  by (auto intro: signed_word_eqI)

lemma word_compare_laws:
  fixes a b c :: "'a::len word"
  shows "cmp_int (sint a) (sint b) = 0 \<longleftrightarrow> a = b"
    and "cmp_int (sint b) (sint a) = - cmp_int (sint a) (sint b)"
    and "cmp_int (sint a) (sint b) \<le> 0 \<Longrightarrow> cmp_int (sint b) (sint c) \<le> 0 \<Longrightarrow>
         cmp_int (sint a) (sint c) \<le> 0"
  by (auto simp: cmp_int_def sint_eq_iff split: if_splits)

lemma ucast_scast_32 [simp]: "ucast (scast (a :: int32) :: 64 word) = a"
  by (rule bit_word_eqI) (simp add: bit_simps)

interpretation int32_custom: custom_type int32_cmp int32_serialize int32_deserialize
proof unfold_locales
  fix out and a :: int32
  show "\<exists>enc. fst (int32_serialize out a) = out @ enc \<and>
      (\<forall>rest. int32_deserialize (enc @ rest) = Some (Inr (a, rest, snd (snd (int32_serialize out a)))))"
    by (rule exI[of _ "store32 (scast a)"])
      (simp add: int32_serialize_def int32_deserialize_def caml_serialize_int_4_def)
qed (unfold int32_cmp_def, (fact word_compare_laws)+)

interpretation int64_custom: custom_type int64_cmp int64_serialize int64_deserialize
proof unfold_locales
  fix out and a :: int64
  show "\<exists>enc. fst (int64_serialize out a) = out @ enc \<and>
      (\<forall>rest. int64_deserialize (enc @ rest) = Some (Inr (a, rest, snd (snd (int64_serialize out a)))))"
    by (rule exI[of _ "store64 a"])
      (simp add: int64_serialize_def int64_deserialize_def caml_serialize_int_8_def)
qed (unfold int64_cmp_def, (fact word_compare_laws)+)

lemma scast_ucast_small:
  assumes "- (2 ^ 31) \<le> sint (l :: intnat)" "sint l < 2 ^ 31"
  shows "scast (ucast l :: int32) = l"
proof -
  have "sint (ucast l :: int32) = signed_take_bit 31 (sint l)"
    by (rule bit_eqI) (auto simp: bit_simps min_def)
  also have "\<dots> = sint l" using assms by (simp add: signed_take_bit_int_eq_self)
  finally show ?thesis by (simp add: scast_eq)
qed

interpretation nativeint_custom: custom_type nativeint_cmp nativeint_serialize nativeint_deserialize
proof unfold_locales
  fix out and l :: intnat
  show "\<exists>enc. fst (nativeint_serialize out l) = out @ enc \<and>
      (\<forall>rest. nativeint_deserialize (enc @ rest) = Some (Inr (l, rest, snd (snd (nativeint_serialize out l)))))"
  proof (cases "sint l \<ge> - (2 ^ 31) \<and> sint l < 2 ^ 31")
    case True
    then have s: "scast (ucast l :: int32) = l" by (intro scast_ucast_small) auto
    show ?thesis
      using True s by (intro exI[of _ "1 # store32 (scast (ucast l :: int32))"])
        (simp add: nativeint_serialize_def nativeint_deserialize_def caml_serialize_int_4_def
          caml_serialize_int_1_def caml_deserialize_uint_1_def map_reader_def)
  next
    case False
    show ?thesis
      unfolding nativeint_serialize_def if_not_P[OF False]
      by (intro exI[of _ "2 # store64 l"])
        (simp add: nativeint_deserialize_def caml_serialize_int_8_def
          caml_serialize_int_1_def caml_deserialize_uint_1_def map_reader_def)
  qed
qed (unfold nativeint_cmp_def, (fact word_compare_laws)+)


text \<open>C27: a native integer marshalled as a custom block is read back unchanged from the
  bytes appended, whichever of the two encodings (4 or 8 bytes) was chosen, leaving the
  input after it and reporting the block size written.\<close>

theorem nativeint_marshal_roundtrip:
  "\<exists>enc. fst (nativeint_serialize out n) = out @ enc \<and>
         nativeint_deserialize (enc @ rest) = Some (Inr (n, rest, 8))"
proof -
  have "snd (snd (nativeint_serialize out n)) = 8" by (simp add: nativeint_serialize_def)
  then show ?thesis using nativeint_custom.serialize_appends[of out n] by auto
qed

end
