(* ===== verification/Alloc.thy ===== *)
theory Alloc
  imports Mlvalues
begin

text \<open>
  Allocation of blocks, \<open>runtime/alloc.c\<close> with the macro \<open>Alloc_small\<close> of
  \<open>runtime/caml/memory.h\<close>: the fast path in the minor heap, which lowers \<open>young_ptr\<close> and
  writes a header.  Where the code leaves that path (a collection is due, or the block is
  too large for the minor heap) the model returns \<open>None\<close>: the collector and the major heap
  are not modelled.
\<close>

section \<open>Domain state and headers\<close>

record dom_st =
  young_ptr :: "64 word"
  young_limit :: "64 word"
  atom_table :: "64 word"
  heap :: mem

definition Make_header_with_reserved :: "uintnat \<Rightarrow> byte \<Rightarrow> 64 word \<Rightarrow> 64 word \<Rightarrow> header_t" where
  "Make_header_with_reserved wosize tag color reserved =
     Hd_reserved reserved + push_bit 10 wosize + color + ucast tag"

definition Make_header :: "uintnat \<Rightarrow> byte \<Rightarrow> 64 word \<Rightarrow> header_t" where
  "Make_header wosize tag color = Make_header_with_reserved wosize tag color 0"

definition Max_young_wosize :: uintnat where
  "Max_young_wosize = 256"

definition Whsize_wosize :: "uintnat \<Rightarrow> uintnat" where
  "Whsize_wosize sz = sz + 1"

definition caml_check_gc_interrupt :: "dom_st \<Rightarrow> bool" where
  "caml_check_gc_interrupt st \<longleftrightarrow> young_ptr st < young_limit st"

definition set_field :: "dom_st \<Rightarrow> mlvalue \<Rightarrow> nat \<Rightarrow> mlvalue \<Rightarrow> dom_st" where
  "set_field st v i x = st\<lparr>heap := mem_store64 (heap st) (v + 8 * of_nat i) x\<rparr>"

section \<open>Small blocks\<close>

definition Alloc_small_with_reserved ::
  "dom_st \<Rightarrow> uintnat \<Rightarrow> byte \<Rightarrow> 64 word \<Rightarrow> (mlvalue \<times> dom_st) option" where
  "Alloc_small_with_reserved st wosize tag reserved =
     (let st1 = st\<lparr>young_ptr := young_ptr st - Bsize_wsize (Whsize_wosize wosize)\<rparr>
      in if caml_check_gc_interrupt st1 then None
         else
           Some (young_ptr st1 + 8,
                 st1\<lparr>heap := mem_store64 (heap st1) (young_ptr st1)
                               (Make_header_with_reserved wosize tag 0 reserved)\<rparr>))"

definition Alloc_small :: "dom_st \<Rightarrow> uintnat \<Rightarrow> byte \<Rightarrow> (mlvalue \<times> dom_st) option" where
  "Alloc_small st wosize tag = Alloc_small_with_reserved st wosize tag 0"

definition caml_alloc_small_with_reserved ::
  "dom_st \<Rightarrow> uintnat \<Rightarrow> byte \<Rightarrow> 64 word \<Rightarrow> (mlvalue \<times> dom_st) option" where
  "caml_alloc_small_with_reserved st wosize tag reserved =
     Alloc_small_with_reserved st wosize tag reserved"

definition caml_alloc_small :: "dom_st \<Rightarrow> uintnat \<Rightarrow> byte \<Rightarrow> (mlvalue \<times> dom_st) option" where
  "caml_alloc_small st wosize tag = caml_alloc_small_with_reserved st wosize tag 0"

text \<open>Atoms are the 256 statically allocated blocks of size zero.\<close>

definition caml_atom :: "dom_st \<Rightarrow> byte \<Rightarrow> mlvalue" where
  "caml_atom st tag = atom_table st + 8 * ucast tag + 8"

fun fill_fields :: "dom_st \<Rightarrow> mlvalue \<Rightarrow> nat \<Rightarrow> mlvalue list \<Rightarrow> dom_st" where
  "fill_fields st v i [] = st"
| "fill_fields st v i (x # xs) = fill_fields (set_field st v i x) v (Suc i) xs"

definition Scannable_wosize_reserved_native :: "64 word \<Rightarrow> uintnat \<Rightarrow> uintnat" where
  "Scannable_wosize_reserved_native res sz = (if Is_mixed_block_reserved res then res - 1 else sz)"

definition caml_alloc_with_reserved ::
  "dom_st \<Rightarrow> uintnat \<Rightarrow> byte \<Rightarrow> 64 word \<Rightarrow> (mlvalue \<times> dom_st) option" where
  "caml_alloc_with_reserved st wosize tag reserved =
     (let scannable_wosize = Scannable_wosize_reserved_native reserved wosize
      in if wosize \<le> Max_young_wosize then
           if wosize = 0 then Some (caml_atom st tag, st)
           else
             map_option (\<lambda>(result, st1).
                 (result,
                  if tag < No_scan_tag
                  then fill_fields st1 result 0 (replicate (unat scannable_wosize) Val_unit)
                  else st1))
               (Alloc_small_with_reserved st wosize tag reserved)
         else None)"

definition caml_alloc :: "dom_st \<Rightarrow> uintnat \<Rightarrow> byte \<Rightarrow> (mlvalue \<times> dom_st) option" where
  "caml_alloc st wosize tag = caml_alloc_with_reserved st wosize tag 0"

definition caml_alloc_tuple :: "dom_st \<Rightarrow> uintnat \<Rightarrow> (mlvalue \<times> dom_st) option" where
  "caml_alloc_tuple st n = caml_alloc st n 0"

definition Do_alloc_small :: "dom_st \<Rightarrow> byte \<Rightarrow> mlvalue list \<Rightarrow> (mlvalue \<times> dom_st) option" where
  "Do_alloc_small st tag vals =
     map_option (\<lambda>(v, st1). (v, fill_fields st1 v 0 vals))
       (Alloc_small st (of_nat (length vals)) tag)"

definition caml_alloc_1 :: "dom_st \<Rightarrow> byte \<Rightarrow> mlvalue \<Rightarrow> (mlvalue \<times> dom_st) option" where
  "caml_alloc_1 st tag a = Do_alloc_small st tag [a]"

definition caml_alloc_2 :: "dom_st \<Rightarrow> byte \<Rightarrow> mlvalue \<Rightarrow> mlvalue \<Rightarrow> (mlvalue \<times> dom_st) option" where
  "caml_alloc_2 st tag a b = Do_alloc_small st tag [a, b]"

definition caml_alloc_3 ::
  "dom_st \<Rightarrow> byte \<Rightarrow> mlvalue \<Rightarrow> mlvalue \<Rightarrow> mlvalue \<Rightarrow> (mlvalue \<times> dom_st) option" where
  "caml_alloc_3 st tag a b c = Do_alloc_small st tag [a, b, c]"

definition caml_alloc_4 ::
  "dom_st \<Rightarrow> byte \<Rightarrow> mlvalue \<Rightarrow> mlvalue \<Rightarrow> mlvalue \<Rightarrow> mlvalue \<Rightarrow> (mlvalue \<times> dom_st) option" where
  "caml_alloc_4 st tag a b c d = Do_alloc_small st tag [a, b, c, d]"

definition caml_alloc_some :: "dom_st \<Rightarrow> mlvalue \<Rightarrow> (mlvalue \<times> dom_st) option" where
  "caml_alloc_some st v =
     map_option (\<lambda>(some, st1). (some, set_field st1 some 0 v)) (caml_alloc_small st 1 0)"

section \<open>Strings and float arrays\<close>

definition caml_alloc_string :: "dom_st \<Rightarrow> uintnat \<Rightarrow> (mlvalue \<times> dom_st) option" where
  "caml_alloc_string st len =
     (let wosize = (len + 8) div 8
      in if wosize \<le> Max_young_wosize then
           map_option (\<lambda>(result, st1).
               (let st2 = set_field st1 result (unat (wosize - 1)) 0;
                    offset_index = Bsize_wsize wosize - 1
                in (result, st2\<lparr>heap := (heap st2)(result + offset_index := ucast (offset_index - len))\<rparr>)))
             (Alloc_small st wosize String_tag)
         else None)"

definition caml_alloc_initialized_string :: "dom_st \<Rightarrow> bytes \<Rightarrow> (mlvalue \<times> dom_st) option" where
  "caml_alloc_initialized_string st p =
     map_option (\<lambda>(result, st1). (result, st1\<lparr>heap := store_bytes (heap st1) result p\<rparr>))
       (caml_alloc_string st (of_nat (length p)))"

text \<open>A C string ends at its first NUL byte.\<close>

definition caml_copy_string :: "dom_st \<Rightarrow> bytes \<Rightarrow> (mlvalue \<times> dom_st) option" where
  "caml_copy_string st s = caml_alloc_initialized_string st (takeWhile (\<lambda>c. c \<noteq> 0) s)"

definition caml_alloc_float_array :: "dom_st \<Rightarrow> uintnat \<Rightarrow> (mlvalue \<times> dom_st) option" where
  "caml_alloc_float_array st len =
     (let wosize = len * 1
      in if wosize \<le> Max_young_wosize then
           if wosize = 0 then Some (caml_atom st 0, st)
           else Alloc_small st wosize Double_array_tag
         else None)"

section \<open>Dummy blocks for recursive definitions\<close>

definition caml_alloc_dummy :: "dom_st \<Rightarrow> mlvalue \<Rightarrow> (mlvalue \<times> dom_st) option" where
  "caml_alloc_dummy st sz = caml_alloc st (Long_val sz) 0"

definition caml_alloc_dummy_function :: "dom_st \<Rightarrow> mlvalue \<Rightarrow> mlvalue \<Rightarrow> (mlvalue \<times> dom_st) option" where
  "caml_alloc_dummy_function st sz arity = caml_alloc_dummy st sz"

definition caml_alloc_dummy_float :: "dom_st \<Rightarrow> mlvalue \<Rightarrow> (mlvalue \<times> dom_st) option" where
  "caml_alloc_dummy_float st sz = caml_alloc st (Long_val sz * 1) 0"

definition caml_alloc_dummy_mixed :: "dom_st \<Rightarrow> mlvalue \<Rightarrow> mlvalue \<Rightarrow> (mlvalue \<times> dom_st) option" where
  "caml_alloc_dummy_mixed st sz scannable_size =
     caml_alloc_with_reserved st (Long_val sz) 0 (Long_val scannable_size + 1)"

definition caml_alloc_dummy_infix :: "dom_st \<Rightarrow> mlvalue \<Rightarrow> mlvalue \<Rightarrow> (mlvalue \<times> dom_st) option" where
  "caml_alloc_dummy_infix st vsize voffset =
     (let wosize = Long_val vsize; offset = Long_val voffset
      in map_option (\<lambda>(v, st1).
           (let st2 = set_field st1 v 1 (Make_closinfo 0 wosize 1)
            in if offset > 0 then
                 (let v' = v + Bsize_wsize offset
                  in (v', st2\<lparr>heap := mem_store64 (heap st2) (v' - 8) (Make_header offset Infix_tag 0)\<rparr>))
               else (v, st2)))
         (caml_alloc st wosize Closure_tag))"

section \<open>Frames\<close>

text \<open>Two memories agree outside the \<open>n\<close> bytes that start at \<open>a\<close>.\<close>

definition same_outside :: "64 word \<Rightarrow> nat \<Rightarrow> mem \<Rightarrow> mem \<Rightarrow> bool" where
  "same_outside a n m m' \<longleftrightarrow> (\<forall>x. n \<le> unat (x - a) \<longrightarrow> m' x = m x)"

lemma same_outside_refl [simp]: "same_outside a n m m"
  by (simp add: same_outside_def)

lemma same_outside_trans: "same_outside a n m m' \<Longrightarrow> same_outside a n m' m'' \<Longrightarrow> same_outside a n m m''"
  by (simp add: same_outside_def)

text \<open>A store inside the range.\<close>

lemma same_outside_store_bytes:
  assumes "k + length bs \<le> n" "n < 2 ^ 63"
  shows "same_outside a n m (store_bytes m (a + of_nat k) bs)"
proof -
  have "length bs \<le> unat (x - (a + of_nat k))" if "n \<le> unat (x - a)" for x
  proof -
    have "unat (of_nat k :: 64 word) = k" using assms by (simp add: unat_of_nat)
    moreover have "x - (a + of_nat k) = (x - a) - of_nat k" by simp
    moreover have "of_nat k \<le> x - a"
      using that assms \<open>unat (of_nat k :: 64 word) = k\<close> by (simp add: word_le_nat_alt)
    ultimately have "unat (x - (a + of_nat k)) = unat (x - a) - k" by (simp only: unat_sub)
    then show ?thesis using that assms by simp
  qed
  then have "\<not> unat (x - (a + of_nat k)) < length bs" if "n \<le> unat (x - a)" for x
    using that by (simp add: not_less)
  then show ?thesis by (simp add: same_outside_def store_bytes_def)
qed

lemma same_outside_store64:
  "k + 8 \<le> n \<Longrightarrow> n < 2 ^ 63 \<Longrightarrow> same_outside a n m (mem_store64 m (a + of_nat k) w)"
  unfolding mem_store64_def by (intro same_outside_store_bytes) auto

lemma same_outside_upd:
  assumes "k < n" "n < 2 ^ 63" shows "same_outside a n m (m(a + of_nat k := b))"
proof -
  have "m(a + of_nat k := b) = store_bytes m (a + of_nat k) [b]"
    by (auto simp: store_bytes_def fun_eq_iff unat_eq_zero)
  then show ?thesis using same_outside_store_bytes[of k "[b]" n a m] assms by simp
qed

text \<open>Reads elsewhere do not see the changes.\<close>

lemma load_bytes_same_outside:
  assumes "same_outside a n m m'" "\<And>i. i < k \<Longrightarrow> n \<le> unat (b + of_nat i - a)"
  shows "load_bytes m' b k = load_bytes m b k"
  using assms by (auto simp: load_bytes_def same_outside_def)

lemma store_bytes_at:
  assumes "i + length xs \<le> 2 ^ 63" "j < 2 ^ 63"
  shows "store_bytes m (s + of_nat i) xs (s + of_nat j) =
    (if i \<le> j \<and> j < i + length xs then xs ! (j - i) else m (s + of_nat j))"
proof (cases "i \<le> j")
  case True
  then have "unat (of_nat j - of_nat i :: 64 word) = j - i"
    using assms by (subst unat_sub) (simp_all add: word_le_nat_alt unat_of_nat)
  then show ?thesis using True by (auto simp: store_bytes_def)
next
  case False
  define d :: "64 word" where "d = of_nat (i - j)"
  have d: "unat d = i - j" using assms by (simp add: d_def unat_of_nat del: of_nat_diff)
  have e: "of_nat j - of_nat i = - d" using False by (simp add: d_def of_nat_diff)
  have "unat (- d) = 2 ^ 64 - (i - j)" using False d by (subst unat_uminus) auto
  then have "length xs \<le> unat (- d)" using False assms by simp
  then show ?thesis using False e by (simp add: store_bytes_def)
qed

lemma load_bytes_store_bytes_inside:
  assumes "i + length xs \<le> n" "n \<le> 2 ^ 63"
  shows "load_bytes (store_bytes m (s + of_nat i) xs) s n =
    (let bs = load_bytes m s n in take i bs @ xs @ drop (i + length xs) bs)"
proof -
  have "load_bytes (store_bytes m (s + of_nat i) xs) s n ! j =
      (take i (load_bytes m s n) @ xs @ drop (i + length xs) (load_bytes m s n)) ! j" if j: "j < n" for j
    using j assms by (auto simp: load_bytes_def store_bytes_at nth_append)
  then show ?thesis using assms by (simp add: Let_def list_eq_iff_nth_eq)
qed

lemma Hd_val_same_outside:
  assumes "same_outside v n m m'" "n \<le> 2 ^ 63"
  shows "Hd_val m' v = Hd_val m v"
proof -
  have "n \<le> unat (v - 8 + of_nat i - v)" if "i < 8" for i
  proof -
    define d :: "64 word" where "d = 8 - of_nat i"
    have d: "unat d = 8 - i" using that by (simp add: d_def unat_sub word_le_nat_alt unat_of_nat)
    then have "unat (- d) = 2 ^ 64 - (8 - i)" using that by (subst unat_uminus) auto
    moreover have "v - 8 + of_nat i - v = - d" by (simp add: d_def)
    ultimately show ?thesis using assms(2) that by simp
  qed
  then have "load_bytes m' (v - 8) 8 = load_bytes m (v - 8) 8"
    by (intro load_bytes_same_outside[OF assms(1)]) auto
  then show ?thesis by (simp add: Hd_val_def mem_load64_def)
qed

section \<open>Fields of one block\<close>

lemma unat_mult8: "i < 2 ^ 60 \<Longrightarrow> unat (8 * of_nat i :: 64 word) = 8 * i"
  by (simp add: unat_word_ariths unat_of_nat)

lemma unat_mult8_diff: "i < j \<Longrightarrow> j < 2 ^ 60 \<Longrightarrow> unat (8 * of_nat j - 8 * of_nat i :: 64 word) = 8 * (j - i)"
  by (subst unat_sub) (simp_all add: unat_mult8 word_le_nat_alt)

lemma unat_uminus_ge: "8 \<le> unat (d :: 64 word) \<Longrightarrow> unat d \<le> 2 ^ 63 \<Longrightarrow> 8 \<le> unat (- d)"
  using unat_uminus[of d] by (cases "d = 0") auto

lemma field_addr_apart:
  assumes "i \<noteq> j" "i < 2 ^ 59" "j < 2 ^ 59"
  shows "8 \<le> unat ((v + 8 * of_nat i) - (v + 8 * of_nat j) :: 64 word)"
proof -
  have lt: "8 \<le> unat (8 * of_nat j - 8 * of_nat i :: 64 word)"
    "unat (8 * of_nat j - 8 * of_nat i :: 64 word) \<le> 2 ^ 63" if "i < j" "j < 2 ^ 59" for i j
    using that unat_mult8_diff[of i j] by auto
  show ?thesis
  proof (cases "i < j")
    case True
    then have "8 \<le> unat (- (8 * of_nat j - 8 * of_nat i) :: 64 word)"
      using assms by (intro unat_uminus_ge lt) auto
    then show ?thesis by simp
  next
    case False
    then show ?thesis using lt(1)[of j i] assms by simp
  qed
qed

lemma Field_set_field_same [simp]: "Field (heap (set_field st v i x)) v i = x"
  by (simp add: Field_def set_field_def)

lemma Field_set_field_other:
  assumes "i \<noteq> j" "i < 2 ^ 59" "j < 2 ^ 59"
  shows "Field (heap (set_field st v i x)) v j = Field (heap st) v j"
  using field_addr_apart[OF assms, of v] field_addr_apart[OF assms(1)[symmetric] assms(3,2), of v]
  by (simp add: Field_def set_field_def mem_load64_store64_other)

lemma fill_fields_select [simp]:
  "young_ptr (fill_fields st v i xs) = young_ptr st"
  "young_limit (fill_fields st v i xs) = young_limit st"
  "atom_table (fill_fields st v i xs) = atom_table st"
  by (induction xs arbitrary: st i) (simp_all add: set_field_def)

lemma Field_fill_fields_before:
  assumes "j < i" "i + length xs \<le> 2 ^ 59"
  shows "Field (heap (fill_fields st v i xs)) v j = Field (heap st) v j"
  using assms
proof (induction xs arbitrary: st i)
  case (Cons x xs)
  then show ?case using Field_set_field_other[of i j] by simp
qed simp

lemma Field_fill_fields:
  assumes "k < length xs" "i + length xs \<le> 2 ^ 59"
  shows "Field (heap (fill_fields st v i xs)) v (i + k) = xs ! k"
  using assms
proof (induction xs arbitrary: st i k)
  case (Cons x xs)
  show ?case
  proof (cases k)
    case 0
    then show ?thesis using Cons.prems Field_fill_fields_before[of i "Suc i" xs] by simp
  next
    case (Suc k')
    then show ?thesis using Cons.IH[of k' "Suc i"] Cons.prems by simp
  qed
qed simp

lemma fill_fields_outside:
  assumes "i + length xs \<le> n" "n < 2 ^ 59"
  shows "same_outside v (8 * n) (heap st) (heap (fill_fields st v i xs))"
  using assms
proof (induction xs arbitrary: st i)
  case (Cons x xs)
  have "same_outside v (8 * n) (heap st) (heap (set_field st v i x))"
    using same_outside_store64[of "8 * i" "8 * n" v "heap st" x] Cons.prems
    by (simp add: set_field_def)
  then show ?case using Cons.IH[of "Suc i"] Cons.prems by (auto intro: same_outside_trans)
qed simp

section \<open>Headers\<close>

lemma bit_small_word:
  "unat w < 2 ^ k \<Longrightarrow> bit (w :: 'a::len word) n \<Longrightarrow> n < k"
proof -
  assume w: "unat w < 2 ^ k" and n: "bit w n"
  have "take_bit k w = w"
  proof -
    have "take_bit k (unat w) = unat w" using w by (simp add: take_bit_nat_eq_self_iff)
    then have "unat (take_bit k w) = unat w" by (simp only: unsigned_take_bit_eq)
    then show ?thesis by (rule unsigned_word_eqI)
  qed
  then show "n < k" using n by (metis bit_take_bit_iff)
qed

text \<open>The fields of a header, as disjoint ranges of bits.\<close>

lemma bit_Make_header_with_reserved:
  assumes w: "unat wosize < 2 ^ 46"
  shows "bit (Make_header_with_reserved wosize tag 0 reserved) n \<longleftrightarrow>
    n < 64 \<and> (if n < 10 then n < 8 \<and> bit tag n else if n < 56 then bit wosize (n - 10)
     else bit reserved (n - 56))"
proof -
  have a: "push_bit 56 reserved + push_bit 10 wosize = push_bit 56 reserved OR push_bit 10 wosize"
    using bit_small_word[OF w] by (intro disjunctive_add) (auto simp: bit_push_bit_iff, fastforce)
  have b: "(push_bit 56 reserved OR push_bit 10 wosize) + ucast tag =
      push_bit 56 reserved OR push_bit 10 wosize OR (ucast tag :: 64 word)"
    using bit_imp_le_length[of tag]
    by (subst or.assoc [symmetric], intro disjunctive_add)
      (auto simp: bit_push_bit_iff bit_or_iff bit_ucast_iff, fastforce+)
  show ?thesis
    unfolding Make_header_with_reserved_def Hd_reserved_def a add_0_right b
      bit_or_iff bit_push_bit_iff bit_ucast_iff
    using bit_small_word[OF w, of "n - 10"] bit_imp_le_length[of tag n] bit_imp_le_length[of reserved "n - 56"]
    by auto
qed

lemma Tag_val_Hd_val: "Tag_val m v = Tag_hd (Hd_val m v)"
proof (rule bit_word_eqI)
  fix n :: nat assume n: "n < LENGTH(8)"
  then have "n div 8 = 0" "n mod 8 = n" by simp_all
  then show "bit (Tag_val m v) n = bit (Tag_hd (Hd_val m v)) n"
    using n by (simp add: Tag_val_def Tag_hd_def Hd_val_def mem_load64_def bit_ucast_iff bit_and_iff
        bit_mask_iff bit_le_word load_bytes_def)
qed

lemma Tag_hd_Make_header [simp]:
  "unat wosize < 2 ^ 46 \<Longrightarrow> Tag_hd (Make_header_with_reserved wosize tag 0 reserved) = tag"
  by (rule bit_word_eqI)
    (simp add: Tag_hd_def bit_ucast_iff bit_and_iff bit_mask_iff bit_Make_header_with_reserved)

lemma Allocated_wosize_Make_header [simp]:
  "unat wosize < 2 ^ 46 \<Longrightarrow> Allocated_wosize_hd (Make_header_with_reserved wosize tag 0 reserved) = wosize"
  using bit_small_word[of wosize 46]
  by (intro bit_word_eqI)
    (auto simp: Allocated_wosize_hd_def bit_drop_bit_eq bit_and_iff bit_push_bit_iff bit_mask_iff
      bit_Make_header_with_reserved)

lemma Reserved_Make_header:
  "unat wosize < 2 ^ 46 \<Longrightarrow> unat reserved < 2 ^ 8 \<Longrightarrow>
     Reserved_hd (Make_header_with_reserved wosize tag 0 reserved) = reserved"
  using bit_small_word[of reserved 8]
  by (intro bit_word_eqI)
    (auto simp: Reserved_hd_def bit_drop_bit_eq bit_Make_header_with_reserved)

section \<open>Correctness of allocation\<close>

text \<open>The minor heap does not touch the low end of the address space, so that lowering
  \<open>young_ptr\<close> cannot wrap around.\<close>

definition wf_dom :: "dom_st \<Rightarrow> bool" where
  "wf_dom st \<longleftrightarrow> 8 * 257 \<le> unat (young_limit st) \<and> unat (young_limit st) \<le> unat (young_ptr st)"

text \<open>A block of \<open>n\<close> words at \<open>v\<close> was carved out of the free space between the two states.\<close>

definition carved :: "dom_st \<Rightarrow> mlvalue \<Rightarrow> nat \<Rightarrow> dom_st \<Rightarrow> bool" where
  "carved st v n st' \<longleftrightarrow>
     wf_dom st' \<and> v = young_ptr st' + 8 \<and>
     unat (young_ptr st') + 8 * (n + 1) = unat (young_ptr st) \<and>
     young_limit st' = young_limit st \<and> atom_table st' = atom_table st \<and>
     same_outside (young_ptr st') (8 * (n + 1)) (heap st) (heap st')"

lemma Alloc_small_carved:
  assumes wf: "wf_dom st" and w: "unat wosize \<le> 256"
    and al: "Alloc_small_with_reserved st wosize tag reserved = Some (v, st')"
  shows "carved st v (unat wosize) st'"
    and "Hd_val (heap st') v = Make_header_with_reserved wosize tag 0 reserved"
proof -
  let ?p = "young_ptr st - Bsize_wsize (Whsize_wosize wosize)"
  have sz: "unat (Bsize_wsize (Whsize_wosize wosize)) = 8 * (unat wosize + 1)"
    using w by (simp add: Bsize_wsize_def Whsize_wosize_def unat_word_ariths)
  then have p: "unat ?p + 8 * (unat wosize + 1) = unat (young_ptr st)"
    using wf w by (subst unat_sub) (auto simp: wf_dom_def word_le_nat_alt)
  from al have v: "v = ?p + 8" and lim: "\<not> ?p < young_limit st"
    and st': "st' = st\<lparr>young_ptr := ?p, heap := mem_store64 (heap st) ?p (Make_header_with_reserved wosize tag 0 reserved)\<rparr>"
    by (auto simp: Alloc_small_with_reserved_def Let_def caml_check_gc_interrupt_def split: if_splits)
  have "same_outside ?p (8 * (unat wosize + 1)) (heap st) (heap st')"
    using same_outside_store64[of 0 "8 * (unat wosize + 1)" ?p "heap st"] w by (simp add: st')
  then show "carved st v (unat wosize) st'"
    using p lim wf v by (simp add: carved_def st' wf_dom_def word_less_nat_alt)
  show "Hd_val (heap st') v = Make_header_with_reserved wosize tag 0 reserved"
    by (simp add: Hd_val_def v st')
qed

text \<open>Filling the fields of the new block keeps the header and the rest of memory.\<close>

text \<open>Writing inside a block keeps it carved.\<close>

lemma carved_inside:
  assumes c: "carved st v n st1" and out: "same_outside v (8 * n) (heap st1) h"
  shows "carved st v n (st1\<lparr>heap := h\<rparr>)"
proof -
  have "same_outside (young_ptr st1) (8 * (n + 1)) (heap st1) h"
    unfolding same_outside_def
  proof (intro allI impI)
    fix x assume x: "8 * (n + 1) \<le> unat (x - young_ptr st1)"
    have xv: "x - v = (x - young_ptr st1) - 8" using c by (simp add: carved_def)
    have "unat (x - v) = unat (x - young_ptr st1) - unat (8 :: 64 word)"
      unfolding xv by (rule unat_sub) (use x in \<open>simp add: word_le_nat_alt\<close>)
    then have "8 * n \<le> unat (x - v)" using x by simp
    then show "h x = heap st1 x" using out by (simp add: same_outside_def)
  qed
  then show ?thesis using c by (auto simp: carved_def wf_dom_def intro: same_outside_trans)
qed

lemma fill_fields_heap: "fill_fields st v i xs = st\<lparr>heap := heap (fill_fields st v i xs)\<rparr>"
  by simp

lemma fill_fields_carved:
  assumes c: "carved st v n st'" and n: "i + length xs \<le> n" "n \<le> 256"
  shows "carved st v n (fill_fields st' v i xs)"
    and "Hd_val (heap (fill_fields st' v i xs)) v = Hd_val (heap st') v"
proof -
  have out: "same_outside v (8 * n) (heap st') (heap (fill_fields st' v i xs))"
    using n by (intro fill_fields_outside) auto
  show "carved st v n (fill_fields st' v i xs)"
    using carved_inside[OF c out] by (simp flip: fill_fields_heap)
  show "Hd_val (heap (fill_fields st' v i xs)) v = Hd_val (heap st') v"
    using out n by (intro Hd_val_same_outside) auto
qed

text \<open>A block allocated with its contents.\<close>

lemma Do_alloc_small_block:
  assumes "wf_dom st" and "length vals \<le> 256" and "Do_alloc_small st tag vals = Some (v, st')"
  shows "Tag_val (heap st') v = tag \<and> Allocated_wosize_val (heap st') v = of_nat (length vals) \<and>
    (\<forall>i<length vals. Field (heap st') v i = vals ! i) \<and>
    carved st v (length vals) st'"
proof -
  have len: "unat (of_nat (length vals) :: 64 word) = length vals"
    using assms(2) by (simp add: unat_of_nat)
  obtain st1 where al: "Alloc_small_with_reserved st (of_nat (length vals)) tag 0 = Some (v, st1)"
    and st': "st' = fill_fields st1 v 0 vals"
    using assms(3) by (auto simp: Do_alloc_small_def Alloc_small_def)
  have c1: "carved st v (length vals) st1"
    and h1: "Hd_val (heap st1) v = Make_header_with_reserved (of_nat (length vals)) tag 0 0"
    using Alloc_small_carved[OF assms(1) _ al] assms(2) by (simp_all add: len)
  have c: "carved st v (length vals) st'" "Hd_val (heap st') v = Hd_val (heap st1) v"
    using fill_fields_carved[OF c1, of 0 vals] assms(2) by (simp_all add: st')
  moreover have "Field (heap st') v i = vals ! i" if "i < length vals" for i
    using Field_fill_fields[of i vals 0 st1 v] that assms(2) by (simp add: st')
  ultimately show ?thesis
    using h1 len assms(2) by (simp add: Tag_val_Hd_val Allocated_wosize_val_def)
qed

text \<open>C30: a small block allocated with its contents has the requested tag, size and fields;
  it lies entirely in the space between the new and the old allocation pointer, and no byte
  outside that space changes, so blocks allocated earlier are neither overlapped nor
  modified.\<close>

theorem Do_alloc_small_correct:
  assumes "wf_dom st" and "length vals \<le> 256" and "Do_alloc_small st tag vals = Some (v, st')"
  shows "Tag_val (heap st') v = tag \<and> Allocated_wosize_val (heap st') v = of_nat (length vals) \<and>
    (\<forall>i<length vals. Field (heap st') v i = vals ! i) \<and>
    carved st v (length vals) st'"
  using assms by (rule Do_alloc_small_block)

theorem Do_alloc_small_correct_witness:
  "case Do_alloc_small \<lparr>young_ptr = 0x10000, young_limit = 0x8000, atom_table = 0, heap = (\<lambda>_. 0)\<rparr> 3 [7, 9] of
     None \<Rightarrow> False
   | Some (v, st') \<Rightarrow> Tag_val (heap st') v = 3 \<and> Allocated_wosize_val (heap st') v = 2 \<and>
       Field (heap st') v 0 = 7 \<and> Field (heap st') v 1 = 9"
proof -
  let ?st = "\<lparr>young_ptr = 0x10000, young_limit = 0x8000, atom_table = 0, heap = (\<lambda>_. 0)\<rparr>"
  have "Do_alloc_small ?st 3 [7, 9] \<noteq> None"
    by (simp add: Do_alloc_small_def Alloc_small_def Alloc_small_with_reserved_def Let_def
        caml_check_gc_interrupt_def Bsize_wsize_def Whsize_wosize_def)
  then obtain v st' where al: "Do_alloc_small ?st 3 [7, 9] = Some (v, st')" by auto
  have "wf_dom ?st" by (simp add: wf_dom_def)
  from Do_alloc_small_correct[OF this _ al] show ?thesis
    unfolding al by (simp add: less_Suc_eq)
qed

end
