(* ===== verification/Str.thy ===== *)
theory Str
  imports Alloc
begin

text \<open>
  Strings and byte sequences, \<open>runtime/str.c\<close>.  A string is a block of words whose last byte
  gives the number of padding bytes before it; the operations read and write the byte memory
  of \<open>Mlvalues\<close>.  An error is the exception raised; writing operations return the new memory.
\<close>

section \<open>Lengths and creation\<close>

definition caml_string_length :: "mem \<Rightarrow> mlvalue \<Rightarrow> uintnat" where
  "caml_string_length m s =
     (let temp = Allocated_bosize_val m s - 1 in temp - scast (Byte_u m s temp))"

definition caml_ml_string_length :: "mem \<Rightarrow> mlvalue \<Rightarrow> mlvalue" where
  "caml_ml_string_length m s =
     (let temp = Allocated_bosize_val m s - 1 in Val_long (temp - scast (Byte_u m s temp)))"

definition caml_ml_bytes_length :: "mem \<Rightarrow> mlvalue \<Rightarrow> mlvalue" where
  "caml_ml_bytes_length m s = caml_ml_string_length m s"

text \<open>The C library's \<open>strlen\<close>: the distance to the first NUL byte.\<close>

partial_function (option) c_strlen :: "mem \<Rightarrow> 64 word \<Rightarrow> nat \<Rightarrow> nat option" where
  "c_strlen m a n = (if m (a + of_nat n) = 0 then Some n else c_strlen m a (Suc n))"

definition caml_string_is_c_safe :: "mem \<Rightarrow> mlvalue \<Rightarrow> bool option" where
  "caml_string_is_c_safe m s =
     map_option (\<lambda>n. of_nat n = caml_string_length m s) (c_strlen m s 0)"

definition create_bytes :: "string \<Rightarrow> dom_st \<Rightarrow> mlvalue \<Rightarrow> (mlvalue \<times> dom_st) option result" where
  "create_bytes errmsg st len =
     (let sz = Long_val len
      in if sz > Bsize_wsize Max_wosize - 1 then Inl (Invalid_argument errmsg)
         else Inr (caml_alloc_string st sz))"

definition caml_create_string :: "dom_st \<Rightarrow> mlvalue \<Rightarrow> (mlvalue \<times> dom_st) option result" where
  "caml_create_string st len = create_bytes ''String.create'' st len"

definition caml_create_bytes :: "dom_st \<Rightarrow> mlvalue \<Rightarrow> (mlvalue \<times> dom_st) option result" where
  "caml_create_bytes st len = create_bytes ''Bytes.create'' st len"

section \<open>Reading\<close>

text \<open>The bounds test \<open>idx < 0 || idx + k >= length\<close> of an access to \<open>k + 1\<close> bytes; the second
  comparison is unsigned.\<close>

definition out_of_bounds :: "mem \<Rightarrow> mlvalue \<Rightarrow> intnat \<Rightarrow> intnat \<Rightarrow> bool" where
  "out_of_bounds m str idx k \<longleftrightarrow> sint idx < 0 \<or> idx + k \<ge> caml_string_length m str"

definition caml_string_get :: "mem \<Rightarrow> mlvalue \<Rightarrow> mlvalue \<Rightarrow> mlvalue result" where
  "caml_string_get m str index =
     (let idx = Long_val index
      in if out_of_bounds m str idx 0 then Inl Array_bound_error
         else Inr (Val_int (ucast (Byte_u m str idx))))"

definition caml_bytes_get :: "mem \<Rightarrow> mlvalue \<Rightarrow> mlvalue \<Rightarrow> mlvalue result" where
  "caml_bytes_get m str index = caml_string_get m str index"

definition caml_string_get16 :: "mem \<Rightarrow> mlvalue \<Rightarrow> mlvalue \<Rightarrow> mlvalue result" where
  "caml_string_get16 m str index =
     (let idx = Long_val index
      in if out_of_bounds m str idx 1 then Inl Array_bound_error
         else
           (let b1 = Byte_u m str idx; b2 = Byte_u m str (idx + 1);
                res = push_bit 8 (ucast b2) OR ucast b1 :: 64 word
            in Inr (Val_long res)))"

definition caml_bytes_get16 :: "mem \<Rightarrow> mlvalue \<Rightarrow> mlvalue \<Rightarrow> mlvalue result" where
  "caml_bytes_get16 m str index = caml_string_get16 m str index"

text \<open>32 and 64-bit reads return the payload of the boxed integer.\<close>

definition caml_string_get32 :: "mem \<Rightarrow> mlvalue \<Rightarrow> mlvalue \<Rightarrow> int32 result" where
  "caml_string_get32 m str index =
     (let idx = Long_val index
      in if out_of_bounds m str idx 3 then Inl Array_bound_error
         else
           (let b1 = Byte_u m str idx; b2 = Byte_u m str (idx + 1);
                b3 = Byte_u m str (idx + 2); b4 = Byte_u m str (idx + 3)
            in Inr (push_bit 24 (ucast b4) OR push_bit 16 (ucast b3) OR push_bit 8 (ucast b2) OR ucast b1)))"

definition caml_bytes_get32 :: "mem \<Rightarrow> mlvalue \<Rightarrow> mlvalue \<Rightarrow> int32 result" where
  "caml_bytes_get32 m str index = caml_string_get32 m str index"

definition caml_string_get64 :: "mem \<Rightarrow> mlvalue \<Rightarrow> mlvalue \<Rightarrow> int64 result" where
  "caml_string_get64 m str index =
     (let idx = Long_val index
      in if out_of_bounds m str idx 7 then Inl Array_bound_error
         else
           (let b1 = Byte_u m str idx; b2 = Byte_u m str (idx + 1);
                b3 = Byte_u m str (idx + 2); b4 = Byte_u m str (idx + 3);
                b5 = Byte_u m str (idx + 4); b6 = Byte_u m str (idx + 5);
                b7 = Byte_u m str (idx + 6); b8 = Byte_u m str (idx + 7)
            in Inr (push_bit 56 (ucast b8) OR push_bit 48 (ucast b7) OR push_bit 40 (ucast b6) OR
                    push_bit 32 (ucast b5) OR push_bit 24 (ucast b4) OR push_bit 16 (ucast b3) OR
                    push_bit 8 (ucast b2) OR ucast b1)))"

definition caml_bytes_get64 :: "mem \<Rightarrow> mlvalue \<Rightarrow> mlvalue \<Rightarrow> int64 result" where
  "caml_bytes_get64 m str index = caml_string_get64 m str index"

section \<open>Writing\<close>

definition set_byte :: "mem \<Rightarrow> mlvalue \<Rightarrow> 64 word \<Rightarrow> byte \<Rightarrow> mem" where
  "set_byte m x i b = m(x + i := b)"

definition caml_bytes_set :: "mem \<Rightarrow> mlvalue \<Rightarrow> mlvalue \<Rightarrow> mlvalue \<Rightarrow> mem result" where
  "caml_bytes_set m str index newval =
     (let idx = Long_val index
      in if out_of_bounds m str idx 0 then Inl Array_bound_error
         else Inr (set_byte m str idx (ucast (Int_val newval))))"

definition caml_string_set :: "mem \<Rightarrow> mlvalue \<Rightarrow> mlvalue \<Rightarrow> mlvalue \<Rightarrow> mem result" where
  "caml_string_set m str index newval = caml_bytes_set m str index newval"

definition caml_bytes_set16 :: "mem \<Rightarrow> mlvalue \<Rightarrow> mlvalue \<Rightarrow> mlvalue \<Rightarrow> mem result" where
  "caml_bytes_set16 m str index newval =
     (let idx = Long_val index
      in if out_of_bounds m str idx 1 then Inl Array_bound_error
         else
           (let v = Long_val newval;
                b2 = ucast (0xFF AND signed_drop_bit 8 v);
                b1 = ucast (0xFF AND v)
            in Inr (set_byte (set_byte m str idx b1) str (idx + 1) b2)))"

definition caml_bytes_set32 :: "mem \<Rightarrow> mlvalue \<Rightarrow> mlvalue \<Rightarrow> int32 \<Rightarrow> mem result" where
  "caml_bytes_set32 m str index newval =
     (let idx = Long_val index
      in if out_of_bounds m str idx 3 then Inl Array_bound_error
         else
           (let v = scast newval :: intnat;
                b4 = ucast (0xFF AND signed_drop_bit 24 v);
                b3 = ucast (0xFF AND signed_drop_bit 16 v);
                b2 = ucast (0xFF AND signed_drop_bit 8 v);
                b1 = ucast (0xFF AND v);
                m = set_byte m str idx b1;
                m = set_byte m str (idx + 1) b2;
                m = set_byte m str (idx + 2) b3
            in Inr (set_byte m str (idx + 3) b4)))"

definition caml_bytes_set64 :: "mem \<Rightarrow> mlvalue \<Rightarrow> mlvalue \<Rightarrow> int64 \<Rightarrow> mem result" where
  "caml_bytes_set64 m str index newval =
     (let idx = Long_val index
      in if out_of_bounds m str idx 7 then Inl Array_bound_error
         else
           (let v = newval;
                b8 = ucast (0xFF AND signed_drop_bit 56 v);
                b7 = ucast (0xFF AND signed_drop_bit 48 v);
                b6 = ucast (0xFF AND signed_drop_bit 40 v);
                b5 = ucast (0xFF AND signed_drop_bit 32 v);
                b4 = ucast (0xFF AND signed_drop_bit 24 v);
                b3 = ucast (0xFF AND signed_drop_bit 16 v);
                b2 = ucast (0xFF AND signed_drop_bit 8 v);
                b1 = ucast (0xFF AND v);
                m = set_byte m str idx b1;
                m = set_byte m str (idx + 1) b2;
                m = set_byte m str (idx + 2) b3;
                m = set_byte m str (idx + 3) b4;
                m = set_byte m str (idx + 4) b5;
                m = set_byte m str (idx + 5) b6;
                m = set_byte m str (idx + 6) b7
            in Inr (set_byte m str (idx + 7) b8)))"

section \<open>Comparison\<close>

fun equal_words :: "mem \<Rightarrow> 64 word \<Rightarrow> 64 word \<Rightarrow> nat \<Rightarrow> bool" where
  "equal_words m p1 p2 0 = True"
| "equal_words m p1 p2 (Suc sz1) =
     (if mem_load64 m p1 \<noteq> mem_load64 m p2 then False else equal_words m (p1 + 8) (p2 + 8) sz1)"

definition caml_string_equal :: "mem \<Rightarrow> mlvalue \<Rightarrow> mlvalue \<Rightarrow> mlvalue" where
  "caml_string_equal m s1 s2 =
     (if s1 = s2 then Val_true
      else
        (let sz1 = Allocated_wosize_val m s1; sz2 = Allocated_wosize_val m s2
         in if sz1 \<noteq> sz2 then Val_false
            else if equal_words m s1 s2 (unat sz1) then Val_true else Val_false))"

definition caml_bytes_equal :: "mem \<Rightarrow> mlvalue \<Rightarrow> mlvalue \<Rightarrow> mlvalue" where
  "caml_bytes_equal m s1 s2 = caml_string_equal m s1 s2"

definition caml_string_notequal :: "mem \<Rightarrow> mlvalue \<Rightarrow> mlvalue \<Rightarrow> mlvalue" where
  "caml_string_notequal m s1 s2 = Val_not (caml_string_equal m s1 s2)"

definition caml_bytes_notequal :: "mem \<Rightarrow> mlvalue \<Rightarrow> mlvalue \<Rightarrow> mlvalue" where
  "caml_bytes_notequal m s1 s2 = caml_string_notequal m s1 s2"

text \<open>The C library's \<open>memcmp\<close> on two sequences: the sign of the first difference, bytes being
  compared unsigned.\<close>

fun memcmp :: "bytes \<Rightarrow> bytes \<Rightarrow> int" where
  "memcmp (a # as) (b # bs) = (if a < b then - 1 else if a > b then 1 else memcmp as bs)"
| "memcmp _ _ = 0"

definition caml_string_compare :: "mem \<Rightarrow> mlvalue \<Rightarrow> mlvalue \<Rightarrow> mlvalue" where
  "caml_string_compare m s1 s2 =
     (if s1 = s2 then Val_int 0
      else
        (let len1 = caml_string_length m s1; len2 = caml_string_length m s2;
             n = unat (if len1 \<le> len2 then len1 else len2);
             res = memcmp (load_bytes m s1 n) (load_bytes m s2 n)
         in if res < 0 then Val_int (- 1)
            else if res > 0 then Val_int 1
            else if len1 < len2 then Val_int (- 1)
            else if len1 > len2 then Val_int 1
            else Val_int 0))"

definition caml_bytes_compare :: "mem \<Rightarrow> mlvalue \<Rightarrow> mlvalue \<Rightarrow> mlvalue" where
  "caml_bytes_compare m s1 s2 = caml_string_compare m s1 s2"

text \<open>The orderings compare the tagged result with tagged zero, as signed words.\<close>

definition caml_string_lessthan :: "mem \<Rightarrow> mlvalue \<Rightarrow> mlvalue \<Rightarrow> mlvalue" where
  "caml_string_lessthan m s1 s2 =
     (if sint (caml_string_compare m s1 s2) < sint (Val_int 0) then Val_true else Val_false)"

definition caml_bytes_lessthan :: "mem \<Rightarrow> mlvalue \<Rightarrow> mlvalue \<Rightarrow> mlvalue" where
  "caml_bytes_lessthan m s1 s2 = caml_string_lessthan m s1 s2"

definition caml_string_lessequal :: "mem \<Rightarrow> mlvalue \<Rightarrow> mlvalue \<Rightarrow> mlvalue" where
  "caml_string_lessequal m s1 s2 =
     (if sint (caml_string_compare m s1 s2) \<le> sint (Val_int 0) then Val_true else Val_false)"

definition caml_bytes_lessequal :: "mem \<Rightarrow> mlvalue \<Rightarrow> mlvalue \<Rightarrow> mlvalue" where
  "caml_bytes_lessequal m s1 s2 = caml_string_lessequal m s1 s2"

definition caml_string_greaterthan :: "mem \<Rightarrow> mlvalue \<Rightarrow> mlvalue \<Rightarrow> mlvalue" where
  "caml_string_greaterthan m s1 s2 =
     (if sint (caml_string_compare m s1 s2) > sint (Val_int 0) then Val_true else Val_false)"

definition caml_bytes_greaterthan :: "mem \<Rightarrow> mlvalue \<Rightarrow> mlvalue \<Rightarrow> mlvalue" where
  "caml_bytes_greaterthan m s1 s2 = caml_string_greaterthan m s1 s2"

definition caml_string_greaterequal :: "mem \<Rightarrow> mlvalue \<Rightarrow> mlvalue \<Rightarrow> mlvalue" where
  "caml_string_greaterequal m s1 s2 =
     (if sint (caml_string_compare m s1 s2) \<ge> sint (Val_int 0) then Val_true else Val_false)"

definition caml_bytes_greaterequal :: "mem \<Rightarrow> mlvalue \<Rightarrow> mlvalue \<Rightarrow> mlvalue" where
  "caml_bytes_greaterequal m s1 s2 = caml_string_greaterequal m s1 s2"

section \<open>Block moves\<close>

text \<open>\<open>memmove\<close> reads the whole source before writing; the callers have checked the ranges.\<close>

definition memmove :: "mem \<Rightarrow> 64 word \<Rightarrow> 64 word \<Rightarrow> nat \<Rightarrow> mem" where
  "memmove m dst src n = store_bytes m dst (load_bytes m src n)"

definition caml_blit_bytes :: "mem \<Rightarrow> mlvalue \<Rightarrow> mlvalue \<Rightarrow> mlvalue \<Rightarrow> mlvalue \<Rightarrow> mlvalue \<Rightarrow> mem" where
  "caml_blit_bytes m s1 ofs1 s2 ofs2 n =
     memmove m (s2 + Long_val ofs2) (s1 + Long_val ofs1) (unat (Long_val n))"

definition caml_blit_string :: "mem \<Rightarrow> mlvalue \<Rightarrow> mlvalue \<Rightarrow> mlvalue \<Rightarrow> mlvalue \<Rightarrow> mlvalue \<Rightarrow> mem" where
  "caml_blit_string m s1 ofs1 s2 ofs2 n = caml_blit_bytes m s1 ofs1 s2 ofs2 n"

definition caml_fill_bytes :: "mem \<Rightarrow> mlvalue \<Rightarrow> mlvalue \<Rightarrow> mlvalue \<Rightarrow> mlvalue \<Rightarrow> mem" where
  "caml_fill_bytes m s offset len init =
     store_bytes m (s + Long_val offset) (replicate (unat (Long_val len)) (ucast (Int_val init)))"

definition caml_fill_string :: "mem \<Rightarrow> mlvalue \<Rightarrow> mlvalue \<Rightarrow> mlvalue \<Rightarrow> mlvalue \<Rightarrow> mem" where
  "caml_fill_string m s offset len init = caml_fill_bytes m s offset len init"

section \<open>Formatted strings\<close>

text \<open>\<open>formatted\<close> is the output of \<open>vsnprintf\<close> without the final NUL, \<open>None\<close> when it reports an
  error.  Output of 128 bytes and more does not fit the local buffer and is formatted again,
  with its final NUL, into the allocated string.\<close>

definition caml_alloc_sprintf :: "dom_st \<Rightarrow> bytes option \<Rightarrow> (mlvalue \<times> dom_st) option result" where
  "caml_alloc_sprintf st formatted =
     (case formatted of
        None \<Rightarrow> Inl Out_of_memory
      | Some buf \<Rightarrow>
          (let n = length buf
           in if n < 128 then Inr (caml_alloc_initialized_string st buf)
              else
                Inr (map_option (\<lambda>(res, st1).
                        (res, st1\<lparr>heap := store_bytes (heap st1) res (buf @ [0])\<rparr>))
                      (caml_alloc_string st (of_nat n)))))"

definition caml_string_of_bytes :: "mlvalue \<Rightarrow> mlvalue" where
  "caml_string_of_bytes bv = bv"

definition caml_bytes_of_string :: "mlvalue \<Rightarrow> mlvalue" where
  "caml_bytes_of_string bv = bv"

section \<open>Well-formed strings\<close>

text \<open>The bytes of a string block: the contents, zero padding, and the padding count that
  ends the last word.\<close>

definition string_pad :: "bytes \<Rightarrow> nat" where
  "string_pad bs = 7 - length bs mod 8"

definition string_words :: "bytes \<Rightarrow> nat" where
  "string_words bs = length bs div 8 + 1"

definition string_image :: "bytes \<Rightarrow> bytes" where
  "string_image bs = bs @ replicate (string_pad bs) 0 @ [of_nat (string_pad bs)]"

definition string_block :: "mem \<Rightarrow> mlvalue \<Rightarrow> bytes \<Rightarrow> bool" where
  "string_block m s bs \<longleftrightarrow>
     Tag_val m s = String_tag \<and>
     unat (Allocated_wosize_val m s) = string_words bs \<and>
     load_bytes m s (8 * string_words bs) = string_image bs"

lemma string_pad_bounds: "string_pad bs < 8" "8 * string_words bs = length bs + string_pad bs + 1"
  unfolding string_pad_def string_words_def by presburger+

lemma length_string_image [simp]: "length (string_image bs) = 8 * string_words bs"
  by (simp add: string_image_def string_pad_bounds)

lemma string_image_inj: "string_image a = string_image b \<longleftrightarrow> a = b"
proof
  assume eq: "string_image a = string_image b"
  have "last (string_image xs) = of_nat (string_pad xs)" for xs by (simp add: string_image_def)
  then have "unat (of_nat (string_pad a) :: byte) = unat (of_nat (string_pad b) :: byte)"
    using eq by metis
  then have k: "string_pad a = string_pad b"
    using string_pad_bounds(1)[of a] string_pad_bounds(1)[of b] by (simp add: unat_of_nat)
  have "length a = length b"
    using arg_cong[OF eq, of length] k string_pad_bounds(2) by simp
  moreover have "xs = take (length xs) (string_image xs)" for xs by (simp add: string_image_def)
  ultimately show "a = b" using eq by metis
qed simp

lemma wosize_bound: "unat (Allocated_wosize_val m v) < 2 ^ 46"
proof -
  have "Allocated_wosize_hd h = take_bit 46 (drop_bit 10 h)" for h
    by (rule bit_word_eqI) (auto simp: Allocated_wosize_hd_def bit_simps)
  then have "unat (Allocated_wosize_hd h) < 2 ^ 46" for h
    using take_bit_nat_less_exp[of 46] by (simp only: unsigned_take_bit_eq)
  then show ?thesis by (simp add: Allocated_wosize_val_def)
qed

lemma string_block_length: "string_block m s bs \<Longrightarrow> length bs < 2 ^ 50"
  using wosize_bound[of m s] string_pad_bounds[of bs] by (simp add: string_block_def)

lemma string_block_byte:
  assumes "string_block m s bs" "i < 8 * string_words bs"
  shows "m (s + of_nat i) = string_image bs ! i"
proof -
  have "load_bytes m s (8 * string_words bs) ! i = m (s + of_nat i)"
    using assms(2) by (simp add: load_bytes_def)
  then show ?thesis using assms(1) by (simp add: string_block_def)
qed

lemma string_block_bosize:
  assumes "string_block m s bs"
  shows "Allocated_bosize_val m s = of_nat (length bs + string_pad bs + 1)"
proof -
  have w: "Allocated_wosize_val m s = of_nat (string_words bs)"
    using assms by (metis string_block_def of_nat_unat ucast_id)
  show ?thesis
    unfolding string_pad_bounds(2)[symmetric] Allocated_bosize_val_def Bsize_wsize_def w by simp
qed

text \<open>The length read from the padding byte is the number of bytes.\<close>

lemma scast_small_byte: "k < 128 \<Longrightarrow> (scast (of_nat k :: byte) :: 64 word) = of_nat k"
proof -
  assume "k < 128"
  then have "uint (of_nat k :: byte) = int k" by (simp add: uint_nat unat_of_nat)
  then have "sint (of_nat k :: byte) = int k"
    using \<open>k < 128\<close> by (simp add: sint_uint signed_take_bit_int_eq_self)
  then show ?thesis by (simp add: scast_eq)
qed

lemma caml_string_length_block:
  assumes "string_block m s bs"
  shows "caml_string_length m s = of_nat (length bs)"
proof -
  let ?i = "length bs + string_pad bs"
  have bo: "Allocated_bosize_val m s - 1 = of_nat ?i"
    unfolding string_block_bosize[OF assms] by simp
  have "m (s + of_nat ?i) = string_image bs ! ?i"
    using string_pad_bounds(2) by (intro string_block_byte[OF assms]) simp
  then have "Byte_u m s (of_nat ?i) = of_nat (string_pad bs)"
    by (simp add: Byte_u_def string_image_def nth_append)
  then have "caml_string_length m s = of_nat ?i - of_nat (string_pad bs)"
    unfolding caml_string_length_def Let_def bo
    using string_pad_bounds(1)[of bs] by (simp add: scast_small_byte)
  then show ?thesis by simp
qed

lemma load_bytes_append: "load_bytes m a (n + k) = load_bytes m a n @ load_bytes m (a + of_nat n) k"
  by (rule nth_equalityI) (auto simp: load_bytes_def nth_append add.assoc simp flip: of_nat_add)

lemma string_block_load:
  assumes "string_block m s bs" "i + n \<le> length bs"
  shows "load_bytes m (s + of_nat i) n = take n (drop i bs)"
proof (rule nth_equalityI)
  fix j assume "j < length (load_bytes m (s + of_nat i) n)"
  then have j: "j < n" by simp
  then have "m (s + of_nat (i + j)) = string_image bs ! (i + j)"
    using assms string_pad_bounds(2)[of bs] by (intro string_block_byte[OF assms(1)]) simp
  then show "load_bytes m (s + of_nat i) n ! j = take n (drop i bs) ! j"
    using j assms(2) by (simp add: load_bytes_def string_image_def nth_append add.assoc)
qed (use assms in simp)

lemma equal_words_iff: "equal_words m p q n \<longleftrightarrow> load_bytes m p (8 * n) = load_bytes m q (8 * n)"
proof (induction n arbitrary: p q)
  case (Suc n)
  have "load_bytes m a (8 * Suc n) = load_bytes m a 8 @ load_bytes m (a + 8) (8 * n)" for a
    using load_bytes_append[of m a 8 "8 * n"] by simp
  then show ?case by (simp add: Suc.IH mem_load64_eq_iff)
qed (simp add: load_bytes_def)

lemma string_block_unique:
  assumes "string_block m s b1" and "string_block m s b2"
  shows "b1 = b2"
proof -
  have "string_words b1 = string_words b2" using assms by (simp add: string_block_def)
  then have "string_image b1 = string_image b2" using assms by (simp add: string_block_def)
  then show ?thesis by (simp add: string_image_inj)
qed

text \<open>C32: comparing two well-formed strings word by word decides equality of their contents,
  because the padding of a string is determined by its length.\<close>

theorem caml_string_equal_correct:
  assumes "string_block m s1 b1" and "string_block m s2 b2"
  shows "caml_string_equal m s1 s2 = Val_bool (b1 = b2)"
proof -
  have img: "load_bytes m s1 (8 * string_words b1) = string_image b1"
    "load_bytes m s2 (8 * string_words b2) = string_image b2"
    and w: "unat (Allocated_wosize_val m s1) = string_words b1"
    "unat (Allocated_wosize_val m s2) = string_words b2"
    using assms by (simp_all add: string_block_def)
  have eq: "b1 = b2 \<longleftrightarrow> string_words b1 = string_words b2 \<and>
      load_bytes m s1 (8 * string_words b1) = load_bytes m s2 (8 * string_words b2)"
    unfolding img by (auto simp: string_image_inj)
  have sz: "Allocated_wosize_val m s1 = Allocated_wosize_val m s2 \<longleftrightarrow> string_words b1 = string_words b2"
    unfolding w[symmetric] by (simp add: word_unat_eq_iff)
  have "b1 = b2" if "s1 = s2" using that assms string_block_unique by blast
  then show ?thesis
    unfolding caml_string_equal_def Let_def equal_words_iff sz eq w
    by (auto simp: Val_bool_def)
qed

lemma memcmp_range: "memcmp a b \<in> {- 1, 0, 1}"
  by (induction a b rule: memcmp.induct) auto

text \<open>The comparison of the common prefixes, completed by the lengths, is the lexicographic
  order.\<close>

lemma memcmp_lexordp:
  "ord_class.lexordp a b \<longleftrightarrow>
     (let n = min (length a) (length b); r = memcmp (take n a) (take n b)
      in r < 0 \<or> r = 0 \<and> length a < length b)"
  by (induction a b rule: memcmp.induct) (auto simp: Let_def neq_Nil_conv split: list.splits)

lemma memcmp_sym: "memcmp b a = - memcmp a b"
  by (induction a b rule: memcmp.induct) (auto split: list.splits)

lemma memcmp_eq_0: "length a = length b \<Longrightarrow> memcmp a b = 0 \<longleftrightarrow> a = b"
  by (induction a b rule: list_induct2) auto

lemma string_block_len_unat:
  "string_block m s bs \<Longrightarrow> unat (caml_string_length m s) = length bs"
  using string_block_length[of m s bs] by (simp add: caml_string_length_block unat_of_nat)

text \<open>C33: the three-way comparison of two well-formed strings is the lexicographic order of their
  contents, bytes being unsigned, and the derived tests agree with it.\<close>

theorem caml_string_compare_correct:
  assumes "string_block m s1 b1" and "string_block m s2 b2"
  shows "caml_string_compare m s1 s2 =
      Val_int (if ord_class.lexordp b1 b2 then - 1 else if ord_class.lexordp b2 b1 then 1 else 0) \<and>
    caml_string_lessthan m s1 s2 = Val_bool (ord_class.lexordp b1 b2) \<and>
    caml_string_lessequal m s1 s2 = Val_bool (b1 = b2 \<or> ord_class.lexordp b1 b2) \<and>
    caml_string_greaterthan m s1 s2 = Val_bool (ord_class.lexordp b2 b1) \<and>
    caml_string_greaterequal m s1 s2 = Val_bool (b1 = b2 \<or> ord_class.lexordp b2 b1)"
proof -
  let ?n = "min (length b1) (length b2)"
  let ?r = "memcmp (take ?n b1) (take ?n b2)"
  let ?l1 = "caml_string_length m s1" and ?l2 = "caml_string_length m s2"
  have n: "unat (if ?l1 \<le> ?l2 then ?l1 else ?l2) = ?n"
    using assms by (auto simp: string_block_len_unat word_le_nat_alt min_def)
  have lt: "?l1 < ?l2 \<longleftrightarrow> length b1 < length b2" "?l2 < ?l1 \<longleftrightarrow> length b2 < length b1"
    using assms by (simp_all add: string_block_len_unat word_less_nat_alt)
  have l1: "load_bytes m s1 ?n = take ?n b1" using string_block_load[OF assms(1), of 0 ?n] by simp
  have l2: "load_bytes m s2 ?n = take ?n b2" using string_block_load[OF assms(2), of 0 ?n] by simp
  have lex: "ord_class.lexordp b1 b2 \<longleftrightarrow> ?r < 0 \<or> ?r = 0 \<and> length b1 < length b2"
    "ord_class.lexordp b2 b1 \<longleftrightarrow> ?r > 0 \<or> ?r = 0 \<and> length b2 < length b1"
    using memcmp_lexordp[of b1 b2] memcmp_lexordp[of b2 b1] memcmp_sym[of "take ?n b2" "take ?n b1"]
    by (simp_all add: Let_def min.commute)
  have eq: "b1 = b2 \<longleftrightarrow> ?r = 0 \<and> length b1 = length b2"
    using memcmp_eq_0[of b1 b2] by auto
  have same: "b1 = b2" if "s1 = s2"
    using that string_block_unique assms by blast
  have cmp: "caml_string_compare m s1 s2 =
      Val_int (if ord_class.lexordp b1 b2 then - 1 else if ord_class.lexordp b2 b1 then 1 else 0)"
  proof (cases "s1 = s2")
    case True
    with same have "\<not> ord_class.lexordp b1 b2" "\<not> ord_class.lexordp b2 b1"
      by (simp_all add: lexordp_irreflexive')
    then show ?thesis using True by (simp add: caml_string_compare_def)
  next
    case False
    then show ?thesis unfolding caml_string_compare_def Let_def n lt l1 l2 lex by simp
  qed
  have ord: "ord_class.lexordp b1 b2 \<and> \<not> ord_class.lexordp b2 b1 \<and> b1 \<noteq> b2 \<or>
      \<not> ord_class.lexordp b1 b2 \<and> ord_class.lexordp b2 b1 \<and> b1 \<noteq> b2 \<or>
      \<not> ord_class.lexordp b1 b2 \<and> \<not> ord_class.lexordp b2 b1 \<and> b1 = b2"
    unfolding lex eq by linarith
  have sg: "sint (Val_int (- 1)) = - 1" "sint (Val_int 0) = 1" "sint (Val_int 1) = 3"
    by (simp_all add: sint_Val_int)
  show ?thesis
    unfolding caml_string_lessthan_def caml_string_lessequal_def caml_string_greaterthan_def
      caml_string_greaterequal_def cmp
    using ord by (elim disjE) (simp_all add: sg lexordp_irreflexive')
qed

section \<open>Stores inside a string\<close>

lemma string_image_store:
  assumes "i + length xs \<le> length bs"
  shows "take i (string_image bs) @ xs @ drop (i + length xs) (string_image bs) =
    string_image (take i bs @ xs @ drop (i + length xs) bs)"
  using assms by (simp add: string_image_def string_pad_def)

lemma string_block_store:
  assumes b: "string_block m s bs" and i: "i + length xs \<le> length bs"
  shows "string_block (store_bytes m (s + of_nat i) xs) s (take i bs @ xs @ drop (i + length xs) bs)"
proof -
  let ?bs = "take i bs @ xs @ drop (i + length xs) bs"
  let ?m = "store_bytes m (s + of_nat i) xs"
  have pad: "string_words ?bs = string_words bs"
    using i by (simp add: string_words_def)
  have small: "length bs < 2 ^ 50" by (rule string_block_length[OF b])
  have "same_outside s (length bs) m ?m"
    using i small by (intro same_outside_store_bytes) auto
  then have hd: "Hd_val ?m s = Hd_val m s" using small by (intro Hd_val_same_outside) auto
  have "8 * string_words bs \<le> 2 ^ 63" using small string_pad_bounds[of bs] by simp
  then have "load_bytes ?m s (8 * string_words bs) =
      take i (string_image bs) @ xs @ drop (i + length xs) (string_image bs)"
    using b i string_pad_bounds(2)[of bs]
    by (subst load_bytes_store_bytes_inside) (auto simp: string_block_def Let_def)
  then show ?thesis
    using b unfolding string_image_store[OF i]
    by (simp add: string_block_def pad hd Tag_val_Hd_val Allocated_wosize_val_def)
qed

section \<open>Accessors at an index\<close>

text \<open>What an access to \<open>k\<close> bytes at a tagged index reads from contents \<open>bs\<close>, and what a write
  of \<open>xs\<close> there must produce; both fail exactly outside the contents.\<close>

definition in_range :: "bytes \<Rightarrow> mlvalue \<Rightarrow> nat \<Rightarrow> bool" where
  "in_range bs index k \<longleftrightarrow>
     0 \<le> sint (Long_val index) \<and> sint (Long_val index) + int k \<le> int (length bs)"

definition access_bytes :: "bytes \<Rightarrow> mlvalue \<Rightarrow> nat \<Rightarrow> (bytes \<Rightarrow> 'a) \<Rightarrow> 'a result" where
  "access_bytes bs index k f =
     (if in_range bs index k then Inr (f (take k (drop (nat (sint (Long_val index))) bs)))
      else Inl Array_bound_error)"

definition update_bytes :: "mem \<Rightarrow> mlvalue \<Rightarrow> bytes \<Rightarrow> mlvalue \<Rightarrow> bytes \<Rightarrow> mem result \<Rightarrow> bool" where
  "update_bytes m s bs index xs r \<longleftrightarrow>
     (if in_range bs index (length xs) then
        \<exists>m'. r = Inr m' \<and> same_outside s (length bs) m m' \<and>
          (let i = nat (sint (Long_val index))
           in string_block m' s (take i bs @ xs @ drop (i + length xs) bs))
      else r = Inl Array_bound_error)"

lemma long_index_cases:
  obtains "sint (Long_val index) < 0"
  | i where "sint (Long_val index) = int i" "Long_val index = of_nat i" "i < 2 ^ 63"
proof (cases "sint (Long_val index) < 0")
  case False
  have "sint (Long_val index) < 2 ^ 63" using sint_lt[of "Long_val index"] by simp
  moreover have "Long_val index = word_of_int (sint (Long_val index))" by simp
  ultimately show ?thesis
    using False that(2)[of "nat (sint (Long_val index))"] by (metis int_nat_eq nat_less_numeral_power_cancel_iff linorder_not_less of_int_of_nat_eq)
qed (rule that(1))

lemma out_of_bounds_iff:
  assumes "string_block m s bs" "k < 8"
  shows "out_of_bounds m s (Long_val index) (of_nat k) \<longleftrightarrow> \<not> in_range bs index (Suc k)"
proof (cases index rule: long_index_cases)
  case (2 i)
  then have "unat (Long_val index + of_nat k) = i + k"
    using assms(2) by (simp add: unat_of_nat flip: of_nat_add)
  then show ?thesis
    using 2(1) assms by (auto simp: out_of_bounds_def in_range_def word_le_nat_alt string_block_len_unat)
qed (simp add: out_of_bounds_def in_range_def)

lemma in_range_obtain:
  assumes "in_range bs index k"
  obtains i where "Long_val index = of_nat i" "sint (Long_val index) = int i" "i + k \<le> length bs"
  using assms
proof (cases index rule: long_index_cases)
  case (2 i)
  then show ?thesis using assms that[of i] by (auto simp: in_range_def)
qed (simp add: in_range_def)

lemma Byte_u_in_range:
  assumes "string_block m s bs" "in_range bs index n" "j < n"
  shows "Byte_u m s (Long_val index + of_nat j) = take n (drop (nat (sint (Long_val index))) bs) ! j"
proof -
  obtain i where i: "Long_val index = of_nat i" "sint (Long_val index) = int i" and r: "i + n \<le> length bs"
    by (rule in_range_obtain[OF assms(2)])
  have "m (s + of_nat (i + j)) = string_image bs ! (i + j)"
    using r assms(3) string_pad_bounds(2)[of bs] by (intro string_block_byte[OF assms(1)]) simp
  then show ?thesis
    using r assms(3) i by (simp add: Byte_u_def string_image_def nth_append)
qed

lemma in_range_list:
  assumes "in_range bs index n"
  shows "length (take n (drop (nat (sint (Long_val index))) bs)) = n"
  using assms by (auto simp: in_range_def)

text \<open>The bytes of an access, gathered in a list.\<close>

lemma map_Byte_u:
  assumes "string_block m s bs" "in_range bs index n"
  shows "map (\<lambda>j. Byte_u m s (Long_val index + of_nat j)) [0..<n] =
    take n (drop (nat (sint (Long_val index))) bs)"
  using Byte_u_in_range[OF assms] in_range_list[OF assms(2)] by (intro nth_equalityI) auto

lemma le_word_shifts:
  "push_bit 8 (ucast b2) OR ucast b1 = (le_word [b1, b2] :: 64 word)"
  "push_bit 24 (ucast b4) OR push_bit 16 (ucast b3) OR push_bit 8 (ucast b2) OR ucast b1 =
     (le_word [b1, b2, b3, b4] :: 32 word)"
  "push_bit 56 (ucast b8) OR push_bit 48 (ucast b7) OR push_bit 40 (ucast b6) OR
     push_bit 32 (ucast b5) OR push_bit 24 (ucast b4) OR push_bit 16 (ucast b3) OR
     push_bit 8 (ucast b2) OR ucast b1 = (le_word [b1, b2, b3, b4, b5, b6, b7, b8] :: 64 word)"
  by (simp_all add: push_bit_or push_bit_push_bit or.left_commute or.commute del: push_bit_word_beyond)

lemma scast_ucast_byte: "(scast (ucast (b :: byte) :: 32 word) :: 64 word) = ucast b"
  by (rule bit_word_eqI) (auto simp: bit_simps min_def dest: bit_imp_le_length)

text \<open>C34: the reads of 1, 2, 4 and 8 bytes of a well-formed string return the bytes at the index
  in little-endian order, and raise the bounds error exactly when one of them is outside.\<close>

theorem caml_string_get_correct:
  assumes "string_block m s bs"
  shows "caml_string_get m s index = access_bytes bs index 1 (\<lambda>x. Val_long (le_word x)) \<and>
    caml_string_get16 m s index = access_bytes bs index 2 (\<lambda>x. Val_long (le_word x)) \<and>
    caml_string_get32 m s index = access_bytes bs index 4 le_word \<and>
    caml_string_get64 m s index = access_bytes bs index 8 le_word"
proof -
  note ob = out_of_bounds_iff[OF assms]
  note mb = map_Byte_u[OF assms]
  have 1: "caml_string_get m s index = access_bytes bs index 1 (\<lambda>x. Val_long (le_word x))"
    using ob[of 0 index] mb[of index 1, symmetric]
    by (simp add: caml_string_get_def access_bytes_def Let_def Val_int_def scast_ucast_byte)
  have 2: "caml_string_get16 m s index = access_bytes bs index 2 (\<lambda>x. Val_long (le_word x))"
    using ob[of 1] mb[of index 2]
    by (simp add: caml_string_get16_def access_bytes_def Let_def le_word_shifts upt_rec numeral_2_eq_2 del: le_word.simps)
  have 4: "caml_string_get32 m s index = access_bytes bs index 4 le_word"
    using ob[of 3] mb[of index 4]
    by (simp add: caml_string_get32_def access_bytes_def Let_def le_word_shifts(2-) upt_rec del: le_word.simps)
  have 8: "caml_string_get64 m s index = access_bytes bs index 8 le_word"
    using ob[of 7] mb[of index 8]
    by (simp add: caml_string_get64_def access_bytes_def Let_def le_word_shifts(2-) upt_rec del: le_word.simps)
  show ?thesis using 1 2 4 8 by simp
qed

lemma set_byte_store: "set_byte m s idx b = store_bytes m (s + idx) [b]"
  by (auto simp: set_byte_def store_bytes_def fun_eq_iff unat_eq_zero)

lemma set_byte_snoc:
  assumes "length xs < 2 ^ 63" "k = of_nat (length xs)"
  shows "set_byte (store_bytes m (s + idx) xs) s (idx + k) b = store_bytes m (s + idx) (xs @ [b])"
proof (rule ext)
  fix x
  define d where "d = x - (s + idx)"
  have "x = s + (idx + k) \<longleftrightarrow> d = of_nat (length xs)" by (auto simp: d_def assms(2) algebra_simps)
  also have "\<dots> \<longleftrightarrow> unat d = length xs"
    using assms(1) by (simp add: word_unat_eq_iff unat_of_nat)
  finally show "set_byte (store_bytes m (s + idx) xs) s (idx + k) b x = store_bytes m (s + idx) (xs @ [b]) x"
    by (auto simp: set_byte_def store_bytes_def nth_append d_def)
qed

text \<open>Byte writes at consecutive indices are one store.\<close>

lemma set_byte_2:
  "set_byte (set_byte m s idx a) s (idx + 1) b = store_bytes m (s + idx) [a, b]"
  using set_byte_snoc[of "[a]" 1 m s idx b] by (simp add: set_byte_store[of m])

lemma set_byte_4:
  "set_byte (set_byte (set_byte (set_byte m s idx a) s (idx + 1) b) s (idx + 2) c) s (idx + 3) d =
     store_bytes m (s + idx) [a, b, c, d]"
  by (simp add: set_byte_2 set_byte_snoc)

lemma set_byte_8:
  "set_byte (set_byte (set_byte (set_byte (set_byte (set_byte (set_byte (set_byte m s
       idx a) s (idx + 1) b) s (idx + 2) c) s (idx + 3) d)
       s (idx + 4) e) s (idx + 5) f) s (idx + 6) g) s (idx + 7) h =
     store_bytes m (s + idx) [a, b, c, d, e, f, g, h]"
  by (simp add: set_byte_4 set_byte_snoc)

lemma low_byte_shift:
  "ucast (signed_drop_bit k (v :: 64 word)) = (ucast (drop_bit k v) :: byte)" if "k \<le> 56"
  using that by (intro bit_word_eqI) (auto simp: bit_simps)

lemma low_byte_mask: "ucast (0xFF AND (v :: 64 word)) = (ucast v :: byte)"
proof -
  have m: "(0xFF :: 64 word) = mask 8" by (simp add: mask_eq_exp_minus_1)
  show ?thesis unfolding m by (rule bit_word_eqI) (auto simp: bit_simps)
qed

lemma low_byte_scast: "k \<le> 24 \<Longrightarrow> ucast (drop_bit k (scast (v :: 32 word) :: 64 word)) = (ucast (drop_bit k v) :: byte)"
  by (intro bit_word_eqI) (auto simp: bit_simps min_absorb2)

lemma le_bytes_nth: "le_bytes n w = map (\<lambda>i. ucast (drop_bit (8 * i) w)) [0..<n]"
  by (intro nth_equalityI) (simp_all add: nth_le_bytes)

lemma update_bytes_Inr:
  assumes "string_block m s bs" "in_range bs index (length xs)"
  shows "update_bytes m s bs index xs (Inr (store_bytes m (s + Long_val index) xs))"
proof -
  obtain i where idx: "Long_val index = of_nat i" "sint (Long_val index) = int i"
    and i: "i + length xs \<le> length bs"
    by (rule in_range_obtain[OF assms(2)])
  have "same_outside s (length bs) m (store_bytes m (s + of_nat i) xs)"
    using i string_block_length[OF assms(1)] by (intro same_outside_store_bytes) auto
  then show ?thesis
    using string_block_store[OF assms(1) i] assms(2) idx by (simp add: update_bytes_def Let_def)
qed

lemma update_bytes_store:
  assumes "string_block m s bs" "length xs = Suc k" "k < 8"
    and "r = (if out_of_bounds m s (Long_val index) (of_nat k) then Inl Array_bound_error
              else Inr (store_bytes m (s + Long_val index) xs))"
  shows "update_bytes m s bs index xs r"
proof (cases "in_range bs index (Suc k)")
  case True
  then show ?thesis
    using assms update_bytes_Inr[OF assms(1), of index xs] out_of_bounds_iff[OF assms(1,3)] by simp
qed (use assms out_of_bounds_iff[OF assms(1,3)] in \<open>simp add: update_bytes_def\<close>)

text \<open>C35: the writes of 1, 2, 4 and 8 bytes into a well-formed byte sequence replace exactly the
  bytes at the index by the low bytes of the new value in little-endian order, keep the
  sequence well formed and every byte outside its contents, and raise the bounds error
  exactly when one of the bytes is outside.\<close>

theorem caml_bytes_set_correct:
  assumes "string_block m s bs"
  shows "update_bytes m s bs index [ucast (Int_val v)] (caml_bytes_set m s index v) \<and>
    update_bytes m s bs index (le_bytes 2 (Long_val v)) (caml_bytes_set16 m s index v) \<and>
    update_bytes m s bs index (le_bytes 4 w32) (caml_bytes_set32 m s index w32) \<and>
    update_bytes m s bs index (le_bytes 8 w64) (caml_bytes_set64 m s index w64)"
proof -
  have 1: "update_bytes m s bs index [ucast (Int_val v)] (caml_bytes_set m s index v)"
    by (rule update_bytes_store[OF assms, where k = 0])
      (simp_all add: caml_bytes_set_def Let_def set_byte_store)
  have 2: "update_bytes m s bs index (le_bytes 2 (Long_val v)) (caml_bytes_set16 m s index v)"
    by (rule update_bytes_store[OF assms, where k = 1])
      (simp_all add: caml_bytes_set16_def Let_def set_byte_2 low_byte_mask low_byte_shift numeral_2_eq_2)
  have 4: "update_bytes m s bs index (le_bytes 4 w32) (caml_bytes_set32 m s index w32)"
    by (rule update_bytes_store[OF assms, where k = 3])
      (simp_all add: caml_bytes_set32_def Let_def set_byte_4 low_byte_mask low_byte_shift low_byte_scast[where k = 0, simplified] low_byte_scast le_bytes_nth upt_rec)
  have 8: "update_bytes m s bs index (le_bytes 8 w64) (caml_bytes_set64 m s index w64)"
    by (rule update_bytes_store[OF assms, where k = 7])
      (simp_all add: caml_bytes_set64_def Let_def set_byte_8 low_byte_mask low_byte_shift le_bytes_nth upt_rec)
  show ?thesis using 1 2 4 8 by simp
qed

section \<open>Block moves\<close>

text \<open>C0: \<open>blit\<close> between two ranges that lie inside their sequences puts the bytes of the source
  range, as they were before the call, at the destination range and keeps the rest of the
  destination; source and destination may be the same sequence with overlapping ranges.\<close>

theorem caml_blit_bytes_correct:
  assumes "string_block m s1 b1" and "string_block m s2 b2"
    and "in_range b1 ofs1 (unat (Long_val n))" and "in_range b2 ofs2 (unat (Long_val n))"
  shows "update_bytes m s2 b2 ofs2 (take (unat (Long_val n)) (drop (nat (sint (Long_val ofs1))) b1))
    (Inr (caml_blit_bytes m s1 ofs1 s2 ofs2 n))"
proof -
  let ?k = "unat (Long_val n)" and ?i = "nat (sint (Long_val ofs1))"
  let ?xs = "take ?k (drop ?i b1)"
  have xs: "length ?xs = ?k" by (rule in_range_list[OF assms(3)])
  have "load_bytes m (s1 + Long_val ofs1) ?k = ?xs"
    using string_block_load[OF assms(1)] by (rule_tac in_range_obtain[OF assms(3)]) simp
  then have "caml_blit_bytes m s1 ofs1 s2 ofs2 n = store_bytes m (s2 + Long_val ofs2) ?xs"
    by (simp add: caml_blit_bytes_def memmove_def)
  then show ?thesis using assms(4) xs update_bytes_Inr[OF assms(2)] by metis
qed

lemma caml_fill_bytes_correct:
  assumes "string_block m s bs" and "in_range bs offset (unat (Long_val len))"
  shows "update_bytes m s bs offset (replicate (unat (Long_val len)) (ucast (Int_val init)))
    (Inr (caml_fill_bytes m s offset len init))"
  using assms update_bytes_Inr[OF assms(1)] by (simp add: caml_fill_bytes_def)

section \<open>Allocation\<close>

lemma string_words_word:
  assumes "n < 2 ^ 60" 
  shows "(of_nat n + 8 :: 64 word) div 8 = of_nat (n div 8 + 1)"
proof -
  have "unat ((of_nat n + 8 :: 64 word) div 8) = n div 8 + 1"
    using assms by (simp add: unat_div unat_word_ariths unat_of_nat)
  then show ?thesis by (metis of_nat_unat ucast_id)
qed

lemma le_bytes_0: "le_bytes n 0 = replicate n 0"
  by (induction n) auto

lemma string_tail_load:
  assumes "k < 2 ^ 59"
  shows "load_bytes ((mem_store64 m (v + 8 * of_nat k) 0)(v + of_nat (8 * k + 7) := b)) v (8 * (k + 1)) =
    load_bytes m v (8 * k) @ replicate 7 0 @ [b]"
proof -
  define m1 where "m1 = store_bytes m (v + of_nat (8 * k)) (replicate 8 0)"
  have m1: "mem_store64 m (v + 8 * of_nat k) 0 = m1" by (simp add: m1_def mem_store64_def le_bytes_0)
  have l1: "load_bytes m1 v (8 * k + 8) = load_bytes m v (8 * k) @ replicate 8 0"
    using assms load_bytes_append[of m v "8 * k" 8] unfolding m1_def
    by (subst load_bytes_store_bytes_inside) (simp_all add: Let_def del: of_nat_mult)
  have "m1(v + of_nat (8 * k + 7) := b) = store_bytes m1 (v + of_nat (8 * k + 7)) [b]"
    using set_byte_store[of m1 v "of_nat (8 * k + 7)" b] unfolding set_byte_def .
  then have "load_bytes (m1(v + of_nat (8 * k + 7) := b)) v (8 * k + 8) =
      take (8 * k + 7) (load_bytes m1 v (8 * k + 8)) @ [b] @ drop (8 * k + 7 + 1) (load_bytes m1 v (8 * k + 8))"
    using assms load_bytes_store_bytes_inside[of "8 * k + 7" "[b]" "8 * k + 8" m1 v]
    by (simp add: Let_def del: of_nat_add of_nat_mult)
  also have "\<dots> = load_bytes m v (8 * k) @ replicate 7 0 @ [b]"
    unfolding l1 by simp
  finally show ?thesis unfolding m1 by (simp add: add.commute)
qed

lemma caml_alloc_string_block:
  assumes wf: "wf_dom st" and n: "n < 2 ^ 60" and al: "caml_alloc_string st (of_nat n) = Some (v, st')"
  shows "\<exists>bs. length bs = n \<and> string_block (heap st') v bs"
    and "carved st v (n div 8 + 1) st'"
proof -
  define k where "k = n div 8"
  have kn: "k < 2 ^ 57" "n \<le> 8 * k + 7" "8 * k \<le> n" "8 * k + 7 - n < 8" "8 * k + 7 - n = 7 - n mod 8"
    unfolding k_def using n by (simp, presburger+)
  have w: "(of_nat n + 8 :: 64 word) div 8 = of_nat (k + 1)" unfolding k_def by (rule string_words_word[OF n])
  have wn: "unat (of_nat (k + 1) :: 64 word) = k + 1" using kn(1) by (simp add: unat_of_nat del: of_nat_Suc of_nat_add)
  have off: "8 * (of_nat (k + 1)) - 1 = (of_nat (8 * k + 7) :: 64 word)" by simp
  have pad: "ucast (of_nat (8 * k + 7) - of_nat n :: 64 word) = (of_nat (8 * k + 7 - n) :: byte)"
  proof -
    have "take_bit 64 (8 * k + 7 - n) = 8 * k + 7 - n" using kn(4) by (intro take_bit_nat_eq_self) simp
    then show ?thesis using kn(2) by (simp only: of_nat_diff [symmetric]) (simp add: unsigned_of_nat del: of_nat_diff)
  qed
  have idx: "unat (of_nat (k + 1) - 1 :: 64 word) = k" using kn(1) by (simp add: unat_of_nat)
  obtain st1 where small: "k + 1 \<le> 256" and st1: "Alloc_small st (of_nat (k + 1)) String_tag = Some (v, st1)"
    and st': "st' = st1\<lparr>heap := (mem_store64 (heap st1) (v + 8 * of_nat k) 0)
        (v + of_nat (8 * k + 7) := of_nat (8 * k + 7 - n))\<rparr>"
    using al wn unfolding caml_alloc_string_def w Let_def idx set_field_def Bsize_wsize_def
      mult.commute[of "of_nat (k + 1)" 8] off pad
    by (auto simp: Max_young_wosize_def word_le_nat_alt split: if_splits simp del: of_nat_add of_nat_mult of_nat_diff)
  have c: "carved st v (k + 1) st1" and hd: "Hd_val (heap st1) v = Make_header_with_reserved (of_nat (k + 1)) String_tag 0 0"
    using Alloc_small_carved[OF wf _ st1[unfolded Alloc_small_def]] wn small by simp_all
  have out: "same_outside v (8 * (k + 1)) (heap st1) (heap st')"
    unfolding st' using kn(1) same_outside_store64[of "8 * k" "8 * (k + 1)" v "heap st1" 0]
     same_outside_upd[of "8 * k + 7" "8 * (k + 1)" v _ "of_nat (8 * k + 7 - n)"]
    by (auto intro: same_outside_trans simp del: of_nat_add of_nat_diff)
  show "carved st v (n div 8 + 1) st'"
    using carved_inside[OF c out] unfolding k_def st' by simp
  let ?bs = "load_bytes (heap st1) v (8 * k) @ replicate (n - 8 * k) 0"
  have len: "length ?bs = n" using kn by simp
  have img: "string_image ?bs = load_bytes (heap st1) v (8 * k) @ replicate 7 0 @ [of_nat (8 * k + 7 - n)]"
  proof -
    have "replicate (n - 8 * k) (0 :: byte) @ replicate (8 * k + 7 - n) 0 = replicate 7 0"
      using kn by (simp flip: replicate_add)
    then show ?thesis unfolding string_image_def string_pad_def len kn(5)[symmetric] by simp
  qed
  have "string_block (heap st') v ?bs"
    unfolding string_block_def img
    using string_tail_load[of k "heap st1" v] kn(1) small len hd Hd_val_same_outside[OF out] wn
    by (simp add: st' string_words_def k_def[symmetric] Tag_val_Hd_val Allocated_wosize_val_def
      del: of_nat_add of_nat_diff)
  then show "\<exists>bs. length bs = n \<and> string_block (heap st') v bs" using len by blast
qed

text \<open>The byte after the contents is NUL, so a C function may write its terminator there.\<close>

lemma string_block_nul: "string_block m s bs \<Longrightarrow> m (s + of_nat (length bs)) = 0"
  using string_block_byte[of m s bs "length bs"] string_pad_bounds(2)[of bs]
  by (cases "string_pad bs") (auto simp: string_image_def nth_append)

lemma string_block_overwrite:
  assumes "string_block m s bs" "length p = length bs"
  shows "string_block (store_bytes m s p) s p"
    and "store_bytes m s (p @ [0]) = store_bytes m s p"
proof -
  show blk: "string_block (store_bytes m s p) s p"
    using string_block_store[OF assms(1), of 0 p] assms(2) by simp
  have "length p < 2 ^ 63" using string_block_length[OF blk] by simp
  then have "store_bytes m s (p @ [0]) = (store_bytes m s p)(s + of_nat (length p) := 0)"
    using set_byte_snoc[of p "of_nat (length p)" m s 0 0] by (simp add: set_byte_def)
  then show "store_bytes m s (p @ [0]) = store_bytes m s p"
    using string_block_nul[OF blk] by (simp add: fun_upd_idem)
qed

lemma caml_alloc_string_overwrite:
  assumes "wf_dom st" "length p < 2 ^ 60" "caml_alloc_string st (of_nat (length p)) = Some (v, st1)"
    and "st' = st1\<lparr>heap := store_bytes (heap st1) v p\<rparr>"
  shows "string_block (heap st') v p" and "carved st v (string_words p) st'"
    and "store_bytes (heap st1) v (p @ [0]) = store_bytes (heap st1) v p"
proof -
  obtain bs where bs: "length p = length bs" "string_block (heap st1) v bs"
    using caml_alloc_string_block(1)[OF assms(1-3)] by metis
  show "string_block (heap st') v p" "store_bytes (heap st1) v (p @ [0]) = store_bytes (heap st1) v p"
    using string_block_overwrite[OF bs(2,1)] assms(4) by simp_all
  have "same_outside v (8 * string_words p) (heap st1) (store_bytes (heap st1) v p)"
    using same_outside_store_bytes[of 0 p "8 * string_words p" v "heap st1"] assms(2)
      string_pad_bounds[of p] by simp
  then show "carved st v (string_words p) st'"
    using carved_inside caml_alloc_string_block(2)[OF assms(1-3)] unfolding assms(4) string_words_def by blast
qed

text \<open>C31: a string allocated from a byte sequence is well formed with exactly those bytes,
  embedded NULs included, and is carved out of free space; it reads back with the right
  length.\<close>

theorem caml_alloc_initialized_string_correct:
  assumes "wf_dom st" and "length p < 2 ^ 60" and "caml_alloc_initialized_string st p = Some (v, st')"
  shows "string_block (heap st') v p \<and> carved st v (string_words p) st' \<and>
    caml_string_length (heap st') v = of_nat (length p)"
  using assms caml_alloc_string_overwrite(1,2)[OF assms(1,2)] caml_string_length_block
  by (auto simp: caml_alloc_initialized_string_def)

text \<open>\<open>caml_alloc_sprintf\<close> returns the formatted text whatever its length: the copy from the
  local buffer and the second formatting into the allocated string give the same block, the
  final NUL of the latter falling on the padding.\<close>

theorem caml_alloc_sprintf_correct:
  assumes "wf_dom st" and "length buf < 2 ^ 60" and "caml_alloc_sprintf st (Some buf) = Inr (Some (v, st'))"
  shows "string_block (heap st') v buf \<and> carved st v (string_words buf) st'"
  using assms caml_alloc_string_overwrite[OF assms(1,2)]
  by (auto simp: caml_alloc_sprintf_def caml_alloc_initialized_string_def Let_def split: if_splits)

section \<open>Examples\<close>

text \<open>Two strings, \<open>ab\<close> and \<open>abc\<close>, laid out in memory.\<close>

definition layout_string :: "mem \<Rightarrow> 64 word \<Rightarrow> bytes \<Rightarrow> mem" where
  "layout_string m a bs =
     store_bytes m a (le_bytes 8 (Make_header (of_nat (string_words bs)) String_tag 0) @ string_image bs)"

definition example_mem :: mem where
  "example_mem = layout_string (layout_string (\<lambda>_. 0) 0x1000 [97, 98]) 0x2000 [97, 98, 99]"

lemma layout_string_block:
  assumes "length bs < 2 ^ 40"
  shows "string_block (layout_string m a bs) (a + 8) bs"
proof -
  let ?h = "Make_header (of_nat (string_words bs)) String_tag 0"
  let ?m = "layout_string m a bs" and ?n = "8 + 8 * string_words bs"
  have w: "string_words bs < 2 ^ 46" using assms by (simp add: string_words_def)
  have "load_bytes ?m a ?n = le_bytes 8 ?h @ string_image bs"
    using load_bytes_store_bytes_same[of "le_bytes 8 ?h @ string_image bs" m a] w
    by (simp add: layout_string_def)
  then have l: "load_bytes ?m a 8 = le_bytes 8 ?h" "load_bytes ?m (a + 8) (8 * string_words bs) = string_image bs"
    using load_bytes_append[of ?m a 8 "8 * string_words bs"] by simp_all
  have "Hd_val ?m (a + 8) = ?h"
    using l(1) le_word_le_bytes[of 8 ?h] by (simp add: Hd_val_def mem_load64_def)
  moreover have "unat (of_nat (string_words bs) :: 64 word) = string_words bs"
    using w by (simp add: unat_of_nat)
  ultimately show ?thesis
    using l(2) w by (simp add: string_block_def Tag_val_Hd_val Allocated_wosize_val_def Make_header_def)
qed

lemma string_block_frame:
  assumes "string_block m s xs" "load_bytes m' (s - 8) (8 + 8 * string_words xs) = load_bytes m (s - 8) (8 + 8 * string_words xs)"
  shows "string_block m' s xs"
proof -
  have "load_bytes m' (s - 8) 8 = load_bytes m (s - 8) 8"
    "load_bytes m' s (8 * string_words xs) = load_bytes m s (8 * string_words xs)"
    using assms(2) by (simp_all add: load_bytes_append)
  then have "Hd_val m' s = Hd_val m s" "load_bytes m' s (8 * string_words xs) = load_bytes m s (8 * string_words xs)"
    by (simp_all add: Hd_val_def mem_load64_def)
  then show ?thesis using assms(1) by (simp add: string_block_def Tag_val_Hd_val Allocated_wosize_val_def)
qed

lemma example_strings:
  "string_block example_mem 0x1008 [97, 98]" "string_block example_mem 0x2008 [97, 98, 99]"
proof -
  let ?m = "layout_string (\<lambda>_. 0) 0x1000 [97, 98]"
  show "string_block example_mem 0x2008 [97, 98, 99]"
    using layout_string_block[where bs = "[97, 98, 99]" and m = ?m and a = "0x2000"] by (simp add: example_mem_def)
  have unfold2: "example_mem = store_bytes ?m 0x2000
      (le_bytes 8 (Make_header (of_nat (string_words [97, 98, 99])) String_tag 0) @ string_image [97, 98, 99])"
    by (simp only: example_mem_def layout_string_def)
  have "16 \<le> unat (0x1000 + of_nat i - 0x2000 :: 64 word)" if "i < 16" for i
  proof -
    define d :: "64 word" where "d = 0x1000 - of_nat i"
    have "unat d = 0x1000 - i"
      unfolding d_def using that by (subst unat_sub) (simp_all add: word_le_nat_alt unat_of_nat)
    then have "unat (- d) = 2 ^ 64 - (0x1000 - i)" using that by (subst unat_uminus) auto
    moreover have "0x1000 + of_nat i - 0x2000 = - d" by (simp add: d_def)
    ultimately show ?thesis using that by simp
  qed
  then have "load_bytes example_mem 0x1000 16 = load_bytes ?m 0x1000 16"
    unfolding unfold2
    by (intro load_bytes_store_bytes_other) (simp only: length_append length_le_bytes length_string_image
        string_words_def list.size, simp)
  then show "string_block example_mem 0x1008 [97, 98]"
    using layout_string_block[where bs = "[97, 98]" and m = "\<lambda>_. 0" and a = "0x1000"]
      string_block_frame[of ?m "0x1008" "[97, 98]" example_mem] by (simp add: string_words_def)
qed

theorem caml_string_equal_correct_witness:
  "caml_string_equal example_mem 0x1008 0x2008 = Val_false \<and>
   caml_string_equal example_mem 0x1008 0x1008 = Val_true"
  using caml_string_equal_correct[OF example_strings(1) example_strings(2)]
    caml_string_equal_correct[OF example_strings(1) example_strings(1)] by simp

theorem caml_string_compare_correct_witness:
  "caml_string_compare example_mem 0x1008 0x2008 = Val_int (- 1)"
  using caml_string_compare_correct[OF example_strings(1) example_strings(2)] by simp

theorem caml_string_get_correct_witness:
  "caml_string_get example_mem 0x2008 (Val_int 2) = Inr (Val_int 99) \<and>
   caml_string_get16 example_mem 0x2008 (Val_int 2) = Inl Array_bound_error"
  using caml_string_get_correct[OF example_strings(2), of "Val_int 2"]
  by (simp add: access_bytes_def in_range_def Val_int_def Long_val_Val_long fits_long_def Max_long_def Min_long_def)

theorem caml_bytes_set_correct_witness:
  "update_bytes example_mem 0x2008 [97, 98, 99] (Val_int 1) (le_bytes 2 (Long_val (Val_int 0x4241)))
     (caml_bytes_set16 example_mem 0x2008 (Val_int 1) (Val_int 0x4241))"
  using caml_bytes_set_correct[OF example_strings(2), of "Val_int 1" "Val_int 0x4241" 0 0] by blast

theorem caml_blit_bytes_correct_witness:
  "update_bytes example_mem 0x2008 [97, 98, 99] (Val_int 1) [97, 98]
     (Inr (caml_blit_bytes example_mem 0x2008 (Val_int 0) 0x2008 (Val_int 1) (Val_int 2)))"
  using caml_blit_bytes_correct[OF example_strings(2) example_strings(2), of "Val_int 0" "Val_int 2" "Val_int 1"]
  by (simp add: in_range_def Val_int_def Long_val_Val_long fits_long_def Max_long_def Min_long_def)

abbreviation example_dom :: dom_st where
  "example_dom \<equiv> \<lparr>young_ptr = 0x10000, young_limit = 0x8000, atom_table = 0, heap = (\<lambda>_. 0)\<rparr>"

lemma example_dom_alloc:
  "wf_dom example_dom" "\<exists>v st'. caml_alloc_string example_dom 3 = Some (v, st')"
  by (simp_all add: wf_dom_def caml_alloc_string_def Alloc_small_def Alloc_small_with_reserved_def Let_def
      caml_check_gc_interrupt_def Bsize_wsize_def Whsize_wosize_def Max_young_wosize_def)

theorem caml_alloc_initialized_string_correct_witness:
  "case caml_alloc_initialized_string example_dom [97, 0, 98] of
     None \<Rightarrow> False
   | Some (v, st') \<Rightarrow> string_block (heap st') v [97, 0, 98] \<and> caml_string_length (heap st') v = 3"
proof -
  obtain v st' where al: "caml_alloc_initialized_string example_dom [97, 0, 98] = Some (v, st')"
    using example_dom_alloc(2) by (auto simp: caml_alloc_initialized_string_def)
  show ?thesis
    using caml_alloc_initialized_string_correct[OF example_dom_alloc(1) _ al] unfolding al by simp
qed

theorem caml_alloc_sprintf_correct_witness:
  "case caml_alloc_sprintf example_dom (Some [97, 98, 99]) of
     Inr (Some (v, st')) \<Rightarrow> string_block (heap st') v [97, 98, 99]
   | _ \<Rightarrow> False"
proof -
  obtain v st' where al: "caml_alloc_sprintf example_dom (Some [97, 98, 99]) = Inr (Some (v, st'))"
    using example_dom_alloc(2) by (auto simp: caml_alloc_sprintf_def caml_alloc_initialized_string_def)
  show ?thesis
    using caml_alloc_sprintf_correct[OF example_dom_alloc(1) _ al] unfolding al by simp
qed

section \<open>Blocks of an example heap\<close>

text \<open>A block with the given fields.\<close>

definition layout_block :: "mem \<Rightarrow> 64 word \<Rightarrow> byte \<Rightarrow> mlvalue list \<Rightarrow> mem" where
  "layout_block m a tag vs = store_bytes m a (le_bytes 8 (Make_header (of_nat (length vs)) tag 0) @ concat (map (le_bytes 8) vs))"

lemma load_bytes_slice: "i + k \<le> n \<Longrightarrow> load_bytes m (a + of_nat i) k = take k (drop i (load_bytes m a n))"
  by (rule nth_equalityI) (auto simp: load_bytes_def add.assoc)

lemma length_concat_le_bytes [simp]: "length (concat (map (le_bytes k) vs)) = k * length vs"
  by (induction vs) simp_all

lemma concat_le_bytes_slice: "i < length vs \<Longrightarrow> take 8 (drop (8 * i) (concat (map (le_bytes 8) vs))) = le_bytes 8 (vs ! i)"
proof (induction vs arbitrary: i)
  case (Cons v vs)
  then show ?case by (cases i) simp_all
qed simp

lemma layout_block:
  fixes m :: mem and a :: "64 word" and tag :: byte
  assumes "length vs < 2 ^ 46"
  defines "m' \<equiv> layout_block m a tag vs"
  shows "Tag_val m' (a + 8) = tag" "Allocated_wosize_val m' (a + 8) = of_nat (length vs)" "Reserved_val m' (a + 8) = 0"
    "i < length vs \<Longrightarrow> Field m' (a + 8) i = vs ! i"
proof -
  let ?h = "Make_header (of_nat (length vs)) tag 0"
  let ?n = "8 + 8 * length vs"
  have l: "load_bytes m' a ?n = le_bytes 8 ?h @ concat (map (le_bytes 8) vs)"
    using load_bytes_store_bytes_same[of "le_bytes 8 ?h @ concat (map (le_bytes 8) vs)" m a] assms
    by (simp add: m'_def layout_block_def)
  have "load_bytes m' a 8 = le_bytes 8 ?h" using load_bytes_slice[of 0 8 ?n m' a] l by simp
  then have h: "Hd_val m' (a + 8) = ?h" using le_word_le_bytes[of 8 ?h] by (simp add: Hd_val_def mem_load64_def)
  have u: "unat (of_nat (length vs) :: 64 word) < 2 ^ 46" using assms(1) by (simp add: unat_of_nat)
  show "Tag_val m' (a + 8) = tag" "Allocated_wosize_val m' (a + 8) = of_nat (length vs)" "Reserved_val m' (a + 8) = 0"
    using h u by (simp_all add: Tag_val_Hd_val Allocated_wosize_val_def Reserved_val_def Make_header_def Reserved_Make_header)
  show "Field m' (a + 8) i = vs ! i" if i: "i < length vs"
  proof -
    have "load_bytes m' (a + of_nat (8 + 8 * i)) 8 = take 8 (drop (8 + 8 * i) (load_bytes m' a ?n))"
      using i by (intro load_bytes_slice) simp
    also have "\<dots> = le_bytes 8 (vs ! i)" unfolding l using concat_le_bytes_slice[OF i] by simp
    finally show ?thesis using le_word_le_bytes[of 8 "vs ! i"] by (simp add: Field_def mem_load64_def ac_simps)
  qed
qed

end
