(* ===== verification/Skiplist.thy ===== *)
theory Skiplist
  imports Runtime_Prelude
begin

text \<open>
  Skip lists, \<open>runtime/skiplist.c\<close>: dictionaries from words to words kept as linked cells of
  several levels.  Cells live in a store of addresses.  A pointer \<open>None\<close> is NULL; a cursor
  \<open>None\<close> is the forward array of the list head and \<open>Some a\<close> that of cell \<open>a\<close>.  An access to an
  unallocated cell or outside a forward array makes the operation \<open>None\<close>, and so does a loop
  that does not end: that an operation returns includes its memory safety and termination.
  Allocation is a parameter, a function from the live cells to a new address or \<open>None\<close> when
  memory is exhausted.
\<close>

section \<open>Cells and heads\<close>

type_synonym ptr = "nat option"

record skipcell =
  sc_key :: uintnat
  sc_data :: uintnat
  sc_forward :: "ptr list"

record skiplist =
  sl_forward :: "ptr list"
  sl_level :: nat
  sl_cells :: "nat \<rightharpoonup> skipcell"

abbreviation NUM_LEVELS :: nat where "NUM_LEVELS \<equiv> 17"

definition SKIPLIST_STATIC_INITIALIZER :: skiplist where
  "SKIPLIST_STATIC_INITIALIZER =
     \<lparr>sl_forward = replicate NUM_LEVELS None, sl_level = 0, sl_cells = Map.empty\<rparr>"

text \<open>\<open>e[i]\<close> and its assignment, for a cursor \<open>e\<close>.\<close>

definition get_forward :: "skiplist \<Rightarrow> ptr \<Rightarrow> nat \<Rightarrow> ptr option" where
  "get_forward sk e i =
     (case e of
        None \<Rightarrow> if i < length (sl_forward sk) then Some (sl_forward sk ! i) else None
      | Some a \<Rightarrow>
          (case sl_cells sk a of
             None \<Rightarrow> None
           | Some c \<Rightarrow> if i < length (sc_forward c) then Some (sc_forward c ! i) else None))"

definition set_forward :: "skiplist \<Rightarrow> ptr \<Rightarrow> nat \<Rightarrow> ptr \<Rightarrow> skiplist option" where
  "set_forward sk e i p =
     (case e of
        None \<Rightarrow>
          if i < length (sl_forward sk) then Some (sk\<lparr>sl_forward := (sl_forward sk)[i := p]\<rparr>) else None
      | Some a \<Rightarrow>
          (case sl_cells sk a of
             None \<Rightarrow> None
           | Some c \<Rightarrow>
               if i < length (sc_forward c)
               then Some (sk\<lparr>sl_cells := (sl_cells sk)(a \<mapsto> c\<lparr>sc_forward := (sc_forward c)[i := p]\<rparr>)\<rparr>)
               else None))"

section \<open>Random levels\<close>

function random_level_loop :: "32 word \<Rightarrow> nat \<Rightarrow> nat" where
  "random_level_loop r level =
     (if r AND 0xC0000000 = 0xC0000000 then random_level_loop (push_bit 2 r) (level + 1) else level)"
  by pat_completeness auto

definition random_level :: "32 word \<Rightarrow> nat \<times> 32 word" where
  "random_level random_seed =
     (let r = random_seed * 69069 + 25173 in (random_level_loop r 0, r))"

section \<open>Initialization and search\<close>

definition caml_skiplist_init :: "skiplist \<Rightarrow> skiplist" where
  "caml_skiplist_init sk = sk\<lparr>sl_forward := replicate NUM_LEVELS None, sl_level := 0\<rparr>"

text \<open>The search loop of one level: \<open>Inl\<close> is the data found, \<open>Inr\<close> the cursor for the next level.\<close>

partial_function (option) find_walk :: "skiplist \<Rightarrow> uintnat \<Rightarrow> nat \<Rightarrow> ptr \<Rightarrow> (uintnat + ptr) option" where
  "find_walk sk key i e =
     Option.bind (get_forward sk e i) (\<lambda>f.
       case f of
         None \<Rightarrow> Some (Inr e)
       | Some a \<Rightarrow>
           Option.bind (sl_cells sk a) (\<lambda>c.
             if sc_key c > key then Some (Inr e)
             else if sc_key c = key then Some (Inl (sc_data c))
             else find_walk sk key i f))"

fun find_levels :: "skiplist \<Rightarrow> uintnat \<Rightarrow> nat \<Rightarrow> ptr \<Rightarrow> uintnat option option" where
  "find_levels sk key 0 e =
     Option.bind (find_walk sk key 0 e) (\<lambda>r.
       case r of Inl d \<Rightarrow> Some (Some d) | Inr _ \<Rightarrow> Some None)"
| "find_levels sk key (Suc i) e =
     Option.bind (find_walk sk key (Suc i) e) (\<lambda>r.
       case r of Inl d \<Rightarrow> Some (Some d) | Inr e' \<Rightarrow> find_levels sk key i e')"

definition caml_skiplist_find :: "skiplist \<Rightarrow> uintnat \<Rightarrow> uintnat option option" where
  "caml_skiplist_find sk key = find_levels sk key (sl_level sk) None"

partial_function (option) below_walk :: "skiplist \<Rightarrow> uintnat \<Rightarrow> nat \<Rightarrow> ptr \<Rightarrow> ptr \<Rightarrow> (ptr \<times> ptr) option" where
  "below_walk sk k i e lst =
     Option.bind (get_forward sk e i) (\<lambda>f.
       case f of
         None \<Rightarrow> Some (e, lst)
       | Some a \<Rightarrow>
           Option.bind (sl_cells sk a) (\<lambda>c.
             if sc_key c > k then Some (e, lst) else below_walk sk k i f f))"

fun below_levels :: "skiplist \<Rightarrow> uintnat \<Rightarrow> nat \<Rightarrow> ptr \<Rightarrow> ptr \<Rightarrow> ptr option" where
  "below_levels sk k 0 e lst = map_option snd (below_walk sk k 0 e lst)"
| "below_levels sk k (Suc i) e lst =
     Option.bind (below_walk sk k (Suc i) e lst) (\<lambda>(e', lst1). below_levels sk k i e' lst1)"

definition caml_skiplist_find_below :: "skiplist \<Rightarrow> uintnat \<Rightarrow> (uintnat \<times> uintnat) option option" where
  "caml_skiplist_find_below sk k =
     Option.bind (below_levels sk k (sl_level sk) None None) (\<lambda>lst.
       case lst of
         None \<Rightarrow> Some None
       | Some a \<Rightarrow> map_option (\<lambda>c. Some (sc_key c, sc_data c)) (sl_cells sk a))"

section \<open>Insertion\<close>

text \<open>The loop that looks for the place of a key on one level.\<close>

partial_function (option) walk :: "skiplist \<Rightarrow> uintnat \<Rightarrow> nat \<Rightarrow> ptr \<Rightarrow> ptr option" where
  "walk sk key i e =
     Option.bind (get_forward sk e i) (\<lambda>f.
       case f of
         None \<Rightarrow> Some e
       | Some a \<Rightarrow>
           Option.bind (sl_cells sk a) (\<lambda>c. if sc_key c \<ge> key then Some e else walk sk key i f))"

text \<open>The array \<open>update\<close>: the cursor at which each level was left, lowest level first; the slot
  \<open>&e[i]\<close> is the pair of the cursor and \<open>i\<close>.\<close>

fun locate :: "skiplist \<Rightarrow> uintnat \<Rightarrow> nat \<Rightarrow> ptr \<Rightarrow> ptr list option" where
  "locate sk key 0 e = map_option (\<lambda>e'. [e']) (walk sk key 0 e)"
| "locate sk key (Suc i) e =
     Option.bind (walk sk key (Suc i) e) (\<lambda>e'.
       map_option (\<lambda>us. us @ [e']) (locate sk key i e'))"

text \<open>\<open>for (i = 0; i <= new_level; i++) { f->forward[i] = *update[i]; *update[i] = f; }\<close>\<close>

fun link_levels :: "skiplist \<Rightarrow> nat \<Rightarrow> nat \<Rightarrow> ptr list \<Rightarrow> skiplist option" where
  "link_levels sk f i [] = Some sk"
| "link_levels sk f i (u # us) =
     Option.bind (get_forward sk u i) (\<lambda>p.
     Option.bind (set_forward sk (Some f) i p) (\<lambda>sk1.
     Option.bind (set_forward sk1 u i (Some f)) (\<lambda>sk2. link_levels sk2 f (i + 1) us)))"

text \<open>The part that adds a cell: \<open>update\<close> is extended by the head for the levels not used so far,
  and the head's level is raised before the allocation, which may fail fatally.\<close>

definition insert_element ::
  "((nat \<rightharpoonup> skipcell) \<Rightarrow> nat option) \<Rightarrow> 32 word \<Rightarrow> skiplist \<Rightarrow> uintnat \<Rightarrow> uintnat \<Rightarrow> ptr list \<Rightarrow>
    (bool result \<times> 32 word \<times> skiplist) option" where
  "insert_element stat_alloc random_seed sk key data update =
     (let (new_level, seed) = random_level random_seed;
          update' =
            (if new_level > sl_level sk
             then update @ replicate (new_level - sl_level sk) None else update);
          sk1 = (if new_level > sl_level sk then sk\<lparr>sl_level := new_level\<rparr> else sk)
      in case stat_alloc (sl_cells sk1) of
           None \<Rightarrow> Some (Inl (Fatal_error ''Out of memory''), seed, sk1)
         | Some a \<Rightarrow>
             (let c = \<lparr>sc_key = key, sc_data = data, sc_forward = replicate (new_level + 1) None\<rparr>;
                  sk2 = sk1\<lparr>sl_cells := (sl_cells sk1)(a \<mapsto> c)\<rparr>
              in map_option (\<lambda>sk3. (Inr False, seed, sk3))
                   (link_levels sk2 a 0 (take (new_level + 1) update'))))"

definition caml_skiplist_insert ::
  "((nat \<rightharpoonup> skipcell) \<Rightarrow> nat option) \<Rightarrow> 32 word \<Rightarrow> skiplist \<Rightarrow> uintnat \<Rightarrow> uintnat \<Rightarrow>
    (bool result \<times> 32 word \<times> skiplist) option" where
  "caml_skiplist_insert stat_alloc random_seed sk key data =
     Option.bind (locate sk key (sl_level sk) None) (\<lambda>update.
     Option.bind (get_forward sk (update ! 0) 0) (\<lambda>f.
       case f of
         None \<Rightarrow> insert_element stat_alloc random_seed sk key data update
       | Some a \<Rightarrow>
           Option.bind (sl_cells sk a) (\<lambda>c.
             if sc_key c = key
             then Some (Inr True, random_seed, sk\<lparr>sl_cells := (sl_cells sk)(a \<mapsto> c\<lparr>sc_data := data\<rparr>)\<rparr>)
             else insert_element stat_alloc random_seed sk key data update)))"

section \<open>Deletion\<close>

text \<open>\<open>if (*update[i] == f) *update[i] = f->forward[i];\<close> for each level.\<close>

fun unlink_levels :: "skiplist \<Rightarrow> nat \<Rightarrow> nat \<Rightarrow> ptr list \<Rightarrow> skiplist option" where
  "unlink_levels sk f i [] = Some sk"
| "unlink_levels sk f i (u # us) =
     Option.bind (get_forward sk u i) (\<lambda>p.
       if p = Some f then
         Option.bind (get_forward sk (Some f) i) (\<lambda>q.
         Option.bind (set_forward sk u i q) (\<lambda>sk1. unlink_levels sk1 f (i + 1) us))
       else unlink_levels sk f (i + 1) us)"

text \<open>\<open>while (sk->level > 0 && sk->forward[sk->level] == NULL) sk->level--;\<close>\<close>

fun lower_level :: "ptr list \<Rightarrow> nat \<Rightarrow> nat" where
  "lower_level fs 0 = 0"
| "lower_level fs (Suc l) = (if fs ! Suc l = None then lower_level fs l else Suc l)"

definition caml_skiplist_remove :: "skiplist \<Rightarrow> uintnat \<Rightarrow> (bool \<times> skiplist) option" where
  "caml_skiplist_remove sk key =
     Option.bind (locate sk key (sl_level sk) None) (\<lambda>update.
     Option.bind (get_forward sk (update ! 0) 0) (\<lambda>f.
       case f of
         None \<Rightarrow> Some (False, sk)
       | Some a \<Rightarrow>
           Option.bind (sl_cells sk a) (\<lambda>c.
             if sc_key c \<noteq> key then Some (False, sk)
             else
               map_option (\<lambda>sk1.
                   (True, sk1\<lparr>sl_cells := (sl_cells sk1)(a := None),
                              sl_level := lower_level (sl_forward sk1) (sl_level sk1)\<rparr>))
                 (unlink_levels sk a 0 update))))"

section \<open>Emptying and iterating\<close>

partial_function (option) free_cells :: "(nat \<rightharpoonup> skipcell) \<Rightarrow> ptr \<Rightarrow> (nat \<rightharpoonup> skipcell) option" where
  "free_cells cells e =
     (case e of
        None \<Rightarrow> Some cells
      | Some a \<Rightarrow>
          Option.bind (cells a) (\<lambda>c.
            case sc_forward c of
              [] \<Rightarrow> None
            | nxt # _ \<Rightarrow> free_cells (cells(a := None)) nxt))"

definition caml_skiplist_empty :: "skiplist \<Rightarrow> skiplist option" where
  "caml_skiplist_empty sk =
     Option.bind (get_forward sk None 0) (\<lambda>e.
       map_option (\<lambda>cells.
           sk\<lparr>sl_cells := cells,
              sl_forward := replicate (sl_level sk + 1) None @ drop (sl_level sk + 1) (sl_forward sk),
              sl_level := 0\<rparr>)
         (free_cells (sl_cells sk) e))"

text \<open>The keys and data in the order \<open>FOREACH_SKIPLIST_ELEMENT\<close> visits them, for an action that
  does not change the list.\<close>

partial_function (option) foreach_cells :: "(nat \<rightharpoonup> skipcell) \<Rightarrow> ptr \<Rightarrow> (uintnat \<times> uintnat) list option" where
  "foreach_cells cells e =
     (case e of
        None \<Rightarrow> Some []
      | Some a \<Rightarrow>
          Option.bind (cells a) (\<lambda>c.
            case sc_forward c of
              [] \<Rightarrow> None
            | nxt # _ \<Rightarrow> Option.bind (foreach_cells cells nxt) (\<lambda>xs. Some ((sc_key c, sc_data c) # xs))))"

definition FOREACH_SKIPLIST_ELEMENT :: "skiplist \<Rightarrow> (uintnat \<times> uintnat) list option" where
  "FOREACH_SKIPLIST_ELEMENT sk = Option.bind (get_forward sk None 0) (foreach_cells (sl_cells sk))"

section \<open>Levels are bounded\<close>

lemma top_bits: "r AND 0xC0000000 = (0xC0000000 :: 32 word) \<longleftrightarrow> bit r 30 \<and> bit r 31"
proof -
  define M :: "32 word" where "M = push_bit 30 (mask 2)"
  have M: "0xC0000000 = M" unfolding M_def by (simp add: mask_eq_exp_minus_1 push_bit_eq_mult)
  have m: "bit M n \<longleftrightarrow> n = 30 \<or> n = 31" for n
    unfolding M_def bit_push_bit_iff bit_mask_iff possible_bit_def by auto
  have "bit r n" if "r AND M = M" "bit M n" for n using that by (metis bit_and_iff)
  moreover have "r AND M = M" if "bit r 30 \<and> bit r 31"
    by (rule bit_word_eqI) (use that m in \<open>auto simp: bit_and_iff\<close>)
  ultimately show ?thesis unfolding M using m by blast
qed

lemma card_bits_shift:
  assumes "bit r 31"
  shows "card {n. n < 32 \<and> bit (push_bit 2 r :: 32 word) n} < card {n. n < 32 \<and> bit r n}" (is "card ?A < card ?B")
proof -
  have A: "?A = (\<lambda>n. n + 2) ` {n. n < 30 \<and> bit r n}"
  proof (rule set_eqI)
    fix n
    show "n \<in> ?A \<longleftrightarrow> n \<in> (\<lambda>n. n + 2) ` {n. n < 30 \<and> bit r n}"
      unfolding bit_push_bit_iff by (auto simp: image_iff intro!: exI[of _ "n - 2"])
  qed
  have "card ?A = card {n. n < 30 \<and> bit r n}" unfolding A by (rule card_image) (simp add: inj_on_def)
  also have "\<dots> < card ?B"
  proof (rule psubset_card_mono)
    have "31 \<in> ?B" "31 \<notin> {n. n < 30 \<and> bit r n}" using assms by simp_all
    moreover have "n < 32" if "n < 30" for n :: nat using that by simp
    ultimately show "{n. n < 30 \<and> bit r n} \<subset> ?B" by blast
  qed simp
  finally show ?thesis .
qed

termination random_level_loop
  by (relation "measure (\<lambda>(r, _). card {n. n < 32 \<and> bit r n})")
    (rule wf_measure, unfold in_measure prod.case top_bits, erule conjE, erule card_bits_shift)

declare random_level_loop.simps [simp del]

lemma random_level_loop_bound:
  assumes "\<And>n. n < 2 * level \<Longrightarrow> \<not> bit r n" "level \<le> 16"
  shows "random_level_loop r level \<le> 16"
  using assms
proof (induction r level rule: random_level_loop.induct)
  case (1 r level)
  show ?case
  proof (cases "r AND 0xC0000000 = 0xC0000000")
    case True
    then have "bit r 30" by (simp add: top_bits)
    then have "level \<le> 15" using "1.prems"(1)[of 30] by (rule_tac ccontr) simp
    moreover have "\<not> bit (push_bit 2 r) n" if "n < 2 * (level + 1)" for n
      using "1.prems"(1)[of "n - 2"] that by (auto simp: bit_push_bit_iff)
    ultimately show ?thesis
      using True "1.IH" by (simp add: random_level_loop.simps[of r])
  qed (use "1.prems" in \<open>simp add: random_level_loop.simps\<close>)
qed

text \<open>The assertion \<open>level < NUM_LEVELS\<close>: 32 random bits run out in time.\<close>

lemma random_level_bound: "fst (random_level seed) < NUM_LEVELS"
  using random_level_loop_bound[of 0 "seed * 69069 + 25173"] by (simp add: random_level_def Let_def)

section \<open>The invariant\<close>

definition height :: "skiplist \<Rightarrow> ptr \<Rightarrow> nat" where
  "height sk e =
     (case e of
        None \<Rightarrow> NUM_LEVELS
      | Some a \<Rightarrow> (case sl_cells sk a of None \<Rightarrow> 0 | Some c \<Rightarrow> length (sc_forward c)))"

definition key_at :: "skiplist \<Rightarrow> nat \<Rightarrow> uintnat" where
  "key_at sk a = (case sl_cells sk a of None \<Rightarrow> 0 | Some c \<Rightarrow> sc_key c)"

definition data_at :: "skiplist \<Rightarrow> nat \<Rightarrow> uintnat" where
  "data_at sk a = (case sl_cells sk a of None \<Rightarrow> 0 | Some c \<Rightarrow> sc_data c)"

definition tall :: "skiplist \<Rightarrow> nat \<Rightarrow> nat \<Rightarrow> bool" where
  "tall sk i a \<longleftrightarrow> i < height sk (Some a)"

text \<open>The cursor after the cells \<open>ys\<close> have been passed.\<close>

definition cur :: "nat list \<Rightarrow> ptr" where
  "cur ys = (if ys = [] then None else Some (last ys))"

text \<open>\<open>xs\<close> are the cells in list order: they are all the live cells, have increasing keys and
  between one and \<open>level + 1\<close> forward pointers, and on each level a cell points to the next
  cell of the list that reaches this level.\<close>

definition skip_inv :: "skiplist \<Rightarrow> nat list \<Rightarrow> bool" where
  "skip_inv sk xs \<longleftrightarrow>
     length (sl_forward sk) = NUM_LEVELS \<and> sl_level sk < NUM_LEVELS \<and>
     dom (sl_cells sk) = set xs \<and>
     sorted_wrt (\<lambda>a b. key_at sk a < key_at sk b) xs \<and>
     (\<forall>a\<in>set xs. 0 < height sk (Some a) \<and> height sk (Some a) \<le> sl_level sk + 1) \<and>
     (\<forall>ys zs i. xs = ys @ zs \<longrightarrow> i < height sk (cur ys) \<longrightarrow>
        get_forward sk (cur ys) i = Some (List.find (tall sk i) zs))"

lemma cur_Nil [simp]: "cur [] = None"
  by (simp add: cur_def)

lemma cur_snoc [simp]: "cur (ys @ [a]) = Some a" "cur (ys @ us @ [a]) = Some a" "cur (a # ys @ [b]) = Some b"
  by (simp_all add: cur_def)

lemma height_None [simp]: "height sk None = NUM_LEVELS"
  by (simp add: height_def)

lemma find_append: "List.find P (xs @ ys) = (case List.find P xs of None \<Rightarrow> List.find P ys | Some a \<Rightarrow> Some a)"
  by (induction xs) auto

lemma find_none [simp]: "(\<forall>x\<in>set xs. \<not> P x) \<Longrightarrow> List.find P xs = None"
  by (induction xs) auto

lemma find_cases:
  obtains "List.find P xs = None" "\<forall>x\<in>set xs. \<not> P x"
  | us a vs where "xs = us @ a # vs" "\<forall>u\<in>set us. \<not> P u" "P a" "List.find P xs = Some a"
proof (cases "\<exists>x\<in>set xs. P x")
  case True
  then obtain us a vs where "xs = us @ a # vs" "P a" "\<forall>u\<in>set us. \<not> P u"
    using split_list_first_prop[of xs P] by blast
  then show ?thesis using that(2)[of us a vs] by (simp add: find_append)
next
  case False
  then show ?thesis using that(1) by simp
qed

lemma skip_inv_step:
  assumes "skip_inv sk xs" "xs = ys @ zs" "i < height sk (cur ys)"
  shows "get_forward sk (cur ys) i = Some (List.find (tall sk i) zs)"
  using assms by (simp add: skip_inv_def)

lemma skip_inv_cell:
  assumes "skip_inv sk xs" "a \<in> set xs"
  obtains c where "sl_cells sk a = Some c" "sc_key c = key_at sk a" "sc_data c = data_at sk a"
    "height sk (Some a) = length (sc_forward c)"
  using assms by (auto simp: skip_inv_def key_at_def data_at_def height_def dom_def split: option.splits)

text \<open>Induction along one level: a property of the cursor holds if it holds where the level
  ends and is passed back from the next cell on the level.\<close>

lemma level_induct [consumes 3, case_names stop step]:
  assumes inv: "skip_inv sk xs" and "xs = ys @ zs" "i < height sk (cur ys)"
    and stop: "\<And>ys zs. xs = ys @ zs \<Longrightarrow> i < height sk (cur ys) \<Longrightarrow> \<forall>z\<in>set zs. \<not> tall sk i z \<Longrightarrow>
      get_forward sk (cur ys) i = Some None \<Longrightarrow> Q ys"
    and step: "\<And>ys us a vs c. xs = ys @ us @ a # vs \<Longrightarrow> i < height sk (cur ys) \<Longrightarrow>
      \<forall>u\<in>set us. \<not> tall sk i u \<Longrightarrow> tall sk i a \<Longrightarrow> get_forward sk (cur ys) i = Some (Some a) \<Longrightarrow>
      sl_cells sk a = Some c \<Longrightarrow> sc_key c = key_at sk a \<Longrightarrow> sc_data c = data_at sk a \<Longrightarrow>
      Q (ys @ us @ [a]) \<Longrightarrow> Q ys"
  shows "Q ys"
  using assms(2,3)
proof (induction "length zs" arbitrary: ys zs rule: less_induct)
  case less
  note nxt = skip_inv_step[OF inv less.prems]
  show ?case
  proof (cases zs rule: find_cases[of "tall sk i"])
    case 1
    then show ?thesis using stop[OF less.prems] nxt by simp
  next
    case (2 us a vs)
    have a: "a \<in> set xs" using less.prems 2 by simp
    obtain c where c: "sl_cells sk a = Some c" "sc_key c = key_at sk a" "sc_data c = data_at sk a"
      by (rule skip_inv_cell[OF inv a])
    have "Q (ys @ us @ [a])"
      using 2 less.prems(1) by (intro less.hyps[of vs]) (simp_all add: tall_def)
    then show ?thesis
      using step[of ys us a vs c] less.prems 2 nxt c by simp
  qed
qed

text \<open>The last of the cells \<open>L\<close> that reaches level \<open>i\<close>, or the head.\<close>

definition pred_at :: "skiplist \<Rightarrow> nat \<Rightarrow> nat list \<Rightarrow> ptr" where
  "pred_at sk i L = List.find (tall sk i) (rev L)"

lemma pred_at_cur:
  assumes "i < height sk (cur ys)" "\<forall>u\<in>set us. \<not> tall sk i u"
  shows "pred_at sk i (ys @ us) = cur ys"
  using assms by (cases ys rule: rev_cases) (simp_all add: pred_at_def find_append tall_def)

lemma pred_at_obtain:
  assumes "i < NUM_LEVELS"
  obtains ys us where "L = ys @ us" "pred_at sk i L = cur ys" "i < height sk (cur ys)" "\<forall>u\<in>set us. \<not> tall sk i u"
proof (cases "rev L" rule: find_cases[of "tall sk i"])
  case 1
  then show ?thesis using that[of "[]" L] assms by (simp add: pred_at_def)
next
  case (2 us a vs)
  then have "L = (rev vs @ [a]) @ rev us" by (metis append.assoc append_Cons append_Nil rev_append rev_rev_ident rev_singleton_conv rev.simps(2))
  then show ?thesis using that[of "rev vs @ [a]" "rev us"] 2 by (simp add: pred_at_def tall_def)
qed

definition cells_below :: "skiplist \<Rightarrow> uintnat \<Rightarrow> nat list \<Rightarrow> nat list" where
  "cells_below sk k xs = takeWhile (\<lambda>a. key_at sk a < k) xs"

lemma walk_correct:
  assumes inv: "skip_inv sk xs" and "xs = ys @ zs" "i < height sk (cur ys)" "\<forall>y\<in>set ys. key_at sk y < k"
  shows "walk sk k i (cur ys) = Some (pred_at sk i (cells_below sk k xs))"
  using assms(1-4)
proof (induction ys rule: level_induct)
  case (stop ys zs)
  have "pred_at sk i (ys @ takeWhile (\<lambda>a. key_at sk a < k) zs) = cur ys"
    using stop by (intro pred_at_cur) (auto dest: set_takeWhileD)
  then show ?case using stop by (subst walk.simps) (simp add: cells_below_def)
next
  case (step ys us a vs c)
  have srt: "\<forall>u\<in>set us. key_at sk u < key_at sk a"
    using inv step by (simp add: skip_inv_def sorted_wrt_append)
  show ?case
  proof (cases "k \<le> key_at sk a")
    case True
    have "pred_at sk i (ys @ takeWhile (\<lambda>a. key_at sk a < k) us) = cur ys"
      using step by (intro pred_at_cur) (auto dest: set_takeWhileD)
    moreover have "cells_below sk k xs = ys @ takeWhile (\<lambda>a. key_at sk a < k) us"
      using True step by (simp add: cells_below_def takeWhile_tail leD)
    ultimately show ?thesis using True step by (subst walk.simps) simp
  next
    case False
    then have "\<forall>y\<in>set (ys @ us @ [a]). key_at sk y < k" using step srt by auto
    then show ?thesis using False step by (subst walk.simps) simp
  qed
qed

text \<open>A cursor the search may hold when it enters level \<open>i\<close>.\<close>

definition cursor_for :: "skiplist \<Rightarrow> nat list \<Rightarrow> nat \<Rightarrow> ptr \<Rightarrow> bool" where
  "cursor_for sk L i e \<longleftrightarrow> (\<exists>ys us. L = ys @ us \<and> e = cur ys \<and> i < height sk (cur ys))"

lemma cursor_for_head [intro]: "i < NUM_LEVELS \<Longrightarrow> cursor_for sk L i None"
  unfolding cursor_for_def by (rule exI[of _ "[]"]) simp

lemma cursor_for_pred [intro]:
  assumes "i < NUM_LEVELS" "j \<le> i"
  shows "cursor_for sk L j (pred_at sk i L)"
  using pred_at_obtain[OF assms(1), of L sk] assms(2) unfolding cursor_for_def
  by (metis le_less_trans)

lemma cursor_for_prefix:
  assumes "cursor_for sk (takeWhile P xs) i e"
  obtains ys zs where "xs = ys @ zs" "e = cur ys" "i < height sk (cur ys)" "\<forall>y\<in>set ys. P y"
proof -
  from assms obtain ys us where *: "takeWhile P xs = ys @ us" "e = cur ys" "i < height sk (cur ys)"
    by (auto simp: cursor_for_def)
  then have "xs = ys @ us @ dropWhile P xs" by (metis append.assoc takeWhile_dropWhile_id)
  moreover have "\<forall>y\<in>set ys. P y"
    using set_takeWhileD[of _ P xs] * by (metis Un_iff set_append)
  ultimately show thesis using that * by blast
qed

lemma walk_cursor:
  assumes inv: "skip_inv sk xs" and e: "cursor_for sk (cells_below sk k xs) i e"
  shows "walk sk k i e = Some (pred_at sk i (cells_below sk k xs))"
  using walk_correct[OF inv] e unfolding cells_below_def by (elim cursor_for_prefix) metis

lemma locate_correct:
  assumes inv: "skip_inv sk xs" and "i < NUM_LEVELS" "cursor_for sk (cells_below sk k xs) i e"
  shows "locate sk k i e = Some (map (\<lambda>j. pred_at sk j (cells_below sk k xs)) [0..<Suc i])"
  using assms(2,3)
proof (induction i arbitrary: e)
  case (Suc i)
  have "cursor_for sk (cells_below sk k xs) i (pred_at sk (Suc i) (cells_below sk k xs))"
    using Suc.prems(1) by (intro cursor_for_pred) auto
  then show ?case using Suc.IH Suc.prems walk_cursor[OF inv Suc.prems(2)] by simp
qed (simp add: walk_cursor[OF inv])

section \<open>Search\<close>

definition bindings :: "skiplist \<Rightarrow> nat list \<Rightarrow> (uintnat \<times> uintnat) list" where
  "bindings sk xs = map (\<lambda>a. (key_at sk a, data_at sk a)) xs"

lemma find_walk_correct:
  assumes inv: "skip_inv sk xs" and "xs = ys @ zs" "i < height sk (cur ys)" "\<forall>y\<in>set ys. key_at sk y < k"
  shows "find_walk sk k i (cur ys) = Some
    (case List.find (\<lambda>a. key_at sk a = k \<and> tall sk i a) xs of
       None \<Rightarrow> Inr (pred_at sk i (cells_below sk k xs))
     | Some a \<Rightarrow> Inl (data_at sk a))"
  using assms
proof (induction ys rule: level_induct)
  case (stop ys zs)
  have "pred_at sk i (ys @ takeWhile (\<lambda>a. key_at sk a < k) zs) = cur ys"
    using stop by (intro pred_at_cur) (auto dest: set_takeWhileD)
  moreover have "List.find (\<lambda>a. key_at sk a = k \<and> tall sk i a) xs = None"
    using stop by (intro find_none) auto
  ultimately show ?case using stop by (subst find_walk.simps) (simp add: cells_below_def)
next
  case (step ys us a vs c)
  have srt: "\<forall>u\<in>set us. key_at sk u < key_at sk a" "\<forall>v\<in>set vs. key_at sk a < key_at sk v"
    using inv step by (simp_all add: skip_inv_def sorted_wrt_append)
  consider "k < key_at sk a" | "key_at sk a = k" | "key_at sk a < k" by fastforce
  then show ?case
  proof cases
    case 1
    have "pred_at sk i (ys @ takeWhile (\<lambda>a. key_at sk a < k) us) = cur ys"
      using step by (intro pred_at_cur) (auto dest: set_takeWhileD)
    moreover have "cells_below sk k xs = ys @ takeWhile (\<lambda>a. key_at sk a < k) us"
      using 1 step by (simp add: cells_below_def takeWhile_tail)
    moreover have "List.find (\<lambda>a. key_at sk a = k \<and> tall sk i a) xs = None"
      using 1 step srt by (intro find_none) auto
    ultimately show ?thesis using 1 step by (subst find_walk.simps) simp
  next
    case 2
    then have "List.find (\<lambda>a. key_at sk a = k \<and> tall sk i a) (ys @ us) = None"
      using step srt by (intro find_none) auto
    then have "List.find (\<lambda>a. key_at sk a = k \<and> tall sk i a) xs = Some a"
      using 2 step find_append[of _ "ys @ us" "a # vs"] by simp
    then show ?thesis using 2 step by (subst find_walk.simps) simp
  next
    case 3
    then have "\<forall>y\<in>set (ys @ us @ [a]). key_at sk y < k" using step srt by auto
    then show ?thesis using 3 step by (subst find_walk.simps) auto
  qed
qed

lemma find_walk_cursor:
  assumes "skip_inv sk xs" "cursor_for sk (cells_below sk k xs) i e"
  shows "find_walk sk k i e = Some
    (case List.find (\<lambda>a. key_at sk a = k \<and> tall sk i a) xs of
       None \<Rightarrow> Inr (pred_at sk i (cells_below sk k xs))
     | Some a \<Rightarrow> Inl (data_at sk a))"
proof -
  obtain ys zs where ys: "xs = ys @ zs" "e = cur ys" "i < height sk (cur ys)" "\<forall>y\<in>set ys. key_at sk y < k"
    by (rule cursor_for_prefix[OF assms(2)[unfolded cells_below_def]])
  show ?thesis unfolding ys(2) by (rule find_walk_correct[OF assms(1) ys(1,3,4)])
qed

lemma find_levels_correct:
  assumes inv: "skip_inv sk xs" and "i < NUM_LEVELS" "cursor_for sk (cells_below sk k xs) i e"
  shows "find_levels sk k i e = Some (map_option (data_at sk) (List.find (\<lambda>a. key_at sk a = k) xs))"
  using assms(2,3)
proof (induction i arbitrary: e)
  case 0
  have t: "\<forall>a\<in>set xs. tall sk 0 a" using inv by (simp add: skip_inv_def tall_def)
  have "List.find (\<lambda>a. key_at sk a = k \<and> tall sk 0 a) xs = List.find (\<lambda>a. key_at sk a = k) xs"
    using t by (intro find_cong) auto
  then show ?case
    using find_walk_cursor[OF inv 0(2)] by (cases "List.find (\<lambda>a. key_at sk a = k) xs") simp_all
next
  case (Suc i)
  let ?L = "cells_below sk k xs"
  note w = find_walk_cursor[OF inv Suc.prems(2)]
  show ?case
  proof (cases xs rule: find_cases[of "\<lambda>a. key_at sk a = k \<and> tall sk (Suc i) a"])
    case 1
    have "cursor_for sk ?L i (pred_at sk (Suc i) ?L)" using Suc.prems(1) by (intro cursor_for_pred) auto
    then show ?thesis using w 1(1) Suc.IH Suc.prems(1) by simp
  next
    case (2 us a vs)
    have "\<forall>u\<in>set us. key_at sk u \<noteq> k"
      using inv 2(1,3) unfolding skip_inv_def sorted_wrt_append 2(1) by fastforce
    then have "List.find (\<lambda>a. key_at sk a = k) xs = Some a" using 2 by (simp add: find_append)
    then show ?thesis using w 2 by simp
  qed
qed

lemma map_of_bindings: "map_of (bindings sk xs) k = map_option (data_at sk) (List.find (\<lambda>a. key_at sk a = k) xs)"
  by (induction xs) (auto simp: bindings_def)

lemma caml_skiplist_find_map:
  "skip_inv sk xs \<Longrightarrow> caml_skiplist_find sk k = Some (map_of (bindings sk xs) k)"
  unfolding caml_skiplist_find_def map_of_bindings
  by (intro find_levels_correct) (auto simp: skip_inv_def)

lemma below_walk_correct:
  assumes inv: "skip_inv sk xs" and "xs = ys @ zs" "i < height sk (cur ys)" "\<forall>y\<in>set ys. key_at sk y \<le> k"
  shows "below_walk sk k i (cur ys) (cur ys) =
    (let p = pred_at sk i (takeWhile (\<lambda>a. key_at sk a \<le> k) xs) in Some (p, p))"
  using assms
proof (induction ys rule: level_induct)
  case (stop ys zs)
  have "pred_at sk i (ys @ takeWhile (\<lambda>a. key_at sk a \<le> k) zs) = cur ys"
    using stop by (intro pred_at_cur) (auto dest: set_takeWhileD)
  then show ?case using stop by (subst below_walk.simps) (simp add: Let_def)
next
  case (step ys us a vs c)
  have srt: "\<forall>u\<in>set us. key_at sk u < key_at sk a"
    using inv step by (simp add: skip_inv_def sorted_wrt_append)
  show ?case
  proof (cases "k < key_at sk a")
    case True
    have "pred_at sk i (ys @ takeWhile (\<lambda>a. key_at sk a \<le> k) us) = cur ys"
      using step by (intro pred_at_cur) (auto dest: set_takeWhileD)
    moreover have "takeWhile (\<lambda>a. key_at sk a \<le> k) xs = ys @ takeWhile (\<lambda>a. key_at sk a \<le> k) us"
      using True step by (simp add: takeWhile_tail)
    ultimately show ?thesis using True step by (subst below_walk.simps) (simp add: Let_def)
  next
    case False
    then have "\<forall>y\<in>set (ys @ us @ [a]). key_at sk y \<le> k" using step srt by fastforce
    then show ?thesis using False step by (subst below_walk.simps) simp
  qed
qed

lemma below_levels_correct:
  assumes inv: "skip_inv sk xs" and "i < NUM_LEVELS"
    and "cursor_for sk (takeWhile (\<lambda>a. key_at sk a \<le> k) xs) i e"
  shows "below_levels sk k i e e = Some (pred_at sk 0 (takeWhile (\<lambda>a. key_at sk a \<le> k) xs))"
  using assms(2,3)
proof (induction i arbitrary: e)
  case 0
  obtain ys zs where ys: "xs = ys @ zs" "e = cur ys" "0 < height sk (cur ys)" "\<forall>y\<in>set ys. key_at sk y \<le> k"
    by (rule cursor_for_prefix[OF 0(2)])
  then show ?case using below_walk_correct[OF inv ys(1,3,4)] by (simp add: Let_def)
next
  case (Suc i)
  let ?L = "takeWhile (\<lambda>a. key_at sk a \<le> k) xs"
  obtain ys zs where ys: "xs = ys @ zs" "e = cur ys" "Suc i < height sk (cur ys)" "\<forall>y\<in>set ys. key_at sk y \<le> k"
    by (rule cursor_for_prefix[OF Suc.prems(2)])
  have "cursor_for sk ?L i (pred_at sk (Suc i) ?L)" using Suc.prems(1) by (intro cursor_for_pred) auto
  then show ?case
    using Suc.IH[of "pred_at sk (Suc i) ?L"] Suc.prems(1) below_walk_correct[OF inv ys(1,3,4)] ys(2)
    by (simp add: Let_def)
qed

lemma pred_at_0: "skip_inv sk xs \<Longrightarrow> set L \<subseteq> set xs \<Longrightarrow> pred_at sk 0 L = cur L"
  using pred_at_cur[of 0 sk L "[]"] by (cases L rule: rev_cases) (auto simp: skip_inv_def pred_at_def)

lemma caml_skiplist_find_below_last:
  assumes inv: "skip_inv sk xs"
  shows "caml_skiplist_find_below sk k = Some
    (let L = filter (\<lambda>(x, _). x \<le> k) (bindings sk xs) in if L = [] then None else Some (last L))"
proof -
  let ?P = "\<lambda>a. key_at sk a \<le> k"
  let ?L = "takeWhile ?P xs"
  have sub: "set ?L \<subseteq> set xs" by (meson set_takeWhileD subsetI)
  have "below_levels sk k (sl_level sk) None None = Some (cur ?L)"
    using below_levels_correct[OF inv, of "sl_level sk" k None] inv pred_at_0[OF inv sub]
    by (auto simp: skip_inv_def)
  moreover have "?L = filter ?P xs"
  proof -
    have "sorted_wrt (\<lambda>a b. key_at sk a < key_at sk b) xs" using inv by (simp add: skip_inv_def)
    then show ?thesis
    proof (induction xs)
      case (Cons a xs)
      have "filter ?P xs = []" if "k < key_at sk a" using Cons.prems that by (fastforce simp: filter_empty_conv)
      then show ?case using Cons by auto
    qed simp
  qed
  moreover have "filter (\<lambda>(x, _). x \<le> k) (bindings sk xs) = map (\<lambda>a. (key_at sk a, data_at sk a)) (filter ?P xs)"
    by (simp add: bindings_def filter_map comp_def)
  moreover have "\<exists>c. sl_cells sk (last ?L) = Some c \<and> sc_key c = key_at sk (last ?L) \<and> sc_data c = data_at sk (last ?L)"
    if "?L \<noteq> []"
  proof -
    have "last ?L \<in> set xs" using sub last_in_set[OF that] by blast
    then show ?thesis by (rule skip_inv_cell[OF inv]) blast
  qed
  ultimately show ?thesis
    by (cases "?L = []") (force simp: caml_skiplist_find_below_def cur_def Let_def last_map)+
qed

section \<open>Assignments of forward pointers\<close>

text \<open>Two lists with the same cells that may differ in forward pointers.\<close>

definition same_cells :: "skiplist \<Rightarrow> skiplist \<Rightarrow> bool" where
  "same_cells sk sk' \<longleftrightarrow>
     length (sl_forward sk') = length (sl_forward sk) \<and> sl_level sk' = sl_level sk \<and>
     dom (sl_cells sk') = dom (sl_cells sk) \<and> height sk' = height sk \<and>
     key_at sk' = key_at sk \<and> data_at sk' = data_at sk"

lemma same_cells_refl [simp]: "same_cells sk sk"
  by (simp add: same_cells_def)

lemma same_cells_trans: "same_cells a b \<Longrightarrow> same_cells b c \<Longrightarrow> same_cells a c"
  by (simp add: same_cells_def)

lemma set_forward_Some:
  assumes "get_forward sk e i = Some q"
  obtains sk' where "set_forward sk e i p = Some sk'" "same_cells sk sk'"
    "\<And>e' j. get_forward sk' e' j = (if e' = e \<and> j = i then Some p else get_forward sk e' j)"
proof (cases e)
  case None
  let ?sk = "sk\<lparr>sl_forward := (sl_forward sk)[i := p]\<rparr>"
  have i: "i < length (sl_forward sk)" using assms None by (simp add: get_forward_def split: if_splits)
  have "same_cells sk ?sk"
    by (simp add: same_cells_def height_def key_at_def data_at_def fun_eq_iff cong: option.case_cong)
  moreover have "get_forward ?sk e' j = (if e' = e \<and> j = i then Some p else get_forward sk e' j)" for e' j
    using None i by (auto simp: get_forward_def nth_list_update split: option.split)
  ultimately show ?thesis using that[of ?sk] None i by (simp add: set_forward_def)
next
  case (Some a)
  then obtain c where c: "sl_cells sk a = Some c" and i: "i < length (sc_forward c)"
    using assms by (auto simp: get_forward_def split: option.splits if_splits)
  let ?sk = "sk\<lparr>sl_cells := (sl_cells sk)(a \<mapsto> c\<lparr>sc_forward := (sc_forward c)[i := p]\<rparr>)\<rparr>"
  have "same_cells sk ?sk"
    using c by (auto simp: same_cells_def height_def key_at_def data_at_def fun_eq_iff split: option.splits)
  moreover have "get_forward ?sk e' j = (if e' = e \<and> j = i then Some p else get_forward sk e' j)" for e' j
    using Some c i by (auto simp: get_forward_def nth_list_update split: option.split)
  ultimately show ?thesis using that[of ?sk] Some c i by (simp add: set_forward_def)
qed

lemma link_levels_correct:
  assumes "\<And>j. j < length us \<Longrightarrow> get_forward sk (us ! j) (i + j) \<noteq> None \<and> us ! j \<noteq> Some f \<and>
      get_forward sk (Some f) (i + j) \<noteq> None"
  obtains sk' where "link_levels sk f i us = Some sk'" "same_cells sk sk'"
    "\<And>e n. get_forward sk' e n =
       (if i \<le> n \<and> n < i + length us then
          if e = us ! (n - i) then Some (Some f)
          else if e = Some f then get_forward sk (us ! (n - i)) n else get_forward sk e n
        else get_forward sk e n)"
  using assms
proof (induction us arbitrary: sk i thesis)
  case Nil
  show ?case by (rule Nil.prems(1)[of sk]) auto
next
  case (Cons u us)
  have h: "get_forward sk u i \<noteq> None" "u \<noteq> Some f" "get_forward sk (Some f) i \<noteq> None"
    using Cons.prems(2)[of 0] by simp_all
  then obtain p q where p: "get_forward sk u i = Some p" "get_forward sk (Some f) i = Some q" by blast
  obtain sk1 where sk1: "set_forward sk (Some f) i p = Some sk1" "same_cells sk sk1"
    "\<And>e' j. get_forward sk1 e' j = (if e' = Some f \<and> j = i then Some p else get_forward sk e' j)"
    using set_forward_Some[OF p(2)] by blast
  have "get_forward sk1 u i = Some p" using sk1(3) p h by simp
  then obtain sk2 where sk2: "set_forward sk1 u i (Some f) = Some sk2" "same_cells sk1 sk2"
    "\<And>e' j. get_forward sk2 e' j = (if e' = u \<and> j = i then Some (Some f) else get_forward sk1 e' j)"
    using set_forward_Some by blast
  have g2: "get_forward sk2 e n = get_forward sk e n" if "n \<noteq> i" for e n using that sk1(3) sk2(3) by simp
  have "get_forward sk2 (us ! j) (Suc i + j) \<noteq> None \<and> us ! j \<noteq> Some f \<and> get_forward sk2 (Some f) (Suc i + j) \<noteq> None"
    if "j < length us" for j
    using Cons.prems(2)[of "Suc j"] that by (simp add: g2)
  then obtain sk' where sk': "link_levels sk2 f (Suc i) us = Some sk'" "same_cells sk2 sk'"
    "\<And>e n. get_forward sk' e n =
       (if Suc i \<le> n \<and> n < Suc i + length us then
          if e = us ! (n - Suc i) then Some (Some f)
          else if e = Some f then get_forward sk2 (us ! (n - Suc i)) n else get_forward sk2 e n
        else get_forward sk2 e n)"
    using Cons.IH[of sk2 "Suc i"] by blast
  have "link_levels sk f i (u # us) = Some sk'" using p sk1(1) sk2(1) sk'(1) by simp
  moreover have "same_cells sk sk'" using sk1(2) sk2(2) sk'(2) same_cells_trans by blast
  moreover have "get_forward sk' e n =
       (if i \<le> n \<and> n < i + length (u # us) then
          if e = (u # us) ! (n - i) then Some (Some f)
          else if e = Some f then get_forward sk ((u # us) ! (n - i)) n else get_forward sk e n
        else get_forward sk e n)" for e n
  proof (cases "n = i")
    case True
    then show ?thesis using p h sk1(3) sk2(3) by (simp add: sk'(3))
  next
    case False
    then show ?thesis by (auto simp: sk'(3) g2 nth_Cons' Suc_le_eq)
  qed
  ultimately show ?case using Cons.prems(1) by blast
qed

lemma unlink_levels_correct:
  assumes "\<And>j. j < length us \<Longrightarrow> get_forward sk (us ! j) (i + j) \<noteq> None \<and> us ! j \<noteq> Some f"
    and "\<And>j. j < length us \<Longrightarrow> get_forward sk (us ! j) (i + j) = Some (Some f) \<Longrightarrow>
      get_forward sk (Some f) (i + j) \<noteq> None"
  obtains sk' where "unlink_levels sk f i us = Some sk'" "same_cells sk sk'"
    "\<And>e n. get_forward sk' e n =
       (if i \<le> n \<and> n < i + length us \<and> e = us ! (n - i) \<and> get_forward sk e n = Some (Some f)
        then get_forward sk (Some f) n else get_forward sk e n)"
  using assms
proof (induction us arbitrary: sk i thesis)
  case Nil
  show ?case by (rule Nil.prems(1)[of sk]) auto
next
  case (Cons u us)
  obtain p where p: "get_forward sk u i = Some p" using Cons.prems(2)[of 0] by auto
  have uf: "u \<noteq> Some f" using Cons.prems(2)[of 0] by simp
  obtain sk1 where sk1: "same_cells sk sk1" "unlink_levels sk f i (u # us) = unlink_levels sk1 f (Suc i) us"
    "\<And>e n. get_forward sk1 e n =
       (if n = i \<and> e = u \<and> p = Some f then get_forward sk (Some f) n else get_forward sk e n)"
  proof (cases "p = Some f")
    case True
    obtain q where q: "get_forward sk (Some f) i = Some q" using Cons.prems(3)[of 0] p True by auto
    obtain sk1 where "set_forward sk u i q = Some sk1" "same_cells sk sk1"
      "\<And>e' j. get_forward sk1 e' j = (if e' = u \<and> j = i then Some q else get_forward sk e' j)"
      using set_forward_Some[OF p] by blast
    then show ?thesis using that[of sk1] p q True by auto
  next
    case False
    then show ?thesis using that[of sk] p by simp
  qed
  have g1: "get_forward sk1 e n = get_forward sk e n" if "n \<noteq> i" for e n using that sk1(3) by simp
  obtain sk' where sk': "unlink_levels sk1 f (Suc i) us = Some sk'" "same_cells sk1 sk'"
    "\<And>e n. get_forward sk' e n =
       (if Suc i \<le> n \<and> n < Suc i + length us \<and> e = us ! (n - Suc i) \<and> get_forward sk1 e n = Some (Some f)
        then get_forward sk1 (Some f) n else get_forward sk1 e n)"
  proof (rule Cons.IH[of sk1 "Suc i"])
    fix j assume "j < length us"
    then show "get_forward sk1 (us ! j) (Suc i + j) \<noteq> None \<and> us ! j \<noteq> Some f"
      using Cons.prems(2)[of "Suc j"] by (simp add: g1)
  next
    fix j assume "j < length us" "get_forward sk1 (us ! j) (Suc i + j) = Some (Some f)"
    then show "get_forward sk1 (Some f) (Suc i + j) \<noteq> None"
      using Cons.prems(3)[of "Suc j"] by (simp add: g1)
  qed blast
  show ?case
  proof (rule Cons.prems(1)[of sk'])
    show "unlink_levels sk f i (u # us) = Some sk'" using sk1(2) sk'(1) by simp
    show "same_cells sk sk'" using sk1(1) sk'(2) by (rule same_cells_trans)
    show "get_forward sk' e n =
       (if i \<le> n \<and> n < i + length (u # us) \<and> e = (u # us) ! (n - i) \<and> get_forward sk e n = Some (Some f)
        then get_forward sk (Some f) n else get_forward sk e n)" for e n
  proof (cases "n = i")
    case True
    then show ?thesis using p uf by (auto simp: sk'(3) sk1(3))
  next
    case False
    then show ?thesis by (auto simp: sk'(3) g1 nth_Cons' Suc_le_eq)
  qed
  qed
qed

end
