(* ===== verification/Skiplist_Refine.thy ===== *)
theory Skiplist_Refine
  imports Skiplist
begin

text \<open>
  Insertion and deletion in skip lists (\<open>runtime/skiplist.c\<close>) refine updates of finite maps, for
  every sequence of random levels; the dictionary interface for clients of skip lists, and its
  interpretation by the code's operations.
\<close>

section \<open>Changing one cell of the chains\<close>

text \<open>The chains of all levels, for forward pointers \<open>g\<close> and heights \<open>h\<close>.\<close>

definition links :: "(ptr \<Rightarrow> nat \<Rightarrow> ptr option) \<Rightarrow> (ptr \<Rightarrow> nat) \<Rightarrow> nat list \<Rightarrow> bool" where
  "links g h xs \<longleftrightarrow>
     (\<forall>ys zs i. xs = ys @ zs \<longrightarrow> i < h (cur ys) \<longrightarrow>
        g (cur ys) i = Some (List.find (\<lambda>a. i < h (Some a)) zs))"

definition last_tall :: "(ptr \<Rightarrow> nat) \<Rightarrow> nat \<Rightarrow> nat list \<Rightarrow> ptr" where
  "last_tall h i L = List.find (\<lambda>a. i < h (Some a)) (rev L)"

lemma last_tall_cur:
  assumes "i < h (cur ys)" "\<forall>u\<in>set us. \<not> i < h (Some u)"
  shows "last_tall h i (ys @ us) = cur ys"
  using assms by (cases ys rule: rev_cases) (simp_all add: last_tall_def find_append)

lemma last_tall_in:
  assumes "u \<in> set us" "i < h (Some u)"
  shows "\<exists>b\<in>set us. last_tall h i (ys @ us) = Some b"
proof (cases "rev us" rule: find_cases[of "\<lambda>a. i < h (Some a)"])
  case (2 ps b vs)
  then have "b \<in> set (rev us)" by simp
  then show ?thesis using 2(4) by (simp add: last_tall_def find_append)
qed (use assms in simp)

lemma find_in_set: "List.find P xs = Some b \<Longrightarrow> b \<in> set xs \<and> P b"
  by (induction xs) (auto split: if_splits)

lemma last_tall_set: "last_tall h i L = Some b \<Longrightarrow> b \<in> set L"
  unfolding last_tall_def by (drule find_in_set) simp

lemma find_cong_set: "(\<And>x. x \<in> set xs \<Longrightarrow> P x = Q x) \<Longrightarrow> List.find P xs = List.find Q xs"
  by (induction xs) auto

lemma cur_in: "cur ys = Some b \<Longrightarrow> b \<in> set ys"
  by (auto simp: cur_def split: if_splits)

lemma append_eq_split:
  assumes "L @ R = ys @ zs"
  obtains us where "L = ys @ us" "zs = us @ R" | us where "ys = L @ us" "R = us @ zs" "us \<noteq> []"
  using assms by (auto simp: append_eq_append_conv2) (metis append_Nil2 append_self_conv2)

lemma links_remove:
  assumes l: "links g h (L @ a # R)" and d: "distinct (L @ a # R)"
    and m: "\<And>i. i < h (Some a) \<Longrightarrow> i < m"
    and g': "\<And>e n. e \<noteq> Some a \<Longrightarrow> g' e n =
      (if n < m \<and> e = last_tall h n L \<and> g e n = Some (Some a) then g (Some a) n else g e n)"
    and h': "\<And>e. e \<noteq> Some a \<Longrightarrow> h' e = h e"
  shows "links g' h' (L @ R)"
  unfolding links_def
proof (intro allI impI)
  fix ys zs i assume eq: "L @ R = ys @ zs" and i: "i < h' (cur ys)"
  have "set (ys @ zs) = set (L @ R)" using eq by simp
  then have a: "a \<notin> set ys" "a \<notin> set zs" using d by auto
  then have ne: "cur ys \<noteq> Some a" using cur_in by blast
  have fz: "List.find (\<lambda>x. i < h' (Some x)) zs = List.find (\<lambda>x. i < h (Some x)) zs"
    using a by (intro find_cong_set) (metis h' option.inject)
  have ih: "i < h (cur ys)" using i ne h' by simp
  have "g' (cur ys) i = Some (List.find (\<lambda>x. i < h (Some x)) zs)"
    using eq
  proof (cases rule: append_eq_split)
    case (1 us)
    have gi: "g (cur ys) i = Some (List.find (\<lambda>x. i < h (Some x)) (us @ a # R))"
      using l ih unfolding links_def 1 by simp
    show ?thesis
    proof (cases us rule: find_cases[of "\<lambda>x. i < h (Some x)"])
      case 11: 1
      then have lt: "last_tall h i L = cur ys" using last_tall_cur[of i h ys us] ih 1 by simp
      have ga: "g (Some a) i = Some (List.find (\<lambda>x. i < h (Some x)) R)" if "i < h (Some a)"
        using l[unfolded links_def, rule_format, of "L @ [a]" R i] that by simp
      have "List.find (\<lambda>x. i < h (Some x)) R \<noteq> Some a" using d find_in_set by fastforce
      then show ?thesis using gi lt ga m 11 1 ne by (auto simp: g' find_append)
    next
      case (2 us' b vs')
      then have "b \<noteq> a" using d 1 by auto
      then show ?thesis using gi 2 1 ne by (simp add: g' find_append)
    qed
  next
    case (2 us)
    have "g (cur ys) i = Some (List.find (\<lambda>x. i < h (Some x)) zs)"
    proof -
      have "cur (L @ a # us) = cur ys" "L @ a # R = (L @ a # us) @ zs" using 2 by (simp_all add: cur_def)
      then show ?thesis using l ih unfolding links_def by metis
    qed
    moreover have "List.find (\<lambda>x. i < h (Some x)) zs \<noteq> Some a" using a find_in_set by fastforce
    ultimately show ?thesis using ne by (simp add: g')
  qed
  then show "g' (cur ys) i = Some (List.find (\<lambda>x. i < h' (Some x)) zs)" using fz by simp
qed

lemma links_insert:
  assumes l: "links g h (L @ R)" and d: "distinct (L @ a # R)"
    and m: "h' (Some a) = m"
    and ga: "\<And>n. n < m \<Longrightarrow> g' (Some a) n = g (last_tall h n L) n" "\<And>n. n < m \<Longrightarrow> n < h None"
    and g': "\<And>e n. e \<noteq> Some a \<Longrightarrow> g' e n = (if n < m \<and> e = last_tall h n L then Some (Some a) else g e n)"
    and h': "\<And>e. e \<noteq> Some a \<Longrightarrow> h' e = h e"
  shows "links g' h' (L @ a # R)"
  unfolding links_def
proof (intro allI impI)
  fix ys zs i assume eq: "L @ a # R = ys @ zs" and i: "i < h' (cur ys)"
  have fh: "List.find (\<lambda>x. i < h' (Some x)) ws = List.find (\<lambda>x. i < h (Some x)) ws" if "a \<notin> set ws" for ws
    using that by (intro find_cong_set) (metis h' option.inject)
  show "g' (cur ys) i = Some (List.find (\<lambda>x. i < h' (Some x)) zs)"
    using eq
  proof (cases rule: append_eq_split)
    case (1 us)
    have a: "a \<notin> set ys" "a \<notin> set us" "a \<notin> set R" using d 1 by auto
    then have ne: "cur ys \<noteq> Some a" using cur_in by blast
    then have ih: "i < h (cur ys)" using i h' by simp
    have gi: "g (cur ys) i = Some (List.find (\<lambda>x. i < h (Some x)) (us @ R))"
      using l ih unfolding links_def 1 by simp
    show ?thesis
    proof (cases us rule: find_cases[of "\<lambda>x. i < h (Some x)"])
      case 11: 1
      then have lt: "last_tall h i L = cur ys" using last_tall_cur[of i h ys us] ih 1 by simp
      then show ?thesis using gi 11 1 ne a m by (simp add: g' find_append fh)
    next
      case (2 us' b vs')
      then obtain b' where "last_tall h i L = Some b'" "b' \<in> set us"
        using last_tall_in[of b us i h ys] 1 by auto
      then have "cur ys \<noteq> last_tall h i L" using d 1 cur_in[of ys b'] by auto
      moreover have "b \<noteq> a" using 2 a by auto
      ultimately show ?thesis using gi 2 1 ne a by (simp add: g' find_append fh h')
    qed
  next
    case (2 us)
    then obtain us' where us': "us = a # us'" "R = us' @ zs" by (cases us) auto
    have az: "a \<notin> set zs" using d us' by simp
    show ?thesis
    proof (cases "us' = []")
      case True
      then have c: "cur ys = Some a" using 2 us' by (simp add: cur_def)
      then have im: "i < m" using i m by simp
      obtain ys1 us1 where s: "L = ys1 @ us1" "last_tall h i L = cur ys1" "i < h (cur ys1)" "\<forall>u\<in>set us1. \<not> i < h (Some u)"
      proof (cases "rev L" rule: find_cases[of "\<lambda>x. i < h (Some x)"])
        case 1
        then show ?thesis using that[of "[]" L] ga(2)[OF im] by (simp add: last_tall_def)
      next
        case (2 us b vs)
        then have "L = (rev vs @ [b]) @ rev us" by (metis append.assoc append_Cons append_Nil rev_append rev_rev_ident rev.simps(2))
        then show ?thesis using that[of "rev vs @ [b]" "rev us"] 2 by (simp add: last_tall_def)
      qed
      have "g (cur ys1) i = Some (List.find (\<lambda>x. i < h (Some x)) (us1 @ R))"
        using l s unfolding links_def by simp
      then show ?thesis using ga(1)[OF im] s c us' True fh[OF az] by (simp add: find_append)
    next
      case False
      then have c: "cur ys = cur (L @ us')" "cur ys = Some (last us')" using 2 us' by (simp_all add: cur_def)
      have lu: "last us' \<in> set us'" using False by simp
      then have ne: "cur ys \<noteq> Some a" "cur ys \<noteq> last_tall h i L"
        using d us' c(2) last_tall_set[of h i L "last us'"] by auto
      then have "i < h (cur (L @ us'))" using i h' c by simp
      then have "g (cur ys) i = Some (List.find (\<lambda>x. i < h (Some x)) zs)"
        using l us' c(1) unfolding links_def by auto
      then show ?thesis using ne fh[OF az] by (simp add: g')
    qed
  qed
qed

section \<open>Insertion and deletion\<close>

lemma skip_inv_links:
  "skip_inv sk xs \<longleftrightarrow>
     length (sl_forward sk) = NUM_LEVELS \<and> sl_level sk < NUM_LEVELS \<and> dom (sl_cells sk) = set xs \<and>
     sorted_wrt (\<lambda>a b. key_at sk a < key_at sk b) xs \<and>
     (\<forall>a\<in>set xs. 0 < height sk (Some a) \<and> height sk (Some a) \<le> sl_level sk + 1) \<and>
     links (get_forward sk) (height sk) xs"
  by (simp add: skip_inv_def links_def tall_def[abs_def])

lemma pred_at_last_tall: "pred_at sk i L = last_tall (height sk) i L"
  by (simp add: pred_at_def last_tall_def tall_def[abs_def])

lemma sorted_wrt_distinct: "sorted_wrt (\<lambda>a b. f a < (f b :: 'a::preorder)) xs \<Longrightarrow> distinct xs"
  by (induction xs) auto

lemma skip_inv_distinct: "skip_inv sk xs \<Longrightarrow> distinct xs"
  unfolding skip_inv_def using sorted_wrt_distinct by blast

text \<open>The state after the search for a key: the cells below it, and the rest.\<close>

lemma skip_split:
  assumes inv: "skip_inv sk xs"
  obtains R where "xs = cells_below sk k xs @ R" "\<forall>a\<in>set (cells_below sk k xs). key_at sk a < k"
    "\<forall>b\<in>set R. k \<le> key_at sk b"
proof -
  let ?P = "\<lambda>a. key_at sk a < k"
  have srt: "sorted_wrt (\<lambda>a b. key_at sk a < key_at sk b) xs" using inv by (simp add: skip_inv_def)
  have "\<forall>b\<in>set (dropWhile ?P xs). k \<le> key_at sk b"
    using srt by (induction xs) (auto simp: not_less)
  then show thesis
    using that[of "dropWhile ?P xs"] unfolding cells_below_def by (auto dest: set_takeWhileD)
qed

lemma forward_pred:
  assumes inv: "skip_inv sk xs" and xs: "xs = L @ R" and i: "i < NUM_LEVELS"
  shows "get_forward sk (pred_at sk i L) i = Some (List.find (tall sk i) R)"
proof (rule pred_at_obtain[OF i, of L sk])
  fix ys us assume *: "L = ys @ us" "pred_at sk i L = cur ys" "i < height sk (cur ys)" "\<forall>u\<in>set us. \<not> tall sk i u"
  then show ?thesis using skip_inv_step[OF inv, of ys "us @ R" i] xs by (simp add: find_append)
qed

lemma locate_from_head:
  assumes inv: "skip_inv sk xs"
  shows "locate sk k (sl_level sk) None =
    Some (map (\<lambda>j. pred_at sk j (cells_below sk k xs)) [0..<Suc (sl_level sk)])"
  using inv by (intro locate_correct) (auto simp: skip_inv_def)

lemma forward_place:
  assumes inv: "skip_inv sk xs" and xs: "xs = cells_below sk k xs @ R"
  shows "get_forward sk (pred_at sk 0 (cells_below sk k xs)) 0 = Some (case R of [] \<Rightarrow> None | a # _ \<Rightarrow> Some a)"
proof -
  have "\<forall>a\<in>set R. tall sk 0 a" using inv xs by (metis Un_iff set_append skip_inv_def tall_def)
  then show ?thesis using forward_pred[OF inv xs, of 0] by (cases R) auto
qed

lemma map_of_bindings_remove:
  assumes "\<forall>x\<in>set (L @ R). key_at sk' x = key_at sk x \<and> data_at sk' x = data_at sk x"
    and "sorted_wrt (\<lambda>a b. key_at sk a < key_at sk b) (L @ a # R)"
  shows "map_of (bindings sk' (L @ R)) = (map_of (bindings sk (L @ a # R)))(key_at sk a := None)"
proof (rule ext)
  fix x
  have e: "bindings sk' (L @ R) = bindings sk L @ bindings sk R" using assms(1) by (simp add: bindings_def)
  have n: "key_at sk a \<notin> key_at sk ` set L" "key_at sk a \<notin> key_at sk ` set R"
    using assms(2) by (auto simp: sorted_wrt_append)
  have "map_of (bindings sk L) (key_at sk a) = None" "map_of (bindings sk R) (key_at sk a) = None"
    unfolding map_of_eq_None_iff using n by (auto simp: bindings_def)
  then show "map_of (bindings sk' (L @ R)) x = ((map_of (bindings sk (L @ a # R)))(key_at sk a := None)) x"
    unfolding e by (auto simp: bindings_def map_add_def split: option.splits)
qed

lemma lower_level_le: "lower_level fs l \<le> l"
  by (induction l) auto

lemma lower_level_None: "lower_level fs l < i \<Longrightarrow> i \<le> l \<Longrightarrow> fs ! i = None"
proof (induction l)
  case (Suc l)
  then show ?case by (cases "i = Suc l") (auto split: if_splits)
qed simp

lemma head_None_height:
  assumes "links (get_forward sk) (height sk) xs" "length (sl_forward sk) = NUM_LEVELS"
    "\<forall>a\<in>set xs. height sk (Some a) \<le> l + 1" "l < NUM_LEVELS" "a \<in> set xs"
  shows "height sk (Some a) \<le> lower_level (sl_forward sk) l + 1"
proof (rule ccontr)
  let ?r = "lower_level (sl_forward sk) l"
  assume "\<not> ?thesis"
  then have h: "?r + 1 < height sk (Some a)" by simp
  have "height sk (Some a) \<le> l + 1" using assms(3,5) by blast
  then have r: "?r + 1 \<le> l" using h by linarith
  have "get_forward sk None (?r + 1) = Some None"
    using lower_level_None[of "sl_forward sk" l "?r + 1"] r assms(2,4) by (simp add: get_forward_def)
  moreover have "get_forward sk None (?r + 1) = Some (List.find (\<lambda>x. ?r + 1 < height sk (Some x)) xs)"
    using assms(1)[unfolded links_def, rule_format, of "[]" xs "?r + 1"] r assms(4) by simp
  ultimately have "List.find (\<lambda>x. ?r + 1 < height sk (Some x)) xs = None" by simp
  then show False using h assms(5) by (simp only: find_None_iff) blast
qed

lemma cell_upd_simps [simp]:
  "height (sk\<lparr>sl_level := l\<rparr>) = height sk" "key_at (sk\<lparr>sl_level := l\<rparr>) = key_at sk"
  "data_at (sk\<lparr>sl_level := l\<rparr>) = data_at sk" "get_forward (sk\<lparr>sl_level := l\<rparr>) = get_forward sk"
  by (simp_all add: height_def key_at_def data_at_def get_forward_def fun_eq_iff cong: option.case_cong)

lemma cell_upd_other:
  assumes "e \<noteq> Some a"
  shows "height (sk\<lparr>sl_cells := (sl_cells sk)(a := v)\<rparr>) e = height sk e"
    "get_forward (sk\<lparr>sl_cells := (sl_cells sk)(a := v)\<rparr>) e i = get_forward sk e i"
  using assms by (simp_all add: height_def get_forward_def split: option.split)

lemma key_data_upd_other:
  assumes "x \<noteq> a"
  shows "key_at (sk\<lparr>sl_cells := (sl_cells sk)(a := v)\<rparr>) x = key_at sk x"
    "data_at (sk\<lparr>sl_cells := (sl_cells sk)(a := v)\<rparr>) x = data_at sk x"
  using assms by (simp_all add: key_at_def data_at_def)

lemma pred_at_fresh: "a \<notin> set L \<Longrightarrow> pred_at sk j L \<noteq> Some a"
  using last_tall_set[of "height sk" j L a] by (auto simp: pred_at_last_tall)

text \<open>The loop of \<open>caml_skiplist_remove\<close> redirects, on each level, the pointer to the removed cell.\<close>

lemma unlink_update:
  assumes inv: "skip_inv sk xs" and xs: "xs = L @ a # R"
  obtains sk1 where
    "unlink_levels sk a 0 (map (\<lambda>j. pred_at sk j L) [0..<Suc (sl_level sk)]) = Some sk1" "same_cells sk sk1"
    "\<And>e n. get_forward sk1 e n =
       (if n < Suc (sl_level sk) \<and> e = pred_at sk n L \<and> get_forward sk e n = Some (Some a)
        then get_forward sk (Some a) n else get_forward sk e n)"
proof -
  let ?l = "sl_level sk"
  let ?us = "map (\<lambda>j. pred_at sk j L) [0..<Suc ?l]"
  have lv: "?l < NUM_LEVELS" using inv by (simp add: skip_inv_def)
  have na: "pred_at sk j L \<noteq> Some a" for j
    using skip_inv_distinct[OF inv] xs by (intro pred_at_fresh) simp
  have sl: "get_forward sk (pred_at sk j L) j = Some (List.find (tall sk j) (a # R))" if "j < Suc ?l" for j
    using that lv by (intro forward_pred[OF inv xs]) simp
  have fa: "get_forward sk (Some a) j \<noteq> None" if "List.find (tall sk j) (a # R) = Some a" for j
    using find_in_set[OF that] skip_inv_step[OF inv, of "L @ [a]" R j] xs by (simp add: tall_def)
  show thesis
  proof (rule unlink_levels_correct[of ?us sk 0 a])
    fix sk' assume "unlink_levels sk a 0 ?us = Some sk'" "same_cells sk sk'"
      "\<And>e n. get_forward sk' e n =
       (if 0 \<le> n \<and> n < 0 + length ?us \<and> e = ?us ! (n - 0) \<and> get_forward sk e n = Some (Some a)
        then get_forward sk (Some a) n else get_forward sk e n)"
    then show thesis using that[of sk'] by (simp del: upt_Suc cong: conj_cong)
  next
    fix j assume "j < length ?us"
    then show "get_forward sk (?us ! j) (0 + j) \<noteq> None \<and> ?us ! j \<noteq> Some a"
      using sl na by (simp del: upt_Suc)
  next
    fix j assume "j < length ?us" "get_forward sk (?us ! j) (0 + j) = Some (Some a)"
    then have "j < Suc ?l" "get_forward sk (pred_at sk j L) j = Some (Some a)" by (simp_all del: upt_Suc)
    then have "List.find (tall sk j) (a # R) = Some a" using sl by simp
    then show "get_forward sk (Some a) (0 + j) \<noteq> None" using fa by simp
  qed
qed

lemma skip_inv_unlinked:
  assumes inv: "skip_inv sk xs" and xs: "xs = L @ a # R" and sc: "same_cells sk sk1"
    and g1: "\<And>e n. get_forward sk1 e n =
       (if n < Suc (sl_level sk) \<and> e = pred_at sk n L \<and> get_forward sk e n = Some (Some a)
        then get_forward sk (Some a) n else get_forward sk e n)"
    and sk': "sk' = sk1\<lparr>sl_cells := (sl_cells sk1)(a := None), sl_level := lower_level (sl_forward sk1) (sl_level sk1)\<rparr>"
  shows "skip_inv sk' (L @ R)"
    and "\<forall>x\<in>set (L @ R). key_at sk' x = key_at sk x \<and> data_at sk' x = data_at sk x"
proof -
  let ?l = "sl_level sk"
  note sc = sc[unfolded same_cells_def]
  have d: "distinct (L @ a # R)" using skip_inv_distinct[OF inv] xs by simp
  have lv: "?l < NUM_LEVELS" and a: "a \<in> set xs" using inv xs by (auto simp: skip_inv_def)
  have h: "height sk' e = height sk e" "get_forward sk' e n = get_forward sk1 e n" if "e \<noteq> Some a" for e n
    using that sc by (simp_all add: cell_upd_other sk')
  show kd: "\<forall>x\<in>set (L @ R). key_at sk' x = key_at sk x \<and> data_at sk' x = data_at sk x"
  proof
    fix x assume "x \<in> set (L @ R)"
    then have "x \<noteq> a" using d by auto
    then show "key_at sk' x = key_at sk x \<and> data_at sk' x = data_at sk x"
      using sc by (simp add: key_data_upd_other sk')
  qed
  have lk: "links (get_forward sk') (height sk') (L @ R)"
  proof (rule links_remove[where g = "get_forward sk" and h = "height sk" and a = a and m = "Suc ?l"])
    show "links (get_forward sk) (height sk) (L @ a # R)" using inv xs by (simp add: skip_inv_links)
    show "i < Suc ?l" if "i < height sk (Some a)" for i
      using inv a that by (fastforce simp: skip_inv_def)
  qed (use d h g1 in \<open>simp_all add: pred_at_last_tall\<close>)
  have hx: "height sk' (Some y) = height sk (Some y)" if "y \<in> set (L @ R)" for y
    using h(1)[of "Some y"] d that by auto
  have "\<forall>y\<in>set (L @ R). height sk' (Some y) \<le> ?l + 1" using hx inv xs by (auto simp: skip_inv_def)
  then have hl: "height sk' (Some x) \<le> lower_level (sl_forward sk') ?l + 1" if "x \<in> set (L @ R)" for x
    using head_None_height[OF lk _ _ lv that] inv sc by (simp add: skip_inv_def sk')
  have "sorted_wrt (\<lambda>a b. key_at sk a < key_at sk b) (L @ R)"
    using inv xs by (simp add: skip_inv_def sorted_wrt_append)
  then have "sorted_wrt (\<lambda>a b. key_at sk' a < key_at sk' b) (L @ R)"
    by (rule sorted_wrt_mono_rel[rotated]) (use kd in auto)
  then show "skip_inv sk' (L @ R)"
    unfolding skip_inv_links using lk hl hx inv xs sc d lv lower_level_le[of "sl_forward sk1" ?l]
    by (auto simp: skip_inv_def sk')
qed

lemma caml_skiplist_remove_present:
  assumes inv: "skip_inv sk xs" and L: "cells_below sk k xs = L" and xs: "xs = L @ a # R" and k: "key_at sk a = k"
  obtains sk' where "caml_skiplist_remove sk k = Some (True, sk')" "skip_inv sk' (L @ R)"
    "map_of (bindings sk' (L @ R)) = (map_of (bindings sk xs))(k := None)"
proof -
  obtain sk1 where sk1: "unlink_levels sk a 0 (map (\<lambda>j. pred_at sk j L) [0..<Suc (sl_level sk)]) = Some sk1"
    and sc: "same_cells sk sk1" and g1: "\<And>e n. get_forward sk1 e n =
       (if n < Suc (sl_level sk) \<and> e = pred_at sk n L \<and> get_forward sk e n = Some (Some a)
        then get_forward sk (Some a) n else get_forward sk e n)"
    using unlink_update[OF inv xs] by blast
  define sk' where "sk' = sk1\<lparr>sl_cells := (sl_cells sk1)(a := None), sl_level := lower_level (sl_forward sk1) (sl_level sk1)\<rparr>"
  obtain c where c: "sl_cells sk a = Some c" "sc_key c = k"
    using skip_inv_cell[OF inv, of a] k xs by (metis in_set_conv_decomp)
  have "caml_skiplist_remove sk k = Some (True, sk')"
    using locate_from_head[OF inv, of k] forward_place[OF inv, of k "a # R"] c sk1(1) L xs
    by (simp add: caml_skiplist_remove_def nth_append sk'_def del: upt_Suc)
  then show thesis
    using that skip_inv_unlinked[OF inv xs sc g1 sk'_def] map_of_bindings_remove[of L R sk' sk a] inv k xs
    by (simp add: skip_inv_def)
qed

lemma map_of_bindings_insert:
  assumes "\<forall>x\<in>set (L @ R). key_at sk' x = key_at sk x \<and> data_at sk' x = data_at sk x"
    and "\<forall>x\<in>set L. key_at sk x < key_at sk' a"
  shows "map_of (bindings sk' (L @ a # R)) = (map_of (bindings sk (L @ R)))(key_at sk' a \<mapsto> data_at sk' a)"
proof (rule ext)
  fix x
  have e: "bindings sk' (L @ a # R) = bindings sk L @ (key_at sk' a, data_at sk' a) # bindings sk R"
    using assms(1) by (simp add: bindings_def)
  have "map_of (bindings sk L) (key_at sk' a) = None"
    unfolding map_of_eq_None_iff using assms(2) by (auto simp: bindings_def)
  then show "map_of (bindings sk' (L @ a # R)) x = ((map_of (bindings sk (L @ R)))(key_at sk' a \<mapsto> data_at sk' a)) x"
    unfolding e by (auto simp: bindings_def map_add_def split: option.splits)
qed

text \<open>Raising the level of the head does not disturb the list.\<close>

lemma skip_inv_raise:
  assumes "skip_inv sk xs" "sl_level sk \<le> l" "l < NUM_LEVELS"
  shows "skip_inv (sk\<lparr>sl_level := l\<rparr>) xs"
proof -
  have "height sk (Some a) \<le> l + 1" if "a \<in> set xs" for a
    using assms(1,2) that by (meson add_le_mono1 le_trans skip_inv_def)
  then show ?thesis using assms(1,3) unfolding skip_inv_links by simp
qed

lemma pred_at_above_level:
  assumes "skip_inv sk xs" "set L \<subseteq> set xs" "sl_level sk < i"
  shows "pred_at sk i L = None"
  unfolding pred_at_def
proof (rule find_none, rule ballI)
  fix a assume "a \<in> set (rev L)"
  then have "height sk (Some a) \<le> sl_level sk + 1" using assms(1,2) by (auto simp: skip_inv_def)
  then show "\<not> tall sk i a" using assms(3) by (simp add: tall_def)
qed

lemma skip_inv_fresh: "skip_inv sk xs \<Longrightarrow> sl_cells sk a = None \<Longrightarrow> a \<notin> set xs"
  unfolding skip_inv_def by (metis domIff)

text \<open>A fresh cell of height \<open>n\<close> linked in after the cells \<open>L\<close>.\<close>

lemma link_update:
  assumes inv: "skip_inv sk xs" and xs: "xs = L @ R" and a: "sl_cells sk a = None" and n: "n \<le> NUM_LEVELS"
    and c: "length (sc_forward c) = n" and sk2: "sk2 = sk\<lparr>sl_cells := (sl_cells sk)(a \<mapsto> c)\<rparr>"
  obtains sk3 where
    "link_levels sk2 a 0 (map (\<lambda>j. pred_at sk j L) [0..<n]) = Some sk3" "same_cells sk2 sk3"
    "\<And>e i. e \<noteq> Some a \<Longrightarrow> get_forward sk3 e i =
       (if i < n \<and> e = pred_at sk i L then Some (Some a) else get_forward sk e i)"
    "\<And>i. i < n \<Longrightarrow> get_forward sk3 (Some a) i = get_forward sk (pred_at sk i L) i"
proof -
  let ?us = "map (\<lambda>j. pred_at sk j L) [0..<n]"
  have na: "pred_at sk j L \<noteq> Some a" for j
    using skip_inv_fresh[OF inv a] xs by (intro pred_at_fresh) simp
  have sl: "get_forward sk (pred_at sk j L) j \<noteq> None" if "j < n" for j
    using forward_pred[OF inv xs, of j] that n by simp
  have g2: "get_forward sk2 e i = get_forward sk e i" if "e \<noteq> Some a" for e i
    using that by (simp add: sk2 cell_upd_other)
  have ga: "get_forward sk2 (Some a) i \<noteq> None" if "i < n" for i using that c by (simp add: get_forward_def sk2)
  show thesis
  proof (rule link_levels_correct[of ?us sk2 0 a])
    fix sk' assume *: "link_levels sk2 a 0 ?us = Some sk'" "same_cells sk2 sk'"
      "\<And>e i. get_forward sk' e i =
         (if 0 \<le> i \<and> i < 0 + length ?us then
            if e = ?us ! (i - 0) then Some (Some a)
            else if e = Some a then get_forward sk2 (?us ! (i - 0)) i else get_forward sk2 e i
          else get_forward sk2 e i)"
    show thesis
    proof (rule that[of sk'])
      show "get_forward sk' e i = (if i < n \<and> e = pred_at sk i L then Some (Some a) else get_forward sk e i)"
        if "e \<noteq> Some a" for e i using that by (simp add: *(3) g2)
      show "get_forward sk' (Some a) i = get_forward sk (pred_at sk i L) i" if "i < n" for i
        using that na[of i] na[of i, symmetric] by (simp add: *(3) g2)
    qed (use * in simp_all)
  next
    fix j assume "j < length ?us"
    then show "get_forward sk2 (?us ! j) (0 + j) \<noteq> None \<and> ?us ! j \<noteq> Some a \<and> get_forward sk2 (Some a) (0 + j) \<noteq> None"
      using na sl ga by (simp add: g2)
  qed
qed

lemma skip_inv_linked:
  assumes inv: "skip_inv sk xs" and xs: "xs = L @ R" and a: "sl_cells sk a = None"
    and n: "0 < n" "n \<le> sl_level sk + 1"
    and c: "length (sc_forward c) = n" and k: "\<forall>x\<in>set L. key_at sk x < sc_key c" "\<forall>x\<in>set R. sc_key c < key_at sk x"
    and sk2: "sk2 = sk\<lparr>sl_cells := (sl_cells sk)(a \<mapsto> c)\<rparr>" and sc: "same_cells sk2 sk3"
    and g3: "\<And>e i. e \<noteq> Some a \<Longrightarrow> get_forward sk3 e i =
       (if i < n \<and> e = pred_at sk i L then Some (Some a) else get_forward sk e i)"
      "\<And>i. i < n \<Longrightarrow> get_forward sk3 (Some a) i = get_forward sk (pred_at sk i L) i"
  shows "skip_inv sk3 (L @ a # R)"
    and "map_of (bindings sk3 (L @ a # R)) = (map_of (bindings sk xs))(sc_key c \<mapsto> sc_data c)"
proof -
  note sc = sc[unfolded same_cells_def]
  have dx: "dom (sl_cells sk) = set (L @ R)" and lv: "sl_level sk < NUM_LEVELS"
    using inv xs by (simp_all add: skip_inv_def)
  have d: "distinct (L @ a # R)" using skip_inv_distinct[OF inv] skip_inv_fresh[OF inv a] xs by simp
  have h: "height sk3 e = height sk e" if "e \<noteq> Some a" for e
    using that sc by (simp add: sk2 cell_upd_other)
  have ha: "height sk3 (Some a) = n" "key_at sk3 a = sc_key c" "data_at sk3 a = sc_data c"
    using sc c by (simp_all add: sk2 height_def key_at_def data_at_def)
  have kd: "\<forall>x\<in>set (L @ R). key_at sk3 x = key_at sk x \<and> data_at sk3 x = data_at sk x"
  proof
    fix x assume "x \<in> set (L @ R)"
    then have "x \<noteq> a" using d by auto
    then show "key_at sk3 x = key_at sk x \<and> data_at sk3 x = data_at sk x"
      using sc by (simp add: key_data_upd_other sk2)
  qed
  then show "map_of (bindings sk3 (L @ a # R)) = (map_of (bindings sk xs))(sc_key c \<mapsto> sc_data c)"
    using map_of_bindings_insert[OF kd, of a] k(1) ha xs by simp
  have lk: "links (get_forward sk3) (height sk3) (L @ a # R)"
  proof (rule links_insert[where g = "get_forward sk" and h = "height sk" and m = n])
    show "links (get_forward sk) (height sk) (L @ R)" using inv xs by (simp add: skip_inv_links)
    show "i < height sk None" if "i < n" for i using that n lv by simp
  qed (use d ha h g3 in \<open>simp_all add: pred_at_last_tall\<close>)
  have "sorted_wrt (\<lambda>a b. key_at sk a < key_at sk b) (L @ R)" using inv xs by (simp add: skip_inv_def)
  then have "sorted_wrt (\<lambda>a b. key_at sk3 a < key_at sk3 b) (L @ R)"
    by (rule sorted_wrt_mono_rel[rotated]) (use kd in auto)
  then have srt: "sorted_wrt (\<lambda>a b. key_at sk3 a < key_at sk3 b) (L @ a # R)"
    using k kd ha by (simp add: sorted_wrt_append)
  have hx: "height sk3 (Some x) = height sk (Some x)" if "x \<in> set (L @ R)" for x
    using h[of "Some x"] d that by auto
  show "skip_inv sk3 (L @ a # R)"
    unfolding skip_inv_links
  proof (intro conjI)
    show "dom (sl_cells sk3) = set (L @ a # R)" using sc dx by (auto simp: sk2)
    show "\<forall>x\<in>set (L @ a # R). 0 < height sk3 (Some x) \<and> height sk3 (Some x) \<le> sl_level sk3 + 1"
      using hx ha n inv xs sc by (auto simp: skip_inv_def sk2)
    show "length (sl_forward sk3) = NUM_LEVELS" "sl_level sk3 < NUM_LEVELS"
      using inv sc by (simp_all add: skip_inv_def sk2)
  qed (rule srt lk)+
qed

section \<open>Refinement of finite maps\<close>

text \<open>A well-formed list represents the map of its bindings.\<close>

definition sk_rep :: "skiplist \<Rightarrow> (uintnat \<rightharpoonup> uintnat) \<Rightarrow> bool" where
  "sk_rep sk m \<longleftrightarrow> (\<exists>xs. skip_inv sk xs \<and> m = map_of (bindings sk xs))"

text \<open>What the code relies on of the allocator: the new cell is not one in use.\<close>

definition fresh_alloc :: "((nat \<rightharpoonup> skipcell) \<Rightarrow> nat option) \<Rightarrow> bool" where
  "fresh_alloc stat_alloc \<longleftrightarrow> (\<forall>cells a. stat_alloc cells = Some a \<longrightarrow> cells a = None)"

lemma insert_element_correct:
  assumes inv: "skip_inv sk xs" and xs: "xs = L @ R" and al: "fresh_alloc stat_alloc"
    and k: "\<forall>x\<in>set L. key_at sk x < k" "\<forall>x\<in>set R. k < key_at sk x"
  obtains r seed' sk' where
    "insert_element stat_alloc seed sk k d (map (\<lambda>j. pred_at sk j L) [0..<Suc (sl_level sk)]) = Some (r, seed', sk')"
    "case r of Inl e \<Rightarrow> e = Fatal_error ''Out of memory'' \<and> sk_rep sk' (map_of (bindings sk xs))
     | Inr present \<Rightarrow> \<not> present \<and> sk_rep sk' ((map_of (bindings sk xs))(k \<mapsto> d))"
proof -
  let ?us = "map (\<lambda>j. pred_at sk j L) [0..<Suc (sl_level sk)]"
  obtain nl seed' where nl: "random_level seed = (nl, seed')" by fastforce
  then have nl17: "nl < NUM_LEVELS" using random_level_bound[of seed] by simp
  define sk1 where "sk1 = (if nl > sl_level sk then sk\<lparr>sl_level := nl\<rparr> else sk)"
  have same: "key_at sk1 = key_at sk" "data_at sk1 = data_at sk" "height sk1 = height sk" "sl_cells sk1 = sl_cells sk"
    by (simp_all add: sk1_def)
  have inv1: "skip_inv sk1 xs" and lv1: "nl + 1 \<le> sl_level sk1 + 1"
    using inv skip_inv_raise[OF inv, of nl] nl17 by (auto simp: sk1_def)
  have pr: "pred_at sk1 = pred_at sk" by (simp add: pred_at_last_tall fun_eq_iff same)
  have bnd: "bindings sk1 xs = bindings sk xs" by (simp add: bindings_def same)
  have upd: "take (nl + 1) (if nl > sl_level sk then ?us @ replicate (nl - sl_level sk) None else ?us) =
      map (\<lambda>j. pred_at sk1 j L) [0..<nl + 1]"
  proof (rule nth_equalityI)
    fix j assume "j < length (take (nl + 1) (if nl > sl_level sk then ?us @ replicate (nl - sl_level sk) None else ?us))"
    then have "j < nl + 1" by (simp split: if_splits)
    then show "take (nl + 1) (if nl > sl_level sk then ?us @ replicate (nl - sl_level sk) None else ?us) ! j =
        map (\<lambda>j. pred_at sk1 j L) [0..<nl + 1] ! j"
      using pred_at_above_level[OF inv, of L j] xs
      by (auto simp: nth_append pr simp del: upt_Suc)
  qed auto
  show thesis
  proof (cases "stat_alloc (sl_cells sk)")
    case None
    have "sk_rep sk1 (map_of (bindings sk xs))" using inv1 bnd unfolding sk_rep_def by metis
    then show thesis using that[of "Inl (Fatal_error ''Out of memory'')" seed' sk1] None nl same(4)
      by (simp add: insert_element_def sk1_def del: upt_Suc)
  next
    case (Some a)
    then have a: "sl_cells sk1 a = None" using al same by (simp add: fresh_alloc_def)
    define c where "c = \<lparr>sc_key = k, sc_data = d, sc_forward = replicate (nl + 1) None\<rparr>"
    define sk2 where "sk2 = sk1\<lparr>sl_cells := (sl_cells sk1)(a \<mapsto> c)\<rparr>"
    have lc: "length (sc_forward c) = nl + 1" by (simp add: c_def)
    obtain sk3 where sk3: "link_levels sk2 a 0 (map (\<lambda>j. pred_at sk1 j L) [0..<nl + 1]) = Some sk3" "same_cells sk2 sk3"
      "\<And>e i. e \<noteq> Some a \<Longrightarrow> get_forward sk3 e i =
         (if i < nl + 1 \<and> e = pred_at sk1 i L then Some (Some a) else get_forward sk1 e i)"
      "\<And>i. i < nl + 1 \<Longrightarrow> get_forward sk3 (Some a) i = get_forward sk1 (pred_at sk1 i L) i"
      using link_update[OF inv1 xs a _ lc sk2_def] nl17 by (auto simp del: upt_Suc)
    have "skip_inv sk3 (L @ a # R)" "map_of (bindings sk3 (L @ a # R)) = (map_of (bindings sk xs))(k \<mapsto> d)"
      using skip_inv_linked[OF inv1 xs a _ lv1 lc _ _ sk2_def sk3(2-4)] k bnd by (simp_all add: c_def same)
    then have "sk_rep sk3 ((map_of (bindings sk xs))(k \<mapsto> d))" unfolding sk_rep_def by metis
    moreover have "insert_element stat_alloc seed sk k d ?us = Some (Inr False, seed', sk3)"
      unfolding insert_element_def nl prod.case Let_def upd sk1_def[symmetric] same(4) Some option.case
        c_def[symmetric] using sk3(1) by (simp add: sk2_def same)
    ultimately show thesis using that[of "Inr False" seed' sk3] by simp
  qed
qed

text \<open>The outcome of the search shared by insertion and deletion.\<close>

lemma place_cases:
  assumes inv: "skip_inv sk xs"
  obtains (present) L a R c where "xs = L @ a # R" "cells_below sk k xs = L" "\<forall>x\<in>set L. key_at sk x < k"
      "locate sk k (sl_level sk) None = Some (map (\<lambda>j. pred_at sk j L) [0..<Suc (sl_level sk)])"
      "get_forward sk (pred_at sk 0 L) 0 = Some (Some a)" "sl_cells sk a = Some c" "sc_key c = k" "key_at sk a = k"
      "k \<in> dom (map_of (bindings sk xs))"
    | (absent) L R f where "xs = L @ R" "\<forall>x\<in>set L. key_at sk x < k" "\<forall>x\<in>set R. k < key_at sk x"
      "locate sk k (sl_level sk) None = Some (map (\<lambda>j. pred_at sk j L) [0..<Suc (sl_level sk)])"
      "get_forward sk (pred_at sk 0 L) 0 = Some f"
      "f = None \<or> (\<exists>a c. f = Some a \<and> sl_cells sk a = Some c \<and> sc_key c \<noteq> k)"
      "k \<notin> dom (map_of (bindings sk xs))"
proof -
  define L where "L = cells_below sk k xs"
  obtain R where xs: "xs = L @ R" and kl: "\<forall>a\<in>set L. key_at sk a < k" and kr: "\<forall>b\<in>set R. k \<le> key_at sk b"
    using skip_split[OF inv, of k] unfolding L_def by blast
  have loc: "locate sk k (sl_level sk) None = Some (map (\<lambda>j. pred_at sk j L) [0..<Suc (sl_level sk)])"
    unfolding L_def by (rule locate_from_head[OF inv])
  have f: "get_forward sk (pred_at sk 0 L) 0 = Some (case R of [] \<Rightarrow> None | a # _ \<Rightarrow> Some a)"
    unfolding L_def by (rule forward_place[OF inv xs[unfolded L_def]])
  have dm: "dom (map_of (bindings sk xs)) = key_at sk ` set xs"
    by (simp add: dom_map_of_conv_image_fst bindings_def image_image)
  show thesis
  proof (cases R)
    case Nil
    then show thesis using absent[of L R None] xs kl loc f dm by auto
  next
    case (Cons a R')
    have "a \<in> set xs" using xs Cons by simp
    then obtain c where c: "sl_cells sk a = Some c" "sc_key c = key_at sk a" by (rule skip_inv_cell[OF inv])
    have r: "\<forall>b\<in>set R'. key_at sk a < key_at sk b" using inv xs Cons by (simp add: skip_inv_def sorted_wrt_append)
    show thesis
    proof (cases "key_at sk a = k")
      case True
      have "k \<in> dom (map_of (bindings sk xs))" unfolding dm using \<open>a \<in> set xs\<close> True by blast
      then show thesis using present[OF _ L_def[symmetric] kl loc _ c(1)] c xs f Cons True by simp
    next
      case False
      then have kr': "\<forall>x\<in>set R. k < key_at sk x" using kr r Cons by force
      then have "k \<notin> dom (map_of (bindings sk xs))" unfolding dm using kl kr' xs by auto
      then show thesis using absent[OF xs kl kr' loc, of "Some a"] c f Cons False by simp
    qed
  qed
qed

text \<open>Storing in a cell that is present.\<close>

lemma skip_inv_store:
  assumes inv: "skip_inv sk xs" and xs: "xs = L @ a # R" and kl: "\<forall>x\<in>set L. key_at sk x < key_at sk a"
    and c: "sl_cells sk a = Some c" and sk': "sk' = sk\<lparr>sl_cells := (sl_cells sk)(a \<mapsto> c\<lparr>sc_data := d\<rparr>)\<rparr>"
  shows "skip_inv sk' xs" and "map_of (bindings sk' xs) = (map_of (bindings sk xs))(key_at sk a \<mapsto> d)"
proof -
  have same: "height sk' = height sk" "key_at sk' = key_at sk" "get_forward sk' = get_forward sk"
    using c by (auto simp: sk' height_def key_at_def get_forward_def fun_eq_iff split: option.splits)
  show "skip_inv sk' xs"
    using inv xs unfolding skip_inv_links same by (auto simp: sk')
  have d: "a \<notin> set L" "a \<notin> set R" using skip_inv_distinct[OF inv] xs by auto
  have da: "data_at sk' a = d" "\<And>x. x \<noteq> a \<Longrightarrow> data_at sk' x = data_at sk x" by (simp_all add: sk' data_at_def)
  have n: "map_of (bindings sk L) (key_at sk a) = None"
    unfolding map_of_eq_None_iff using kl by (auto simp: bindings_def)
  have "bindings sk' (L @ a # R) = bindings sk L @ (key_at sk a, d) # bindings sk R"
    using d da by (auto simp: bindings_def same) (metis da(2))+
  moreover have "bindings sk (L @ a # R) = bindings sk L @ (key_at sk a, data_at sk a) # bindings sk R"
    by (simp add: bindings_def)
  ultimately show "map_of (bindings sk' xs) = (map_of (bindings sk xs))(key_at sk a \<mapsto> d)"
    unfolding xs using n by (auto simp: map_add_def fun_eq_iff split: option.splits)
qed

lemma caml_skiplist_insert_rep:
  assumes rep: "sk_rep sk m" and al: "fresh_alloc stat_alloc"
  shows "\<exists>r seed' sk'. caml_skiplist_insert stat_alloc seed sk k d = Some (r, seed', sk') \<and>
    (case r of Inl e \<Rightarrow> e = Fatal_error ''Out of memory'' \<and> k \<notin> dom m \<and> sk_rep sk' m
     | Inr present \<Rightarrow> present = (k \<in> dom m) \<and> sk_rep sk' (m(k \<mapsto> d)))"
proof -
  obtain xs where inv: "skip_inv sk xs" and m: "m = map_of (bindings sk xs)" using rep by (auto simp: sk_rep_def)
  have u0: "map (\<lambda>j. pred_at sk j L) [0..<Suc n] ! 0 = pred_at sk 0 L" for L n by (simp del: upt_Suc)
  from inv show ?thesis
  proof (cases rule: place_cases[where k = k])
    case (present L a R c)
    define sk' where "sk' = sk\<lparr>sl_cells := (sl_cells sk)(a \<mapsto> c\<lparr>sc_data := d\<rparr>)\<rparr>"
    have "caml_skiplist_insert stat_alloc seed sk k d = Some (Inr True, seed, sk')"
      unfolding caml_skiplist_insert_def present Option.bind.bind_lunit u0 by (simp add: sk'_def present)
    moreover have "sk_rep sk' (m(k \<mapsto> d))"
      using skip_inv_store[OF inv present(1) _ present(6) sk'_def] present m unfolding sk_rep_def by metis
    ultimately show ?thesis using present m by simp
  next
    case (absent L R f)
    obtain r seed' sk' where
      "insert_element stat_alloc seed sk k d (map (\<lambda>j. pred_at sk j L) [0..<Suc (sl_level sk)]) = Some (r, seed', sk')"
      and r: "case r of Inl e \<Rightarrow> e = Fatal_error ''Out of memory'' \<and> sk_rep sk' m | Inr present \<Rightarrow> \<not> present \<and> sk_rep sk' (m(k \<mapsto> d))"
      using insert_element_correct[OF inv absent(1) al absent(2,3), of seed d] m by blast
    then have "caml_skiplist_insert stat_alloc seed sk k d = Some (r, seed', sk')"
      unfolding caml_skiplist_insert_def absent(4,5) Option.bind.bind_lunit u0 using absent(6) by auto
    then show ?thesis using r absent(7) m by (auto split: sum.splits)
  qed
qed

lemma caml_skiplist_remove_rep:
  assumes "sk_rep sk m"
  shows "\<exists>sk'. caml_skiplist_remove sk k = Some (k \<in> dom m, sk') \<and> sk_rep sk' (m(k := None))"
proof -
  obtain xs where inv: "skip_inv sk xs" and m: "m = map_of (bindings sk xs)" using assms by (auto simp: sk_rep_def)
  have u0: "map (\<lambda>j. pred_at sk j L) [0..<Suc n] ! 0 = pred_at sk 0 L" for L n by (simp del: upt_Suc)
  from inv show ?thesis
  proof (cases rule: place_cases[where k = k])
    case (present L a R c)
    obtain sk' where "caml_skiplist_remove sk k = Some (True, sk')" "skip_inv sk' (L @ R)"
      "map_of (bindings sk' (L @ R)) = m(k := None)"
      using caml_skiplist_remove_present[OF inv present(2,1,8)] m by blast
    then show ?thesis using present(9) m unfolding sk_rep_def by metis
  next
    case (absent L R f)
    then have "caml_skiplist_remove sk k = Some (False, sk)"
      unfolding caml_skiplist_remove_def absent(4,5) Option.bind.bind_lunit u0 by auto
    moreover have "m(k := None) = m" using absent(7) m by (simp add: domIff fun_upd_idem)
    ultimately show ?thesis using absent(7) m assms by simp
  qed
qed

section \<open>Emptying and iterating\<close>

text \<open>The bottom level as a linked list.\<close>

fun chain :: "(nat \<rightharpoonup> skipcell) \<Rightarrow> ptr \<Rightarrow> nat list \<Rightarrow> bool" where
  "chain cells p [] \<longleftrightarrow> p = None"
| "chain cells p (a # zs) \<longleftrightarrow>
     p = Some a \<and> (\<exists>c nxt fs. cells a = Some c \<and> sc_forward c = nxt # fs \<and> chain cells nxt zs)"

lemma skip_inv_chain:
  assumes inv: "skip_inv sk xs" and "xs = ys @ zs" "get_forward sk (cur ys) 0 = Some p"
  shows "chain (sl_cells sk) p zs"
  using assms(2,3)
proof (induction zs arbitrary: ys p)
  case Nil
  have "0 < height sk (cur ys)"
    using inv Nil by (cases ys rule: rev_cases) (auto simp: skip_inv_def)
  then show ?case using skip_inv_step[OF inv Nil(1)] Nil by simp
next
  case (Cons a zs)
  have h: "0 < height sk (cur ys)"
    using inv Cons.prems by (cases ys rule: rev_cases) (auto simp: skip_inv_def)
  have a: "a \<in> set xs" and ta: "tall sk 0 a" using inv Cons.prems by (auto simp: skip_inv_def tall_def)
  have p: "p = Some a" using skip_inv_step[OF inv Cons.prems(1) h] Cons.prems(2) ta by simp
  obtain c where c: "sl_cells sk a = Some c" "height sk (Some a) = length (sc_forward c)"
    by (rule skip_inv_cell[OF inv a])
  then obtain nxt fs where fs: "sc_forward c = nxt # fs" using ta by (cases "sc_forward c") (auto simp: tall_def)
  have "get_forward sk (cur (ys @ [a])) 0 = Some nxt" using c fs by (simp add: get_forward_def)
  then have "chain (sl_cells sk) nxt zs" using Cons.IH[of "ys @ [a]"] Cons.prems(1) by simp
  then show ?case using p c fs by simp
qed

lemma skip_inv_head:
  assumes "skip_inv sk xs"
  obtains p where "get_forward sk None 0 = Some p" "chain (sl_cells sk) p xs"
  using assms skip_inv_chain[of sk xs "[]" xs] skip_inv_step[of sk xs "[]" xs 0] by auto

lemma free_cells_chain:
  "chain cells p zs \<Longrightarrow> distinct zs \<Longrightarrow> free_cells cells p = Some (cells |` (- set zs))"
proof (induction zs arbitrary: cells p)
  case Nil
  then show ?case by (subst free_cells.simps) (simp add: restrict_map_def)
next
  case (Cons a zs)
  then obtain c nxt fs where c: "p = Some a" "cells a = Some c" "sc_forward c = nxt # fs" "chain cells nxt zs" by auto
  have "chain (cells(a := None)) q zs" if "chain cells q zs" "a \<notin> set zs" for q
    using that by (induction zs arbitrary: q) auto
  then have "chain (cells(a := None)) nxt zs" using c(4) Cons.prems(2) by simp
  moreover have "distinct zs" using Cons.prems(2) by simp
  ultimately have "free_cells (cells(a := None)) nxt = Some (cells(a := None) |` (- set zs))" by (rule Cons.IH)
  moreover have "cells(a := None) |` (- set zs) = cells |` (- set (a # zs))"
    by (auto simp: restrict_map_def fun_eq_iff)
  ultimately show ?case using c by (subst free_cells.simps) simp
qed

lemma foreach_cells_chain:
  "chain (sl_cells sk) p zs \<Longrightarrow> foreach_cells (sl_cells sk) p = Some (bindings sk zs)"
proof (induction zs arbitrary: p)
  case Nil
  then show ?case by (subst foreach_cells.simps) (simp add: bindings_def)
next
  case (Cons a zs)
  then show ?case
    by (subst foreach_cells.simps) (auto simp: bindings_def key_at_def data_at_def)
qed

lemma skip_inv_new: "skip_inv SKIPLIST_STATIC_INITIALIZER []"
  by (simp add: skip_inv_def get_forward_def SKIPLIST_STATIC_INITIALIZER_def)

lemma static_rep: "sk_rep SKIPLIST_STATIC_INITIALIZER Map.empty"
  using skip_inv_new by (auto simp: sk_rep_def bindings_def)

lemma caml_skiplist_empty_rep:
  assumes "sk_rep sk m"
  shows "\<exists>sk'. caml_skiplist_empty sk = Some sk' \<and> sk_rep sk' Map.empty \<and> sl_cells sk' = Map.empty"
proof -
  obtain xs where inv: "skip_inv sk xs" using assms by (auto simp: sk_rep_def)
  obtain p where p: "get_forward sk None 0 = Some p" "chain (sl_cells sk) p xs" by (rule skip_inv_head[OF inv])
  let ?l = "sl_level sk"
  have len: "length (sl_forward sk) = NUM_LEVELS" and lv: "?l < NUM_LEVELS" and dm: "dom (sl_cells sk) = set xs"
    using inv by (simp_all add: skip_inv_def)
  have "sl_forward sk ! i = None" if "?l < i" "i < NUM_LEVELS" for i
  proof -
    have "\<forall>a\<in>set xs. \<not> tall sk i a" using inv that(1) by (auto simp: skip_inv_def tall_def)
    then show ?thesis using skip_inv_step[OF inv, of "[]" xs i] that(2) len by (simp add: get_forward_def)
  qed
  then have fw: "replicate (?l + 1) None @ drop (?l + 1) (sl_forward sk) = replicate NUM_LEVELS None"
    using len lv by (intro nth_equalityI) (auto simp: nth_append simp del: replicate_Suc)
  have "sl_cells sk |` (- set xs) = Map.empty" using dm by (auto simp: restrict_map_def fun_eq_iff domIff)
  then have "caml_skiplist_empty sk = Some SKIPLIST_STATIC_INITIALIZER"
    using p free_cells_chain[OF p(2) skip_inv_distinct[OF inv]] fw
    by (simp add: caml_skiplist_empty_def SKIPLIST_STATIC_INITIALIZER_def)
  then show ?thesis using static_rep by (simp add: SKIPLIST_STATIC_INITIALIZER_def)
qed

lemma foreach_rep:
  assumes "sk_rep sk m"
  shows "\<exists>es. FOREACH_SKIPLIST_ELEMENT sk = Some es \<and> map_of es = m \<and> sorted_wrt (<) (map fst es)"
proof -
  obtain xs where inv: "skip_inv sk xs" and m: "m = map_of (bindings sk xs)" using assms by (auto simp: sk_rep_def)
  obtain p where p: "get_forward sk None 0 = Some p" "chain (sl_cells sk) p xs" by (rule skip_inv_head[OF inv])
  have "sorted_wrt (<) (map fst (bindings sk xs))"
    using inv by (simp add: bindings_def skip_inv_def sorted_wrt_map comp_def)
  then show ?thesis using p foreach_cells_chain[OF p(2)] m by (simp add: FOREACH_SKIPLIST_ELEMENT_def)
qed

text \<open>C21: a search returns what the represented map holds at the key, and the search for the
  greatest binding at or below a key finds it exactly when there is one; both end and access
  only live cells inside their forward arrays.\<close>

theorem caml_skiplist_find_correct:
  assumes "sk_rep sk m"
  shows "caml_skiplist_find sk key = Some (m key) \<and>
    (case caml_skiplist_find_below sk k of
       None \<Rightarrow> False
     | Some None \<Rightarrow> \<forall>x\<in>dom m. k < x
     | Some (Some (x, d)) \<Rightarrow> m x = Some d \<and> x \<le> k \<and> (\<forall>y\<in>dom m. y \<le> k \<longrightarrow> y \<le> x))"
proof -
  obtain xs where inv: "skip_inv sk xs" and m: "m = map_of (bindings sk xs)" using assms by (auto simp: sk_rep_def)
  let ?L = "filter (\<lambda>(x, _). x \<le> k) (bindings sk xs)"
  have srt: "sorted_wrt (\<lambda>p q. fst p < fst q) (bindings sk xs)"
    using inv by (simp add: bindings_def skip_inv_def sorted_wrt_map)
  then have dist: "distinct (map fst (bindings sk xs))"
    using sorted_wrt_distinct[of "\<lambda>x. x" "map fst (bindings sk xs)"] by (simp add: sorted_wrt_map)
  have mem: "m x = Some d \<longleftrightarrow> (x, d) \<in> set (bindings sk xs)" for x d
    unfolding m using dist by (rule map_of_eq_Some_iff)
  have below: "case (if ?L = [] then None else Some (last ?L)) of None \<Rightarrow> \<forall>x\<in>dom m. k < x
     | Some (x, d) \<Rightarrow> m x = Some d \<and> x \<le> k \<and> (\<forall>y\<in>dom m. y \<le> k \<longrightarrow> y \<le> x)"
  proof (cases "?L = []")
    case True
    then show ?thesis by (auto simp: mem dom_def filter_empty_conv not_le)
  next
    case False
    then obtain L' x d where L: "?L = L' @ [(x, d)]" by (metis append_butlast_last_id prod.exhaust)
    have "(x, d) \<in> set ?L" unfolding L by simp
    then have xd: "(x, d) \<in> set (bindings sk xs)" "x \<le> k" by auto
    have "sorted_wrt (\<lambda>p q. fst p < fst q) (L' @ [(x, d)])" using srt L by (metis sorted_wrt_filter)
    then have "fst p \<le> x" if "p \<in> set ?L" for p
      using that L by (auto simp: sorted_wrt_append intro: less_imp_le)
    then have "y \<le> x" if "m y = Some e" "y \<le> k" for y e using that by (fastforce simp: mem)
    then show ?thesis using False L xd by (auto simp: mem dom_def)
  qed
  show ?thesis
    using caml_skiplist_find_map[OF inv] m caml_skiplist_find_below_last[OF inv, of k] below
    by (simp add: Let_def split: option.splits prod.splits)
qed

text \<open>C2: insertion refines the update of a map, whatever level the generator draws: it ends, keeps
  the list well formed and reports whether the key was bound; when a new cell is needed and
  memory is exhausted the process stops with a fatal error.\<close>

theorem caml_skiplist_insert_correct:
  assumes "sk_rep sk m" and "fresh_alloc stat_alloc"
  shows "\<exists>r seed' sk'. caml_skiplist_insert stat_alloc seed sk k d = Some (r, seed', sk') \<and>
    (case r of Inl e \<Rightarrow> e = Fatal_error ''Out of memory'' \<and> k \<notin> dom m \<and> sk_rep sk' m
     | Inr present \<Rightarrow> present = (k \<in> dom m) \<and> sk_rep sk' (m(k \<mapsto> d)))"
  using assms by (rule caml_skiplist_insert_rep)

text \<open>C8: deletion refines the removal of a key from a map: it ends, keeps the list well formed,
  frees the cell, and reports whether the key was bound.\<close>

theorem caml_skiplist_remove_correct:
  assumes "sk_rep sk m"
  shows "\<exists>sk'. caml_skiplist_remove sk k = Some (k \<in> dom m, sk') \<and> sk_rep sk' (m(k := None))"
  using assms by (rule caml_skiplist_remove_rep)

text \<open>C22: iteration visits every binding once, in increasing order of keys; emptying frees every
  cell and leaves the empty list, which initialization also creates.\<close>

theorem caml_skiplist_iterate_empty_correct:
  assumes "sk_rep sk m"
  shows "(\<exists>es. FOREACH_SKIPLIST_ELEMENT sk = Some es \<and> map_of es = m \<and> sorted_wrt (<) (map fst es)) \<and>
    (\<exists>sk'. caml_skiplist_empty sk = Some sk' \<and> sk_rep sk' Map.empty \<and> sl_cells sk' = Map.empty) \<and>
    (sl_cells sk0 = Map.empty \<longrightarrow> sk_rep (caml_skiplist_init sk0) Map.empty)"
proof -
  have "skip_inv (caml_skiplist_init sk0) []" if "sl_cells sk0 = Map.empty"
    using that by (simp add: caml_skiplist_init_def skip_inv_def get_forward_def)
  then show ?thesis
    using foreach_rep[OF assms] caml_skiplist_empty_rep[OF assms] by (auto simp: sk_rep_def bindings_def)
qed

text \<open>The random level is below the length of the forward array of the head, so no draw makes
  an insertion write outside it.\<close>

theorem random_level_in_bounds: "fst (random_level seed) < NUM_LEVELS"
  by (rule random_level_bound)

section \<open>The interface of a dictionary\<close>

text \<open>The promises of a dictionary to its clients.  \<open>rep\<close> relates a state to the map it represents;
  \<open>env\<close> is what an insertion needs from outside (the allocator and the generator's state).\<close>

locale dictionary =
  fixes rep :: "'s \<Rightarrow> ('k \<rightharpoonup> 'v) \<Rightarrow> bool"
    and good :: "'env \<Rightarrow> bool"
    and find :: "'s \<Rightarrow> 'k \<Rightarrow> 'v option option"
    and ins :: "'env \<Rightarrow> 's \<Rightarrow> 'k \<Rightarrow> 'v \<Rightarrow> (bool result \<times> 'e \<times> 's) option"
    and del :: "'s \<Rightarrow> 'k \<Rightarrow> (bool \<times> 's) option"
    and elems :: "'s \<Rightarrow> ('k \<times> 'v) list option"
    and clear :: "'s \<Rightarrow> 's option"
  assumes find_rep: "rep s m \<Longrightarrow> find s k = Some (m k)"
    and ins_rep: "rep s m \<Longrightarrow> good c \<Longrightarrow> \<exists>r e s'. ins c s k v = Some (r, e, s') \<and>
      (case r of Inl x \<Rightarrow> x = Fatal_error ''Out of memory'' \<and> k \<notin> dom m \<and> rep s' m
       | Inr present \<Rightarrow> present = (k \<in> dom m) \<and> rep s' (m(k \<mapsto> v)))"
    and del_rep: "rep s m \<Longrightarrow> \<exists>s'. del s k = Some (k \<in> dom m, s') \<and> rep s' (m(k := None))"
    and elems_rep: "rep s m \<Longrightarrow> \<exists>es. elems s = Some es \<and> map_of es = m"
    and clear_rep: "rep s m \<Longrightarrow> \<exists>s'. clear s = Some s' \<and> rep s' Map.empty"
begin

lemma rep_unique: "rep s m \<Longrightarrow> rep s m' \<Longrightarrow> m = m'"
  using find_rep by (metis ext option.inject)

lemma ins_some:
  assumes "rep s m" "good c" "ins c s k v = Some (r, e, s')"
  shows "case r of Inl x \<Rightarrow> x = Fatal_error ''Out of memory'' \<and> rep s' m | Inr present \<Rightarrow> present = (k \<in> dom m) \<and> rep s' (m(k \<mapsto> v))"
  using ins_rep[OF assms(1,2), of k v] assms(3) by (auto split: sum.splits)

lemma ins_find:
  assumes "rep s m" "good c" "ins c s k v = Some (Inr b, e, s')"
  shows "find s' k = Some (Some v)" and "k' \<noteq> k \<Longrightarrow> find s' k' = find s k'"
  using ins_some[OF assms] find_rep[OF assms(1)] find_rep[of s' "m(k \<mapsto> v)"] by auto

lemma del_find:
  assumes "rep s m" "del s k = Some (b, s')"
  shows "find s' k = Some None" and "k' \<noteq> k \<Longrightarrow> find s' k' = find s k'"
  using del_rep[OF assms(1), of k] assms(2) find_rep[OF assms(1)] find_rep[of s' "m(k := None)"] by auto

end

interpretation skd: dictionary sk_rep "\<lambda>(stat_alloc, _). fresh_alloc stat_alloc" caml_skiplist_find
  "\<lambda>(stat_alloc, seed). caml_skiplist_insert stat_alloc seed" caml_skiplist_remove
  FOREACH_SKIPLIST_ELEMENT caml_skiplist_empty
proof
  show "caml_skiplist_find s k = Some (m k)" if "sk_rep s m" for s m k
    using that caml_skiplist_find_map by (auto simp: sk_rep_def)
  show "\<exists>r e s'. (case c of (stat_alloc, seed) \<Rightarrow> caml_skiplist_insert stat_alloc seed) s k v = Some (r, e, s') \<and>
      (case r of Inl x \<Rightarrow> x = Fatal_error ''Out of memory'' \<and> k \<notin> dom m \<and> sk_rep s' m
       | Inr present \<Rightarrow> present = (k \<in> dom m) \<and> sk_rep s' (m(k \<mapsto> v)))"
    if "sk_rep s m" "case c of (stat_alloc, _) \<Rightarrow> fresh_alloc stat_alloc" for s m k v and c :: "_ \<times> 32 word"
    using that caml_skiplist_insert_rep[OF that(1)] by (cases c) simp
  show "\<exists>es. FOREACH_SKIPLIST_ELEMENT s = Some es \<and> map_of es = m" if "sk_rep s m" for s m
    using foreach_rep[OF that] by blast
  show "\<exists>s'. caml_skiplist_empty s = Some s' \<and> sk_rep s' Map.empty" if "sk_rep s m" for s m
    using caml_skiplist_empty_rep[OF that] by blast
qed (rule caml_skiplist_remove_rep)

section \<open>Examples\<close>

text \<open>A list with one binding, and an allocator of two cells.\<close>

definition one_skiplist :: skiplist where
  "one_skiplist = \<lparr>sl_forward = Some 0 # replicate 16 None, sl_level = 0,
     sl_cells = [0 \<mapsto> \<lparr>sc_key = 5, sc_data = 7, sc_forward = [None]\<rparr>]\<rparr>"

definition two_alloc :: "(nat \<rightharpoonup> skipcell) \<Rightarrow> nat option" where
  "two_alloc cells = (if cells 0 = None then Some 0 else if cells 1 = None then Some 1 else None)"

lemma fresh_two_alloc: "fresh_alloc two_alloc"
  by (auto simp: fresh_alloc_def two_alloc_def split: if_splits)

lemma one_skiplist_rep: "sk_rep one_skiplist [5 \<mapsto> 7]"
proof -
  have "skip_inv one_skiplist [0]"
    unfolding skip_inv_def
    by (auto simp: one_skiplist_def height_def key_at_def get_forward_def tall_def Cons_eq_append_conv
        nth_Cons' cur_def)
  moreover have "bindings one_skiplist [0] = [(5, 7)]"
    by (simp add: bindings_def one_skiplist_def key_at_def data_at_def)
  ultimately show ?thesis unfolding sk_rep_def by (intro exI[of _ "[0]"]) simp
qed

theorem caml_skiplist_find_correct_witness:
  "caml_skiplist_find one_skiplist 5 = Some (Some 7) \<and> caml_skiplist_find_below one_skiplist 9 \<noteq> Some None"
  using caml_skiplist_find_correct[OF one_skiplist_rep, of 5 9] by (auto split: option.splits)

theorem caml_skiplist_insert_correct_witness:
  "\<exists>r seed' sk'. caml_skiplist_insert two_alloc 0 one_skiplist 9 1 = Some (r, seed', sk') \<and>
    (r = Inl (Fatal_error ''Out of memory'') \<or> r = Inr False \<and> sk_rep sk' [5 \<mapsto> 7, 9 \<mapsto> 1])"
  using caml_skiplist_insert_correct[OF one_skiplist_rep fresh_two_alloc, of 0 9 1]
  by (force split: sum.splits)

theorem caml_skiplist_remove_correct_witness:
  "\<exists>sk'. caml_skiplist_remove one_skiplist 5 = Some (True, sk') \<and> sk_rep sk' Map.empty"
  using caml_skiplist_remove_correct[OF one_skiplist_rep, of 5] by simp

theorem caml_skiplist_iterate_empty_correct_witness:
  "\<exists>es. FOREACH_SKIPLIST_ELEMENT one_skiplist = Some es \<and> map_of es = [5 \<mapsto> 7]"
  using caml_skiplist_iterate_empty_correct[OF one_skiplist_rep, of one_skiplist] by blast

end
