(* ===== verification/Globroots.thy ===== *)
theory Globroots
  imports Skiplist_Refine Mlvalues "HOL-Library.Sublist"
begin

text \<open>
  The roots registered by C code, \<open>runtime/globroots.c\<close>: three skip lists keyed by the address of
  the root.  Each operation runs under \<open>roots_mutex\<close>, so it is one step of the state below;
  locking is not modelled.  The contents of the registered C variables are a map from their
  addresses.  A scanning action is a parameter: what it writes back into the root, given the
  root's value.
\<close>

section \<open>State\<close>

datatype root_list = Roots | Roots_young | Roots_old

datatype gc_root_class = YOUNG | OLD | UNTRACKED

record roots_st =
  caml_global_roots :: skiplist
  caml_global_roots_young :: skiplist
  caml_global_roots_old :: skiplist
  roots_seed :: "32 word"
  root_vals :: "uintnat \<Rightarrow> mlvalue"
  caml_minor_heaps_start :: uintnat
  caml_minor_heaps_end :: uintnat

fun get_list :: "roots_st \<Rightarrow> root_list \<Rightarrow> skiplist" where
  "get_list st Roots = caml_global_roots st"
| "get_list st Roots_young = caml_global_roots_young st"
| "get_list st Roots_old = caml_global_roots_old st"

fun set_list :: "roots_st \<Rightarrow> root_list \<Rightarrow> skiplist \<Rightarrow> roots_st" where
  "set_list st Roots sk = st\<lparr>caml_global_roots := sk\<rparr>"
| "set_list st Roots_young sk = st\<lparr>caml_global_roots_young := sk\<rparr>"
| "set_list st Roots_old sk = st\<lparr>caml_global_roots_old := sk\<rparr>"

text \<open>Steps may end the process; \<open>then_do\<close> runs the next one otherwise.\<close>

type_synonym outcome = "(unit result \<times> roots_st) option"

definition then_do :: "outcome \<Rightarrow> (roots_st \<Rightarrow> outcome) \<Rightarrow> outcome" where
  "then_do r f = Option.bind r (\<lambda>(x, st). case x of Inl e \<Rightarrow> Some (Inl e, st) | Inr _ \<Rightarrow> f st)"

definition finish :: "roots_st \<Rightarrow> outcome" where
  "finish st = Some (Inr (), st)"

section \<open>Insertion and deletion\<close>

type_synonym allocator = "(nat \<rightharpoonup> skipcell) \<Rightarrow> nat option"

definition caml_insert_global_root :: "allocator \<Rightarrow> roots_st \<Rightarrow> root_list \<Rightarrow> uintnat \<Rightarrow> outcome" where
  "caml_insert_global_root stat_alloc st list r =
     map_option (\<lambda>(res, seed, sk). (map_result (\<lambda>_. ()) res, (set_list st list sk)\<lparr>roots_seed := seed\<rparr>))
       (caml_skiplist_insert stat_alloc (roots_seed st) (get_list st list) r 0)"

definition caml_delete_global_root :: "roots_st \<Rightarrow> root_list \<Rightarrow> uintnat \<Rightarrow> outcome" where
  "caml_delete_global_root st list r =
     map_option (\<lambda>(_, sk). (Inr (), set_list st list sk)) (caml_skiplist_remove (get_list st list) r)"

definition caml_register_global_root :: "allocator \<Rightarrow> roots_st \<Rightarrow> uintnat \<Rightarrow> outcome" where
  "caml_register_global_root stat_alloc st r = caml_insert_global_root stat_alloc st Roots r"

definition caml_remove_global_root :: "roots_st \<Rightarrow> uintnat \<Rightarrow> outcome" where
  "caml_remove_global_root st r = caml_delete_global_root st Roots r"

section \<open>Generational roots\<close>

definition Is_young :: "roots_st \<Rightarrow> mlvalue \<Rightarrow> bool" where
  "Is_young st v \<longleftrightarrow> v < caml_minor_heaps_end st \<and> v > caml_minor_heaps_start st"

definition classify_gc_root :: "roots_st \<Rightarrow> mlvalue \<Rightarrow> gc_root_class" where
  "classify_gc_root st v = (if \<not> Is_block v then UNTRACKED else if Is_young st v then YOUNG else OLD)"

definition caml_register_generational_global_root :: "allocator \<Rightarrow> roots_st \<Rightarrow> uintnat \<Rightarrow> outcome" where
  "caml_register_generational_global_root stat_alloc st r =
     (case classify_gc_root st (root_vals st r) of
        YOUNG \<Rightarrow> caml_insert_global_root stat_alloc st Roots_young r
      | OLD \<Rightarrow> caml_insert_global_root stat_alloc st Roots_old r
      | UNTRACKED \<Rightarrow> finish st)"

text \<open>The case \<open>OLD\<close> falls through to \<open>YOUNG\<close>.\<close>

definition caml_remove_generational_global_root :: "roots_st \<Rightarrow> uintnat \<Rightarrow> outcome" where
  "caml_remove_generational_global_root st r =
     (case classify_gc_root st (root_vals st r) of
        OLD \<Rightarrow> then_do (caml_delete_global_root st Roots_old r)
                 (\<lambda>st. caml_delete_global_root st Roots_young r)
      | YOUNG \<Rightarrow> caml_delete_global_root st Roots_young r
      | UNTRACKED \<Rightarrow> finish st)"

definition caml_modify_generational_global_root :: "allocator \<Rightarrow> roots_st \<Rightarrow> uintnat \<Rightarrow> mlvalue \<Rightarrow> outcome" where
  "caml_modify_generational_global_root stat_alloc st r newval =
     then_do
       (case classify_gc_root st newval of
          YOUNG \<Rightarrow>
            (let c = classify_gc_root st (root_vals st r)
             in then_do (if c = OLD then caml_delete_global_root st Roots_old r else finish st)
                  (\<lambda>st. if c \<noteq> YOUNG then caml_insert_global_root stat_alloc st Roots_young r else finish st))
        | OLD \<Rightarrow>
            if classify_gc_root st (root_vals st r) = UNTRACKED
            then caml_insert_global_root stat_alloc st Roots_old r else finish st
        | UNTRACKED \<Rightarrow> caml_remove_generational_global_root st r)
       (\<lambda>st. finish (st\<lparr>root_vals := (root_vals st)(r := newval)\<rparr>))"

section \<open>Scanning\<close>

definition caml_iterate_global_roots :: "(mlvalue \<Rightarrow> mlvalue) \<Rightarrow> roots_st \<Rightarrow> root_list \<Rightarrow> outcome" where
  "caml_iterate_global_roots f st rootlist =
     map_option (\<lambda>es. (Inr (), st\<lparr>root_vals :=
         fold (\<lambda>(r, _) vals. vals(r := f (vals r))) es (root_vals st)\<rparr>))
       (FOREACH_SKIPLIST_ELEMENT (get_list st rootlist))"

fun insert_old_roots :: "allocator \<Rightarrow> roots_st \<Rightarrow> (uintnat \<times> uintnat) list \<Rightarrow> outcome" where
  "insert_old_roots stat_alloc st [] = finish st"
| "insert_old_roots stat_alloc st ((r, _) # es) =
     then_do (caml_insert_global_root stat_alloc st Roots_old r) (\<lambda>st. insert_old_roots stat_alloc st es)"

definition caml_scan_global_young_roots :: "allocator \<Rightarrow> (mlvalue \<Rightarrow> mlvalue) \<Rightarrow> roots_st \<Rightarrow> outcome" where
  "caml_scan_global_young_roots stat_alloc f st =
     then_do (caml_iterate_global_roots f st Roots) (\<lambda>st.
     then_do (caml_iterate_global_roots f st Roots_young) (\<lambda>st.
     Option.bind (FOREACH_SKIPLIST_ELEMENT (caml_global_roots_young st)) (\<lambda>es.
     then_do (insert_old_roots stat_alloc st es) (\<lambda>st.
     map_option (\<lambda>sk. (Inr (), st\<lparr>caml_global_roots_young := sk\<rparr>))
       (caml_skiplist_empty (caml_global_roots_young st))))))"

section \<open>Static data of compiled modules\<close>

text \<open>The list of dynamically linked data; a duplicate raises the exception registered under the
  name \<open>Register_dyn_global_duplicate\<close>, or stops the process when there is none.\<close>

definition caml_register_dyn_global :: "exn option \<Rightarrow> uintnat list \<Rightarrow> uintnat \<Rightarrow> uintnat list result" where
  "caml_register_dyn_global named_exn caml_dyn_globals v =
     (if v \<in> set caml_dyn_globals
      then Inl (case named_exn of
                  Some e \<Rightarrow> e
                | None \<Rightarrow> Fatal_error ''attempt to add duplicate in caml_dyn_globals'')
      else Inr (v # caml_dyn_globals))"

text \<open>On an error the globals added before it stay registered.\<close>

fun caml_register_dyn_globals :: "exn option \<Rightarrow> uintnat list \<Rightarrow> uintnat list \<Rightarrow> unit result \<times> uintnat list" where
  "caml_register_dyn_globals named_exn caml_dyn_globals [] = (Inr (), caml_dyn_globals)"
| "caml_register_dyn_globals named_exn caml_dyn_globals (v # globals) =
     (case caml_register_dyn_global named_exn caml_dyn_globals v of
        Inl e \<Rightarrow> (Inl e, caml_dyn_globals)
      | Inr l \<Rightarrow> caml_register_dyn_globals named_exn l globals)"

text \<open>The block and the field range, as C \<open>int\<close>s, to scan for one global.\<close>

definition compute_index_for_global_root_scan :: "mem \<Rightarrow> mlvalue \<Rightarrow> mlvalue \<times> int32 \<times> int32" where
  "compute_index_for_global_root_scan m glob_block =
     (if Tag_val m glob_block < No_scan_tag then
        (let glob_block =
           (if Tag_val m glob_block = Infix_tag then glob_block - Infix_offset_val m glob_block else glob_block)
         in if Tag_val m glob_block = Closure_tag
            then (glob_block, ucast (Start_env_closinfo (Closinfo_val m glob_block)),
                  ucast (Allocated_wosize_val m glob_block))
            else (glob_block, 0, ucast (Scannable_wosize_hd_native (Hd_val m glob_block))))
      else (glob_block, 0, 0))"

text \<open>The addresses of the fields scanned for one global, and for a zero-terminated array.\<close>

definition global_fields :: "mem \<Rightarrow> mlvalue \<Rightarrow> uintnat list" where
  "global_fields m glob =
     (let (glob_block, start, stop) = compute_index_for_global_root_scan m glob
      in map (\<lambda>j. glob_block + 8 * word_of_int j) [sint start..sint stop - 1])"

partial_function (option) scan_globals :: "mem \<Rightarrow> uintnat \<Rightarrow> uintnat list option" where
  "scan_globals m glob =
     (if mem_load64 m glob = 0 then Some []
      else Option.bind (scan_globals m (glob + 8)) (\<lambda>rest.
             Some (global_fields m (mem_load64 m glob) @ rest)))"

fun scan_all_globals :: "mem \<Rightarrow> uintnat list \<Rightarrow> uintnat list option" where
  "scan_all_globals m [] = Some []"
| "scan_all_globals m (g # gs) =
     Option.bind (scan_globals m g) (\<lambda>xs. map_option (\<lambda>ys. xs @ ys) (scan_all_globals m gs))"

definition scan_native_globals :: "mem \<Rightarrow> uintnat list \<Rightarrow> uintnat list \<Rightarrow> uintnat list option" where
  "scan_native_globals m caml_globals dyn_globals =
     Option.bind (scan_all_globals m caml_globals) (\<lambda>xs.
       map_option (\<lambda>ys. xs @ ys) (scan_all_globals m dyn_globals))"

definition caml_scan_global_roots ::
  "mem \<Rightarrow> uintnat list \<Rightarrow> uintnat list \<Rightarrow> (mlvalue \<Rightarrow> mlvalue) \<Rightarrow> roots_st \<Rightarrow> outcome" where
  "caml_scan_global_roots m caml_globals dyn_globals f st =
     then_do (caml_iterate_global_roots f st Roots) (\<lambda>st.
     then_do (caml_iterate_global_roots f st Roots_young) (\<lambda>st.
     then_do (caml_iterate_global_roots f st Roots_old) (\<lambda>st.
     Option.bind (scan_native_globals m caml_globals dyn_globals) (\<lambda>fields.
     finish (st\<lparr>root_vals := fold (\<lambda>r vals. vals(r := f (vals r))) fields (root_vals st)\<rparr>)))))"

section \<open>Laws of the lists\<close>

text \<open>The addresses in a list of roots.\<close>

definition roots_rep :: "roots_st \<Rightarrow> (root_list \<Rightarrow> uintnat set) \<Rightarrow> bool" where
  "roots_rep st R \<longleftrightarrow> (\<forall>l. \<exists>m. sk_rep (get_list st l) m \<and> dom m = R l)"

lemma get_set_list [simp]: "get_list (set_list st l sk) l' = (if l' = l then sk else get_list st l')"
  by (cases l; cases l') simp_all

lemma get_list_upd [simp]:
  "get_list (st\<lparr>roots_seed := s\<rparr>) = get_list st" "get_list (st\<lparr>root_vals := v\<rparr>) = get_list st"
  by (rule ext, case_tac x, simp_all)+

lemma set_list_select [simp]:
  "root_vals (set_list st l sk) = root_vals st" "roots_seed (set_list st l sk) = roots_seed st"
  "caml_minor_heaps_start (set_list st l sk) = caml_minor_heaps_start st"
  "caml_minor_heaps_end (set_list st l sk) = caml_minor_heaps_end st"
  by (cases l; simp)+

lemma roots_rep_set_list:
  "roots_rep st R \<Longrightarrow> sk_rep sk m \<Longrightarrow> dom m = D \<Longrightarrow> roots_rep (set_list st l sk) (R(l := D))"
  by (auto simp: roots_rep_def)

lemma roots_rep_upd [simp]:
  "roots_rep (st\<lparr>roots_seed := s\<rparr>) R = roots_rep st R" "roots_rep (st\<lparr>root_vals := v\<rparr>) R = roots_rep st R"
  by (simp_all add: roots_rep_def)

text \<open>States with the same minor heap classify values alike.\<close>

definition same_heap :: "roots_st \<Rightarrow> roots_st \<Rightarrow> bool" where
  "same_heap st st' \<longleftrightarrow> caml_minor_heaps_start st' = caml_minor_heaps_start st \<and>
     caml_minor_heaps_end st' = caml_minor_heaps_end st"

lemma same_heap_classify: "same_heap st st' \<Longrightarrow> classify_gc_root st' = classify_gc_root st"
  by (simp add: same_heap_def classify_gc_root_def Is_young_def fun_eq_iff)

text \<open>A step that ends normally in a state with the given contents, or stops the process.\<close>

definition step_to :: "outcome \<Rightarrow> roots_st \<Rightarrow> (root_list \<Rightarrow> uintnat set) \<Rightarrow> (uintnat \<Rightarrow> mlvalue) \<Rightarrow> bool" where
  "step_to r st R vals \<longleftrightarrow>
     (\<exists>x st'. r = Some (x, st') \<and>
        (case x of
           Inl e \<Rightarrow> e = Fatal_error ''Out of memory''
         | Inr _ \<Rightarrow> roots_rep st' R \<and> root_vals st' = vals \<and> same_heap st st'))"

lemma step_to_finish [simp]: "roots_rep st R \<Longrightarrow> step_to (finish st) st R (root_vals st)"
  by (simp add: step_to_def finish_def same_heap_def)

lemma step_to_then:
  assumes "step_to r st R vals"
    and "\<And>st'. roots_rep st' R \<Longrightarrow> root_vals st' = vals \<Longrightarrow> same_heap st st' \<Longrightarrow> step_to (f st') st' R' vals'"
  shows "step_to (then_do r f) st R' vals'"
proof -
  obtain x st' where r: "r = Some (x, st')" and x: "case x of Inl e \<Rightarrow> e = Fatal_error ''Out of memory''
      | Inr _ \<Rightarrow> roots_rep st' R \<and> root_vals st' = vals \<and> same_heap st st'"
    using assms(1) by (auto simp: step_to_def)
  show ?thesis
  proof (cases x)
    case (Inr u)
    then have "step_to (f st') st' R' vals'" "same_heap st st'" using assms(2) x by auto
    then show ?thesis using r Inr by (auto simp: step_to_def then_do_def same_heap_def split: sum.splits)
  qed (use r x in \<open>simp add: step_to_def then_do_def\<close>)
qed

lemma insert_step:
  assumes "roots_rep st R" "fresh_alloc stat_alloc"
  shows "step_to (caml_insert_global_root stat_alloc st l r) st (R(l := insert r (R l))) (root_vals st)"
proof -
  obtain m where m: "sk_rep (get_list st l) m" "dom m = R l" using assms(1) unfolding roots_rep_def by blast
  obtain x seed sk where run: "caml_skiplist_insert stat_alloc (roots_seed st) (get_list st l) r 0 = Some (x, seed, sk)"
    and x: "case x of Inl e \<Rightarrow> e = Fatal_error ''Out of memory'' \<and> r \<notin> dom m \<and> sk_rep sk m
       | Inr present \<Rightarrow> present = (r \<in> dom m) \<and> sk_rep sk (m(r \<mapsto> 0))"
    using skd.ins_rep[of "get_list st l" m "(stat_alloc, roots_seed st)" r 0] m(1) assms(2) by auto
  show ?thesis
  proof (cases x)
    case (Inl e)
    then show ?thesis using run x by (simp add: step_to_def caml_insert_global_root_def map_result_def)
  next
    case (Inr b)
    then have "sk_rep sk (m(r \<mapsto> 0))" using x by simp
    then have "roots_rep ((set_list st l sk)\<lparr>roots_seed := seed\<rparr>) (R(l := insert r (R l)))"
      using roots_rep_set_list[OF assms(1)] m(2) by simp
    then show ?thesis
      using run Inr by (simp add: step_to_def caml_insert_global_root_def map_result_def same_heap_def)
  qed
qed

lemma delete_step:
  assumes "roots_rep st R"
  shows "step_to (caml_delete_global_root st l r) st (R(l := R l - {r})) (root_vals st)"
proof -
  obtain m where m: "sk_rep (get_list st l) m" "dom m = R l" using assms unfolding roots_rep_def by blast
  obtain sk where run: "caml_skiplist_remove (get_list st l) r = Some (r \<in> dom m, sk)" and sk: "sk_rep sk (m(r := None))"
    using skd.del_rep[OF m(1), of r] by blast
  have "roots_rep (set_list st l sk) (R(l := R l - {r}))"
    using roots_rep_set_list[OF assms sk] m(2) by simp
  then show ?thesis using run by (simp add: step_to_def caml_delete_global_root_def same_heap_def)
qed

lemma iterate_step:
  assumes "roots_rep st R"
  shows "step_to (caml_iterate_global_roots f st l) st R
    (\<lambda>r. if r \<in> R l then f (root_vals st r) else root_vals st r)"
proof -
  obtain m where m: "sk_rep (get_list st l) m" "dom m = R l" using assms unfolding roots_rep_def by blast
  obtain es where es: "FOREACH_SKIPLIST_ELEMENT (get_list st l) = Some es" "map_of es = m" "sorted_wrt (<) (map fst es)"
    using foreach_rep[OF m(1)] by blast
  have dist: "distinct (map fst es)" using es(3) by (rule sorted_wrt_distinct[of "\<lambda>x. x", simplified])
  have "fold (\<lambda>(r, _) vals. vals(r := f (vals r))) es vals =
      (\<lambda>r. if r \<in> fst ` set es then f (vals r) else vals r)" for vals
    using dist
  proof (induction es arbitrary: vals)
    case (Cons e es)
    obtain r d where e: "e = (r, d)" by fastforce
    then have "r \<notin> fst ` set es" using Cons.prems by force
    then show ?case using Cons e by (auto simp: fun_eq_iff)
  qed simp
  moreover have "fst ` set es = R l" using es(2) m(2) by (simp add: dom_map_of_conv_image_fst[symmetric])
  ultimately show ?thesis
    using es(1) assms by (simp add: step_to_def caml_iterate_global_roots_def roots_rep_def same_heap_def)
qed

lemma insert_old_roots_step:
  assumes "fresh_alloc stat_alloc" "roots_rep st R"
  shows "step_to (insert_old_roots stat_alloc st es) st (R(Roots_old := R Roots_old \<union> fst ` set es)) (root_vals st)"
  using assms(2)
proof (induction es arbitrary: st R)
  case (Cons e es)
  obtain r d where e: "e = (r, d)" by fastforce
  have "step_to (then_do (caml_insert_global_root stat_alloc st Roots_old r) (\<lambda>st. insert_old_roots stat_alloc st es))
      st (R(Roots_old := R Roots_old \<union> fst ` set ((r, d) # es))) (root_vals st)"
  proof (rule step_to_then[OF insert_step[OF Cons.prems assms(1)]])
    fix st' assume a: "roots_rep st' (R(Roots_old := insert r (R Roots_old)))" and v: "root_vals st' = root_vals st"
    let ?R = "R(Roots_old := insert r (R Roots_old))"
    have "?R(Roots_old := ?R Roots_old \<union> fst ` set es) = R(Roots_old := R Roots_old \<union> fst ` set ((r, d) # es))"
      by (simp add: fun_eq_iff)
    then show "step_to (insert_old_roots stat_alloc st' es) st'
        (R(Roots_old := R Roots_old \<union> fst ` set ((r, d) # es))) (root_vals st)"
      using Cons.IH[OF a] v by (simp only:)
  qed
  then show ?case unfolding e insert_old_roots.simps .
qed (simp add: fun_upd_idem)

section \<open>The invariant of generational roots\<close>

text \<open>For the set \<open>G\<close> of registered generational roots, the invariant of the lists.  It is the one
  that the source states before the operations, but for blocks outside the heap, which the
  source wants in no list: the code treats every block outside the minor heap as an old one.
  There is one clause more: a root whose value is in the minor heap is not among the old ones,
  which makes unregistering complete.\<close>

definition root_placed :: "gc_root_class \<Rightarrow> bool \<Rightarrow> bool \<Rightarrow> bool" where
  "root_placed c young old \<longleftrightarrow>
     (case c of YOUNG \<Rightarrow> young \<and> \<not> old | OLD \<Rightarrow> young \<or> old | UNTRACKED \<Rightarrow> \<not> young \<and> \<not> old)"

definition gen_inv :: "roots_st \<Rightarrow> uintnat set \<Rightarrow> (root_list \<Rightarrow> uintnat set) \<Rightarrow> bool" where
  "gen_inv st G R \<longleftrightarrow>
     roots_rep st R \<and> R Roots_young \<union> R Roots_old \<subseteq> G \<and>
     (\<forall>r\<in>G. root_placed (classify_gc_root st (root_vals st r)) (r \<in> R Roots_young) (r \<in> R Roots_old))"

definition gen_step :: "outcome \<Rightarrow> uintnat set \<Rightarrow> bool" where
  "gen_step r G \<longleftrightarrow>
     (\<exists>x st'. r = Some (x, st') \<and>
        (case x of Inl e \<Rightarrow> e = Fatal_error ''Out of memory'' | Inr _ \<Rightarrow> \<exists>R. gen_inv st' G R))"

lemma step_to_gen:
  assumes "step_to r st R vals" "R Roots_young \<union> R Roots_old \<subseteq> G"
    and "\<And>x. x \<in> G \<Longrightarrow> root_placed (classify_gc_root st (vals x)) (x \<in> R Roots_young) (x \<in> R Roots_old)"
  shows "gen_step r G"
proof -
  obtain x st' where r: "r = Some (x, st')" and x: "case x of Inl e \<Rightarrow> e = Fatal_error ''Out of memory''
      | Inr _ \<Rightarrow> roots_rep st' R \<and> root_vals st' = vals \<and> same_heap st st'"
    using assms(1) by (auto simp: step_to_def)
  have "gen_inv st' G R" if "x = Inr ()"
    using that x assms(2,3) by (auto simp: gen_inv_def same_heap_classify)
  then show ?thesis using r x by (cases x) (auto simp: gen_step_def)
qed

lemma register_gen:
  assumes "gen_inv st G R" "fresh_alloc stat_alloc"
  shows "gen_step (caml_register_generational_global_root stat_alloc st r) (insert r G)"
proof -
  have rep: "roots_rep st R" using assms(1) by (simp add: gen_inv_def)
  let ?R = "case classify_gc_root st (root_vals st r) of YOUNG \<Rightarrow> R(Roots_young := insert r (R Roots_young))
     | OLD \<Rightarrow> R(Roots_old := insert r (R Roots_old)) | UNTRACKED \<Rightarrow> R"
  have "step_to (caml_register_generational_global_root stat_alloc st r) st ?R (root_vals st)"
    using rep insert_step[OF rep assms(2)]
    by (simp add: caml_register_generational_global_root_def split: gc_root_class.splits)
  then show ?thesis
  proof (rule step_to_gen)
    show "?R Roots_young \<union> ?R Roots_old \<subseteq> insert r G"
      using assms(1) by (auto simp: gen_inv_def split: gc_root_class.splits)
    show "root_placed (classify_gc_root st (root_vals st x)) (x \<in> ?R Roots_young) (x \<in> ?R Roots_old)"
      if "x \<in> insert r G" for x
      using assms(1) that by (auto simp: gen_inv_def root_placed_def split: gc_root_class.splits)
  qed
qed

lemma remove_step:
  assumes inv: "gen_inv st G R" and r: "r \<in> G"
  shows "step_to (caml_remove_generational_global_root st r) st
    (R(Roots_young := R Roots_young - {r}, Roots_old := R Roots_old - {r})) (root_vals st)"
proof -
  have rep: "roots_rep st R" and pl: "root_placed (classify_gc_root st (root_vals st r)) (r \<in> R Roots_young) (r \<in> R Roots_old)"
    using inv r by (auto simp: gen_inv_def)
  show ?thesis
  proof (cases "classify_gc_root st (root_vals st r)")
    case YOUNG
    then have "R(Roots_young := R Roots_young - {r}, Roots_old := R Roots_old - {r}) = R(Roots_young := R Roots_young - {r})"
      using pl by (auto simp: root_placed_def fun_eq_iff)
    then show ?thesis
      using delete_step[OF rep, of Roots_young r]
      unfolding caml_remove_generational_global_root_def YOUNG gc_root_class.case by (simp only:)
  next
    case OLD
    have "step_to (then_do (caml_delete_global_root st Roots_old r) (\<lambda>st. caml_delete_global_root st Roots_young r)) st
        (R(Roots_old := R Roots_old - {r}, Roots_young := R Roots_young - {r})) (root_vals st)"
    proof (rule step_to_then[OF delete_step[OF rep]])
      fix st' assume a: "roots_rep st' (R(Roots_old := R Roots_old - {r}))" and "root_vals st' = root_vals st"
      then show "step_to (caml_delete_global_root st' Roots_young r) st'
          (R(Roots_old := R Roots_old - {r}, Roots_young := R Roots_young - {r})) (root_vals st)"
        using delete_step[OF a, of Roots_young r] by simp
    qed
    moreover have "R(Roots_old := R Roots_old - {r}, Roots_young := R Roots_young - {r}) =
        R(Roots_young := R Roots_young - {r}, Roots_old := R Roots_old - {r})" by (rule fun_upd_twist) simp
    ultimately show ?thesis
      unfolding caml_remove_generational_global_root_def OLD gc_root_class.case by (simp only:)
  next
    case UNTRACKED
    then have "R(Roots_young := R Roots_young - {r}, Roots_old := R Roots_old - {r}) = R"
      using pl by (auto simp: root_placed_def fun_eq_iff)
    then show ?thesis using UNTRACKED rep by (simp only: caml_remove_generational_global_root_def gc_root_class.case step_to_finish)
  qed
qed

lemma remove_gen:
  assumes inv: "gen_inv st G R" and r: "r \<in> G"
  shows "gen_step (caml_remove_generational_global_root st r) (G - {r})"
  using remove_step[OF inv r]
  by (rule step_to_gen) (use inv in \<open>auto simp: gen_inv_def\<close>)

text \<open>The lists after the first part of \<open>caml_modify_generational_global_root\<close>.\<close>

definition moved_root :: "gc_root_class \<Rightarrow> gc_root_class \<Rightarrow> uintnat \<Rightarrow> (root_list \<Rightarrow> uintnat set) \<Rightarrow> root_list \<Rightarrow> uintnat set" where
  "moved_root c' c r R =
     (case c' of
        YOUNG \<Rightarrow> R(Roots_old := R Roots_old - {r}, Roots_young := insert r (R Roots_young))
      | OLD \<Rightarrow> if c = UNTRACKED then R(Roots_old := insert r (R Roots_old)) else R
      | UNTRACKED \<Rightarrow> R(Roots_young := R Roots_young - {r}, Roots_old := R Roots_old - {r}))"

lemma move_to_young_step:
  assumes rep: "roots_rep st R" and pl: "root_placed c (r \<in> R Roots_young) (r \<in> R Roots_old)"
    and al: "fresh_alloc stat_alloc"
  shows "step_to (then_do (if c = OLD then caml_delete_global_root st Roots_old r else finish st)
      (\<lambda>st. if c \<noteq> YOUNG then caml_insert_global_root stat_alloc st Roots_young r else finish st))
    st (moved_root YOUNG c r R) (root_vals st)"
proof -
  let ?R1 = "R(Roots_old := R Roots_old - {r})"
  have "step_to (if c = OLD then caml_delete_global_root st Roots_old r else finish st) st ?R1 (root_vals st)"
  proof (cases "c = OLD")
    case False
    then have "?R1 = R" using pl by (cases c) (auto simp: root_placed_def fun_eq_iff)
    then show ?thesis using False rep by (simp only: if_False step_to_finish)
  qed (use delete_step[OF rep] in simp)
  then show ?thesis
  proof (rule step_to_then)
    fix st' assume st': "roots_rep st' ?R1" "root_vals st' = root_vals st"
    show "step_to (if c \<noteq> YOUNG then caml_insert_global_root stat_alloc st' Roots_young r else finish st')
        st' (moved_root YOUNG c r R) (root_vals st)"
    proof (cases "c = YOUNG")
      case True
      then have "moved_root YOUNG c r R = ?R1" using pl by (auto simp: moved_root_def root_placed_def fun_eq_iff)
      then show ?thesis using True step_to_finish[OF st'(1)] st'(2) by simp
    next
      case False
      then show ?thesis
        using insert_step[OF st'(1) al, of Roots_young r] st'(2) by (simp add: moved_root_def)
    qed
  qed
qed

lemma modify_step:
  assumes inv: "gen_inv st G R" and r: "r \<in> G" and al: "fresh_alloc stat_alloc"
  shows "step_to (caml_modify_generational_global_root stat_alloc st r newval) st
    (moved_root (classify_gc_root st newval) (classify_gc_root st (root_vals st r)) r R) ((root_vals st)(r := newval))"
proof -
  have rep: "roots_rep st R" and pl: "root_placed (classify_gc_root st (root_vals st r)) (r \<in> R Roots_young) (r \<in> R Roots_old)"
    using inv r by (auto simp: gen_inv_def)
  have fin: "step_to (then_do s (\<lambda>st. finish (st\<lparr>root_vals := (root_vals st)(r := newval)\<rparr>))) st R' ((root_vals st)(r := newval))"
    if "step_to s st R' (root_vals st)" for s R'
    using that by (rule step_to_then) (simp add: step_to_def finish_def same_heap_def)
  show ?thesis
  proof (cases "classify_gc_root st newval")
    case YOUNG
    then show ?thesis using fin[OF move_to_young_step[OF rep pl al]]
      by (simp add: caml_modify_generational_global_root_def Let_def)
  next
    case OLD
    then show ?thesis
      using fin[OF insert_step[OF rep al, of Roots_old r]] fin[OF step_to_finish[OF rep]]
      by (simp add: caml_modify_generational_global_root_def moved_root_def)
  next
    case UNTRACKED
    then show ?thesis
      using fin[OF remove_step[OF inv r]] by (simp add: caml_modify_generational_global_root_def moved_root_def)
  qed
qed

lemma modify_gen:
  assumes inv: "gen_inv st G R" and r: "r \<in> G" and al: "fresh_alloc stat_alloc"
  shows "gen_step (caml_modify_generational_global_root stat_alloc st r newval) G"
  using modify_step[OF inv r al]
  by (rule step_to_gen)
    (use inv r in \<open>auto simp: gen_inv_def moved_root_def root_placed_def split: gc_root_class.splits if_splits\<close>)

section \<open>Minor collections\<close>

text \<open>What the minor collection does with a root: it promotes values of the minor heap and leaves
  the others alone.\<close>

definition promotes :: "roots_st \<Rightarrow> (mlvalue \<Rightarrow> mlvalue) \<Rightarrow> bool" where
  "promotes st f \<longleftrightarrow>
     (\<forall>v. if classify_gc_root st v = YOUNG then classify_gc_root st (f v) = OLD else f v = v)"

definition scanned_vals :: "(mlvalue \<Rightarrow> mlvalue) \<Rightarrow> (root_list \<Rightarrow> uintnat set) \<Rightarrow> (uintnat \<Rightarrow> mlvalue) \<Rightarrow> uintnat \<Rightarrow> mlvalue" where
  "scanned_vals f R vals r =
     (let v = (if r \<in> R Roots then f (vals r) else vals r) in if r \<in> R Roots_young then f v else v)"

lemma move_young_step:
  assumes rep: "roots_rep st R" and al: "fresh_alloc stat_alloc"
  shows "step_to (Option.bind (FOREACH_SKIPLIST_ELEMENT (caml_global_roots_young st)) (\<lambda>es.
      then_do (insert_old_roots stat_alloc st es) (\<lambda>st.
      map_option (\<lambda>sk. (Inr (), st\<lparr>caml_global_roots_young := sk\<rparr>))
        (caml_skiplist_empty (caml_global_roots_young st)))))
    st (R(Roots_old := R Roots_old \<union> R Roots_young, Roots_young := {})) (root_vals st)"
proof -
  obtain m where m: "sk_rep (get_list st Roots_young) m" "dom m = R Roots_young" using rep unfolding roots_rep_def by blast
  obtain es where es: "FOREACH_SKIPLIST_ELEMENT (caml_global_roots_young st) = Some es" "map_of es = m"
    using skd.elems_rep[OF m(1)] by auto
  have set: "fst ` set es = R Roots_young" using es(2) m(2) by (simp add: dom_map_of_conv_image_fst[symmetric])
  have "step_to (then_do (insert_old_roots stat_alloc st es) (\<lambda>st.
      map_option (\<lambda>sk. (Inr (), st\<lparr>caml_global_roots_young := sk\<rparr>))
        (caml_skiplist_empty (caml_global_roots_young st))))
    st (R(Roots_old := R Roots_old \<union> R Roots_young, Roots_young := {})) (root_vals st)"
  proof (rule step_to_then[OF insert_old_roots_step[OF al rep, of es, unfolded set]])
    fix st' assume st': "roots_rep st' (R(Roots_old := R Roots_old \<union> R Roots_young))" "root_vals st' = root_vals st"
    then obtain m' where "sk_rep (get_list st' Roots_young) m'" unfolding roots_rep_def by blast
    then obtain sk where sk: "caml_skiplist_empty (caml_global_roots_young st') = Some sk" "sk_rep sk Map.empty"
      using skd.clear_rep by auto
    have "roots_rep (set_list st' Roots_young sk) ((R(Roots_old := R Roots_old \<union> R Roots_young))(Roots_young := {}))"
      by (rule roots_rep_set_list[OF st'(1) sk(2)]) simp
    then show "step_to (map_option (\<lambda>sk. (Inr (), st'\<lparr>caml_global_roots_young := sk\<rparr>))
        (caml_skiplist_empty (caml_global_roots_young st'))) st'
        (R(Roots_old := R Roots_old \<union> R Roots_young, Roots_young := {})) (root_vals st)"
      using sk(1) st'(2) by (simp add: step_to_def same_heap_def)
  qed
  then show ?thesis using es(1) by simp
qed

lemma scan_young_step:
  assumes rep: "roots_rep st R" and al: "fresh_alloc stat_alloc"
  shows "step_to (caml_scan_global_young_roots stat_alloc f st) st
    (R(Roots_old := R Roots_old \<union> R Roots_young, Roots_young := {})) (scanned_vals f R (root_vals st))"
  unfolding caml_scan_global_young_roots_def
proof (rule step_to_then[OF iterate_step[OF rep]])
  fix st1 assume st1: "roots_rep st1 R" "root_vals st1 = (\<lambda>r. if r \<in> R Roots then f (root_vals st r) else root_vals st r)"
  let ?m = "\<lambda>st. Option.bind (FOREACH_SKIPLIST_ELEMENT (caml_global_roots_young st)) (\<lambda>es.
      then_do (insert_old_roots stat_alloc st es) (\<lambda>st.
      map_option (\<lambda>sk. (Inr (), st\<lparr>caml_global_roots_young := sk\<rparr>))
        (caml_skiplist_empty (caml_global_roots_young st))))"
  show "step_to (then_do (caml_iterate_global_roots f st1 Roots_young) ?m) st1
      (R(Roots_old := R Roots_old \<union> R Roots_young, Roots_young := {})) (scanned_vals f R (root_vals st))"
  proof (rule step_to_then[OF iterate_step[OF st1(1)]])
    fix st2 assume st2: "roots_rep st2 R"
      "root_vals st2 = (\<lambda>r. if r \<in> R Roots_young then f (root_vals st1 r) else root_vals st1 r)"
    have "root_vals st2 = scanned_vals f R (root_vals st)"
      by (simp add: st2(2) st1(2) scanned_vals_def Let_def fun_eq_iff)
    then show "step_to (?m st2) st2 (R(Roots_old := R Roots_old \<union> R Roots_young, Roots_young := {}))
        (scanned_vals f R (root_vals st))"
      using move_young_step[OF st2(1) al] by simp
  qed
qed

lemma scan_young_gen:
  assumes inv: "gen_inv st G R" and al: "fresh_alloc stat_alloc" and f: "promotes st f"
  shows "gen_step (caml_scan_global_young_roots stat_alloc f st) G"
proof -
  have rep: "roots_rep st R" using inv by (simp add: gen_inv_def)
  have ff: "classify_gc_root st (f v) = (if classify_gc_root st v = YOUNG then OLD else classify_gc_root st v)" for v
    using f by (auto simp: promotes_def split: if_splits)
  show ?thesis
    using scan_young_step[OF rep al]
  proof (rule step_to_gen)
    fix r assume "r \<in> G"
    then have pl: "root_placed (classify_gc_root st (root_vals st r)) (r \<in> R Roots_young) (r \<in> R Roots_old)"
      using inv by (simp add: gen_inv_def)
    show "root_placed (classify_gc_root st (scanned_vals f R (root_vals st) r))
        (r \<in> (R(Roots_old := R Roots_old \<union> R Roots_young, Roots_young := {})) Roots_young)
        (r \<in> (R(Roots_old := R Roots_old \<union> R Roots_young, Roots_young := {})) Roots_old)"
      using pl by (cases "classify_gc_root st (root_vals st r)")
        (auto simp: root_placed_def scanned_vals_def Let_def ff)
  qed (use inv in \<open>auto simp: gen_inv_def\<close>)
qed

section \<open>Reachable states\<close>

text \<open>The states a program reaches by registering, unregistering and assigning generational roots
  and by minor collections, with the set of roots registered so far.\<close>

inductive gen_reach :: "allocator \<Rightarrow> roots_st \<Rightarrow> uintnat set \<Rightarrow> bool" for stat_alloc where
  start: "sk_rep (caml_global_roots st) m \<Longrightarrow> sk_rep (caml_global_roots_young st) Map.empty \<Longrightarrow>
    sk_rep (caml_global_roots_old st) Map.empty \<Longrightarrow> gen_reach stat_alloc st {}"
| register: "gen_reach stat_alloc st G \<Longrightarrow>
    caml_register_generational_global_root stat_alloc st r = Some (Inr (), st') \<Longrightarrow> gen_reach stat_alloc st' (insert r G)"
| unregister: "gen_reach stat_alloc st G \<Longrightarrow> r \<in> G \<Longrightarrow>
    caml_remove_generational_global_root st r = Some (Inr (), st') \<Longrightarrow> gen_reach stat_alloc st' (G - {r})"
| modify: "gen_reach stat_alloc st G \<Longrightarrow> r \<in> G \<Longrightarrow>
    caml_modify_generational_global_root stat_alloc st r newval = Some (Inr (), st') \<Longrightarrow> gen_reach stat_alloc st' G"
| minor: "gen_reach stat_alloc st G \<Longrightarrow> promotes st f \<Longrightarrow>
    caml_scan_global_young_roots stat_alloc f st = Some (Inr (), st') \<Longrightarrow> gen_reach stat_alloc st' G"

lemma gen_step_inv: "gen_step (Some (Inr (), st)) G \<Longrightarrow> \<exists>R. gen_inv st G R"
  by (simp add: gen_step_def)

lemma gen_reach_inv:
  assumes "gen_reach stat_alloc st G" "fresh_alloc stat_alloc"
  shows "\<exists>R. gen_inv st G R"
  using assms
proof (induction rule: gen_reach.induct)
  case (start st m)
  let ?R = "\<lambda>l. if l = Roots then dom m else {}"
  have "\<exists>m'. sk_rep (get_list st l) m' \<and> dom m' = ?R l" for l
    using start by (cases l) auto
  then show ?case by (auto simp: gen_inv_def roots_rep_def intro!: exI[of _ ?R])
qed (metis register_gen remove_gen modify_gen scan_young_gen gen_step_inv)+

text \<open>C6: in every state reached by registering, unregistering, assigning and collecting
  generational roots, the lists satisfy the invariant of the code: a registered root
  whose value is a block of the minor heap is in the young list and only there, one whose value is
  any other block, of the major heap or outside the heap, is in one of the two lists, and one that holds an
  integer is in neither; the lists hold registered roots only.\<close>

theorem generational_roots_invariant:
  assumes "gen_reach stat_alloc st G" and "fresh_alloc stat_alloc"
  shows "\<exists>young old. sk_rep (caml_global_roots_young st) young \<and> sk_rep (caml_global_roots_old st) old \<and>
    dom young \<union> dom old \<subseteq> G \<and>
    (\<forall>r\<in>G. let v = root_vals st r in
       if odd v then r \<notin> dom young \<and> r \<notin> dom old
       else if caml_minor_heaps_start st < v \<and> v < caml_minor_heaps_end st then r \<in> dom young \<and> r \<notin> dom old
       else r \<in> dom young \<or> r \<in> dom old)"
proof -
  obtain R where inv: "gen_inv st G R" using gen_reach_inv[OF assms] by blast
  obtain y where y: "sk_rep (get_list st Roots_young) y" "dom y = R Roots_young"
    using inv unfolding gen_inv_def roots_rep_def by blast
  obtain ol where ol: "sk_rep (get_list st Roots_old) ol" "dom ol = R Roots_old"
    using inv unfolding gen_inv_def roots_rep_def by blast
  have "sk_rep (caml_global_roots_young st) y" "sk_rep (caml_global_roots_old st) ol" using y ol by simp_all
  moreover have "root_placed (classify_gc_root st v) a b \<longleftrightarrow>
      (if odd v then \<not> a \<and> \<not> b
       else if caml_minor_heaps_start st < v \<and> v < caml_minor_heaps_end st then a \<and> \<not> b else a \<or> b)" for v a b
    by (auto simp: root_placed_def classify_gc_root_def Is_young_def Is_long_iff_odd)
  ultimately show ?thesis
    using inv y(2) ol(2) unfolding gen_inv_def by (intro exI[of _ y] exI[of _ ol]) (simp add: Let_def)
qed

text \<open>No operation on generational roots goes wrong in a reachable state: each returns, either
  normally or by stopping the process for lack of memory.\<close>

lemma generational_roots_progress:
  assumes "gen_reach stat_alloc st G" and "fresh_alloc stat_alloc" and "r \<in> G" and "promotes st f"
  shows "(\<forall>op \<in> {caml_register_generational_global_root stat_alloc st q,
      caml_remove_generational_global_root st r,
      caml_modify_generational_global_root stat_alloc st r newval,
      caml_scan_global_young_roots stat_alloc f st}.
    \<exists>x st'. op = Some (x, st') \<and> (x = Inr () \<or> x = Inl (Fatal_error ''Out of memory'')))"
proof -
  obtain R where inv: "gen_inv st G R" using gen_reach_inv[OF assms(1,2)] by blast
  have "\<exists>x st'. op = Some (x, st') \<and> (x = Inr () \<or> x = Inl (Fatal_error ''Out of memory''))" if g: "gen_step op H" for op H
  proof -
    obtain x st' where "op = Some (x, st')"
      "case x of Inl e \<Rightarrow> e = Fatal_error ''Out of memory'' | Inr _ \<Rightarrow> \<exists>R. gen_inv st' H R"
      using g unfolding gen_step_def by blast
    then show ?thesis by (cases x) auto
  qed
  then show ?thesis
    using register_gen[OF inv assms(2)] remove_gen[OF inv assms(3)] modify_gen[OF inv assms(3,2)]
      scan_young_gen[OF inv assms(2,4)] by blast
qed

section \<open>Static data\<close>

text \<open>What there is to scan in a static block, read off the bits of its header: the tag is its lowest
  byte, the size its bits 10 to 55, and its highest byte is, for a mixed block, one more than the
  number of fields that hold values.  In a closure the fields before the environment hold no
  values; its second field says where the environment starts.  A pointer into the middle of a set
  of closures stands for the whole block.\<close>

definition tag_num :: "mem \<Rightarrow> mlvalue \<Rightarrow> nat" where
  "tag_num m v = unat (m (v - 8))"

definition header_num :: "mem \<Rightarrow> mlvalue \<Rightarrow> nat" where
  "header_num m v = unat (mem_load64 m (v - 8))"

definition wosize_num :: "mem \<Rightarrow> mlvalue \<Rightarrow> nat" where
  "wosize_num m v = header_num m v div 2 ^ 10 mod 2 ^ 46"

definition root_block :: "mem \<Rightarrow> mlvalue \<Rightarrow> mlvalue" where
  "root_block m g = (if tag_num m g = 249 then g - 8 * of_nat (wosize_num m g) else g)"

definition roots_from :: "mem \<Rightarrow> mlvalue \<Rightarrow> nat" where
  "roots_from m b = (if tag_num m b = 247 then unat (mem_load64 m (b + 8)) div 2 mod 2 ^ 54 else 0)"

definition roots_to :: "mem \<Rightarrow> mlvalue \<Rightarrow> nat" where
  "roots_to m b =
     (let mixed = header_num m b div 2 ^ 56
      in if tag_num m b \<noteq> 247 \<and> mixed \<noteq> 0 then mixed - 1 else wosize_num m b)"

definition static_roots :: "mem \<Rightarrow> mlvalue \<Rightarrow> uintnat list" where
  "static_roots m g =
     (if tag_num m g \<ge> 251 then []
      else let b = root_block m g in map (\<lambda>j. b + 8 * of_nat j) [roots_from m b..<roots_to m b])"

text \<open>The indices are C \<open>int\<close>s in the code.\<close>

definition static_fits :: "mem \<Rightarrow> mlvalue \<Rightarrow> bool" where
  "static_fits m g \<longleftrightarrow>
     tag_num m g < 251 \<longrightarrow> roots_from m (root_block m g) < 2 ^ 31 \<and> roots_to m (root_block m g) < 2 ^ 31"

lemma unat_drop_64: "unat (drop_bit n (a :: 64 word)) = unat a div 2 ^ n"
proof -
  have "take_bit 64 (unat a) = unat a" using unsigned_less[of a, where ?'a = nat] by (simp add: take_bit_nat_eq_self)
  then show ?thesis by (subst unsigned_drop_bit_eq) (simp add: drop_bit_eq_div)
qed

lemma unat_bits_64: "unat (take_bit k (drop_bit n (a :: 64 word))) = unat a div 2 ^ n mod 2 ^ k"
  unfolding unsigned_take_bit_eq unat_drop_64 by (rule take_bit_eq_mod)

lemma unat_Allocated_wosize: "unat (Allocated_wosize_val m v) = wosize_num m v"
proof -
  have "Allocated_wosize_hd h = take_bit 46 (drop_bit 10 h)" for h
    by (rule bit_word_eqI) (auto simp: Allocated_wosize_hd_def bit_simps)
  then show ?thesis by (simp only: Allocated_wosize_val_def Hd_val_def wosize_num_def header_num_def unat_bits_64)
qed

lemma unat_Reserved: "unat (Reserved_hd (Hd_val m v)) = header_num m v div 2 ^ 56"
  by (simp only: Reserved_hd_def Hd_val_def header_num_def unat_drop_64)

lemma unat_Start_env: "unat (Start_env_closinfo info) = unat info div 2 mod 2 ^ 54"
proof -
  have "Start_env_closinfo info = take_bit 54 (drop_bit 1 info)"
    by (rule bit_word_eqI) (auto simp: Start_env_closinfo_def bit_simps)
  then show ?thesis by (simp only: unat_bits_64 power_one_right)
qed

lemma sint_ucast_int: "unat (w :: 64 word) < 2 ^ 31 \<Longrightarrow> sint (ucast w :: int32) = int (unat w)"
proof -
  assume w: "unat w < 2 ^ 31"
  then have "uint w < 2 ^ 31" by (metis uint_nat of_nat_less_numeral_power_cancel_iff)
  then have "sint (word_of_int (uint w) :: int32) = uint w"
    by (intro signed_take_bit_in_range order_trans[OF _ unsigned_greater_eq]) simp_all
  then show ?thesis by (simp only: ucast_eq uint_nat)
qed

lemma int_range_nat: "map (\<lambda>j. f (word_of_int j)) [int a..int b - 1] = map (\<lambda>j. f (of_nat j)) [a..<b]"
  by (rule nth_equalityI) auto

lemma tag_num_eq: "Tag_val m v = t \<longleftrightarrow> tag_num m v = unat t" "Tag_val m v < t \<longleftrightarrow> tag_num m v < unat t"
  by (simp_all add: Tag_val_def tag_num_def word_unat_eq_iff word_less_nat_alt)

lemma scannable_num:
  "unat (Scannable_wosize_hd_native (Hd_val m v)) =
    (if header_num m v div 2 ^ 56 \<noteq> 0 then header_num m v div 2 ^ 56 - 1 else wosize_num m v)"
proof -
  have "Reserved_hd (Hd_val m v) > 0 \<longleftrightarrow> header_num m v div 2 ^ 56 \<noteq> 0"
    by (simp only: word_less_nat_alt unat_Reserved unat_0) simp
  then show ?thesis
    using unat_Allocated_wosize[of m v] unat_Reserved[of m v]
    by (auto simp: Scannable_wosize_hd_native_def Is_mixed_block_reserved_def Allocated_wosize_val_def Let_def unat_minus_one)
qed

lemma index_range:
  fixes x y :: uintnat
  assumes "compute_index_for_global_root_scan m g = (b, ucast x, ucast y)" "unat x < 2 ^ 31" "unat y < 2 ^ 31"
  shows "global_fields m g = map (\<lambda>j. b + 8 * of_nat j) [unat x..<unat y]"
  using int_range_nat[of "\<lambda>w. b + 8 * w" "unat x" "unat y"] assms
  by (simp add: global_fields_def sint_ucast_int)

lemma global_fields_static:
  assumes "static_fits m g" shows "global_fields m g = static_roots m g"
proof (cases "tag_num m g < 251")
  case False
  then show ?thesis by (simp add: global_fields_def compute_index_for_global_root_scan_def static_roots_def tag_num_eq)
next
  case True
  let ?b = "root_block m g"
  have b: "(if tag_num m g = 249 then g - Infix_offset_val m g else g) = ?b"
    using unat_Allocated_wosize[of m g]
    by (auto simp: root_block_def tag_num_eq Infix_offset_val_def Infix_offset_hd_def Bsize_wsize_def Allocated_wosize_val_def
        simp flip: unat_Allocated_wosize)
  show ?thesis
  proof (cases "tag_num m ?b = 247")
    case closure: True
    have "compute_index_for_global_root_scan m g =
        (?b, ucast (Start_env_closinfo (Closinfo_val m ?b)), ucast (Allocated_wosize_val m ?b))"
      using True closure by (simp add: compute_index_for_global_root_scan_def b Let_def tag_num_eq)
    from index_range[OF this] show ?thesis
      using assms True closure
      by (simp add: static_roots_def static_fits_def roots_from_def roots_to_def unat_Allocated_wosize unat_Start_env
          Closinfo_val_def Field_def Let_def)
  next
    case other: False
    have "compute_index_for_global_root_scan m g = (?b, ucast (0 :: 64 word), ucast (Scannable_wosize_hd_native (Hd_val m ?b)))"
      using True other by (simp add: compute_index_for_global_root_scan_def b Let_def tag_num_eq)
    moreover have "unat (Scannable_wosize_hd_native (Hd_val m ?b)) = roots_to m ?b"
      using other by (simp only: scannable_num roots_to_def Let_def simp_thms if_cancel)
    moreover have "roots_from m ?b = 0" using other by (simp add: roots_from_def)
    ultimately show ?thesis
      using index_range[of m g ?b 0 "Scannable_wosize_hd_native (Hd_val m ?b)"] assms True
      by (simp add: static_roots_def static_fits_def Let_def)
  qed
qed

text \<open>An array of globals that ends with a zero word.\<close>

fun zero_terminated :: "mem \<Rightarrow> uintnat \<Rightarrow> mlvalue list \<Rightarrow> bool" where
  "zero_terminated m a [] \<longleftrightarrow> mem_load64 m a = 0"
| "zero_terminated m a (g # gs) \<longleftrightarrow> mem_load64 m a = g \<and> g \<noteq> 0 \<and> zero_terminated m (a + 8) gs"

lemma scan_globals_correct:
  "zero_terminated m a gs \<Longrightarrow> scan_globals m a = Some (concat (map (global_fields m) gs))"
  by (induction gs arbitrary: a) (subst scan_globals.simps, force)+

lemma scan_all_globals_correct:
  "list_all2 (zero_terminated m) as gss \<Longrightarrow>
     scan_all_globals m as = Some (concat (map (global_fields m) (concat gss)))"
  by (induction rule: list_all2_induct) (auto simp: scan_globals_correct)

text \<open>The list of dynamic globals never holds an address twice; a duplicate is an error and the
  globals before it stay registered.\<close>

lemma caml_register_dyn_globals_distinct:
  "distinct l \<Longrightarrow> caml_register_dyn_globals named_exn l gs = (x, l') \<Longrightarrow>
     distinct l' \<and> (\<exists>ps. prefix ps gs \<and> l' = rev ps @ l \<and> (x = Inr () \<longleftrightarrow> ps = gs))"
proof (induction gs arbitrary: l)
  case (Cons g gs)
  show ?case
  proof (cases "g \<in> set l")
    case True
    then have "x \<noteq> Inr () \<and> l' = l" using Cons.prems(2) by (auto simp: caml_register_dyn_global_def)
    then show ?thesis using Cons.prems(1) by (intro conjI exI[of _ "[]"]) auto
  next
    case False
    then have "caml_register_dyn_globals named_exn (g # l) gs = (x, l')"
      using Cons.prems(2) by (simp add: caml_register_dyn_global_def)
    then have "distinct l' \<and> (\<exists>ps. prefix ps gs \<and> l' = rev ps @ g # l \<and> (x = Inr () \<longleftrightarrow> ps = gs))"
      using Cons.IH[of "g # l"] Cons.prems(1) False by simp
    then obtain ps where "distinct l'" "prefix ps gs" "l' = rev ps @ g # l" "x = Inr () \<longleftrightarrow> ps = gs" by blast
    then show ?thesis by (intro conjI exI[of _ "g # ps"]) auto
  qed
qed auto

text \<open>C0: the scan of static data visits, in order, the fields that hold values of each block in the
  zero-terminated arrays of the linked modules and then of the dynamically linked ones, and
  it ends, provided that no block has values at an index beyond the range of a C \<open>int\<close>: all fields of an ordinary block, the first fields of a
  mixed one, the environment of a set of closures, which may be given by a pointer to any of them, and nothing of a block without
  values.\<close>

theorem scan_native_globals_correct:
  assumes "list_all2 (zero_terminated m) caml_globals gs" and "list_all2 (zero_terminated m) dyn_globals ds"
    and "\<forall>g\<in>set (concat gs @ concat ds). static_fits m g"
  shows "scan_native_globals m caml_globals dyn_globals =
    Some (concat (map (static_roots m) (concat gs @ concat ds)))"
proof -
  have "concat (map (global_fields m) (concat gs @ concat ds)) = concat (map (static_roots m) (concat gs @ concat ds))"
    using assms(3) global_fields_static by (intro arg_cong[of _ _ concat] map_cong) auto
  then show ?thesis
    using scan_all_globals_correct[OF assms(1)] scan_all_globals_correct[OF assms(2)]
    by (simp add: scan_native_globals_def)
qed

section \<open>Examples\<close>

text \<open>An ordinary block of two fields, a mixed one with one value, and a closure with an environment of one field.\<close>

definition static_mem :: mem where
  "static_mem = (\<lambda>_. 0)(16 := 0x08, 17 := 0x10, 24 := 0x08, 25 := 0x20, 32 := 0x08, 33 := 0x30,
     0x1001 := 0x08, 0x2001 := 0x08, 0x2007 := 2, 0x3000 := 247, 0x3001 := 0x0C, 0x3010 := 5)"

lemma static_mem_loads:
  "mem_load64 static_mem 16 = 0x1008" "mem_load64 static_mem 24 = 0x2008" "mem_load64 static_mem 32 = 0x3008"
  "mem_load64 static_mem 40 = 0" "mem_load64 static_mem 0x1000 = 0x800" "mem_load64 static_mem 0x2000 = 0x0200000000000800"
  "mem_load64 static_mem 0x3000 = 0xCF7" "mem_load64 static_mem 0x3010 = 5"
  "static_mem 0x1000 = 0" "static_mem 0x2000 = 0" "static_mem 0x3000 = 247"
  by (simp_all add: mem_load64_def load_bytes_def static_mem_def upt_rec)

lemma static_mem_blocks:
  "static_roots static_mem 0x1008 = [0x1008, 0x1010]" "static_roots static_mem 0x2008 = [0x2008]"
  "static_roots static_mem 0x3008 = [0x3018]" "static_fits static_mem 0x1008" "static_fits static_mem 0x2008"
  "static_fits static_mem 0x3008"
  by (simp_all add: static_roots_def static_fits_def tag_num_def root_block_def roots_from_def roots_to_def header_num_def
      wosize_num_def static_mem_loads upt_rec)

theorem scan_native_globals_correct_witness:
  "scan_native_globals static_mem [16] [32] = Some [0x1008, 0x1010, 0x2008, 0x3018, 0x3018]"
  using scan_native_globals_correct[of static_mem "[16]" "[[0x1008, 0x2008, 0x3008]]" "[32]" "[[0x3008]]"]
  by (simp add: static_mem_loads static_mem_blocks)

text \<open>Two registered roots: one at address 8 that holds a young block, and one at address 16 that holds an old
  block.\<close>

definition example_start :: roots_st where
  "example_start =
     \<lparr>caml_global_roots = SKIPLIST_STATIC_INITIALIZER, caml_global_roots_young = SKIPLIST_STATIC_INITIALIZER,
      caml_global_roots_old = SKIPLIST_STATIC_INITIALIZER, roots_seed = 0,
      root_vals = (\<lambda>_. 1)(8 := 0x1008, 16 := 0x3008), caml_minor_heaps_start = 0x1000, caml_minor_heaps_end = 0x2000\<rparr>"

text \<open>The singleton list that the insertion into an empty list gives.\<close>

definition single_skiplist :: "uintnat \<Rightarrow> skiplist" where
  "single_skiplist key =
     \<lparr>sl_forward = (replicate NUM_LEVELS None)[0 := Some 0], sl_level = 0, sl_cells = [0 \<mapsto> \<lparr>sc_key = key, sc_data = 0, sc_forward = [None]\<rparr>]\<rparr>"

lemma insert_first:
  assumes "random_level seed = (0, seed')"
  shows "caml_skiplist_insert two_alloc seed SKIPLIST_STATIC_INITIALIZER key 0 = Some (Inr False, seed', single_skiplist key)"
  using assms
  by (simp add: caml_skiplist_insert_def SKIPLIST_STATIC_INITIALIZER_def walk.simps get_forward_def insert_element_def
      two_alloc_def single_skiplist_def set_forward_def)

lemma example_levels: "random_level 0 = (0, 25173)" "random_level 25173 = (0, 1738699110)"
  by (simp_all add: random_level_def Let_def random_level_loop.simps)

definition example_roots :: roots_st where
  "example_roots = example_start\<lparr>caml_global_roots_young := single_skiplist 8, caml_global_roots_old := single_skiplist 16,
     roots_seed := 1738699110\<rparr>"

lemma example_roots_reach: "gen_reach two_alloc example_roots {16, 8}"
proof -
  let ?st = "example_start\<lparr>caml_global_roots_young := single_skiplist 8, roots_seed := 25173\<rparr>"
  have "gen_reach two_alloc example_start {}"
    by (rule gen_reach.start) (use static_rep in \<open>simp_all add: example_start_def\<close>)
  moreover have "caml_register_generational_global_root two_alloc example_start 8 = Some (Inr (), ?st)"
    by (simp add: caml_register_generational_global_root_def classify_gc_root_def Is_young_def Is_long_iff_odd
        caml_insert_global_root_def example_start_def insert_first example_levels map_result_def)
  ultimately have "gen_reach two_alloc ?st {8}" by (rule gen_reach.register)
  moreover have "caml_register_generational_global_root two_alloc ?st 16 = Some (Inr (), example_roots)"
    by (simp add: caml_register_generational_global_root_def classify_gc_root_def Is_young_def Is_long_iff_odd
        caml_insert_global_root_def example_start_def example_roots_def insert_first example_levels map_result_def)
  ultimately show ?thesis by (rule gen_reach.register)
qed

theorem generational_roots_invariant_witness:
  "\<exists>young old. sk_rep (caml_global_roots_young example_roots) young \<and> sk_rep (caml_global_roots_old example_roots) old \<and>
     8 \<in> dom young \<and> 8 \<notin> dom old \<and> 16 \<in> dom young \<union> dom old"
proof -
  obtain young old where inv: "sk_rep (caml_global_roots_young example_roots) young" "sk_rep (caml_global_roots_old example_roots) old"
    "\<forall>r\<in>{16, 8}. let v = root_vals example_roots r in
       if odd v then r \<notin> dom young \<and> r \<notin> dom old
       else if caml_minor_heaps_start example_roots < v \<and> v < caml_minor_heaps_end example_roots then r \<in> dom young \<and> r \<notin> dom old
       else r \<in> dom young \<or> r \<in> dom old"
    using generational_roots_invariant[OF example_roots_reach fresh_two_alloc] by blast
  have "8 \<in> dom young \<and> 8 \<notin> dom old \<and> 16 \<in> dom young \<union> dom old"
    using inv(3) by (simp add: example_roots_def example_start_def Un_iff)
  then show ?thesis using inv(1,2) by blast
qed

end
