(* ===== verification/Lexing.thy ===== *)
theory Lexing
  imports Runtime_Prelude "HOL-Library.Sublist"
begin

text \<open>
  The table-driven automata for generated lexers, \<open>runtime/lexing.c\<close>.  Positions and states are
  the integers that the tagged fields of the lexer buffer hold.  A table access outside the
  table or the position memory makes the run \<open>None\<close>.
\<close>

section \<open>Buffers and tables\<close>

record lexer_buffer =
  lex_buffer :: bytes
  lex_buffer_len :: int
  lex_start_pos :: int
  lex_curr_pos :: int
  lex_last_pos :: int
  lex_last_action :: int
  lex_eof_reached :: bool
  lex_mem :: "int list"

record lexing_table =
  lex_base :: bytes
  lex_backtrk :: bytes
  lex_default :: bytes
  lex_trans :: bytes
  lex_check :: bytes
  lex_base_code :: bytes
  lex_backtrk_code :: bytes
  lex_default_code :: bytes
  lex_trans_code :: bytes
  lex_check_code :: bytes
  lex_code :: bytes

text \<open>The signed 16-bit entries of a table.\<close>

definition Short :: "bytes \<Rightarrow> int \<Rightarrow> int option" where
  "Short tbl n =
     (if 0 \<le> n \<and> 2 * nat n + 1 < length tbl
      then Some (sint (le_word [tbl ! (2 * nat n), tbl ! (2 * nat n + 1)] :: 16 word)) else None)"

section \<open>The basic engine\<close>

text \<open>The part of an iteration that reads a character: 256 stands for the end of input; \<open>None\<close> asks
  for a refill.\<close>

definition next_char :: "lexer_buffer \<Rightarrow> (int \<times> lexer_buffer) option" where
  "next_char lexbuf =
     (if lex_curr_pos lexbuf \<ge> lex_buffer_len lexbuf then
        if \<not> lex_eof_reached lexbuf then None else Some (256, lexbuf)
      else
        Some (uint (lex_buffer lexbuf ! nat (lex_curr_pos lexbuf)),
              lexbuf\<lparr>lex_curr_pos := lex_curr_pos lexbuf + 1\<rparr>))"

definition next_state :: "lexing_table \<Rightarrow> int \<Rightarrow> int \<Rightarrow> int \<Rightarrow> int option" where
  "next_state tbl state base c =
     Option.bind (Short (lex_check tbl) (base + c)) (\<lambda>chk.
       if chk = state then Short (lex_trans tbl) (base + c) else Short (lex_default tbl) state)"

definition remember :: "lexer_buffer \<Rightarrow> int \<Rightarrow> lexer_buffer" where
  "remember lexbuf action = lexbuf\<lparr>lex_last_pos := lex_curr_pos lexbuf, lex_last_action := action\<rparr>"

definition backtrack :: "lexer_buffer \<Rightarrow> int result \<times> lexer_buffer" where
  "backtrack lexbuf =
     (let lexbuf = lexbuf\<lparr>lex_curr_pos := lex_last_pos lexbuf\<rparr>
      in if lex_last_action lexbuf = - 1 then (Inl (Failure ''lexing: empty token''), lexbuf)
         else (Inr (lex_last_action lexbuf), lexbuf))"

definition erase_eof :: "lexer_buffer \<Rightarrow> int \<Rightarrow> lexer_buffer" where
  "erase_eof lexbuf c = (if c = 256 then lexbuf\<lparr>lex_eof_reached := False\<rparr> else lexbuf)"

text \<open>The loop ends: each round consumes a character of the buffer or the end-of-input mark.\<close>

definition lex_measure :: "lexer_buffer \<Rightarrow> nat" where
  "lex_measure lexbuf = nat (lex_buffer_len lexbuf - lex_curr_pos lexbuf) + (if lex_eof_reached lexbuf then 1 else 0)"

function lex_loop :: "lexing_table \<Rightarrow> int \<Rightarrow> lexer_buffer \<Rightarrow> (int result \<times> lexer_buffer) option" where
  "lex_loop tbl state lexbuf =
     (case Short (lex_base tbl) state of
        None \<Rightarrow> None
      | Some base \<Rightarrow>
          if base < 0 then Some (Inr (- base - 1), lexbuf)
          else
            (case Short (lex_backtrk tbl) state of
               None \<Rightarrow> None
             | Some backtrk \<Rightarrow>
                 (let lexbuf1 = (if backtrk \<ge> 0 then remember lexbuf backtrk else lexbuf)
                  in case next_char lexbuf1 of
                       None \<Rightarrow> Some (Inr (- state - 1), lexbuf1)
                     | Some (c, lexbuf2) \<Rightarrow>
                         (case next_state tbl state base c of
                            None \<Rightarrow> None
                          | Some state' \<Rightarrow>
                              if state' < 0 then Some (backtrack lexbuf2)
                              else lex_loop tbl state' (erase_eof lexbuf2 c)))))"
  by pat_completeness auto

lemma lex_measure_decreases:
  assumes "next_char (if b then remember lexbuf x else lexbuf) = Some (c, lexbuf2)"
  shows "lex_measure (erase_eof lexbuf2 c) < lex_measure lexbuf"
  using assms
  by (auto simp: next_char_def remember_def erase_eof_def lex_measure_def split: if_splits)

termination lex_loop
  by (relation "measure (\<lambda>(_, _, lexbuf). lex_measure lexbuf)")
    (simp, use lex_measure_decreases in \<open>force\<close>)

declare lex_loop.simps [simp del]

definition enter :: "int \<Rightarrow> lexer_buffer \<Rightarrow> int \<times> lexer_buffer" where
  "enter start_state lexbuf =
     (if start_state \<ge> 0
      then (start_state, lexbuf\<lparr>lex_start_pos := lex_curr_pos lexbuf, lex_last_pos := lex_curr_pos lexbuf,
              lex_last_action := - 1\<rparr>)
      else (- start_state - 1, lexbuf))"

definition caml_lex_engine :: "lexing_table \<Rightarrow> int \<Rightarrow> lexer_buffer \<Rightarrow> (int result \<times> lexer_buffer) option" where
  "caml_lex_engine tbl start_state lexbuf =
     (let (state, lexbuf) = enter start_state lexbuf in lex_loop tbl state lexbuf)"

section \<open>The engine with memory of positions\<close>

fun run_mem :: "bytes \<Rightarrow> int list \<Rightarrow> int \<Rightarrow> int list option" where
  "run_mem [] mem curr_pos = None"
| "run_mem (dst # pc) mem curr_pos =
     (if dst = 0xff then Some mem
      else
        (case pc of
           [] \<Rightarrow> None
         | src # pc' \<Rightarrow>
             if unat dst \<ge> length mem then None
             else if src = 0xff then run_mem pc' (mem[unat dst := curr_pos]) curr_pos
             else if unat src \<ge> length mem then None
             else run_mem pc' (mem[unat dst := mem ! unat src]) curr_pos))"

fun run_tag :: "bytes \<Rightarrow> int list \<Rightarrow> int list option" where
  "run_tag [] mem = None"
| "run_tag (dst # pc) mem =
     (if dst = 0xff then Some mem
      else
        (case pc of
           [] \<Rightarrow> None
         | src # pc' \<Rightarrow>
             if unat dst \<ge> length mem then None
             else if src = 0xff then run_tag pc' (mem[unat dst := - 1])
             else if unat src \<ge> length mem then None
             else run_tag pc' (mem[unat dst := mem ! unat src])))"

definition run_tag_at :: "lexing_table \<Rightarrow> int \<Rightarrow> lexer_buffer \<Rightarrow> lexer_buffer option" where
  "run_tag_at tbl pc_off lexbuf =
     (if pc_off < 0 then None
      else map_option (\<lambda>mem. lexbuf\<lparr>lex_mem := mem\<rparr>)
             (run_tag (drop (nat pc_off) (lex_code tbl)) (lex_mem lexbuf)))"

text \<open>The memory moves of a transition.\<close>

definition run_moves :: "lexing_table \<Rightarrow> int \<Rightarrow> int \<Rightarrow> lexer_buffer \<Rightarrow> lexer_buffer option" where
  "run_moves tbl pstate c lexbuf =
     Option.bind (Short (lex_base_code tbl) pstate) (\<lambda>base_code.
     Option.bind (Short (lex_check_code tbl) (base_code + c)) (\<lambda>chk.
     Option.bind (if chk = pstate then Short (lex_trans_code tbl) (base_code + c)
                  else Short (lex_default_code tbl) pstate) (\<lambda>pc_off.
     if pc_off > 0 then
       map_option (\<lambda>mem. lexbuf\<lparr>lex_mem := mem\<rparr>)
         (run_mem (drop (nat pc_off) (lex_code tbl)) (lex_mem lexbuf) (lex_curr_pos lexbuf))
     else Some lexbuf)))"

function new_lex_loop :: "lexing_table \<Rightarrow> int \<Rightarrow> lexer_buffer \<Rightarrow> (int result \<times> lexer_buffer) option" where
  "new_lex_loop tbl state lexbuf =
     (case Short (lex_base tbl) state of
        None \<Rightarrow> None
      | Some base \<Rightarrow>
          if base < 0 then
            Option.bind (Short (lex_base_code tbl) state) (\<lambda>pc_off.
              map_option (\<lambda>lexbuf. (Inr (- base - 1), lexbuf)) (run_tag_at tbl pc_off lexbuf))
          else
            (case Short (lex_backtrk tbl) state of
               None \<Rightarrow> None
             | Some backtrk \<Rightarrow>
                 (case (if backtrk \<ge> 0 then
                          Option.bind (Short (lex_backtrk_code tbl) state) (\<lambda>pc_off.
                            map_option (\<lambda>lexbuf. remember lexbuf backtrk) (run_tag_at tbl pc_off lexbuf))
                        else Some lexbuf) of
                    None \<Rightarrow> None
                  | Some lexbuf1 \<Rightarrow>
                      (case next_char lexbuf1 of
                         None \<Rightarrow> Some (Inr (- state - 1), lexbuf1)
                       | Some (c, lexbuf2) \<Rightarrow>
                           (case next_state tbl state base c of
                              None \<Rightarrow> None
                            | Some state' \<Rightarrow>
                                if state' < 0 then Some (backtrack lexbuf2)
                                else
                                  (case run_moves tbl state c lexbuf2 of
                                     None \<Rightarrow> None
                                   | Some lexbuf3 \<Rightarrow> new_lex_loop tbl state' (erase_eof lexbuf3 c)))))))"
  by pat_completeness auto

lemma run_tag_at_only_mem: "run_tag_at tbl pc_off lexbuf = Some lexbuf' \<Longrightarrow> \<exists>mem. lexbuf' = lexbuf\<lparr>lex_mem := mem\<rparr>"
  by (auto simp: run_tag_at_def split: if_splits)

lemma run_moves_only_mem: "run_moves tbl s c lexbuf = Some lexbuf' \<Longrightarrow> \<exists>mem. lexbuf' = lexbuf\<lparr>lex_mem := mem\<rparr>"
proof -
  assume "run_moves tbl s c lexbuf = Some lexbuf'"
  then have "(\<exists>mem. lexbuf' = lexbuf\<lparr>lex_mem := mem\<rparr>) \<or> lexbuf' = lexbuf"
    by (auto simp: run_moves_def split: bind_splits if_splits)
  moreover have "lexbuf = lexbuf\<lparr>lex_mem := lex_mem lexbuf\<rparr>" by simp
  ultimately show ?thesis by metis
qed

text \<open>Everything but the memory of positions.\<close>

lemma lex_mem_irrelevant [simp]:
  "next_char (lexbuf\<lparr>lex_mem := mem\<rparr>) = map_option (\<lambda>(c, b). (c, b\<lparr>lex_mem := mem\<rparr>)) (next_char lexbuf)"
  "remember (lexbuf\<lparr>lex_mem := mem\<rparr>) a = (remember lexbuf a)\<lparr>lex_mem := mem\<rparr>"
  "erase_eof (lexbuf\<lparr>lex_mem := mem\<rparr>) c = (erase_eof lexbuf c)\<lparr>lex_mem := mem\<rparr>"
  "backtrack (lexbuf\<lparr>lex_mem := mem\<rparr>) = map_prod id (\<lambda>b. b\<lparr>lex_mem := mem\<rparr>) (backtrack lexbuf)"
  "lex_measure (lexbuf\<lparr>lex_mem := mem\<rparr>) = lex_measure lexbuf"
  by (simp_all add: next_char_def remember_def erase_eof_def backtrack_def lex_measure_def Let_def)

termination new_lex_loop
proof (relation "measure (\<lambda>(_, _, lexbuf). lex_measure lexbuf)", goal_cases)
  case (2 tbl state lexbuf base backtrk lexbuf1 cl c lexbuf2 state' lexbuf3)
  obtain mem where "lexbuf1 = (if backtrk \<ge> 0 then remember lexbuf backtrk else lexbuf)\<lparr>lex_mem := mem\<rparr>"
  proof (cases "backtrk \<ge> 0")
    case True
    then obtain pc lb where "run_tag_at tbl pc lexbuf = Some lb" "lexbuf1 = remember lb backtrk"
      using 2(4) by (auto split: bind_splits)
    then show ?thesis using True that run_tag_at_only_mem by fastforce
  next
    case False
    then have "lexbuf1 = lexbuf\<lparr>lex_mem := lex_mem lexbuf\<rparr>" using 2(4) by simp
    then show ?thesis using False that[of "lex_mem lexbuf"] by simp
  qed
  then obtain b2 where "next_char (if backtrk \<ge> 0 then remember lexbuf backtrk else lexbuf) = Some (c, b2)"
    "lexbuf2 = b2\<lparr>lex_mem := mem\<rparr>"
    using 2(5,6) by auto
  moreover obtain mem' where "lexbuf3 = lexbuf2\<lparr>lex_mem := mem'\<rparr>" using run_moves_only_mem 2 by blast
  ultimately show ?case using lex_measure_decreases[of "backtrk \<ge> 0" lexbuf backtrk c b2] by simp
qed simp

declare new_lex_loop.simps [simp del]

definition caml_new_lex_engine :: "lexing_table \<Rightarrow> int \<Rightarrow> lexer_buffer \<Rightarrow> (int result \<times> lexer_buffer) option" where
  "caml_new_lex_engine tbl start_state lexbuf =
     (let (state, lexbuf) = enter start_state lexbuf in new_lex_loop tbl state lexbuf)"

section \<open>Longest match\<close>

text \<open>The symbols the engine may read: the rest of the buffer and, when the input has ended, the
  end mark.\<close>

definition symbols :: "lexer_buffer \<Rightarrow> int list" where
  "symbols lexbuf =
     map uint (drop (nat (lex_curr_pos lexbuf)) (take (nat (lex_buffer_len lexbuf)) (lex_buffer lexbuf))) @
     (if lex_eof_reached lexbuf then [256] else [])"

definition wf_lexbuf :: "lexer_buffer \<Rightarrow> bool" where
  "wf_lexbuf lexbuf \<longleftrightarrow>
     0 \<le> lex_curr_pos lexbuf \<and> lex_curr_pos lexbuf \<le> lex_buffer_len lexbuf \<and>
     lex_buffer_len lexbuf = int (length (lex_buffer lexbuf)) \<and> - 1 \<le> lex_last_action lexbuf"

text \<open>The automaton of the tables: the state after a word, if the automaton neither stops nor
  reaches a final state before its end, and the action a state selects.\<close>

fun delta :: "lexing_table \<Rightarrow> int \<Rightarrow> int list \<Rightarrow> int option" where
  "delta tbl s [] = Some s"
| "delta tbl s (c # cs) =
     Option.bind (Short (lex_base tbl) s) (\<lambda>base.
       if base < 0 then None
       else Option.bind (next_state tbl s base c) (\<lambda>s'. if s' < 0 then None else delta tbl s' cs))"

definition state_action :: "lexing_table \<Rightarrow> int \<Rightarrow> int option" where
  "state_action tbl s =
     Option.bind (Short (lex_base tbl) s) (\<lambda>base.
       if base < 0 then Some (- base - 1)
       else Option.bind (Short (lex_backtrk tbl) s) (\<lambda>k. if k \<ge> 0 then Some k else None))"

definition token :: "lexing_table \<Rightarrow> int \<Rightarrow> int list \<Rightarrow> int option" where
  "token tbl s p = Option.bind (delta tbl s p) (state_action tbl)"

definition longest_token :: "lexing_table \<Rightarrow> int \<Rightarrow> int list \<Rightarrow> int list \<Rightarrow> int \<Rightarrow> bool" where
  "longest_token tbl s w p a \<longleftrightarrow>
     prefix p w \<and> token tbl s p = Some a \<and>
     (\<forall>p'. prefix p' w \<and> token tbl s p' \<noteq> None \<longrightarrow> length p' \<le> length p)"

text \<open>The automaton consumes all the symbols and could go on.\<close>

definition undecided :: "lexing_table \<Rightarrow> int \<Rightarrow> int list \<Rightarrow> int \<Rightarrow> bool" where
  "undecided tbl s w q \<longleftrightarrow>
     delta tbl s w = Some q \<and> (\<exists>base. Short (lex_base tbl) q = Some base \<and> base \<ge> 0)"

definition consumed :: "int list \<Rightarrow> int" where
  "consumed p = int (length (filter (\<lambda>c. c \<noteq> 256) p))"

definition lex_outcome :: "lexing_table \<Rightarrow> int \<Rightarrow> lexer_buffer \<Rightarrow> int result \<Rightarrow> lexer_buffer \<Rightarrow> bool" where
  "lex_outcome tbl s lexbuf r lexbuf' \<longleftrightarrow>
     (\<exists>q. undecided tbl s (symbols lexbuf) q \<and> r = Inr (- q - 1)) \<or>
     (\<nexists>q. undecided tbl s (symbols lexbuf) q) \<and>
       ((\<exists>p a. longest_token tbl s (symbols lexbuf) p a \<and> r = Inr a \<and>
           lex_curr_pos lexbuf' = lex_curr_pos lexbuf + consumed p) \<or>
        (\<forall>p. prefix p (symbols lexbuf) \<longrightarrow> token tbl s p = None) \<and>
          lex_curr_pos lexbuf' = lex_last_pos lexbuf \<and>
          r = (if lex_last_action lexbuf = - 1 then Inl (Failure ''lexing: empty token'')
               else Inr (lex_last_action lexbuf)))"

lemma token_Nil: "token tbl s [] = state_action tbl s"
  by (simp add: token_def)

lemma token_Cons:
  assumes "Short (lex_base tbl) s = Some base" "base \<ge> 0" "next_state tbl s base c = Some s'"
  shows "token tbl s (c # p) = (if s' < 0 then None else token tbl s' p)"
  using assms by (simp add: token_def)

lemma next_char_symbols:
  assumes "wf_lexbuf lexbuf"
  shows "case next_char lexbuf of
      None \<Rightarrow> symbols lexbuf = []
    | Some (c, lexbuf2) \<Rightarrow> symbols lexbuf = c # symbols (erase_eof lexbuf2 c) \<and>
        wf_lexbuf (erase_eof lexbuf2 c) \<and>
        lex_curr_pos (erase_eof lexbuf2 c) = lex_curr_pos lexbuf + consumed [c] \<and>
        lex_last_pos lexbuf2 = lex_last_pos lexbuf \<and> lex_last_action lexbuf2 = lex_last_action lexbuf \<and>
        lex_last_pos (erase_eof lexbuf2 c) = lex_last_pos lexbuf \<and>
        lex_last_action (erase_eof lexbuf2 c) = lex_last_action lexbuf"
proof (cases "lex_curr_pos lexbuf \<ge> lex_buffer_len lexbuf")
  case True
  then have "nat (lex_curr_pos lexbuf) = length (lex_buffer lexbuf)" using assms by (simp add: wf_lexbuf_def)
  then show ?thesis
    using True assms by (auto simp: next_char_def symbols_def erase_eof_def wf_lexbuf_def consumed_def)
next
  case False
  let ?i = "nat (lex_curr_pos lexbuf)"
  have i: "?i < length (lex_buffer lexbuf)" "nat (lex_curr_pos lexbuf + 1) = Suc ?i"
    using False assms by (auto simp: wf_lexbuf_def)
  have c: "uint (lex_buffer lexbuf ! ?i) \<noteq> 256"
    using uint_lt2p[of "lex_buffer lexbuf ! ?i"] by simp
  have "drop ?i (lex_buffer lexbuf) = lex_buffer lexbuf ! ?i # drop (Suc ?i) (lex_buffer lexbuf)"
    using i(1) by (simp add: Cons_nth_drop_Suc)
  then show ?thesis
    using False assms i c by (auto simp: next_char_def symbols_def erase_eof_def wf_lexbuf_def consumed_def)
qed

lemma prefix_Cons_cases:
  "(\<forall>p. prefix p (c # w) \<longrightarrow> Q p) \<longleftrightarrow> Q [] \<and> (\<forall>p. prefix p w \<longrightarrow> Q (c # p))"
  by (auto simp: prefix_Cons)

lemma final_outcome:
  assumes "Short (lex_base tbl) s = Some base" "base < 0"
  shows "lex_outcome tbl s lexbuf (Inr (- base - 1)) lexbuf"
proof -
  have d: "delta tbl s w = None" if "w \<noteq> []" for w using assms that by (cases w) simp_all
  have "\<not> undecided tbl s w q" for w q
    using assms d[of w] by (cases "w = []") (auto simp: undecided_def)
  moreover have "longest_token tbl s w [] (- base - 1)" for w
  proof -
    have "p = []" if "token tbl s p \<noteq> None" for p using d[of p] that by (cases "p = []") (simp_all add: token_def)
    then show ?thesis using assms by (auto simp: longest_token_def token_def state_action_def)
  qed
  moreover have "lex_curr_pos lexbuf = lex_curr_pos lexbuf + consumed []" by (simp add: consumed_def)
  ultimately show ?thesis unfolding lex_outcome_def by blast
qed

lemma undecided_Cons:
  assumes "Short (lex_base tbl) s = Some base" "base \<ge> 0" "next_state tbl s base c = Some s'"
  shows "undecided tbl s (c # w) q \<longleftrightarrow> s' \<ge> 0 \<and> undecided tbl s' w q"
  using assms by (auto simp: undecided_def)

lemma longest_token_Cons:
  assumes "Short (lex_base tbl) s = Some base" "base \<ge> 0" "next_state tbl s base c = Some s'" "s' \<ge> 0"
    "longest_token tbl s' w p a"
  shows "longest_token tbl s (c # w) (c # p) a"
  using assms(4,5) unfolding longest_token_def
  by (auto simp: token_Cons[OF assms(1-3)] prefix_Cons)

text \<open>What is left when no later prefix is a token: the remembered position.\<close>

lemma no_later_token:
  assumes b: "Short (lex_base tbl) s = Some base" "base \<ge> 0" and k: "Short (lex_backtrk tbl) s = Some k"
    and u: "\<nexists>q. undecided tbl s (symbols lexbuf) q" and w: "symbols lexbuf = c # w"
    and nt: "\<forall>p. prefix p w \<longrightarrow> token tbl s (c # p) = None"
    and lb1: "lexbuf1 = (if k \<ge> 0 then remember lexbuf k else lexbuf)"
    and pos: "lex_curr_pos lexbuf' = lex_last_pos lexbuf1"
    and r: "r = (if lex_last_action lexbuf1 = - 1 then Inl (Failure ''lexing: empty token'') else Inr (lex_last_action lexbuf1))"
  shows "lex_outcome tbl s lexbuf r lexbuf'"
proof (cases "k \<ge> 0")
  case True
  then have "token tbl s [] = Some k" using b k by (simp add: token_def state_action_def)
  then have "longest_token tbl s (symbols lexbuf) [] k"
    unfolding longest_token_def w using nt by (auto simp: prefix_Cons)
  then show ?thesis using True pos r lb1 u unfolding lex_outcome_def
    by (intro disjI2 conjI disjI1 exI[of _ "[]"] exI[of _ k]) (auto simp: remember_def consumed_def)
next
  case False
  then have "token tbl s [] = None" using b k by (simp add: token_def state_action_def)
  then have "\<forall>p. prefix p (symbols lexbuf) \<longrightarrow> token tbl s p = None"
    unfolding w using nt by (auto simp: prefix_Cons)
  then show ?thesis using False pos r lb1 u unfolding lex_outcome_def by auto
qed

lemma lex_outcome_step:
  assumes b: "Short (lex_base tbl) s = Some base" "base \<ge> 0" and k: "Short (lex_backtrk tbl) s = Some k"
    and s': "next_state tbl s base c = Some s'" "s' \<ge> 0" and w: "symbols lexbuf = c # symbols lexbuf3"
    and lb1: "lexbuf1 = (if k \<ge> 0 then remember lexbuf k else lexbuf)"
    and cp: "lex_curr_pos lexbuf3 = lex_curr_pos lexbuf + consumed [c]"
    and last: "lex_last_pos lexbuf3 = lex_last_pos lexbuf1" "lex_last_action lexbuf3 = lex_last_action lexbuf1"
    and out: "lex_outcome tbl s' lexbuf3 r lexbuf'"
  shows "lex_outcome tbl s lexbuf r lexbuf'"
proof -
  have und: "undecided tbl s (symbols lexbuf) q \<longleftrightarrow> undecided tbl s' (symbols lexbuf3) q" for q
    unfolding w using undecided_Cons[OF b s'(1)] s'(2) by simp
  consider (refill) q where "undecided tbl s' (symbols lexbuf3) q" "r = Inr (- q - 1)"
    | (tok) p a where "\<nexists>q. undecided tbl s' (symbols lexbuf3) q" "longest_token tbl s' (symbols lexbuf3) p a" "r = Inr a"
        "lex_curr_pos lexbuf' = lex_curr_pos lexbuf3 + consumed p"
    | (none) "\<nexists>q. undecided tbl s' (symbols lexbuf3) q" "\<forall>p. prefix p (symbols lexbuf3) \<longrightarrow> token tbl s' p = None"
        "lex_curr_pos lexbuf' = lex_last_pos lexbuf3"
        "r = (if lex_last_action lexbuf3 = - 1 then Inl (Failure ''lexing: empty token'') else Inr (lex_last_action lexbuf3))"
    using out unfolding lex_outcome_def by blast
  then show ?thesis
  proof cases
    case refill
    then show ?thesis using und by (auto simp: lex_outcome_def)
  next
    case tok
    have "longest_token tbl s (symbols lexbuf) (c # p) a"
      unfolding w by (rule longest_token_Cons[OF b s' tok(2)])
    moreover have "lex_curr_pos lexbuf' = lex_curr_pos lexbuf + consumed (c # p)"
      using tok(4) cp by (simp add: consumed_def)
    ultimately show ?thesis using tok(1,3) und unfolding lex_outcome_def by blast
  next
    case none
    show ?thesis
      using none last by (intro no_later_token[OF b k _ w _ lb1])
        (simp_all add: und token_Cons[OF b s'(1)])
  qed
qed

lemma lex_loop_outcome:
  assumes "wf_lexbuf lexbuf" "lex_loop tbl s lexbuf = Some (r, lexbuf')"
  shows "lex_outcome tbl s lexbuf r lexbuf'"
  using assms
proof (induction tbl s lexbuf arbitrary: r lexbuf' rule: lex_loop.induct)
  case (1 tbl s lexbuf)
  obtain base where base: "Short (lex_base tbl) s = Some base"
    using "1.prems"(2) by (subst (asm) lex_loop.simps) (auto split: option.splits)
  show ?case
  proof (cases "base < 0")
    case True
    then have "r = Inr (- base - 1)" "lexbuf' = lexbuf"
      using "1.prems"(2) base by (subst (asm) lex_loop.simps, simp)+
    then show ?thesis using final_outcome[OF base True] by simp
  next
    case False
    obtain k where k: "Short (lex_backtrk tbl) s = Some k"
      using "1.prems"(2) base False by (subst (asm) lex_loop.simps) (auto split: option.splits)
    define lexbuf1 where "lexbuf1 = (if k \<ge> 0 then remember lexbuf k else lexbuf)"
    have wf1: "wf_lexbuf lexbuf1" and sy1: "symbols lexbuf1 = symbols lexbuf" and cp1: "lex_curr_pos lexbuf1 = lex_curr_pos lexbuf"
      using "1.prems"(1) by (auto simp: lexbuf1_def remember_def wf_lexbuf_def symbols_def)
    show ?thesis
    proof (cases "next_char lexbuf1")
      case None
      then have "r = Inr (- s - 1)"
        using "1.prems"(2) base False k by (subst (asm) lex_loop.simps) (simp add: lexbuf1_def Let_def)
      moreover have "symbols lexbuf = []" using next_char_symbols[OF wf1] None sy1 by simp
      ultimately show ?thesis using base False by (auto simp: lex_outcome_def undecided_def)
    next
      case (Some cl)
      obtain c lexbuf2 where cl: "cl = (c, lexbuf2)" by fastforce
      define lexbuf3 where "lexbuf3 = erase_eof lexbuf2 c"
      have sy: "symbols lexbuf = c # symbols lexbuf3" and wf3: "wf_lexbuf lexbuf3"
        and cp3: "lex_curr_pos lexbuf3 = lex_curr_pos lexbuf + consumed [c]"
        and last: "lex_last_pos lexbuf3 = lex_last_pos lexbuf1" "lex_last_action lexbuf3 = lex_last_action lexbuf1"
          "lex_last_pos lexbuf2 = lex_last_pos lexbuf1" "lex_last_action lexbuf2 = lex_last_action lexbuf1"
        using next_char_symbols[OF wf1] Some cl sy1 cp1 by (auto simp: lexbuf3_def)
      obtain s' where s': "next_state tbl s base c = Some s'"
        using "1.prems"(2) base False k Some cl
        by (subst (asm) lex_loop.simps) (auto simp: lexbuf1_def Let_def split: option.splits)
      note tok = token_Cons[OF base _ s'] and und = undecided_Cons[OF base _ s']
      show ?thesis
      proof (cases "s' < 0")
        case True
        then have b: "(r, lexbuf') = backtrack lexbuf2"
          using "1.prems"(2) base False k Some cl s' by (subst (asm) lex_loop.simps) (simp add: lexbuf1_def Let_def)
        show ?thesis
          using base False k sy lexbuf1_def
        proof (rule_tac no_later_token[OF base _ k _ sy _ lexbuf1_def])
          show "\<nexists>q. undecided tbl s (symbols lexbuf) q" using sy und False True by simp
          show "\<forall>p. prefix p (symbols lexbuf3) \<longrightarrow> token tbl s (c # p) = None" using tok False True by simp
        qed (use b last in \<open>auto simp: backtrack_def Let_def split: if_splits\<close>)
      next
        case s'0: False
        have "lex_loop tbl s' lexbuf3 = Some (r, lexbuf')"
          using "1.prems"(2) base False k Some cl s' s'0
          by (subst (asm) lex_loop.simps) (simp add: lexbuf1_def lexbuf3_def Let_def)
        then have "lex_outcome tbl s' lexbuf3 r lexbuf'"
          using "1.IH"[OF base False k lexbuf1_def Some cl[symmetric] s' s'0, folded lexbuf3_def] wf3 cl by simp
        then show ?thesis
          using lex_outcome_step[OF base _ k s' _ sy lexbuf1_def cp3 last(1,2)] False s'0 by simp
      qed
    qed
  qed
qed

section \<open>Well-formed tables\<close>

text \<open>Tables for \<open>n\<close> states: every state has its entries, and every successor is a state or
  negative.\<close>

definition wf_table :: "lexing_table \<Rightarrow> int \<Rightarrow> bool" where
  "wf_table tbl n \<longleftrightarrow>
     (\<forall>s. 0 \<le> s \<and> s < n \<longrightarrow>
        (\<exists>base k d. Short (lex_base tbl) s = Some base \<and> Short (lex_backtrk tbl) s = Some k \<and>
           Short (lex_default tbl) s = Some d \<and> d < n \<and>
           (base \<ge> 0 \<longrightarrow>
              (\<forall>c. 0 \<le> c \<and> c \<le> 256 \<longrightarrow>
                 (\<exists>chk t. Short (lex_check tbl) (base + c) = Some chk \<and>
                    Short (lex_trans tbl) (base + c) = Some t \<and> t < n)))))"

lemma wf_table_next:
  assumes "wf_table tbl n" "0 \<le> s" "s < n" "Short (lex_base tbl) s = Some base" "base \<ge> 0" "0 \<le> c" "c \<le> 256"
  shows "\<exists>s'. next_state tbl s base c = Some s' \<and> s' < n"
  using assms unfolding wf_table_def by (fastforce simp: next_state_def)

lemma next_char_range: "next_char lexbuf = Some (c, lexbuf2) \<Longrightarrow> 0 \<le> c \<and> c \<le> 256"
  using uint_lt2p[of "lex_buffer lexbuf ! nat (lex_curr_pos lexbuf)"]
  by (auto simp: next_char_def split: if_splits)

lemma lex_loop_returns:
  assumes "wf_table tbl n" "0 \<le> s" "s < n"
  shows "lex_loop tbl s lexbuf \<noteq> None"
  using assms
proof (induction tbl s lexbuf rule: lex_loop.induct)
  case (1 tbl s lexbuf)
  obtain base k where bk: "Short (lex_base tbl) s = Some base" "Short (lex_backtrk tbl) s = Some k"
    using "1.prems" unfolding wf_table_def by blast
  show ?case
  proof (cases "base < 0")
    case False
    define lexbuf1 where "lexbuf1 = (if k \<ge> 0 then remember lexbuf k else lexbuf)"
    show ?thesis
    proof (cases "next_char lexbuf1")
      case None
      then show ?thesis using bk False by (subst lex_loop.simps) (simp add: lexbuf1_def Let_def)
    next
      case (Some cl)
      obtain c lexbuf2 where cl: "cl = (c, lexbuf2)" by fastforce
      obtain s' where s': "next_state tbl s base c = Some s'" "s' < n"
        using wf_table_next[OF "1.prems" bk(1)] next_char_range Some cl False by force
      have "lex_loop tbl s' (erase_eof lexbuf2 c) \<noteq> None" if "\<not> s' < 0"
        using "1.IH"[OF bk(1) False bk(2) lexbuf1_def Some cl[symmetric] s'(1) that] "1.prems" s' that by simp
      then show ?thesis using bk False Some cl s' by (subst lex_loop.simps) (simp add: lexbuf1_def Let_def)
    qed
  qed (use bk in \<open>subst lex_loop.simps, simp\<close>)
qed

text \<open>C7: started in a state of well-formed tables, the engine always returns.  Either the automaton
  consumes everything in the buffer without deciding, and the engine returns the code that
  asks for a refill in that state; or it selects the action of the longest prefix that is a
  token and leaves the position after it; or no prefix is a token, and it fails with the
  position where it was.\<close>

theorem lex_engine_longest_match:
  assumes "wf_table tbl n" and "wf_lexbuf lexbuf" and "0 \<le> start_state" and "start_state < n"
  shows "\<exists>r lexbuf'. caml_lex_engine tbl start_state lexbuf = Some (r, lexbuf') \<and>
    ((\<exists>q. undecided tbl start_state (symbols lexbuf) q \<and> r = Inr (- q - 1)) \<or>
     (\<nexists>q. undecided tbl start_state (symbols lexbuf) q) \<and>
       ((\<exists>p a. longest_token tbl start_state (symbols lexbuf) p a \<and> r = Inr a \<and>
           lex_curr_pos lexbuf' = lex_curr_pos lexbuf + consumed p) \<or>
        (\<forall>p. prefix p (symbols lexbuf) \<longrightarrow> token tbl start_state p = None) \<and>
          lex_curr_pos lexbuf' = lex_curr_pos lexbuf \<and> r = Inl (Failure ''lexing: empty token'')))"
proof -
  define lexbuf1 where "lexbuf1 = snd (enter start_state lexbuf)"
  have e: "enter start_state lexbuf = (start_state, lexbuf1)" using assms(3) by (simp add: lexbuf1_def enter_def)
  have lb1: "wf_lexbuf lexbuf1" "symbols lexbuf1 = symbols lexbuf" "lex_curr_pos lexbuf1 = lex_curr_pos lexbuf"
    "lex_last_pos lexbuf1 = lex_curr_pos lexbuf" "lex_last_action lexbuf1 = - 1"
    using assms(2,3) by (auto simp: lexbuf1_def enter_def wf_lexbuf_def symbols_def)
  obtain r lexbuf' where run: "lex_loop tbl start_state lexbuf1 = Some (r, lexbuf')"
    using lex_loop_returns[OF assms(1,3,4), of lexbuf1] by fastforce
  then have "lex_outcome tbl start_state lexbuf1 r lexbuf'" by (rule lex_loop_outcome[OF lb1(1)])
  then show ?thesis
    using run e lb1 by (auto simp: caml_lex_engine_def lex_outcome_def)
qed

section \<open>Refilling the buffer\<close>

text \<open>Further input at the end of the buffer.\<close>

definition refill :: "lexer_buffer \<Rightarrow> bytes \<Rightarrow> bool \<Rightarrow> lexer_buffer" where
  "refill lexbuf input eof =
     lexbuf\<lparr>lex_buffer := lex_buffer lexbuf @ input,
            lex_buffer_len := lex_buffer_len lexbuf + int (length input), lex_eof_reached := eof\<rparr>"

lemma refill_remember: "refill (remember lexbuf k) input eof = remember (refill lexbuf input eof) k"
  by (simp add: refill_def remember_def)

lemma remember_remember [simp]: "remember (remember b k) k = remember b k"
  by (simp add: remember_def)

lemma next_char_refill:
  assumes "wf_lexbuf lexbuf" "\<not> lex_eof_reached lexbuf" "next_char lexbuf = Some (c, lexbuf2)"
  shows "next_char (refill lexbuf input eof) = Some (c, refill lexbuf2 input eof)"
    and "c \<noteq> 256" and "wf_lexbuf lexbuf2" and "\<not> lex_eof_reached lexbuf2"
proof -
  have lt: "lex_curr_pos lexbuf < lex_buffer_len lexbuf" using assms by (auto simp: next_char_def split: if_splits)
  then have i: "nat (lex_curr_pos lexbuf) < length (lex_buffer lexbuf)" using assms(1) by (auto simp: wf_lexbuf_def)
  show "next_char (refill lexbuf input eof) = Some (c, refill lexbuf2 input eof)"
    using assms lt i by (auto simp: next_char_def refill_def nth_append)
  show "c \<noteq> 256" using assms(3) lt uint_lt2p[of "lex_buffer lexbuf ! nat (lex_curr_pos lexbuf)"]
    by (auto simp: next_char_def)
  show "wf_lexbuf lexbuf2" "\<not> lex_eof_reached lexbuf2" using assms lt by (auto simp: next_char_def wf_lexbuf_def)
qed

lemma lex_loop_resume:
  assumes "wf_lexbuf lexbuf" "\<not> lex_eof_reached lexbuf" "0 \<le> s"
    and "lex_loop tbl s lexbuf = Some (Inr code, lexbuf')" "code < 0"
  shows "lex_loop tbl (- code - 1) (refill lexbuf' input eof) = lex_loop tbl s (refill lexbuf input eof)"
  using assms
proof (induction tbl s lexbuf rule: lex_loop.induct)
  case (1 tbl s lexbuf)
  note run = "1.prems"(4)[unfolded lex_loop.simps[of tbl s lexbuf]]
  obtain base where base: "Short (lex_base tbl) s = Some base" using run by (auto split: option.splits)
  have nb: "\<not> base < 0" using run base "1.prems"(5) by auto
  obtain k where k: "Short (lex_backtrk tbl) s = Some k" using run base nb by (auto split: option.splits)
  define lexbuf1 where "lexbuf1 = (if k \<ge> 0 then remember lexbuf k else lexbuf)"
  have wf1: "wf_lexbuf lexbuf1" "\<not> lex_eof_reached lexbuf1"
    using "1.prems"(1,2) by (auto simp: lexbuf1_def remember_def wf_lexbuf_def)
  have ext1: "refill lexbuf1 input eof = (if k \<ge> 0 then remember (refill lexbuf input eof) k else refill lexbuf input eof)"
    by (simp add: lexbuf1_def refill_remember)
  show ?case
  proof (cases "next_char lexbuf1")
    case None
    then have "code = - s - 1" "lexbuf' = lexbuf1" using run base nb k by (simp_all add: lexbuf1_def Let_def)
    then show ?thesis
      using base nb k by (simp add: lex_loop.simps[of tbl s] ext1 Let_def cong: option.case_cong)
  next
    case (Some cl)
    obtain c lexbuf2 where cl: "cl = (c, lexbuf2)" by fastforce
    note nc = next_char_refill[OF wf1 Some[unfolded cl]]
    obtain s' where s': "next_state tbl s base c = Some s'"
      using run base nb k Some cl by (auto simp: lexbuf1_def Let_def split: option.splits)
    have s'0: "\<not> s' < 0"
    proof
      assume "s' < 0"
      then have "Some (backtrack lexbuf2) = Some (Inr code, lexbuf')"
        using run base nb k Some cl s' by (simp add: lexbuf1_def Let_def)
      then show False using "1.prems"(5) nc(3) by (auto simp: backtrack_def wf_lexbuf_def Let_def split: if_splits)
    qed
    have e: "erase_eof b c = b" for b using nc(2) by (simp add: erase_eof_def)
    have "lex_loop tbl s' lexbuf2 = Some (Inr code, lexbuf')"
      using run base nb k Some cl s' s'0 e by (simp add: lexbuf1_def Let_def)
    then have "lex_loop tbl (- code - 1) (refill lexbuf' input eof) = lex_loop tbl s' (refill lexbuf2 input eof)"
      using "1.IH"[OF base nb k lexbuf1_def Some cl[symmetric] s' s'0] nc(3,4) s'0 "1.prems"(5) e by simp
    also have "\<dots> = lex_loop tbl s (refill lexbuf input eof)"
      using base nb k s' s'0 nc(1)[of input eof] ext1 e by (simp add: lex_loop.simps[of tbl s] Let_def)
    finally show ?thesis .
  qed
qed

text \<open>C18: lexing does not depend on how the input arrives.  When the engine asks for a refill, the
  call that continues with the returned code after the buffer was refilled gives the result
  of a single call on the refilled buffer.\<close>

theorem lex_engine_refill_transparent:
  assumes "wf_lexbuf lexbuf" and "\<not> lex_eof_reached lexbuf" and "0 \<le> start_state"
    and "caml_lex_engine tbl start_state lexbuf = Some (Inr code, lexbuf')" and "code < 0"
  shows "caml_lex_engine tbl code (refill lexbuf' input eof) = caml_lex_engine tbl start_state (refill lexbuf input eof)"
proof -
  define lexbuf1 where "lexbuf1 = snd (enter start_state lexbuf)"
  have e: "enter start_state lexbuf = (start_state, lexbuf1)"
    "enter start_state (refill lexbuf input eof) = (start_state, refill lexbuf1 input eof)"
    using assms(3) by (simp_all add: lexbuf1_def enter_def refill_def)
  have "wf_lexbuf lexbuf1" "\<not> lex_eof_reached lexbuf1"
    using assms(1-3) by (auto simp: lexbuf1_def enter_def wf_lexbuf_def)
  then have "lex_loop tbl (- code - 1) (refill lexbuf' input eof) = lex_loop tbl start_state (refill lexbuf1 input eof)"
    using assms(3-5) e by (intro lex_loop_resume) (simp_all add: caml_lex_engine_def)
  then show ?thesis using assms(5) e by (simp add: caml_lex_engine_def enter_def)
qed

section \<open>The two engines agree\<close>

text \<open>Programs on a memory of \<open>len\<close> positions.\<close>

fun mem_prog :: "nat \<Rightarrow> bytes \<Rightarrow> bool" where
  "mem_prog len [] \<longleftrightarrow> False"
| "mem_prog len (dst # pc) \<longleftrightarrow>
     dst = 0xff \<or>
     (case pc of
        [] \<Rightarrow> False
      | src # pc' \<Rightarrow> unat dst < len \<and> (src = 0xff \<or> unat src < len) \<and> mem_prog len pc')"

lemma run_tag_returns:
  "mem_prog (length mem) pc \<Longrightarrow> \<exists>mem'. run_tag pc mem = Some mem' \<and> length mem' = length mem"
  by (induction pc mem rule: run_tag.induct) (auto split: list.splits)

lemma run_mem_returns:
  "mem_prog (length mem) pc \<Longrightarrow> \<exists>mem'. run_mem pc mem p = Some mem' \<and> length mem' = length mem"
  by (induction pc mem p rule: run_mem.induct) (auto split: list.splits)

definition code_at :: "lexing_table \<Rightarrow> nat \<Rightarrow> int \<Rightarrow> bool" where
  "code_at tbl len pc_off \<longleftrightarrow> 0 \<le> pc_off \<and> mem_prog len (drop (nat pc_off) (lex_code tbl))"

text \<open>Code tables for the states below \<open>n\<close> and a memory of \<open>len\<close> positions.\<close>

definition wf_code_tables :: "lexing_table \<Rightarrow> int \<Rightarrow> nat \<Rightarrow> bool" where
  "wf_code_tables tbl n len \<longleftrightarrow>
     (\<forall>s. 0 \<le> s \<and> s < n \<longrightarrow>
        (\<exists>bc kc dc. Short (lex_base_code tbl) s = Some bc \<and> Short (lex_backtrk_code tbl) s = Some kc \<and>
           Short (lex_default_code tbl) s = Some dc \<and>
           (\<forall>base. Short (lex_base tbl) s = Some base \<longrightarrow>
              (if base < 0 then code_at tbl len bc
               else (\<forall>k. Short (lex_backtrk tbl) s = Some k \<and> k \<ge> 0 \<longrightarrow> code_at tbl len kc) \<and>
                    (dc > 0 \<longrightarrow> code_at tbl len dc) \<and>
                    (\<forall>c. 0 \<le> c \<and> c \<le> 256 \<longrightarrow>
                       (\<exists>chk pc. Short (lex_check_code tbl) (bc + c) = Some chk \<and>
                          Short (lex_trans_code tbl) (bc + c) = Some pc \<and> (pc > 0 \<longrightarrow> code_at tbl len pc)))))))"

lemma wf_code_tablesE:
  assumes "wf_code_tables tbl n len" "0 \<le> s" "s < n" "Short (lex_base tbl) s = Some base"
  obtains bc kc dc where "Short (lex_base_code tbl) s = Some bc" "Short (lex_backtrk_code tbl) s = Some kc"
    "Short (lex_default_code tbl) s = Some dc" "base < 0 \<Longrightarrow> code_at tbl len bc"
    "\<And>k. \<not> base < 0 \<Longrightarrow> Short (lex_backtrk tbl) s = Some k \<Longrightarrow> k \<ge> 0 \<Longrightarrow> code_at tbl len kc"
    "\<not> base < 0 \<Longrightarrow> dc > 0 \<Longrightarrow> code_at tbl len dc"
    "\<And>c. \<not> base < 0 \<Longrightarrow> 0 \<le> c \<Longrightarrow> c \<le> 256 \<Longrightarrow>
       \<exists>chk pc. Short (lex_check_code tbl) (bc + c) = Some chk \<and>
         Short (lex_trans_code tbl) (bc + c) = Some pc \<and> (pc > 0 \<longrightarrow> code_at tbl len pc)"
proof -
  obtain bc kc dc where *: "Short (lex_base_code tbl) s = Some bc" "Short (lex_backtrk_code tbl) s = Some kc"
    "Short (lex_default_code tbl) s = Some dc"
    "if base < 0 then code_at tbl len bc
     else (\<forall>k. Short (lex_backtrk tbl) s = Some k \<and> k \<ge> 0 \<longrightarrow> code_at tbl len kc) \<and>
          (dc > 0 \<longrightarrow> code_at tbl len dc) \<and>
          (\<forall>c. 0 \<le> c \<and> c \<le> 256 \<longrightarrow>
             (\<exists>chk pc. Short (lex_check_code tbl) (bc + c) = Some chk \<and>
                Short (lex_trans_code tbl) (bc + c) = Some pc \<and> (pc > 0 \<longrightarrow> code_at tbl len pc)))"
    using assms unfolding wf_code_tables_def by blast
  show thesis by (rule that[OF *(1-3)]) (use *(4) in \<open>simp_all\<close>)
qed

lemma run_tag_at_returns:
  assumes "code_at tbl (length mem) pc"
  shows "\<exists>mem'. run_tag_at tbl pc (lexbuf\<lparr>lex_mem := mem\<rparr>) = Some (lexbuf\<lparr>lex_mem := mem'\<rparr>) \<and> length mem' = length mem"
  using assms run_tag_returns[of mem "drop (nat pc) (lex_code tbl)"] by (auto simp: code_at_def run_tag_at_def)

lemma run_moves_returns:
  assumes wf: "wf_code_tables tbl n (length mem)" and s: "0 \<le> s" "s < n"
    and base: "Short (lex_base tbl) s = Some base" "\<not> base < 0" and c: "0 \<le> c" "c \<le> 256"
  shows "\<exists>mem'. run_moves tbl s c (lexbuf\<lparr>lex_mem := mem\<rparr>) = Some (lexbuf\<lparr>lex_mem := mem'\<rparr>) \<and> length mem' = length mem"
proof -
  obtain bc dc chk pc where t: "Short (lex_base_code tbl) s = Some bc" "Short (lex_default_code tbl) s = Some dc"
    "Short (lex_check_code tbl) (bc + c) = Some chk" "Short (lex_trans_code tbl) (bc + c) = Some pc"
    and ok: "dc > 0 \<longrightarrow> code_at tbl (length mem) dc" "pc > 0 \<longrightarrow> code_at tbl (length mem) pc"
  proof (rule wf_code_tablesE[OF wf s base(1)])
    fix bc kc dc assume "Short (lex_base_code tbl) s = Some bc" "Short (lex_default_code tbl) s = Some dc"
      "\<not> base < 0 \<Longrightarrow> dc > 0 \<Longrightarrow> code_at tbl (length mem) dc"
      "\<And>c. \<not> base < 0 \<Longrightarrow> 0 \<le> c \<Longrightarrow> c \<le> 256 \<Longrightarrow>
       \<exists>chk pc. Short (lex_check_code tbl) (bc + c) = Some chk \<and>
         Short (lex_trans_code tbl) (bc + c) = Some pc \<and> (pc > 0 \<longrightarrow> code_at tbl (length mem) pc)"
    then show thesis using base(2) c that by blast
  qed
  define off where "off = (if chk = s then pc else dc)"
  have m: "run_moves tbl s c (lexbuf\<lparr>lex_mem := mem\<rparr>) =
    (if off > 0 then map_option (\<lambda>m. lexbuf\<lparr>lex_mem := m\<rparr>) (run_mem (drop (nat off) (lex_code tbl)) mem (lex_curr_pos lexbuf))
     else Some (lexbuf\<lparr>lex_mem := mem\<rparr>))"
    using t by (simp add: run_moves_def off_def)
  show ?thesis
  proof (cases "off > 0")
    case True
    then have "code_at tbl (length mem) off" using ok by (auto simp: off_def split: if_splits)
    then show ?thesis
      using m True run_mem_returns[of mem "drop (nat off) (lex_code tbl)" "lex_curr_pos lexbuf"]
      by (auto simp: code_at_def)
  qed (use m in auto)
qed

lemma new_lex_loop_agrees:
  assumes "wf_table tbl n" "wf_code_tables tbl n (length mem)" "0 \<le> s" "s < n"
  shows "\<exists>r lexbuf' mem'. lex_loop tbl s lexbuf = Some (r, lexbuf') \<and>
    new_lex_loop tbl s (lexbuf\<lparr>lex_mem := mem\<rparr>) = Some (r, lexbuf'\<lparr>lex_mem := mem'\<rparr>) \<and> length mem' = length mem"
  using assms
proof (induction tbl s lexbuf arbitrary: mem rule: lex_loop.induct)
  case (1 tbl s lexbuf)
  obtain base k where bk: "Short (lex_base tbl) s = Some base" "Short (lex_backtrk tbl) s = Some k"
    using "1.prems"(1,3,4) unfolding wf_table_def by blast
  obtain bc kc where code: "Short (lex_base_code tbl) s = Some bc" "Short (lex_backtrk_code tbl) s = Some kc"
    "base < 0 \<Longrightarrow> code_at tbl (length mem) bc" "\<not> base < 0 \<Longrightarrow> k \<ge> 0 \<Longrightarrow> code_at tbl (length mem) kc"
    by (rule wf_code_tablesE[OF "1.prems"(2-4) bk(1)]) (use bk(2) in blast)
  show ?case
  proof (cases "base < 0")
    case True
    then show ?thesis
      using bk code(1) run_tag_at_returns[OF code(3), of lexbuf]
      by (auto simp: lex_loop.simps[of tbl s] new_lex_loop.simps[of tbl s])
  next
    case False
    define lexbuf1 where "lexbuf1 = (if k \<ge> 0 then remember lexbuf k else lexbuf)"
    obtain mem1 where m1: "length mem1 = length mem"
      "(if k \<ge> 0 then
          Option.bind (Short (lex_backtrk_code tbl) s) (\<lambda>pc_off.
            map_option (\<lambda>lexbuf. remember lexbuf k) (run_tag_at tbl pc_off (lexbuf\<lparr>lex_mem := mem\<rparr>)))
        else Some (lexbuf\<lparr>lex_mem := mem\<rparr>)) = Some (lexbuf1\<lparr>lex_mem := mem1\<rparr>)"
      using code(2) run_tag_at_returns[OF code(4)[OF False], of lexbuf]
      by (cases "k \<ge> 0") (auto simp: lexbuf1_def)
    show ?thesis
    proof (cases "next_char lexbuf1")
      case None
      have "lex_loop tbl s lexbuf = Some (Inr (- s - 1), lexbuf1)"
        using bk False None by (simp add: lex_loop.simps[of tbl s] lexbuf1_def Let_def)
      moreover have "new_lex_loop tbl s (lexbuf\<lparr>lex_mem := mem\<rparr>) = Some (Inr (- s - 1), lexbuf1\<lparr>lex_mem := mem1\<rparr>)"
        using bk False m1(2) None by (simp add: new_lex_loop.simps[of tbl s])
      ultimately show ?thesis using m1(1) by blast
    next
      case (Some cl)
      obtain c lexbuf2 where cl: "cl = (c, lexbuf2)" by fastforce
      have c: "0 \<le> c" "c \<le> 256" using next_char_range Some cl by auto
      obtain s' where s': "next_state tbl s base c = Some s'" "s' < n"
        using wf_table_next[OF "1.prems"(1,3,4) bk(1)] c False by force
      show ?thesis
      proof (cases "s' < 0")
        case True
        have "lex_loop tbl s lexbuf = Some (backtrack lexbuf2)"
          using bk False Some cl s' True by (simp add: lex_loop.simps[of tbl s] lexbuf1_def Let_def)
        moreover have "new_lex_loop tbl s (lexbuf\<lparr>lex_mem := mem\<rparr>) =
          Some (map_prod id (\<lambda>b. b\<lparr>lex_mem := mem1\<rparr>) (backtrack lexbuf2))"
          using bk False m1(2) Some cl s' True by (simp add: new_lex_loop.simps[of tbl s])
        ultimately show ?thesis using m1(1) by (cases "backtrack lexbuf2") auto
      next
        case s'0: False
        have "wf_code_tables tbl n (length mem1)" using "1.prems"(2) m1(1) by simp
        then obtain mem2 where m2: "run_moves tbl s c (lexbuf2\<lparr>lex_mem := mem1\<rparr>) = Some (lexbuf2\<lparr>lex_mem := mem2\<rparr>)"
          "length mem2 = length mem1"
          using run_moves_returns[OF _ "1.prems"(3,4) bk(1) False c] by blast
        have "lex_loop tbl s lexbuf = lex_loop tbl s' (erase_eof lexbuf2 c)"
          using bk False Some cl s' s'0 by (simp add: lex_loop.simps[of tbl s] lexbuf1_def Let_def)
        moreover have "new_lex_loop tbl s (lexbuf\<lparr>lex_mem := mem\<rparr>) =
          new_lex_loop tbl s' ((erase_eof lexbuf2 c)\<lparr>lex_mem := mem2\<rparr>)"
          using bk False m1(2) Some cl s' s'0 m2(1) by (simp add: new_lex_loop.simps[of tbl s])
        ultimately show ?thesis
          using "1.IH"[OF bk(1) False bk(2) lexbuf1_def Some cl[symmetric] s'(1) s'0, of mem2] "1.prems"(1,2) s' s'0 m1 m2 by simp
      qed
    qed
  qed
qed

text \<open>C19: the engine with memory of positions makes the decisions of the basic engine.  On
  well-formed tables and a memory that fits their code both return, with the same result and
  the same buffer but for the memory, whose size does not change.\<close>

theorem new_lex_engine_agrees:
  assumes "wf_table tbl n" and "wf_code_tables tbl n (length (lex_mem lexbuf))" and "0 \<le> start_state" and "start_state < n"
  shows "\<exists>r lexbuf' mem. caml_lex_engine tbl start_state lexbuf = Some (r, lexbuf') \<and>
    caml_new_lex_engine tbl start_state lexbuf = Some (r, lexbuf'\<lparr>lex_mem := mem\<rparr>) \<and>
    length mem = length (lex_mem lexbuf)"
proof -
  define lexbuf1 where "lexbuf1 = snd (enter start_state lexbuf)"
  have "enter start_state lexbuf = (start_state, lexbuf1)" "lexbuf1 = lexbuf1\<lparr>lex_mem := lex_mem lexbuf\<rparr>"
    using assms(3) by (simp_all add: lexbuf1_def enter_def)
  then show ?thesis
    using new_lex_loop_agrees[OF assms, of lexbuf1] by (auto simp: caml_lex_engine_def caml_new_lex_engine_def)
qed

section \<open>A one-letter lexer\<close>

text \<open>Tables for the language of the single word \<open>a\<close>: state 0 goes to state 1 on that letter and
  fails otherwise, state 1 accepts with action 0 and stops.  The transition stores the
  position, the action copies it.\<close>

definition shorts :: "nat \<Rightarrow> byte \<Rightarrow> nat \<Rightarrow> 16 word \<Rightarrow> bytes" where
  "shorts n d i x = (replicate (2 * n) d)[2 * i := ucast x, 2 * i + 1 := ucast (drop_bit 8 x)]"

definition letter_table :: lexing_table where
  "letter_table =
     \<lparr>lex_base = shorts 2 0 0 0, lex_backtrk = shorts 2 0 0 (- 1), lex_default = shorts 2 0xff 0 (- 1),
      lex_trans = shorts 257 0 97 1, lex_check = shorts 257 0xff 97 0,
      lex_base_code = shorts 2 0 0 0, lex_backtrk_code = shorts 2 0 0 0, lex_default_code = shorts 2 0 0 0,
      lex_trans_code = shorts 257 0 97 3, lex_check_code = shorts 257 0xff 97 0,
      lex_code = [1, 0, 0xff, 0, 0xff, 0xff]\<rparr>"

definition letter_lexbuf :: lexer_buffer where
  "letter_lexbuf =
     \<lparr>lex_buffer = [97, 98], lex_buffer_len = 2, lex_start_pos = 0, lex_curr_pos = 0, lex_last_pos = 0,
      lex_last_action = - 1, lex_eof_reached = False, lex_mem = [- 1, - 1]\<rparr>"

lemma Short_shorts:
  assumes "i < n" "0 \<le> j" "j < int n"
  shows "Short (shorts n d i x) j = Some (if j = int i then sint x else sint (le_word [d, d] :: 16 word))"
proof -
  have x: "(le_word [ucast x, ucast (drop_bit 8 x)] :: 16 word) = x"
    using le_word_le_bytes[where w = x and n = 2] by (simp add: numeral_eq_Suc del: le_word.simps)
  have *: "2 * nat j + 1 < 2 * n" "2 * nat j \<noteq> 2 * i + 1" "Suc (2 * nat j) \<noteq> 2 * i" "j = int i \<longleftrightarrow> nat j = i"
    using assms by presburger+
  show ?thesis
  proof (cases "nat j = i")
    case True
    then show ?thesis using assms * x by (simp add: Short_def shorts_def nth_list_update del: le_word.simps)
  next
    case False
    then show ?thesis using assms * by (simp add: Short_def shorts_def nth_list_update del: le_word.simps)
  qed
qed

lemma letter_table_tables:
  assumes "0 \<le> s" "s < 2"
  shows "Short (lex_base letter_table) s = Some 0"
    "Short (lex_backtrk letter_table) s = Some (if s = 0 then - 1 else 0)"
    "Short (lex_default letter_table) s = Some (- 1)"
    "Short (lex_base_code letter_table) s = Some 0"
    "Short (lex_backtrk_code letter_table) s = Some 0"
    "Short (lex_default_code letter_table) s = Some 0"
  using assms by (simp_all add: letter_table_def Short_shorts)

lemma letter_table_transitions:
  assumes "0 \<le> c" "c \<le> 256"
  shows "Short (lex_check letter_table) c = Some (if c = 97 then 0 else - 1)"
    "Short (lex_trans letter_table) c = Some (if c = 97 then 1 else 0)"
    "Short (lex_check_code letter_table) c = Some (if c = 97 then 0 else - 1)"
    "Short (lex_trans_code letter_table) c = Some (if c = 97 then 3 else 0)"
  using assms by (simp_all add: letter_table_def Short_shorts)

lemmas letter_tables = letter_table_tables letter_table_transitions

lemma letter_table_wf: "wf_table letter_table 2"
  unfolding wf_table_def by (auto simp: letter_tables)

lemma letter_table_wf_code_tables: "wf_code_tables letter_table 2 2"
proof -
  have "code_at letter_table 2 0" "code_at letter_table 2 3" by (simp_all add: code_at_def letter_table_def)
  then show ?thesis unfolding wf_code_tables_def by (auto simp: letter_tables)
qed

lemma letter_lexbuf_wf: "wf_lexbuf letter_lexbuf"
  by (simp add: wf_lexbuf_def letter_lexbuf_def)

theorem lex_engine_longest_match_witness:
  "wf_table letter_table 2 \<and> wf_lexbuf letter_lexbuf \<and>
   (\<exists>r lexbuf'. caml_lex_engine letter_table 0 letter_lexbuf = Some (r, lexbuf') \<and>
     ((\<exists>q. undecided letter_table 0 (symbols letter_lexbuf) q \<and> r = Inr (- q - 1)) \<or>
      (\<nexists>q. undecided letter_table 0 (symbols letter_lexbuf) q) \<and>
        ((\<exists>p a. longest_token letter_table 0 (symbols letter_lexbuf) p a \<and> r = Inr a \<and>
            lex_curr_pos lexbuf' = lex_curr_pos letter_lexbuf + consumed p) \<or>
         (\<forall>p. prefix p (symbols letter_lexbuf) \<longrightarrow> token letter_table 0 p = None) \<and>
           lex_curr_pos lexbuf' = lex_curr_pos letter_lexbuf \<and> r = Inl (Failure ''lexing: empty token''))))"
  using lex_engine_longest_match[OF letter_table_wf letter_lexbuf_wf, of 0] letter_table_wf letter_lexbuf_wf by simp

theorem new_lex_engine_agrees_witness:
  "wf_code_tables letter_table 2 (length (lex_mem letter_lexbuf)) \<and>
   (\<exists>r lexbuf' mem. caml_lex_engine letter_table 0 letter_lexbuf = Some (r, lexbuf') \<and>
      caml_new_lex_engine letter_table 0 letter_lexbuf = Some (r, lexbuf'\<lparr>lex_mem := mem\<rparr>) \<and>
      length mem = length (lex_mem letter_lexbuf))"
proof -
  have "wf_code_tables letter_table 2 (length (lex_mem letter_lexbuf))"
    using letter_table_wf_code_tables by (simp add: letter_lexbuf_def numeral_2_eq_2)
  then show ?thesis using new_lex_engine_agrees[OF letter_table_wf, of letter_lexbuf 0] by simp
qed

text \<open>A run that stops after the first letter for want of input.\<close>

lemma letter_refill:
  "caml_lex_engine letter_table 0 (letter_lexbuf\<lparr>lex_buffer := [97], lex_buffer_len := 1\<rparr>) =
   Some (Inr (- 2), letter_lexbuf\<lparr>lex_buffer := [97], lex_buffer_len := 1, lex_curr_pos := 1, lex_last_pos := 1,
     lex_last_action := 0\<rparr>)"
  by (simp add: caml_lex_engine_def enter_def lex_loop.simps[of letter_table] letter_tables next_char_def
      next_state_def remember_def erase_eof_def letter_lexbuf_def)

theorem lex_engine_refill_transparent_witness:
  "caml_lex_engine letter_table (- 2)
     (refill (letter_lexbuf\<lparr>lex_buffer := [97], lex_buffer_len := 1, lex_curr_pos := 1, lex_last_pos := 1,
        lex_last_action := 0\<rparr>) [98] False) =
   caml_lex_engine letter_table 0 (refill (letter_lexbuf\<lparr>lex_buffer := [97], lex_buffer_len := 1\<rparr>) [98] False)"
  by (rule lex_engine_refill_transparent[OF _ _ _ letter_refill])
    (simp_all add: wf_lexbuf_def letter_lexbuf_def)

end
