(* ===== verification/Md5.thy ===== *)
theory Md5
  imports Str
begin

text \<open>
  Message digests, \<open>runtime/md5.c\<close>, on a little-endian machine, where \<open>byteReverse\<close> does nothing.
\<close>

section \<open>The transformation\<close>

unbundle bit_operations_syntax

type_synonym md5_state = "32 word \<times> 32 word \<times> 32 word \<times> 32 word"

definition F1 :: "32 word \<Rightarrow> 32 word \<Rightarrow> 32 word \<Rightarrow> 32 word" where
  "F1 x y z = z XOR (x AND (y XOR z))"

definition F2 :: "32 word \<Rightarrow> 32 word \<Rightarrow> 32 word \<Rightarrow> 32 word" where
  "F2 x y z = F1 z x y"

definition F3 :: "32 word \<Rightarrow> 32 word \<Rightarrow> 32 word \<Rightarrow> 32 word" where
  "F3 x y z = x XOR y XOR z"

definition F4 :: "32 word \<Rightarrow> 32 word \<Rightarrow> 32 word \<Rightarrow> 32 word" where
  "F4 x y z = y XOR (x OR NOT z)"

definition MD5STEP ::
  "(32 word \<Rightarrow> 32 word \<Rightarrow> 32 word \<Rightarrow> 32 word) \<Rightarrow> 32 word \<Rightarrow> 32 word \<Rightarrow> 32 word \<Rightarrow> 32 word \<Rightarrow> 32 word \<Rightarrow> nat \<Rightarrow> 32 word" where
  "MD5STEP f w x y z data s =
     (let w = w + (f x y z + data); w = push_bit s w OR drop_bit (32 - s) w in w + x)"

definition md5_round1 :: "32 word list \<Rightarrow> md5_state \<Rightarrow> md5_state" where
  "md5_round1 inp =
     (\<lambda>(a, b, c, d). let
      a = MD5STEP F1 a b c d (inp ! 0 + 0xd76aa478) 7;
      d = MD5STEP F1 d a b c (inp ! 1 + 0xe8c7b756) 12;
      c = MD5STEP F1 c d a b (inp ! 2 + 0x242070db) 17;
      b = MD5STEP F1 b c d a (inp ! 3 + 0xc1bdceee) 22;
      a = MD5STEP F1 a b c d (inp ! 4 + 0xf57c0faf) 7;
      d = MD5STEP F1 d a b c (inp ! 5 + 0x4787c62a) 12;
      c = MD5STEP F1 c d a b (inp ! 6 + 0xa8304613) 17;
      b = MD5STEP F1 b c d a (inp ! 7 + 0xfd469501) 22;
      a = MD5STEP F1 a b c d (inp ! 8 + 0x698098d8) 7;
      d = MD5STEP F1 d a b c (inp ! 9 + 0x8b44f7af) 12;
      c = MD5STEP F1 c d a b (inp ! 10 + 0xffff5bb1) 17;
      b = MD5STEP F1 b c d a (inp ! 11 + 0x895cd7be) 22;
      a = MD5STEP F1 a b c d (inp ! 12 + 0x6b901122) 7;
      d = MD5STEP F1 d a b c (inp ! 13 + 0xfd987193) 12;
      c = MD5STEP F1 c d a b (inp ! 14 + 0xa679438e) 17;
      b = MD5STEP F1 b c d a (inp ! 15 + 0x49b40821) 22
      in (a, b, c, d))"

definition md5_round2 :: "32 word list \<Rightarrow> md5_state \<Rightarrow> md5_state" where
  "md5_round2 inp =
     (\<lambda>(a, b, c, d). let
      a = MD5STEP F2 a b c d (inp ! 1 + 0xf61e2562) 5;
      d = MD5STEP F2 d a b c (inp ! 6 + 0xc040b340) 9;
      c = MD5STEP F2 c d a b (inp ! 11 + 0x265e5a51) 14;
      b = MD5STEP F2 b c d a (inp ! 0 + 0xe9b6c7aa) 20;
      a = MD5STEP F2 a b c d (inp ! 5 + 0xd62f105d) 5;
      d = MD5STEP F2 d a b c (inp ! 10 + 0x02441453) 9;
      c = MD5STEP F2 c d a b (inp ! 15 + 0xd8a1e681) 14;
      b = MD5STEP F2 b c d a (inp ! 4 + 0xe7d3fbc8) 20;
      a = MD5STEP F2 a b c d (inp ! 9 + 0x21e1cde6) 5;
      d = MD5STEP F2 d a b c (inp ! 14 + 0xc33707d6) 9;
      c = MD5STEP F2 c d a b (inp ! 3 + 0xf4d50d87) 14;
      b = MD5STEP F2 b c d a (inp ! 8 + 0x455a14ed) 20;
      a = MD5STEP F2 a b c d (inp ! 13 + 0xa9e3e905) 5;
      d = MD5STEP F2 d a b c (inp ! 2 + 0xfcefa3f8) 9;
      c = MD5STEP F2 c d a b (inp ! 7 + 0x676f02d9) 14;
      b = MD5STEP F2 b c d a (inp ! 12 + 0x8d2a4c8a) 20
      in (a, b, c, d))"

definition md5_round3 :: "32 word list \<Rightarrow> md5_state \<Rightarrow> md5_state" where
  "md5_round3 inp =
     (\<lambda>(a, b, c, d). let
      a = MD5STEP F3 a b c d (inp ! 5 + 0xfffa3942) 4;
      d = MD5STEP F3 d a b c (inp ! 8 + 0x8771f681) 11;
      c = MD5STEP F3 c d a b (inp ! 11 + 0x6d9d6122) 16;
      b = MD5STEP F3 b c d a (inp ! 14 + 0xfde5380c) 23;
      a = MD5STEP F3 a b c d (inp ! 1 + 0xa4beea44) 4;
      d = MD5STEP F3 d a b c (inp ! 4 + 0x4bdecfa9) 11;
      c = MD5STEP F3 c d a b (inp ! 7 + 0xf6bb4b60) 16;
      b = MD5STEP F3 b c d a (inp ! 10 + 0xbebfbc70) 23;
      a = MD5STEP F3 a b c d (inp ! 13 + 0x289b7ec6) 4;
      d = MD5STEP F3 d a b c (inp ! 0 + 0xeaa127fa) 11;
      c = MD5STEP F3 c d a b (inp ! 3 + 0xd4ef3085) 16;
      b = MD5STEP F3 b c d a (inp ! 6 + 0x04881d05) 23;
      a = MD5STEP F3 a b c d (inp ! 9 + 0xd9d4d039) 4;
      d = MD5STEP F3 d a b c (inp ! 12 + 0xe6db99e5) 11;
      c = MD5STEP F3 c d a b (inp ! 15 + 0x1fa27cf8) 16;
      b = MD5STEP F3 b c d a (inp ! 2 + 0xc4ac5665) 23
      in (a, b, c, d))"

definition md5_round4 :: "32 word list \<Rightarrow> md5_state \<Rightarrow> md5_state" where
  "md5_round4 inp =
     (\<lambda>(a, b, c, d). let
      a = MD5STEP F4 a b c d (inp ! 0 + 0xf4292244) 6;
      d = MD5STEP F4 d a b c (inp ! 7 + 0x432aff97) 10;
      c = MD5STEP F4 c d a b (inp ! 14 + 0xab9423a7) 15;
      b = MD5STEP F4 b c d a (inp ! 5 + 0xfc93a039) 21;
      a = MD5STEP F4 a b c d (inp ! 12 + 0x655b59c3) 6;
      d = MD5STEP F4 d a b c (inp ! 3 + 0x8f0ccc92) 10;
      c = MD5STEP F4 c d a b (inp ! 10 + 0xffeff47d) 15;
      b = MD5STEP F4 b c d a (inp ! 1 + 0x85845dd1) 21;
      a = MD5STEP F4 a b c d (inp ! 8 + 0x6fa87e4f) 6;
      d = MD5STEP F4 d a b c (inp ! 15 + 0xfe2ce6e0) 10;
      c = MD5STEP F4 c d a b (inp ! 6 + 0xa3014314) 15;
      b = MD5STEP F4 b c d a (inp ! 13 + 0x4e0811a1) 21;
      a = MD5STEP F4 a b c d (inp ! 4 + 0xf7537e82) 6;
      d = MD5STEP F4 d a b c (inp ! 11 + 0xbd3af235) 10;
      c = MD5STEP F4 c d a b (inp ! 2 + 0x2ad7d2bb) 15;
      b = MD5STEP F4 b c d a (inp ! 9 + 0xeb86d391) 21
      in (a, b, c, d))"

definition caml_MD5Transform :: "md5_state \<Rightarrow> 32 word list \<Rightarrow> md5_state" where
  "caml_MD5Transform buf inp =
     (let (a, b, c, d) = md5_round4 inp (md5_round3 inp (md5_round2 inp (md5_round1 inp buf)));
          (b0, b1, b2, b3) = buf
      in (b0 + a, b1 + b, b2 + c, b3 + d))"

section \<open>The digest as RFC 1321 defines it\<close>

text \<open>The auxiliary functions, the operation of step \<open>i\<close> (index of the word, constant, shift), and
  the rotating role of the four registers.\<close>

definition md5_F :: "32 word \<Rightarrow> 32 word \<Rightarrow> 32 word \<Rightarrow> 32 word" where
  "md5_F x y z = (x AND y) OR (NOT x AND z)"

definition md5_G :: "32 word \<Rightarrow> 32 word \<Rightarrow> 32 word \<Rightarrow> 32 word" where
  "md5_G x y z = (x AND z) OR (y AND NOT z)"

definition md5_H :: "32 word \<Rightarrow> 32 word \<Rightarrow> 32 word \<Rightarrow> 32 word" where
  "md5_H x y z = x XOR y XOR z"

definition md5_I :: "32 word \<Rightarrow> 32 word \<Rightarrow> 32 word \<Rightarrow> 32 word" where
  "md5_I x y z = y XOR (x OR NOT z)"

definition md5_T :: "32 word list" where
  "md5_T =
     [0xd76aa478, 0xe8c7b756, 0x242070db, 0xc1bdceee, 0xf57c0faf, 0x4787c62a, 0xa8304613, 0xfd469501,
      0x698098d8, 0x8b44f7af, 0xffff5bb1, 0x895cd7be, 0x6b901122, 0xfd987193, 0xa679438e, 0x49b40821,
      0xf61e2562, 0xc040b340, 0x265e5a51, 0xe9b6c7aa, 0xd62f105d, 0x02441453, 0xd8a1e681, 0xe7d3fbc8,
      0x21e1cde6, 0xc33707d6, 0xf4d50d87, 0x455a14ed, 0xa9e3e905, 0xfcefa3f8, 0x676f02d9, 0x8d2a4c8a,
      0xfffa3942, 0x8771f681, 0x6d9d6122, 0xfde5380c, 0xa4beea44, 0x4bdecfa9, 0xf6bb4b60, 0xbebfbc70,
      0x289b7ec6, 0xeaa127fa, 0xd4ef3085, 0x04881d05, 0xd9d4d039, 0xe6db99e5, 0x1fa27cf8, 0xc4ac5665,
      0xf4292244, 0x432aff97, 0xab9423a7, 0xfc93a039, 0x655b59c3, 0x8f0ccc92, 0xffeff47d, 0x85845dd1,
      0x6fa87e4f, 0xfe2ce6e0, 0xa3014314, 0x4e0811a1, 0xf7537e82, 0xbd3af235, 0x2ad7d2bb, 0xeb86d391]"

definition md5_index :: "nat \<Rightarrow> nat" where
  "md5_index i =
     (if i < 16 then i else if i < 32 then (5 * i + 1) mod 16 else if i < 48 then (3 * i + 5) mod 16 else 7 * i mod 16)"

definition md5_shift :: "nat \<Rightarrow> nat" where
  "md5_shift i = [[7, 12, 17, 22], [5, 9, 14, 20], [4, 11, 16, 23], [6, 10, 15, 21]] ! (i div 16) ! (i mod 4)"

definition md5_aux :: "nat \<Rightarrow> 32 word \<Rightarrow> 32 word \<Rightarrow> 32 word \<Rightarrow> 32 word" where
  "md5_aux i = (if i < 16 then md5_F else if i < 32 then md5_G else if i < 48 then md5_H else md5_I)"

definition md5_step :: "32 word list \<Rightarrow> nat \<Rightarrow> md5_state \<Rightarrow> md5_state" where
  "md5_step X i = (\<lambda>(a, b, c, d).
     (d, b + word_rotl (md5_shift i) (a + md5_aux i b c d + X ! md5_index i + md5_T ! i), b, c))"

definition md5_compress :: "32 word list \<Rightarrow> md5_state \<Rightarrow> md5_state" where
  "md5_compress X = (\<lambda>(a, b, c, d).
     let (a', b', c', d') = fold (md5_step X) [0..<64] (a, b, c, d) in (a + a', b + b', c + c', d + d'))"

lemma F_eq: "F1 = md5_F" "F2 = md5_G" "F3 = md5_H" "F4 = md5_I"
  by (auto simp: fun_eq_iff F1_def F2_def F3_def F4_def md5_F_def md5_G_def md5_H_def md5_I_def bit_eq_iff bit_simps)

lemma rotate_eq_word_rotl:
  assumes "0 < s" "s < 32"
  shows "push_bit s w OR drop_bit (32 - s) w = word_rotl s (w :: 32 word)"
proof (rule bit_word_eqI)
  fix n assume "n < LENGTH(32)"
  then have n: "n < 32" by simp
  have r: "bit (word_rotl s w) n = bit w ((n + (32 - s)) mod 32)"
    using assms n by (simp add: bit_word_rotl_iff)
  have l: "bit (push_bit s w OR drop_bit (32 - s) w) n = (s \<le> n \<and> bit w (n - s) \<or> bit w (32 - s + n))"
    using n by (simp add: bit_or_iff bit_push_bit_iff bit_drop_bit_eq)
  show "bit (push_bit s w OR drop_bit (32 - s) w) n = bit (word_rotl s w) n"
  proof (cases "n < s")
    case True
    then have "(n + (32 - s)) mod 32 = 32 - s + n" using assms by simp
    then show ?thesis using True l r by simp
  next
    case False
    have "n + (32 - s) = (n - s) + 32" using assms False by simp
    then have "(n + (32 - s)) mod 32 = n - s" using n by (simp only: mod_add_self2) simp
    moreover have "\<not> bit w (32 - s + n)" using bit_imp_le_length[of w "32 - s + n"] False assms by auto
    ultimately show ?thesis using False l r by simp
  qed
qed

text \<open>The operation of step \<open>i\<close>, as the code writes it.\<close>

definition md5_fun :: "nat \<Rightarrow> 32 word \<Rightarrow> 32 word \<Rightarrow> 32 word \<Rightarrow> 32 word" where
  "md5_fun i = (if i < 16 then F1 else if i < 32 then F2 else if i < 48 then F3 else F4)"

definition md5_op :: "nat \<Rightarrow> (32 word \<Rightarrow> 32 word \<Rightarrow> 32 word \<Rightarrow> 32 word) \<times> nat \<times> 32 word \<times> nat" where
  "md5_op i = (md5_fun i, md5_index i, md5_T ! i, md5_shift i)"

fun op_step :: "32 word list \<Rightarrow> (32 word \<Rightarrow> 32 word \<Rightarrow> 32 word \<Rightarrow> 32 word) \<times> nat \<times> 32 word \<times> nat \<Rightarrow> md5_state \<Rightarrow> md5_state" where
  "op_step X (f, k, t, s) (a, b, c, d) = (d, MD5STEP f a b c d (X ! k + t) s, b, c)"

lemma op_step_eq:
  assumes "i < 64"
  shows "op_step X (md5_op i) st = md5_step X i st"
proof -
  have "i div 16 \<in> {0, 1, 2, 3}" "i mod 4 \<in> {0, 1, 2, 3}" using assms by auto
  then have "0 < md5_shift i" "md5_shift i < 32" by (auto simp: md5_shift_def)
  moreover have "md5_fun i = md5_aux i" by (simp add: md5_fun_def md5_aux_def F_eq)
  ultimately show ?thesis
    using rotate_eq_word_rotl by (cases st) (simp add: md5_op_def md5_step_def MD5STEP_def Let_def ac_simps)
qed

lemma fold_op_step:
  "\<forall>i \<in> set is. i < 64 \<Longrightarrow> fold (md5_step X) is st = fold (op_step X) (map md5_op is) st"
  by (induction "is" arbitrary: st) (simp_all add: op_step_eq)

lemma fold_op_step_Cons:
  "fold (op_step X) ((f, k, t, s) # ops) (a, b, c, d) =
   (let w = MD5STEP f a b c d (X ! k + t) s in fold (op_step X) ops (d, w, b, c))"
  by simp

lemma upt_16: "[k..<k + 16] = [k, k+1, k+2, k+3, k+4, k+5, k+6, k+7, k+8, k+9, k+10, k+11, k+12, k+13, k+14, k+15]"
  by (simp add: upt_rec numeral_eq_Suc)

lemmas md5_op_defs = md5_op_def md5_fun_def md5_index_def md5_T_def md5_shift_def

lemma md5_ops1:
  "map md5_op [0..<16] =
      [(F1, 0, 0xd76aa478, 7), (F1, 1, 0xe8c7b756, 12), (F1, 2, 0x242070db, 17), (F1, 3, 0xc1bdceee, 22),
       (F1, 4, 0xf57c0faf, 7), (F1, 5, 0x4787c62a, 12), (F1, 6, 0xa8304613, 17), (F1, 7, 0xfd469501, 22),
       (F1, 8, 0x698098d8, 7), (F1, 9, 0x8b44f7af, 12), (F1, 10, 0xffff5bb1, 17), (F1, 11, 0x895cd7be, 22),
       (F1, 12, 0x6b901122, 7), (F1, 13, 0xfd987193, 12), (F1, 14, 0xa679438e, 17), (F1, 15, 0x49b40821, 22)]"
  unfolding upt_16[of 0, simplified] by (simp add: md5_op_defs)

lemma md5_round1: "fold (md5_step X) [0..<16] = md5_round1 X"
proof -
  have "fold (md5_step X) [0..<16] (a, b, c, d) = md5_round1 X (a, b, c, d)" for a b c d
    by (subst fold_op_step, simp)
      (simp only: md5_ops1 fold_op_step_Cons fold_simps(1) id_apply md5_round1_def prod.case)
  then show ?thesis by (auto simp: fun_eq_iff)
qed

lemma md5_ops2:
  "map md5_op [16..<32] =
      [(F2, 1, 0xf61e2562, 5), (F2, 6, 0xc040b340, 9), (F2, 11, 0x265e5a51, 14), (F2, 0, 0xe9b6c7aa, 20),
       (F2, 5, 0xd62f105d, 5), (F2, 10, 0x02441453, 9), (F2, 15, 0xd8a1e681, 14), (F2, 4, 0xe7d3fbc8, 20),
       (F2, 9, 0x21e1cde6, 5), (F2, 14, 0xc33707d6, 9), (F2, 3, 0xf4d50d87, 14), (F2, 8, 0x455a14ed, 20),
       (F2, 13, 0xa9e3e905, 5), (F2, 2, 0xfcefa3f8, 9), (F2, 7, 0x676f02d9, 14), (F2, 12, 0x8d2a4c8a, 20)]"
  unfolding upt_16[of 16, simplified] by (simp add: md5_op_defs)

lemma md5_round2: "fold (md5_step X) [16..<32] = md5_round2 X"
proof -
  have "fold (md5_step X) [16..<32] (a, b, c, d) = md5_round2 X (a, b, c, d)" for a b c d
    by (subst fold_op_step, simp)
      (simp only: md5_ops2 fold_op_step_Cons fold_simps(1) id_apply md5_round2_def prod.case)
  then show ?thesis by (auto simp: fun_eq_iff)
qed

lemma md5_ops3:
  "map md5_op [32..<48] =
      [(F3, 5, 0xfffa3942, 4), (F3, 8, 0x8771f681, 11), (F3, 11, 0x6d9d6122, 16), (F3, 14, 0xfde5380c, 23),
       (F3, 1, 0xa4beea44, 4), (F3, 4, 0x4bdecfa9, 11), (F3, 7, 0xf6bb4b60, 16), (F3, 10, 0xbebfbc70, 23),
       (F3, 13, 0x289b7ec6, 4), (F3, 0, 0xeaa127fa, 11), (F3, 3, 0xd4ef3085, 16), (F3, 6, 0x04881d05, 23),
       (F3, 9, 0xd9d4d039, 4), (F3, 12, 0xe6db99e5, 11), (F3, 15, 0x1fa27cf8, 16), (F3, 2, 0xc4ac5665, 23)]"
  unfolding upt_16[of 32, simplified] by (simp add: md5_op_defs)

lemma md5_round3: "fold (md5_step X) [32..<48] = md5_round3 X"
proof -
  have "fold (md5_step X) [32..<48] (a, b, c, d) = md5_round3 X (a, b, c, d)" for a b c d
    by (subst fold_op_step, simp)
      (simp only: md5_ops3 fold_op_step_Cons fold_simps(1) id_apply md5_round3_def prod.case)
  then show ?thesis by (auto simp: fun_eq_iff)
qed

lemma md5_ops4:
  "map md5_op [48..<64] =
      [(F4, 0, 0xf4292244, 6), (F4, 7, 0x432aff97, 10), (F4, 14, 0xab9423a7, 15), (F4, 5, 0xfc93a039, 21),
       (F4, 12, 0x655b59c3, 6), (F4, 3, 0x8f0ccc92, 10), (F4, 10, 0xffeff47d, 15), (F4, 1, 0x85845dd1, 21),
       (F4, 8, 0x6fa87e4f, 6), (F4, 15, 0xfe2ce6e0, 10), (F4, 6, 0xa3014314, 15), (F4, 13, 0x4e0811a1, 21),
       (F4, 4, 0xf7537e82, 6), (F4, 11, 0xbd3af235, 10), (F4, 2, 0x2ad7d2bb, 15), (F4, 9, 0xeb86d391, 21)]"
  unfolding upt_16[of 48, simplified] by (simp add: md5_op_defs)

lemma md5_round4: "fold (md5_step X) [48..<64] = md5_round4 X"
proof -
  have "fold (md5_step X) [48..<64] (a, b, c, d) = md5_round4 X (a, b, c, d)" for a b c d
    by (subst fold_op_step, simp)
      (simp only: md5_ops4 fold_op_step_Cons fold_simps(1) id_apply md5_round4_def prod.case)
  then show ?thesis by (auto simp: fun_eq_iff)
qed

lemma caml_MD5Transform_eq: "caml_MD5Transform buf X = md5_compress X buf"
proof -
  have u: "[0..<64] = [0..<16] @ [16..<32] @ [32..<48] @ [48..<64::nat]" by code_simp
  have "fold (md5_step X) [0..<64] st = md5_round4 X (md5_round3 X (md5_round2 X (md5_round1 X st)))" for st
    unfolding u fold_append md5_round1 md5_round2 md5_round3 md5_round4 by simp
  then show ?thesis
    by (cases buf) (simp add: caml_MD5Transform_def md5_compress_def split: prod.split)
qed

section \<open>Contexts\<close>

record MD5Context =
  ctx_buf :: md5_state
  ctx_bits :: "32 word \<times> 32 word"
  ctx_in :: bytes

text \<open>\<open>memcpy\<close> and \<open>memset\<close> into an array at an offset.\<close>

definition memcpy :: "bytes \<Rightarrow> nat \<Rightarrow> bytes \<Rightarrow> nat \<Rightarrow> bytes" where
  "memcpy dst off src n = take off dst @ take n src @ drop (off + n) dst"

definition memset :: "bytes \<Rightarrow> nat \<Rightarrow> byte \<Rightarrow> nat \<Rightarrow> bytes" where
  "memset dst off c n = memcpy dst off (replicate n c) n"

text \<open>The array of 64 bytes read as 16 words.\<close>

definition in_words :: "bytes \<Rightarrow> 32 word list" where
  "in_words bs = map (\<lambda>i. le_word (take 4 (drop (4 * i) bs))) [0..<16]"

definition caml_MD5Init :: "MD5Context \<Rightarrow> MD5Context" where
  "caml_MD5Init ctx =
     ctx\<lparr>ctx_buf := (0x67452301, 0xefcdab89, 0x98badcfe, 0x10325476), ctx_bits := (0, 0)\<rparr>"

definition update_bits :: "32 word \<times> 32 word \<Rightarrow> uintnat \<Rightarrow> 32 word \<times> 32 word" where
  "update_bits bits len =
     (let (t, hi) = bits;
          lo = t + push_bit 3 (ucast len);
          hi = (if lo < t then hi + 1 else hi)
      in (lo, hi + ucast (drop_bit 29 len)))"

function md5_chunks :: "MD5Context \<Rightarrow> bytes \<Rightarrow> uintnat \<Rightarrow> MD5Context" where
  "md5_chunks ctx buf len =
     (if len \<ge> 64 then
        (let inb = memcpy (ctx_in ctx) 0 buf 64
         in md5_chunks (ctx\<lparr>ctx_in := inb, ctx_buf := caml_MD5Transform (ctx_buf ctx) (in_words inb)\<rparr>)
              (drop 64 buf) (len - 64))
      else ctx\<lparr>ctx_in := memcpy (ctx_in ctx) 0 buf (unat len)\<rparr>)"
  by pat_completeness auto
termination
  by (relation "measure (\<lambda>(_, _, len). unat len)") (auto simp: word_le_nat_alt unat_sub)

declare md5_chunks.simps [simp del]

definition caml_MD5Update :: "MD5Context \<Rightarrow> bytes \<Rightarrow> uintnat \<Rightarrow> MD5Context" where
  "caml_MD5Update ctx buf len =
     (let t = fst (ctx_bits ctx);
          ctx = ctx\<lparr>ctx_bits := update_bits (ctx_bits ctx) len\<rparr>;
          t = unat (drop_bit 3 t AND 0x3f)
      in if t \<noteq> 0 then
           (if len < of_nat (64 - t) then ctx\<lparr>ctx_in := memcpy (ctx_in ctx) t buf (unat len)\<rparr>
            else
              (let inb = memcpy (ctx_in ctx) t buf (64 - t);
                   ctx = ctx\<lparr>ctx_in := inb, ctx_buf := caml_MD5Transform (ctx_buf ctx) (in_words inb)\<rparr>
               in md5_chunks ctx (drop (64 - t) buf) (len - of_nat (64 - t))))
         else md5_chunks ctx buf len)"

definition state_bytes :: "md5_state \<Rightarrow> bytes" where
  "state_bytes = (\<lambda>(a, b, c, d). le_bytes 4 a @ le_bytes 4 b @ le_bytes 4 c @ le_bytes 4 d)"

definition caml_MD5Final :: "MD5Context \<Rightarrow> bytes \<times> MD5Context" where
  "caml_MD5Final ctx =
     (let count = unat (drop_bit 3 (fst (ctx_bits ctx)) AND 0x3f);
          inb = memset (ctx_in ctx) count 0x80 1;
          p = count + 1;
          count = 64 - 1 - count;
          (buf, inb) =
            (if count < 8 then
               (let inb = memset inb p 0 count
                in (caml_MD5Transform (ctx_buf ctx) (in_words inb), memset inb 0 0 56))
             else (ctx_buf ctx, memset inb p 0 (count - 8)));
          inb = memcpy inb 56 (le_bytes 4 (fst (ctx_bits ctx))) 4;
          inb = memcpy inb 60 (le_bytes 4 (snd (ctx_bits ctx))) 4;
          buf = caml_MD5Transform buf (in_words inb)
      in (state_bytes buf, \<lparr>ctx_buf = (0, 0, 0, 0), ctx_bits = (0, 0), ctx_in = replicate 64 0\<rparr>))"

text \<open>Local contexts start with unspecified contents.\<close>

definition caml_md5_block :: "MD5Context \<Rightarrow> bytes \<Rightarrow> uintnat \<Rightarrow> bytes" where
  "caml_md5_block ctx data len = fst (caml_MD5Final (caml_MD5Update (caml_MD5Init ctx) data len))"

definition caml_md5_string :: "MD5Context \<Rightarrow> dom_st \<Rightarrow> mlvalue \<Rightarrow> mlvalue \<Rightarrow> mlvalue \<Rightarrow> (mlvalue \<times> dom_st) option" where
  "caml_md5_string ctx st str ofs len =
     (let ctx = caml_MD5Update (caml_MD5Init ctx)
                  (load_bytes (heap st) (str + Long_val ofs) (unat (Long_val len))) (Long_val len)
      in map_option (\<lambda>(res, st1). (res, st1\<lparr>heap := store_bytes (heap st1) res (fst (caml_MD5Final ctx))\<rparr>))
           (caml_alloc_string st 16))"

section \<open>The digest of a message in RFC 1321\<close>

definition md5_padding :: "bytes \<Rightarrow> bytes" where
  "md5_padding M =
     0x80 # replicate ((119 - length M mod 64) mod 64) 0 @ le_bytes 8 (of_nat (8 * length M) :: 64 word)"

function md5_process :: "bytes \<Rightarrow> md5_state \<Rightarrow> md5_state" where
  "md5_process M st =
     (if length M < 64 then st else md5_process (drop 64 M) (md5_compress (in_words (take 64 M)) st))"
  by pat_completeness auto
termination by (relation "measure (\<lambda>(M, _). length M)") auto

declare md5_process.simps [simp del]

lemma md5_process_short [simp]: "length M < 64 \<Longrightarrow> md5_process M st = st"
  by (simp add: md5_process.simps[of M])

definition md5_start :: md5_state where
  "md5_start = (0x67452301, 0xefcdab89, 0x98badcfe, 0x10325476)"

definition md5_digest :: "bytes \<Rightarrow> bytes" where
  "md5_digest M = state_bytes (md5_process (M @ md5_padding M) md5_start)"

lemma md5_process_append:
  "length xs mod 64 = 0 \<Longrightarrow> md5_process (xs @ ys) st = md5_process ys (md5_process xs st)"
proof (induction xs st arbitrary: rule: md5_process.induct)
  case (1 M st)
  show ?case
  proof (cases "length M < 64")
    case True
    then have "M = []" using 1(2) by simp
    then show ?thesis by (simp add: md5_process.simps[of "[]"])
  next
    case False
    then have "length (drop 64 M) mod 64 = 0" using 1(2) by (simp add: le_mod_geq)
    then show ?thesis
      using 1(1) False by (simp add: md5_process.simps[of M] md5_process.simps[of "M @ ys"])
  qed
qed

lemma md5_process_block: "length xs = 64 \<Longrightarrow> md5_process xs st = md5_compress (in_words xs) st"
  by (simp add: md5_process.simps[of xs] md5_process.simps[of "[]"])

lemma md5_process_rest: "length M mod 64 = length ys \<Longrightarrow> M = xs @ ys \<Longrightarrow> md5_process M st = md5_process xs st"
proof -
  assume a: "length M mod 64 = length ys" "M = xs @ ys"
  then have l: "(length xs + length ys) mod 64 = length ys" by (simp only: length_append)
  then have "length xs mod 64 = 0" "length ys < 64"
    using dvd_minus_mod[of 64 "length xs + length ys"] mod_less_divisor[of 64 "length xs + length ys"] by simp_all
  then show ?thesis using a(2) md5_process_append[of xs ys st] by simp
qed

section \<open>Streaming\<close>

text \<open>A context that has absorbed the message \<open>M\<close>.\<close>

definition absorbed :: "bytes \<Rightarrow> MD5Context \<Rightarrow> bool" where
  "absorbed M ctx \<longleftrightarrow>
     length (ctx_in ctx) = 64 \<and> ctx_buf ctx = md5_process M md5_start \<and>
     take (length M mod 64) (ctx_in ctx) = drop (length M - length M mod 64) M \<and>
     ctx_bits ctx = (of_nat (8 * length M), of_nat (8 * length M div 2 ^ 32))"

lemma length_memcpy [simp]: "off + n \<le> length dst \<Longrightarrow> n \<le> length src \<Longrightarrow> length (memcpy dst off src n) = length dst"
  by (simp add: memcpy_def)

lemma bits_sum:
  "8 * (m + n) div 2 ^ 32 =
   8 * m div 2 ^ 32 + n div 2 ^ 29 + (if 8 * m mod 2 ^ 32 + 8 * n mod 2 ^ 32 < (2 ^ 32 :: nat) then 0 else 1)"
proof -
  have "8 * (m + n) div 2 ^ 32 = 8 * m div 2 ^ 32 + 8 * n div 2 ^ 32 + (8 * m mod 2 ^ 32 + 8 * n mod 2 ^ 32) div 2 ^ 32"
    unfolding distrib_left by (rule div_add1_eq)
  moreover have "8 * n div 2 ^ 32 = n div 2 ^ 29" by simp
  moreover have "(8 * m mod 2 ^ 32 + 8 * n mod 2 ^ 32) div (2 ^ 32 :: nat) =
    (if 8 * m mod 2 ^ 32 + 8 * n mod 2 ^ 32 < (2 ^ 32 :: nat) then 0 else 1)"
  proof -
    have "8 * m mod 2 ^ 32 < (2 ^ 32 :: nat)" "8 * n mod 2 ^ 32 < (2 ^ 32 :: nat)" by simp_all
    then show ?thesis by (auto simp: div_nat_eqI)
  qed
  ultimately show ?thesis by simp
qed

lemma update_bits_of_nat:
  assumes "n < 2 ^ 64"
  shows "update_bits (of_nat (8 * m), of_nat (8 * m div 2 ^ 32)) (of_nat n) =
    (of_nat (8 * (m + n)), of_nat (8 * (m + n) div 2 ^ 32))"
proof -
  define lo where "lo = (of_nat (8 * m) :: 32 word) + push_bit 3 (ucast (of_nat n :: 64 word))"
  have l: "lo = of_nat (8 * (m + n))" by (simp add: lo_def push_bit_eq_mult ucast_of_nat_32)
  define A B where "A = 8 * m mod (2 ^ 32 :: nat)" and "B = 8 * n mod (2 ^ 32 :: nat)"
  have AB: "A < 2 ^ 32" "B < 2 ^ 32" by (simp_all add: A_def B_def)
  have u: "unat lo = (A + B) mod 2 ^ 32" "unat (of_nat (8 * m) :: 32 word) = A"
    unfolding l unat_of_nat A_def B_def by (simp_all add: mod_add_eq)
  have c: "lo < of_nat (8 * m) \<longleftrightarrow> \<not> A + B < 2 ^ 32"
  proof (cases "A + B < 2 ^ 32")
    case True
    then show ?thesis using u by (simp add: word_less_nat_alt)
  next
    case False
    then have "(A + B) mod 2 ^ 32 = A + B - 2 ^ 32" using AB by (simp add: le_mod_geq)
    then show ?thesis using u AB False by (simp add: word_less_nat_alt)
  qed
  have "unat (drop_bit 29 (of_nat n :: 64 word)) = unat (of_nat (n div 2 ^ 29) :: 64 word)"
    unfolding drop_bit_eq_div unat_div_distrib unat_of_nat using assms by simp
  then have "drop_bit 29 (of_nat n :: 64 word) = of_nat (n div 2 ^ 29)" by (simp only: word_unat_eq_iff)
  then have h: "ucast (drop_bit 29 (of_nat n :: 64 word)) = (of_nat (n div 2 ^ 29) :: 32 word)"
    by (simp only: ucast_of_nat_32)
  show ?thesis
    unfolding update_bits_def Let_def prod.case lo_def[symmetric] h bits_sum A_def[symmetric] B_def[symmetric]
    using c l by (simp add: ac_simps)
qed

lemma bytes_in_buffer: "unat (drop_bit 3 (of_nat (8 * m) :: 32 word) AND 0x3f) = m mod 64"
proof -
  have "(0x3f :: 32 word) = mask 6" by (simp add: mask_eq_exp_minus_1)
  then have "drop_bit 3 (of_nat (8 * m) :: 32 word) AND 0x3f = take_bit 6 (drop_bit 3 (of_nat (8 * m)))"
    by (simp only: take_bit_eq_mask)
  moreover have "unat (take_bit 6 (drop_bit 3 (of_nat (8 * m) :: 32 word))) = (8 * m mod 2 ^ 32 div 2 ^ 3) mod 2 ^ 6"
    unfolding take_bit_eq_mod drop_bit_eq_div unat_mod_distrib unat_div_distrib unat_of_nat by simp
  moreover have "(8 * m mod 2 ^ 32 div 2 ^ 3) mod 2 ^ 6 = m mod (64 :: nat)"
  proof -
    have "8 * m mod 2 ^ 32 div 2 ^ 3 = m mod (2 ^ 29 :: nat)"
      using mult_mod_right[of 8 m "2 ^ 29"] by simp
    moreover have "m mod 2 ^ 29 mod 64 = m mod (64 :: nat)" by (rule mod_mod_cancel) simp
    ultimately show ?thesis by simp
  qed
  ultimately show ?thesis by simp
qed

lemma md5_chunks_absorb:
  assumes "unat len \<le> length buf" "length (ctx_in ctx) = 64" "data = take (unat len) buf"
  shows "\<exists>inb. md5_chunks ctx buf len = ctx\<lparr>ctx_in := inb, ctx_buf := md5_process data (ctx_buf ctx)\<rparr> \<and>
    length inb = 64 \<and> take (length data mod 64) inb = drop (length data - length data mod 64) data"
  using assms
proof (induction ctx buf len arbitrary: data rule: md5_chunks.induct)
  case (1 ctx buf len)
  show ?case
  proof (cases "len \<ge> 64")
    case True
    then have l: "64 \<le> unat len" "unat (len - 64) = unat len - 64" by (simp_all add: word_le_nat_alt unat_sub)
    define inb where "inb = memcpy (ctx_in ctx) 0 buf 64"
    have inb: "inb = take 64 data" using "1.prems" l by (simp add: inb_def memcpy_def)
    define data' where "data' = take (unat (len - 64)) (drop 64 buf)"
    have data': "data' = drop 64 data" using "1.prems"(3) l by (simp add: data'_def take_drop)
    have d: "data = inb @ data'" unfolding inb data' by simp
    have d64: "length inb = 64" "length data = 64 + length data'"
      using "1.prems" l by (simp_all add: inb data')
    note d = d d64
    let ?ctx = "ctx\<lparr>ctx_in := inb, ctx_buf := caml_MD5Transform (ctx_buf ctx) (in_words inb)\<rparr>"
    have e: "md5_process data (ctx_buf ctx) = md5_process data' (ctx_buf ?ctx)"
      using d md5_process_append[of inb data'] by (simp add: md5_process_block caml_MD5Transform_eq)
    have s: "md5_chunks ctx buf len = md5_chunks ?ctx (drop 64 buf) (len - 64)"
      using True by (simp add: md5_chunks.simps[of ctx] inb_def Let_def)
    have le: "unat (len - 64) \<le> length (drop 64 buf)" using "1.prems"(1) l by simp
    obtain inb' where i: "md5_chunks ?ctx (drop 64 buf) (len - 64) = ?ctx\<lparr>ctx_in := inb', ctx_buf := md5_process data' (ctx_buf ?ctx)\<rparr>"
      "length inb' = 64" "take (length data' mod 64) inb' = drop (length data' - length data' mod 64) data'"
      using "1.IH"[OF True inb_def _ _ data'_def] le d(2) by auto
    have "drop (length data - length data mod 64) data = drop (length data' - length data' mod 64) data'"
      using d by simp
    then show ?thesis using s i e d by (intro exI[of _ inb']) simp
  next
    case False
    then have l: "unat len < 64" by (simp add: word_le_nat_alt)
    then have "md5_process data b = b" for b using "1.prems" by simp
    then show ?thesis using "1.prems" False l
      by (intro exI[of _ "memcpy (ctx_in ctx) 0 buf (unat len)"]) (simp add: md5_chunks.simps[of ctx] memcpy_def)
  qed
qed

lemma absorbedI:
  assumes "M = xs @ ys" "length xs mod 64 = 0" "length ys < 64" "length (ctx_in ctx) = 64"
    "ctx_buf ctx = md5_process xs md5_start" "take (length ys) (ctx_in ctx) = ys"
    "ctx_bits ctx = (of_nat (8 * length M), of_nat (8 * length M div 2 ^ 32))"
  shows "absorbed M ctx"
proof -
  have l: "length M mod 64 = length ys" using assms(1-3) by (simp add: mod_add_left_eq[symmetric])
  then have "md5_process M md5_start = md5_process xs md5_start" using assms(1) md5_process_rest by blast
  then show ?thesis using assms l by (simp add: absorbed_def)
qed

lemma md5_chunks_absorbed:
  assumes xs: "length xs mod 64 = 0" "ctx_buf ctx = md5_process xs md5_start" and "length (ctx_in ctx) = 64"
    and "unat len = length buf" "M = xs @ buf"
    and bits: "ctx_bits ctx = (of_nat (8 * length M), of_nat (8 * length M div 2 ^ 32))"
  shows "absorbed M (md5_chunks ctx buf len)"
proof -
  obtain inb where c: "md5_chunks ctx buf len = ctx\<lparr>ctx_in := inb, ctx_buf := md5_process buf (ctx_buf ctx)\<rparr>"
    "length inb = 64" "take (length buf mod 64) inb = drop (length buf - length buf mod 64) buf"
    using md5_chunks_absorb[of len buf ctx buf] assms by auto
  define zs ys where "zs = take (length buf - length buf mod 64) buf" and "ys = drop (length buf - length buf mod 64) buf"
  have b: "buf = zs @ ys" "length ys = length buf mod 64" by (simp_all add: zs_def ys_def)
  have z: "length zs mod 64 = 0" by (simp add: zs_def minus_mod_eq_mult_div)
  have p: "md5_process buf st = md5_process zs st" for st by (rule md5_process_rest[OF b(2)[symmetric] b(1)])
  show ?thesis
  proof (rule absorbedI[of M "xs @ zs" ys])
    show "M = (xs @ zs) @ ys" using assms(5) b(1) by (simp only: append_assoc)
    show "length (xs @ zs) mod 64 = 0" using xs(1) z by (simp add: mod_add_eq[of "length xs", symmetric])
    show "ctx_buf (md5_chunks ctx buf len) = md5_process (xs @ zs) md5_start"
      using c(1) p xs md5_process_append by simp
    show "take (length ys) (ctx_in (md5_chunks ctx buf len)) = ys" using c b(2) ys_def by simp
  qed (use c b(2) bits in simp_all)
qed

text \<open>Copying the first \<open>n\<close> bytes of the input behind the buffered ones.\<close>

lemma absorbed_Update:
  assumes abs: "absorbed M ctx" and len: "length buf < 2 ^ 64"
  shows "absorbed (M @ buf) (caml_MD5Update ctx buf (of_nat (length buf)))"
proof -
  define r where "r = length M mod 64"
  define xs ys where "xs = take (length M - r) M" and "ys = drop (length M - r) M"
  have M: "M = xs @ ys" "length xs mod 64 = 0" "length ys = r" "r < 64"
    unfolding xs_def ys_def r_def by simp_all
  have st: "length (ctx_in ctx) = 64" "ctx_buf ctx = md5_process xs md5_start" "take r (ctx_in ctx) = ys"
    using abs md5_process_rest[of M ys xs] M unfolding absorbed_def r_def[symmetric] ys_def[symmetric] by auto
  define ctx1 where "ctx1 = ctx\<lparr>ctx_bits := update_bits (ctx_bits ctx) (of_nat (length buf))\<rparr>"
  have bits: "ctx_bits ctx1 = (of_nat (8 * length (M @ buf)), of_nat (8 * length (M @ buf) div 2 ^ 32))"
    using abs update_bits_of_nat[OF len, of "length M"] by (simp add: ctx1_def absorbed_def)
  have t: "unat (drop_bit 3 (fst (ctx_bits ctx)) AND 0x3f) = r"
    using abs bytes_in_buffer[of "length M"] by (simp add: absorbed_def r_def)
  have u: "unat (of_nat (length buf) :: 64 word) = length buf" using len by (simp add: unat_of_nat)
  have u64: "unat (of_nat (64 - r) :: 64 word) = 64 - r" unfolding unat_of_nat using M(4) by simp
  consider (short) "r \<noteq> 0" "length buf < 64 - r" | (fill) "r \<noteq> 0" "64 - r \<le> length buf" | (none) "r = 0" by linarith
  then show ?thesis
  proof cases
    case short
    have "caml_MD5Update ctx buf (of_nat (length buf)) = ctx1\<lparr>ctx_in := memcpy (ctx_in ctx) r buf (length buf)\<rparr>"
      using short u u64 t by (simp add: caml_MD5Update_def Let_def ctx1_def word_less_nat_alt)
    then show ?thesis
      using M st bits short
      by (intro absorbedI[of "M @ buf" xs "ys @ buf"]) (simp_all add: memcpy_def ctx1_def)
  next
    case fill
    define inb where "inb = memcpy (ctx_in ctx) r buf (64 - r)"
    define ctx2 where "ctx2 = ctx1\<lparr>ctx_in := inb, ctx_buf := caml_MD5Transform (ctx_buf ctx1) (in_words inb)\<rparr>"
    have inb: "inb = ys @ take (64 - r) buf" "length inb = 64"
      using fill st M by (simp_all add: inb_def memcpy_def)
    have e: "caml_MD5Update ctx buf (of_nat (length buf)) =
      md5_chunks ctx2 (drop (64 - r) buf) (of_nat (length buf) - of_nat (64 - r))"
      using fill u u64 t by (simp add: caml_MD5Update_def Let_def ctx1_def ctx2_def inb_def word_less_nat_alt)
    have "unat (of_nat (length buf) - of_nat (64 - r) :: 64 word) = length (drop (64 - r) buf)"
      using fill(2) u u64 by (simp add: unat_sub word_le_nat_alt)
    moreover have "ctx_buf ctx2 = md5_process (xs @ inb) md5_start"
      using st inb M(2) by (simp add: ctx2_def ctx1_def caml_MD5Transform_eq md5_process_append md5_process_block)
    moreover have "M @ buf = (xs @ inb) @ drop (64 - r) buf" using M(1) inb(1) by simp
    ultimately show ?thesis
      unfolding e using inb M bits by (intro md5_chunks_absorbed[of "xs @ inb"]) (simp_all add: ctx2_def)
  next
    case none
    then have "caml_MD5Update ctx buf (of_nat (length buf)) = md5_chunks ctx1 buf (of_nat (length buf))"
      using t by (simp add: caml_MD5Update_def Let_def ctx1_def)
    then show ?thesis
      using none M st bits u by (simp, intro md5_chunks_absorbed[of xs]) (simp_all add: ctx1_def)
  qed
qed

lemma bit_of_nat_word: "bit (of_nat k :: 'a::len word) j \<longleftrightarrow> j < LENGTH('a) \<and> bit k j"
proof -
  have "(of_nat k :: 'a word) = word_of_int (int k)" by simp
  then show ?thesis by (simp add: bit_word_of_int_iff bit_of_nat_iff del: of_int_of_nat_eq)
qed

lemma le_bytes_8_split:
  "le_bytes 8 (of_nat k :: 64 word) = le_bytes 4 (of_nat k :: 32 word) @ le_bytes 4 (of_nat (k div 2 ^ 32) :: 32 word)"
proof (rule nth_equalityI)
  fix i assume "i < length (le_bytes 8 (of_nat k :: 64 word))"
  then have i: "i < 8" by simp
  have d: "k div 2 ^ 32 = drop_bit 32 k" by (simp add: drop_bit_eq_div)
  have e: "32 + (8 * (i - 4) + n) = 8 * i + n" if "\<not> i < 4" for n using that by simp
  show "le_bytes 8 (of_nat k :: 64 word) ! i =
    (le_bytes 4 (of_nat k :: 32 word) @ le_bytes 4 (of_nat (k div 2 ^ 32) :: 32 word)) ! i"
    unfolding d using i by (intro bit_word_eqI)
      (auto simp: nth_append nth_le_bytes bit_ucast_iff bit_drop_bit_eq bit_of_nat_word e)
qed simp

lemma Final_digest:
  assumes "absorbed M ctx"
  shows "fst (caml_MD5Final ctx) = md5_digest M"
proof -
  define r where "r = length M mod 64"
  define xs ys where "xs = take (length M - r) M" and "ys = drop (length M - r) M"
  have M: "M = xs @ ys" "length xs mod 64 = 0" "length ys = r" "r < 64"
    unfolding xs_def ys_def r_def by simp_all
  have st: "length (ctx_in ctx) = 64" "ctx_buf ctx = md5_process xs md5_start" "take r (ctx_in ctx) = ys"
    using assms md5_process_rest[of M ys xs] M unfolding absorbed_def r_def[symmetric] ys_def[symmetric] by auto
  have t: "unat (drop_bit 3 (fst (ctx_bits ctx)) AND 0x3f) = r"
    using assms bytes_in_buffer[of "length M"] by (simp add: absorbed_def r_def)
  define L where "L = le_bytes 4 (fst (ctx_bits ctx)) @ le_bytes 4 (snd (ctx_bits ctx))"
  have L: "length L = 8" "md5_padding M = 0x80 # replicate ((119 - r) mod 64) 0 @ L"
    using assms le_bytes_8_split[of "8 * length M"] by (simp_all add: L_def md5_padding_def r_def absorbed_def)
  have tail: "memcpy (memcpy a 56 (le_bytes 4 (fst (ctx_bits ctx))) 4) 60 (le_bytes 4 (snd (ctx_bits ctx))) 4 = take 56 a @ L"
    if "length a = 64" for a using that by (simp add: memcpy_def L_def)
  have digest: "md5_digest M = state_bytes (md5_process (ys @ md5_padding M) (ctx_buf ctx))"
    using M st md5_process_append[of xs "ys @ md5_padding M"] by (simp add: md5_digest_def)
  define a where "a = memset (ctx_in ctx) r 0x80 1"
  have a: "length a = 64" "take (r + 1) a = ys @ [0x80]"
    using st M by (simp_all add: a_def memset_def memcpy_def)
  show ?thesis
  proof (cases "63 - r < 8")
    case True
    define b where "b = memset a (r + 1) 0 (63 - r)"
    have b: "b = ys @ 0x80 # replicate (63 - r) 0" "length b = 64"
      using a M(3,4) by (simp_all add: b_def memset_def memcpy_def)
    have "(119 - r) mod 64 = (63 - r) + 56" using True M(4) by simp
    then have "replicate ((119 - r) mod 64) (0 :: byte) = replicate (63 - r) 0 @ replicate 56 0"
      by (simp only: replicate_add)
    then have "ys @ md5_padding M = b @ replicate 56 0 @ L" unfolding L(2) b(1) by simp
    then have "md5_digest M = state_bytes (md5_compress (in_words (replicate 56 0 @ L)) (md5_compress (in_words b) (ctx_buf ctx)))"
      using b(2) L(1) by (simp add: digest md5_process_append md5_process_block)
    moreover have "take 56 (memset b 0 0 56) = replicate 56 0" "length (memset b 0 0 56) = 64"
      using b(2) by (simp_all add: memset_def memcpy_def)
    ultimately show ?thesis
      using True t tail[of "memset b 0 0 56"] unfolding b_def a_def
      by (simp add: caml_MD5Final_def Let_def caml_MD5Transform_eq)
  next
    case False
    define b where "b = memset a (r + 1) 0 (63 - r - 8)"
    have e56: "56 - r = Suc (55 - r)" using False by simp
    have b: "take 56 b = ys @ 0x80 # replicate (63 - r - 8) 0" "length b = 64"
      using a M(3,4) False e56 by (simp_all add: b_def memset_def memcpy_def)
    have "(119 - r) mod 64 = 63 - r - 8" using False M(4) by (simp add: mod_if)
    then have "ys @ md5_padding M = take 56 b @ L" using L b by simp
    moreover have "length (take 56 b @ L) = 64" using b(2) L by (simp del: b(1))
    ultimately have "md5_digest M = state_bytes (md5_compress (in_words (take 56 b @ L)) (ctx_buf ctx))"
      by (simp only: digest md5_process_block)
    then show ?thesis
      using False t tail[OF b(2)] unfolding b_def a_def
      by (simp add: caml_MD5Final_def Let_def caml_MD5Transform_eq)
  qed
qed

lemma absorbed_Init: "length (ctx_in ctx) = 64 \<Longrightarrow> absorbed [] (caml_MD5Init ctx)"
  by (simp add: absorbed_def caml_MD5Init_def md5_start_def)

lemma absorbed_fold_Update:
  assumes "absorbed M ctx" "\<forall>buf \<in> set bufs. length buf < 2 ^ 64"
  shows "absorbed (M @ concat bufs) (fold (\<lambda>buf ctx. caml_MD5Update ctx buf (of_nat (length buf))) bufs ctx)"
  using assms
proof (induction bufs arbitrary: M ctx)
  case (Cons buf bufs)
  have "absorbed (M @ buf) (caml_MD5Update ctx buf (of_nat (length buf)))"
    using Cons.prems by (intro absorbed_Update) simp_all
  then show ?case using Cons.IH[of "M @ buf"] Cons.prems(2) by simp
qed simp

text \<open>The transformation of one block, with its optimized boolean functions, unrolled rounds and
  rotation by shifts, is the compression function of RFC 1321.\<close>

lemma caml_MD5Transform_is_rfc1321: "caml_MD5Transform buf X = md5_compress X buf"
  by (rule caml_MD5Transform_eq)

text \<open>C0: however a message is cut into the buffers given to \<open>caml_MD5Update\<close>, and whatever the context
  held before, the final digest is the one RFC 1321 defines for the whole message: padding to
  a multiple of 64 bytes and the bit count modulo two to the 64th included.  The context is
  wiped.\<close>

theorem md5_stream_correct:
  assumes "length (ctx_in ctx) = 64" and "\<forall>buf \<in> set bufs. length buf < 2 ^ 64"
  shows "caml_MD5Final (fold (\<lambda>buf ctx. caml_MD5Update ctx buf (of_nat (length buf))) bufs (caml_MD5Init ctx)) =
    (md5_digest (concat bufs), \<lparr>ctx_buf = (0, 0, 0, 0), ctx_bits = (0, 0), ctx_in = replicate 64 0\<rparr>)"
proof -
  let ?ctx = "fold (\<lambda>buf ctx. caml_MD5Update ctx buf (of_nat (length buf))) bufs (caml_MD5Init ctx)"
  have "fst (caml_MD5Final ?ctx) = md5_digest (concat bufs)"
    using absorbed_fold_Update[OF absorbed_Init[OF assms(1)] assms(2)] Final_digest by simp
  moreover have "snd (caml_MD5Final ?ctx) = \<lparr>ctx_buf = (0, 0, 0, 0), ctx_bits = (0, 0), ctx_in = replicate 64 0\<rparr>"
    by (simp add: caml_MD5Final_def Let_def split: prod.split)
  ultimately show ?thesis by (simp add: prod_eq_iff)
qed

definition blank_context :: MD5Context where
  "blank_context = \<lparr>ctx_buf = (0, 0, 0, 0), ctx_bits = (0, 0), ctx_in = replicate 64 0\<rparr>"

theorem md5_stream_correct_witness:
  "fst (caml_MD5Final (fold (\<lambda>buf ctx. caml_MD5Update ctx buf (of_nat (length buf))) [[97], [98, 99]]
      (caml_MD5Init blank_context))) = md5_digest [97, 98, 99]"
  using md5_stream_correct[of blank_context "[[97], [98, 99]]"] by (simp add: blank_context_def)

lemma caml_md5_block_eq:
  assumes "length (ctx_in ctx) = 64" "length data < 2 ^ 64"
  shows "caml_md5_block ctx data (of_nat (length data)) = md5_digest data"
  using absorbed_Update[OF absorbed_Init[OF assms(1)] assms(2)] Final_digest by (simp add: caml_md5_block_def)

lemma length_md5_digest [simp]: "length (md5_digest M) = 16"
  by (simp add: md5_digest_def state_bytes_def split: prod.split)

text \<open>C0: \<open>Digest.unsafe_string\<close> on a substring returns a freshly allocated string of 16 bytes that
  holds the MD5 digest of that substring.\<close>

theorem caml_md5_string_correct:
  assumes "wf_dom st" and "length (ctx_in ctx) = 64" and "string_block (heap st) str bs"
    and "sint (Long_val len) = int n" and "in_range bs ofs n"
    and "caml_md5_string ctx st str ofs len = Some (res, st')"
  shows "string_block (heap st') res (md5_digest (take n (drop (nat (sint (Long_val ofs))) bs))) \<and> carved st res 3 st'"
proof -
  obtain i where i: "Long_val ofs = of_nat i" "sint (Long_val ofs) = int i" "i + n \<le> length bs"
    using assms(5) by (rule in_range_obtain)
  have n: "n < 2 ^ 63" using assms(4) sint_lt[of "Long_val len"] by simp
  have "Long_val len = word_of_int (sint (Long_val len))" by simp
  then have len: "Long_val len = of_nat n" unfolding assms(4) by simp
  have u: "unat (Long_val len) = n" using len n by (simp add: unat_of_nat)
  define data where "data = take n (drop i bs)"
  have data: "length data = n" "load_bytes (heap st) (str + Long_val ofs) n = data"
    using i string_block_load[OF assms(3) i(3)] by (simp_all add: data_def)
  have "fst (caml_MD5Final (caml_MD5Update (caml_MD5Init ctx) data (Long_val len))) = md5_digest data"
    using caml_md5_block_eq[OF assms(2), of data] data(1) n len by (simp add: caml_md5_block_def)
  then obtain st1 where "caml_alloc_string st (of_nat (length (md5_digest data))) = Some (res, st1)"
    "st' = st1\<lparr>heap := store_bytes (heap st1) res (md5_digest data)\<rparr>"
    using assms(6) u data(2) by (auto simp: caml_md5_string_def Let_def)
  from caml_alloc_string_overwrite(1,2)[OF assms(1) _ this] show ?thesis
    using i by (simp add: data_def string_words_def)
qed

theorem caml_md5_string_correct_witness:
  "case caml_md5_string blank_context (example_dom\<lparr>heap := example_mem\<rparr>) 0x2008 (Val_int 1) (Val_int 2) of
     None \<Rightarrow> False
   | Some (res, st') \<Rightarrow> string_block (heap st') res (md5_digest [98, 99])"
proof -
  let ?st = "example_dom\<lparr>heap := example_mem\<rparr>"
  have wf: "wf_dom ?st" using example_dom_alloc(1) by (simp add: wf_dom_def)
  have "\<exists>v st'. caml_alloc_string ?st 16 = Some (v, st')"
    by (simp add: caml_alloc_string_def Alloc_small_def Alloc_small_with_reserved_def Let_def
        caml_check_gc_interrupt_def Bsize_wsize_def Whsize_wosize_def Max_young_wosize_def)
  then obtain res st' where r: "caml_md5_string blank_context ?st 0x2008 (Val_int 1) (Val_int 2) = Some (res, st')"
    by (auto simp: caml_md5_string_def Let_def)
  have v: "sint (Long_val (Val_int 2)) = 2" "sint (Long_val (Val_int 1)) = 1"
    by (simp_all add: Val_int_def Long_val_Val_long fits_long_def Max_long_def Min_long_def)
  have "string_block (heap ?st) 0x2008 [97, 98, 99]" using example_strings(2) by simp
  from caml_md5_string_correct[OF wf _ this _ _ r, of 2] show ?thesis
    unfolding r using v by (simp add: blank_context_def in_range_def)
qed

end
