(* ===== verification/Hash.thy ===== *)
theory Hash
  imports Str
begin

text \<open>
  The generic hash function, \<open>runtime/hash.c\<close>.  Floating-point numbers are their bit patterns.
  The hash functions of custom blocks are a parameter: the value that the function of a block
  returns, \<open>None\<close> for a block without one.
\<close>

unbundle bit_operations_syntax

section \<open>Mixing\<close>

definition ROTL32 :: "32 word \<Rightarrow> nat \<Rightarrow> 32 word" where
  "ROTL32 x n = push_bit n x OR drop_bit (32 - n) x"

definition MIX :: "32 word \<Rightarrow> 32 word \<Rightarrow> 32 word" where
  "MIX h d =
     (let d = d * 0xcc9e2d51; d = ROTL32 d 15; d = d * 0x1b873593; h = h XOR d; h = ROTL32 h 13
      in h * 5 + 0xe6546b64)"

definition FINAL_MIX :: "32 word \<Rightarrow> 32 word" where
  "FINAL_MIX h =
     (let h = h XOR drop_bit 16 h; h = h * 0x85ebca6b; h = h XOR drop_bit 13 h; h = h * 0xc2b2ae35
      in h XOR drop_bit 16 h)"

definition caml_hash_mix_uint32 :: "32 word \<Rightarrow> 32 word \<Rightarrow> 32 word" where
  "caml_hash_mix_uint32 h d = MIX h d"

definition caml_hash_mix_intnat :: "32 word \<Rightarrow> intnat \<Rightarrow> 32 word" where
  "caml_hash_mix_intnat h d =
     (let n = ucast (signed_drop_bit 32 d XOR signed_drop_bit 63 d XOR d) in MIX h n)"

definition caml_hash_mix_int64 :: "32 word \<Rightarrow> int64 \<Rightarrow> 32 word" where
  "caml_hash_mix_int64 h d =
     (let hi = ucast (signed_drop_bit 32 d); lo = ucast d in MIX (MIX h lo) hi)"

definition caml_hash_mix_double :: "32 word \<Rightarrow> 64 word \<Rightarrow> 32 word" where
  "caml_hash_mix_double hash d =
     (let h = ucast (drop_bit 32 d); l = ucast d;
          (h, l) =
            (if h AND 0x7FF00000 = 0x7FF00000 \<and> l OR (h AND 0xFFFFF) \<noteq> 0 then (0x7FF00000, 1)
             else if h = 0x80000000 \<and> l = 0 then (0, l)
             else (h, l))
      in MIX (MIX hash l) h)"

definition caml_hash_mix_float :: "32 word \<Rightarrow> 32 word \<Rightarrow> 32 word" where
  "caml_hash_mix_float hash d =
     (let n = (if d AND 0x7F800000 = 0x7F800000 \<and> d AND 0x007FFFFF \<noteq> 0 then 0x7F800001
               else if d = 0x80000000 then 0 else d)
      in MIX hash n)"

text \<open>The loop over 32-bit blocks; it returns the position it stops at.\<close>

function mix_blocks :: "mem \<Rightarrow> mlvalue \<Rightarrow> uintnat \<Rightarrow> nat \<Rightarrow> 32 word \<Rightarrow> nat \<times> 32 word" where
  "mix_blocks m s len i h =
     (if i + 4 \<le> unat len then mix_blocks m s len (i + 4) (MIX h (mem_load32 m (s + of_nat i))) else (i, h))"
  by pat_completeness auto
termination by (relation "measure (\<lambda>(_, _, len, i, _). unat len - i)") auto

declare mix_blocks.simps [simp del]

definition caml_hash_mix_string :: "32 word \<Rightarrow> mem \<Rightarrow> mlvalue \<Rightarrow> 32 word" where
  "caml_hash_mix_string h m s =
     (let len = caml_string_length m s;
          (i, h) = mix_blocks m s len 0 h;
          b = (\<lambda>j. ucast (Byte_u m s (of_nat (i + j))) :: 32 word);
          h = (if len AND 3 = 3 then MIX h (push_bit 16 (b 2) OR push_bit 8 (b 1) OR b 0)
               else if len AND 3 = 2 then MIX h (push_bit 8 (b 1) OR b 0)
               else if len AND 3 = 1 then MIX h (b 0)
               else h)
      in h XOR ucast len)"

section \<open>The traversal\<close>

abbreviation HASH_QUEUE_SIZE :: nat where "HASH_QUEUE_SIZE \<equiv> 256"
abbreviation MAX_FORWARD_DEREFERENCE :: nat where "MAX_FORWARD_DEREFERENCE \<equiv> 1000"

definition Double_val :: "mem \<Rightarrow> mlvalue \<Rightarrow> 64 word" where
  "Double_val m v = mem_load64 m v"

definition Double_flat_field :: "mem \<Rightarrow> mlvalue \<Rightarrow> nat \<Rightarrow> 64 word" where
  "Double_flat_field m v i = Double_val m (v + 8 * of_nat i)"

text \<open>At most \<open>n\<close> forwarding links; \<open>None\<close> gives up.\<close>

fun forward_links :: "nat \<Rightarrow> mem \<Rightarrow> mlvalue \<Rightarrow> mlvalue option" where
  "forward_links 0 m v = None"
| "forward_links (Suc n) m v =
     (let v = Forward_val m v
      in if Is_long v \<or> Tag_val m v \<noteq> Forward_tag then Some v else forward_links n m v)"

text \<open>The label \<open>again\<close>: infix and forward blocks lead to another value, or to none.\<close>

partial_function (option) again :: "mem \<Rightarrow> mlvalue \<Rightarrow> 32 word \<Rightarrow> (mlvalue option \<times> 32 word) option" where
  "again m v h =
     (if Is_long v then Some (Some v, h)
      else if Tag_val m v = Infix_tag then
        again m (v - Infix_offset_val m v) (caml_hash_mix_uint32 h (ucast (Infix_offset_val m v)))
      else if Tag_val m v = Forward_tag then
        (case forward_links MAX_FORWARD_DEREFERENCE m v of
           None \<Rightarrow> Some (None, h)
         | Some v' \<Rightarrow> again m v' h)
      else Some (Some v, h))"

text \<open>Hash, count of meaningful values still to see, and the queue of \<open>wr\<close> values.\<close>

record hash_st =
  hh :: "32 word"
  num :: int
  queue :: "mlvalue list"

fun mix_doubles :: "mem \<Rightarrow> mlvalue \<Rightarrow> nat list \<Rightarrow> hash_st \<Rightarrow> hash_st" where
  "mix_doubles m v [] st = st"
| "mix_doubles m v (i # is) st =
     (let st = st\<lparr>hh := caml_hash_mix_double (hh st) (Double_flat_field m v i), num := num st - 1\<rparr>
      in if num st \<le> 0 then st else mix_doubles m v is st)"

fun mix_fields :: "mem \<Rightarrow> mlvalue \<Rightarrow> nat list \<Rightarrow> hash_st \<Rightarrow> hash_st" where
  "mix_fields m v [] st = st"
| "mix_fields m v (i # is) st =
     mix_fields m v is (st\<lparr>hh := caml_hash_mix_intnat (hh st) (Field m v i), num := num st - 1\<rparr>)"

fun enqueue_fields :: "mem \<Rightarrow> mlvalue \<Rightarrow> nat \<Rightarrow> nat list \<Rightarrow> hash_st \<Rightarrow> hash_st" where
  "enqueue_fields m v sz [] st = st"
| "enqueue_fields m v sz (i # is) st =
     (if length (queue st) \<ge> sz then st
      else enqueue_fields m v sz is (st\<lparr>queue := queue st @ [Field m v i]\<rparr>))"

definition hash_value ::
  "(mem \<Rightarrow> mlvalue \<Rightarrow> intnat option) \<Rightarrow> mem \<Rightarrow> nat \<Rightarrow> mlvalue \<Rightarrow> hash_st \<Rightarrow> hash_st result" where
  "hash_value custom_hash m sz v st =
     (if Is_long v then Inr (st\<lparr>hh := caml_hash_mix_intnat (hh st) v, num := num st - 1\<rparr>)
      else
        (let tag = Tag_val m v
         in if tag = String_tag then Inr (st\<lparr>hh := caml_hash_mix_string (hh st) m v, num := num st - 1\<rparr>)
            else if tag = Double_tag then
              Inr (st\<lparr>hh := caml_hash_mix_double (hh st) (Double_val m v), num := num st - 1\<rparr>)
            else if tag = Double_array_tag then
              Inr (mix_doubles m v [0..<unat (Allocated_wosize_val m v)] st)
            else if tag = Abstract_tag then Inr st
            else if tag = Object_tag then
              Inr (st\<lparr>hh := caml_hash_mix_intnat (hh st) (Oid_val m v), num := num st - 1\<rparr>)
            else if tag = Custom_tag then
              Inr (case custom_hash m v of
                     None \<Rightarrow> st
                   | Some n \<Rightarrow> st\<lparr>hh := caml_hash_mix_uint32 (hh st) (ucast n), num := num st - 1\<rparr>)
            else if tag = Closure_tag then
              (let len = unat (Allocated_wosize_val m v);
                   startenv = unat (Start_env_closinfo (Closinfo_val m v));
                   st = st\<lparr>hh := caml_hash_mix_uint32 (hh st) (ucast (Cleanhd_hd (Hd_val m v)))\<rparr>;
                   st = mix_fields m v [0..<startenv] st
               in Inr (enqueue_fields m v sz [startenv..<len] st))
            else if tag = Cont_tag then Inr st
            else if Is_mixed_block_reserved (Reserved_val m v) then
              Inl (Invalid_argument ''hash: mixed block value'')
            else
              (let st = st\<lparr>hh := caml_hash_mix_uint32 (hh st) (ucast (Cleanhd_hd (Hd_val m v)))\<rparr>
               in Inr (enqueue_fields m v sz [0..<unat (Allocated_wosize_val m v)] st))))"

function hash_loop ::
  "(mem \<Rightarrow> mlvalue \<Rightarrow> intnat option) \<Rightarrow> mem \<Rightarrow> nat \<Rightarrow> nat \<Rightarrow> hash_st \<Rightarrow> 32 word result option" where
  "hash_loop custom_hash m sz rd st =
     (if rd < length (queue st) \<and> num st > 0 then
        (case again m (queue st ! rd) (hh st) of
           None \<Rightarrow> None
         | Some (None, h) \<Rightarrow> hash_loop custom_hash m sz (rd + 1) (st\<lparr>hh := h\<rparr>)
         | Some (Some v, h) \<Rightarrow>
             (case hash_value custom_hash m sz v (st\<lparr>hh := h\<rparr>) of
                Inl e \<Rightarrow> Some (Inl e)
              | Inr st' \<Rightarrow> hash_loop custom_hash m sz (rd + 1) st'))
      else Some (Inr (hh st)))"
  by pat_completeness auto

text \<open>The queue is bounded, and the read position advances.\<close>

lemma enqueue_fields_bound: "length (queue (enqueue_fields m v sz is st)) \<le> max sz (length (queue st))"
proof (induction "is" arbitrary: st)
  case (Cons i "is")
  have "length (queue (enqueue_fields m v sz is (st\<lparr>queue := queue st @ [Field m v i]\<rparr>))) \<le> max sz (length (queue st) + 1)"
    using Cons[of "st\<lparr>queue := queue st @ [Field m v i]\<rparr>"] by simp
  then show ?case by auto
qed simp

lemma mix_doubles_queue [simp]: "queue (mix_doubles m v is st) = queue st"
  by (induction "is" arbitrary: st) (simp_all add: Let_def)

lemma mix_fields_queue [simp]: "queue (mix_fields m v is st) = queue st"
  by (induction "is" arbitrary: st) simp_all

lemma hash_value_bound:
  assumes "hash_value custom_hash m sz v st = Inr st'"
  shows "length (queue st') \<le> max sz (length (queue st))"
proof -
  have *: "length (queue (enqueue_fields m v sz is st1)) \<le> max sz (length (queue st))" if "queue st1 = queue st" for "is" st1
    using enqueue_fields_bound[of m v sz "is" st1] that by simp
  show ?thesis
    using assms unfolding hash_value_def Let_def
    by (auto simp: * split: if_splits option.splits)
qed

termination hash_loop
proof (relation "measure (\<lambda>(_, _, sz, rd, st). max sz (length (queue st)) - rd)", goal_cases)
  case (3 custom_hash m sz rd st p vo h v st')
  then show ?case using hash_value_bound[of custom_hash m sz v "st\<lparr>hh := h\<rparr>" st'] by auto
qed auto

declare hash_loop.simps [simp del]

definition caml_hash_exn ::
  "(mem \<Rightarrow> mlvalue \<Rightarrow> intnat option) \<Rightarrow> mem \<Rightarrow> mlvalue \<Rightarrow> mlvalue \<Rightarrow> mlvalue \<Rightarrow> mlvalue \<Rightarrow> mlvalue result option" where
  "caml_hash_exn custom_hash m count limit seed obj =
     (let sz = sint (Long_val limit);
          sz = (if sz < 0 \<or> sz > int HASH_QUEUE_SIZE then HASH_QUEUE_SIZE else nat sz)
      in map_option (map_result (\<lambda>h. Val_int (FINAL_MIX h AND 0x3FFFFFFF)))
           (hash_loop custom_hash m sz 0 \<lparr>hh = Int_val seed, num = sint (Long_val count), queue = [obj]\<rparr>))"


section \<open>Variant tags\<close>

text \<open>The tag is a C string, given up to its terminating NUL.\<close>

fun hash_variant_loop :: "mlvalue \<Rightarrow> bytes \<Rightarrow> mlvalue" where
  "hash_variant_loop accu [] = accu"
| "hash_variant_loop accu (c # tag) = hash_variant_loop (Val_int (223 * Int_val accu + ucast c)) tag"

definition caml_hash_variant :: "bytes \<Rightarrow> mlvalue" where
  "caml_hash_variant tag =
     (let accu = hash_variant_loop (Val_int 0) tag;
          accu = accu AND Val_long 0x7FFFFFFF
      in scast (ucast accu :: 32 word))"

text \<open>The compiler's computation of the tag, \<open>hash_variant\<close> of \<open>typing/btype.ml\<close>, on integers.\<close>

definition hash_variant :: "bytes \<Rightarrow> int" where
  "hash_variant s =
     (let accu = foldl (\<lambda>accu c. 223 * accu + uint c) 0 s mod 2 ^ 31
      in if accu > 0x3FFFFFFF then accu - 2 ^ 31 else accu)"

section \<open>Hashing up to isomorphism\<close>

text \<open>Floating-point numbers that are equal or are both NaN.\<close>

definition is_nan :: "64 word \<Rightarrow> bool" where
  "is_nan d \<longleftrightarrow> take_bit 11 (drop_bit 52 d) = mask 11 \<and> take_bit 52 d \<noteq> 0"

definition is_zero :: "64 word \<Rightarrow> bool" where
  "is_zero d \<longleftrightarrow> take_bit 63 d = 0"

definition same_float :: "64 word \<Rightarrow> 64 word \<Rightarrow> bool" where
  "same_float d d' \<longleftrightarrow> d = d' \<or> is_nan d \<and> is_nan d' \<or> is_zero d \<and> is_zero d'"

text \<open>\<open>R\<close> relates the values of two heaps that have the same structure: equal integers, blocks with
  the same tag and size and the same data, and fields that are related in turn.\<close>

definition same_block ::
  "(mem \<Rightarrow> mlvalue \<Rightarrow> intnat option) \<Rightarrow> mem \<Rightarrow> mem \<Rightarrow> (mlvalue \<Rightarrow> mlvalue \<Rightarrow> bool) \<Rightarrow> mlvalue \<Rightarrow> mlvalue \<Rightarrow> bool" where
  "same_block custom_hash m m' R v w \<longleftrightarrow>
     (let tag = Tag_val m v; len = unat (Allocated_wosize_val m v) in
      if tag = String_tag then \<exists>bs. string_block m v bs \<and> string_block m' w bs
      else if tag = Double_tag then same_float (Double_val m v) (Double_val m' w)
      else if tag = Double_array_tag then
        Allocated_wosize_val m' w = Allocated_wosize_val m v \<and>
        (\<forall>i < len. same_float (Double_flat_field m v i) (Double_flat_field m' w i))
      else if tag = Abstract_tag \<or> tag = Cont_tag then True
      else if tag = Infix_tag then
        (let off = Infix_offset_val m v
         in Infix_offset_val m' w = off \<and> R (v - off) (w - off) \<and> Is_block (v - off) \<and> Tag_val m (v - off) = Closure_tag)
      else if tag = Forward_tag then R (Forward_val m v) (Forward_val m' w)
      else if tag = Object_tag then Oid_val m v = Oid_val m' w
      else if tag = Custom_tag then custom_hash m v = custom_hash m' w
      else if tag = Closure_tag then
        (let startenv = unat (Start_env_closinfo (Closinfo_val m v))
         in Cleanhd_hd (Hd_val m' w) = Cleanhd_hd (Hd_val m v) \<and>
            Allocated_wosize_val m' w = Allocated_wosize_val m v \<and>
            Start_env_closinfo (Closinfo_val m' w) = Start_env_closinfo (Closinfo_val m v) \<and>
            (\<forall>i < startenv. Field m' w i = Field m v i) \<and>
            (\<forall>i. startenv \<le> i \<and> i < len \<longrightarrow> R (Field m v i) (Field m' w i)))
      else
        Cleanhd_hd (Hd_val m' w) = Cleanhd_hd (Hd_val m v) \<and>
        Allocated_wosize_val m' w = Allocated_wosize_val m v \<and>
        Is_mixed_block_reserved (Reserved_val m' w) = Is_mixed_block_reserved (Reserved_val m v) \<and>
        (\<not> Is_mixed_block_reserved (Reserved_val m v) \<longrightarrow> (\<forall>i < len. R (Field m v i) (Field m' w i))))"

definition hash_iso ::
  "(mem \<Rightarrow> mlvalue \<Rightarrow> intnat option) \<Rightarrow> mem \<Rightarrow> mem \<Rightarrow> (mlvalue \<Rightarrow> mlvalue \<Rightarrow> bool) \<Rightarrow> bool" where
  "hash_iso custom_hash m m' R \<longleftrightarrow>
     (\<forall>v w. R v w \<longrightarrow>
        (if Is_long v then w = v
         else Is_block w \<and> Tag_val m' w = Tag_val m v \<and> same_block custom_hash m m' R v w))"

lemma hash_isoD:
  assumes "hash_iso custom_hash m m' R" "R v w"
  shows "Is_long w = Is_long v" "Is_long v \<Longrightarrow> w = v" "\<not> Is_long v \<Longrightarrow> Tag_val m' w = Tag_val m v"
    "\<not> Is_long v \<Longrightarrow> same_block custom_hash m m' R v w"
proof -
  have "if Is_long v then w = v
    else Is_block w \<and> Tag_val m' w = Tag_val m v \<and> same_block custom_hash m m' R v w"
    using assms unfolding hash_iso_def by blast
  then show "Is_long w = Is_long v" "Is_long v \<Longrightarrow> w = v" "\<not> Is_long v \<Longrightarrow> Tag_val m' w = Tag_val m v"
    "\<not> Is_long v \<Longrightarrow> same_block custom_hash m m' R v w"
    by (auto simp: Is_long_def Is_block_def split: if_splits)
qed

subsection \<open>Numbers\<close>

lemma and_push_mask:
  "x AND push_bit n (mask k) = push_bit n (take_bit k (drop_bit n x))" for x :: "'a::len word"
  by (rule bit_word_eqI) (auto simp: bit_simps)

lemma push_mask_eq_iff:
  "push_bit n (take_bit k x) = push_bit n (mask k) \<longleftrightarrow> (\<forall>i < k. n + i < LENGTH('a) \<longrightarrow> bit x i)" for x :: "'a::len word"
  by (auto simp: bit_eq_iff bit_simps)

lemma take_drop_eq_0_iff: "take_bit k (drop_bit n x) = 0 \<longleftrightarrow> (\<forall>i < k. \<not> bit x (n + i))" for x :: "'a::len word"
proof -
  have "i < LENGTH('a)" if "bit x (n + i)" for i using bit_imp_le_length[OF that] by simp
  then show ?thesis by (auto simp: bit_eq_iff bit_simps)
qed

lemma bits_split: "(\<forall>i < a + b. P i) \<longleftrightarrow> (\<forall>i < a. P i) \<and> (\<forall>i < b. P (a + i))" for a b :: nat
proof safe
  fix i assume "\<forall>i < a. P i" "\<forall>i < b. P (a + i)" "i < a + b"
  then show "P i" by (cases "i < a") (auto dest: spec[of _ "i - a"])
qed auto

lemma double_tests:
  fixes d :: "64 word"
  defines "h \<equiv> ucast (drop_bit 32 d) :: 32 word" and "l \<equiv> ucast d :: 32 word"
  shows "h AND 0x7FF00000 = 0x7FF00000 \<and> l OR (h AND 0xFFFFF) \<noteq> 0 \<longleftrightarrow> is_nan d"
    and "l = 0 \<and> (h = 0x80000000 \<or> h = 0) \<longleftrightarrow> is_zero d"
proof -
  have c: "0x7FF00000 = (push_bit 20 (mask 11) :: 32 word)" "0xFFFFF = (mask 20 :: 32 word)"
    "0x80000000 = (push_bit 31 1 :: 32 word)"
    by (simp_all add: mask_eq_exp_minus_1 push_bit_eq_mult)
  have h: "bit h i \<longleftrightarrow> i < 32 \<and> bit d (32 + i)" and l: "bit l i \<longleftrightarrow> i < 32 \<and> bit d i" for i
    by (simp_all add: h_def l_def bit_ucast_iff bit_drop_bit_eq)
  have z: "l = 0 \<longleftrightarrow> (\<forall>i < 32. \<not> bit d i)" by (auto simp: bit_eq_iff l)
  have "h AND 0x7FF00000 = 0x7FF00000 \<longleftrightarrow> (\<forall>i < 11. bit d (52 + i))"
    unfolding c and_push_mask push_mask_eq_iff bit_drop_bit_eq by (simp add: h)
  moreover have "take_bit 11 (drop_bit 52 d) = mask 11 \<longleftrightarrow> (\<forall>i < 11. bit d (52 + i))"
    using push_mask_eq_iff[of 0 11 "drop_bit 52 d"] by (simp add: bit_drop_bit_eq)
  moreover have "l OR (h AND 0xFFFFF) = 0 \<longleftrightarrow> (\<forall>i < 32. \<not> bit d i) \<and> (\<forall>i < 20. \<not> bit d (32 + i))"
    unfolding c take_bit_eq_mask[symmetric] or_eq_0_iff z using take_drop_eq_0_iff[of 20 0 h] by (simp add: h)
  moreover have "take_bit 52 d = 0 \<longleftrightarrow> (\<forall>i < 32. \<not> bit d i) \<and> (\<forall>i < 20. \<not> bit d (32 + i))"
    using take_drop_eq_0_iff[of 52 0 d] bits_split[of 32 20 "\<lambda>i. \<not> bit d i"] by simp
  ultimately show "h AND 0x7FF00000 = 0x7FF00000 \<and> l OR (h AND 0xFFFFF) \<noteq> 0 \<longleftrightarrow> is_nan d"
    unfolding is_nan_def by blast
  have "h = 0x80000000 \<or> h = 0 \<longleftrightarrow> (\<forall>i < 31. \<not> bit d (32 + i))"
  proof -
    define q where "q = (push_bit 31 1 :: 32 word)"
    have q: "bit q i \<longleftrightarrow> i = 31" for i unfolding q_def bit_push_bit_iff bit_1_iff by auto
    have "h = (if bit h 31 then q else 0)" if *: "\<forall>i < 31. \<not> bit h i"
    proof (rule bit_word_eqI)
      fix i assume "i < LENGTH(32)"
      then have "i < 31 \<or> i = 31" by auto
      then show "bit h i = bit (if bit h 31 then q else 0) i" using * by (auto simp: q)
    qed
    then have "h = q \<or> h = 0 \<longleftrightarrow> (\<forall>i < 31. \<not> bit h i)" by (auto simp: q split: if_splits)
    then show ?thesis unfolding c(3) q_def[symmetric] h by auto
  qed
  moreover have "is_zero d \<longleftrightarrow> (\<forall>i < 32. \<not> bit d i) \<and> (\<forall>i < 31. \<not> bit d (32 + i))"
    unfolding is_zero_def using take_drop_eq_0_iff[of 63 0 d] bits_split[of 32 31 "\<lambda>i. \<not> bit d i"] by simp
  ultimately show "l = 0 \<and> (h = 0x80000000 \<or> h = 0) \<longleftrightarrow> is_zero d" using z by blast
qed

lemma caml_hash_mix_double_same:
  assumes "same_float d d'"
  shows "caml_hash_mix_double h d = caml_hash_mix_double h d'"
proof -
  have nan: "caml_hash_mix_double h d = MIX (MIX h 1) 0x7FF00000" if "is_nan d" for d
    using double_tests(1)[of d] that by (simp add: caml_hash_mix_double_def Let_def)
  have zero: "caml_hash_mix_double h d = MIX (MIX h 0) 0" if "is_zero d" for d
  proof -
    have "ucast d = (0 :: 32 word)" "ucast (drop_bit 32 d) = (0x80000000 :: 32 word) \<or> ucast (drop_bit 32 d) = (0 :: 32 word)"
      using double_tests(2)[of d] that by auto
    then show ?thesis by (auto simp: caml_hash_mix_double_def Let_def)
  qed
  show ?thesis using assms nan zero unfolding same_float_def by metis
qed

subsection \<open>Strings\<close>

text \<open>The blocks and the tail of a byte sequence, mixed as MurmurHash3 does.\<close>

fun murmur_mix :: "32 word \<Rightarrow> bytes \<Rightarrow> 32 word" where
  "murmur_mix h (a # b # c # d # bs) = murmur_mix (MIX h (le_word [a, b, c, d])) bs"
| "murmur_mix h [] = h"
| "murmur_mix h bs = MIX h (le_word bs)"

lemma murmur_mix_4: "4 \<le> length bs \<Longrightarrow> murmur_mix h bs = murmur_mix (MIX h (le_word (take 4 bs))) (drop 4 bs)"
  by (cases "(h, bs)" rule: murmur_mix.cases) auto

lemma mix_blocks_murmur:
  assumes "string_block m s bs" "unat len = length bs" "i \<le> length bs"
  shows "\<exists>j h'. mix_blocks m s len i h = (j, h') \<and> i \<le> j \<and> j \<le> length bs \<and> length bs < j + 4 \<and> (j - i) mod 4 = 0 \<and>
    murmur_mix h (drop i bs) = murmur_mix h' (drop j bs)"
  using assms(3)
proof (induction "length bs - i" arbitrary: i h rule: less_induct)
  case less
  show ?case
  proof (cases "i + 4 \<le> length bs")
    case True
    let ?h = "MIX h (mem_load32 m (s + of_nat i))"
    have w: "mem_load32 m (s + of_nat i) = le_word (take 4 (drop i bs))"
      using string_block_load[OF assms(1) True] by (simp add: mem_load32_def)
    obtain j h' where j: "mix_blocks m s len (i + 4) ?h = (j, h')" "i + 4 \<le> j" "j \<le> length bs" "length bs < j + 4"
      "(j - (i + 4)) mod 4 = 0" "murmur_mix ?h (drop (i + 4) bs) = murmur_mix h' (drop j bs)"
      using less(1)[of "i + 4" ?h, OF diff_less_mono2] True by auto
    have "murmur_mix h (drop i bs) = murmur_mix ?h (drop (i + 4) bs)"
      using murmur_mix_4[of "drop i bs" h] True by (simp add: w add.commute)
    moreover have "(j - i) mod 4 = 0" using j(2,5) by presburger
    moreover have "mix_blocks m s len i h = (j, h')" using True assms(2) j(1) by (simp add: mix_blocks.simps[of m s len i])
    ultimately show ?thesis using j by auto
  next
    case False
    then have "mix_blocks m s len i h = (i, h)" using assms(2) by (simp add: mix_blocks.simps[of m s len i])
    then show ?thesis using False less.prems by auto
  qed
qed

lemma caml_hash_mix_string_murmur:
  assumes "string_block m s bs"
  shows "caml_hash_mix_string h m s = murmur_mix h bs XOR of_nat (length bs)"
proof -
  have len: "caml_string_length m s = of_nat (length bs)" "unat (caml_string_length m s) = length bs"
    using caml_string_length_block[OF assms] string_block_len_unat[OF assms] by auto
  obtain j h' where j: "mix_blocks m s (caml_string_length m s) 0 h = (j, h')" "j \<le> length bs" "length bs < j + 4"
      "j mod 4 = 0" "murmur_mix h bs = murmur_mix h' (drop j bs)"
    using mix_blocks_murmur[OF assms len(2), of 0 h] by auto
  define r where "r = length bs - j"
  have r34: "r < 4" "length bs = j + r" using j(2,3) by (simp_all add: r_def)
  then have "length bs mod 4 = r" using j(4) by (simp add: mod_add_left_eq[of j 4 r, symmetric])
  note r = this r34
  have l3: "caml_string_length m s AND 3 = of_nat r"
  proof -
    have "(3 :: 64 word) = mask 2" by (simp add: mask_eq_exp_minus_1)
    then have "caml_string_length m s AND 3 = take_bit 2 (of_nat (length bs))" by (simp only: len(1) take_bit_eq_mask)
    also have "\<dots> = of_nat (take_bit 2 (length bs))" by (rule of_nat_take_bit[symmetric])
    finally show ?thesis using r(1) by (simp add: take_bit_eq_mod)
  qed
  define b where "b = (\<lambda>i. ucast (Byte_u m s (of_nat (j + i))) :: 32 word)"
  have b: "b i = ucast (bs ! (j + i))" if "i < r" for i
    using string_block_byte[OF assms, of "j + i"] string_pad_bounds(2)[of bs] that r(3)
    by (simp add: b_def Byte_u_def string_image_def nth_append)
  have d: "drop j bs = map (\<lambda>i. bs ! (j + i)) [0..<r]" using r(3) by (intro nth_equalityI) simp_all
  have e: "caml_hash_mix_string h m s =
    (if of_nat r = (3 :: 64 word) then MIX h' (push_bit 16 (b 2) OR push_bit 8 (b 1) OR b 0)
     else if of_nat r = (2 :: 64 word) then MIX h' (push_bit 8 (b 1) OR b 0)
     else if of_nat r = (1 :: 64 word) then MIX h' (b 0) else h') XOR ucast (caml_string_length m s)"
    unfolding caml_hash_mix_string_def Let_def j(1) prod.case l3 b_def ..
  have "of_nat r = (of_nat k :: 64 word) \<longleftrightarrow> r = k" if "k < 4" for k
    using r(2) that by (simp add: word_unat_eq_iff unat_of_nat)
  from this[of 3] this[of 2] this[of 1]
  have "of_nat r = (3 :: 64 word) \<longleftrightarrow> r = 3" "of_nat r = (2 :: 64 word) \<longleftrightarrow> r = 2" "of_nat r = (1 :: 64 word) \<longleftrightarrow> r = 1"
    by simp_all
  note k = this
  consider "r = 0" | "r = 1" | "r = 2" | "r = 3" using r(2) by linarith
  then have "murmur_mix h' (drop j bs) =
    (if of_nat r = (3 :: 64 word) then MIX h' (push_bit 16 (b 2) OR push_bit 8 (b 1) OR b 0)
     else if of_nat r = (2 :: 64 word) then MIX h' (push_bit 8 (b 1) OR b 0)
     else if of_nat r = (1 :: 64 word) then MIX h' (b 0) else h')"
    unfolding d k by cases (simp_all add: b upt_rec ac_simps)
  then show ?thesis using e j(5) len(1) by (simp add: ucast_of_nat_32)
qed



subsection \<open>Traversal\<close>

text \<open>What \<open>again\<close> leaves is neither an infix header nor a forwarding block.\<close>

definition direct :: "mem \<Rightarrow> mlvalue \<Rightarrow> bool" where
  "direct m v \<longleftrightarrow> Is_long v \<or> Tag_val m v \<noteq> Infix_tag \<and> Tag_val m v \<noteq> Forward_tag"

lemma again_direct: "direct m v \<Longrightarrow> again m v h = Some (Some v, h)"
  by (auto simp: again.simps[of m v] direct_def)

lemma forward_links_iso:
  assumes iso: "hash_iso custom_hash m m' R"
  shows "R v w \<Longrightarrow> \<not> Is_long v \<Longrightarrow> Tag_val m v = Forward_tag \<Longrightarrow>
    rel_option (\<lambda>v w. R v w \<and> (Is_long v \<or> Tag_val m v \<noteq> Forward_tag)) (forward_links n m v) (forward_links n m' w)"
proof (induction n arbitrary: v w)
  case (Suc n)
  have r: "R (Forward_val m v) (Forward_val m' w)"
    using hash_isoD(4)[OF iso Suc.prems(1,2)] Suc.prems(3) by (simp add: same_block_def)
  show ?case
    using Suc.IH[OF r] hash_isoD[OF iso r] r by (auto simp: Let_def)
qed simp

lemma again_iso_non_forward:
  assumes iso: "hash_iso custom_hash m m' R" and r: "R v w" and nf: "Is_long v \<or> Tag_val m v \<noteq> Forward_tag"
  shows "\<exists>v' w' h'. again m v h = Some (Some v', h') \<and> again m' w h = Some (Some w', h') \<and> R v' w' \<and> direct m v'"
proof (cases "direct m v")
  case True
  then have "direct m' w" using hash_isoD[OF iso r] by (auto simp: direct_def)
  then show ?thesis using True r again_direct by metis
next
  case False
  then have v: "\<not> Is_long v" "Tag_val m v = Infix_tag" using nf by (auto simp: direct_def)
  define off where "off = Infix_offset_val m v"
  have w: "\<not> Is_long w" "Tag_val m' w = Infix_tag" "Infix_offset_val m' w = off" "R (v - off) (w - off)"
    "\<not> Is_long (v - off)" "Tag_val m (v - off) = Closure_tag"
    using hash_isoD[OF iso r] v by (auto simp: same_block_def Let_def off_def Is_long_def Is_block_def)
  have "direct m (v - off)" "direct m' (w - off)" using w hash_isoD[OF iso w(4)] by (auto simp: direct_def)
  then show ?thesis
    using v w off_def by (simp add: again.simps[of m v] again.simps[of m' w] again_direct)
qed

lemma again_iso:
  assumes iso: "hash_iso custom_hash m m' R" and r: "R v w"
  shows "\<exists>vo wo h'. again m v h = Some (vo, h') \<and> again m' w h = Some (wo, h') \<and>
    rel_option (\<lambda>v w. R v w \<and> direct m v) vo wo"
proof (cases "Is_long v \<or> Tag_val m v \<noteq> Forward_tag")
  case True
  from again_iso_non_forward[OF iso r this, of h] show ?thesis by fastforce
next
  case False
  then have v: "\<not> Is_long v" "Tag_val m v = Forward_tag" and w: "\<not> Is_long w" "Tag_val m' w = Forward_tag"
    using hash_isoD[OF iso r] by auto
  have f: "rel_option (\<lambda>v w. R v w \<and> (Is_long v \<or> Tag_val m v \<noteq> Forward_tag))
    (forward_links MAX_FORWARD_DEREFERENCE m v) (forward_links MAX_FORWARD_DEREFERENCE m' w)"
    by (rule forward_links_iso[OF iso r v])
  then consider (give_up) "forward_links MAX_FORWARD_DEREFERENCE m v = None" "forward_links MAX_FORWARD_DEREFERENCE m' w = None"
    | (go) v' w' where "forward_links MAX_FORWARD_DEREFERENCE m v = Some v'" "forward_links MAX_FORWARD_DEREFERENCE m' w = Some w'"
        "R v' w'" "Is_long v' \<or> Tag_val m v' \<noteq> Forward_tag"
    by (cases rule: option.rel_cases) auto
  then show ?thesis
  proof cases
    case give_up
    then show ?thesis using v w by (simp add: again.simps[of m v] again.simps[of m' w])
  next
    case go
    have "again m v h = again m v' h" "again m' w h = again m' w' h"
      using v w go(1,2) by (simp_all add: again.simps[of m v] again.simps[of m' w])
    then show ?thesis using again_iso_non_forward[OF iso go(3,4), of h] by fastforce
  qed
qed

text \<open>Related states: the same hash and count, related queues.\<close>

definition st_rel :: "(mlvalue \<Rightarrow> mlvalue \<Rightarrow> bool) \<Rightarrow> hash_st \<Rightarrow> hash_st \<Rightarrow> bool" where
  "st_rel R st st' \<longleftrightarrow> hh st' = hh st \<and> num st' = num st \<and> list_all2 R (queue st) (queue st')"

lemma st_relI: "st_rel R st st' \<Longrightarrow> st_rel R (st\<lparr>hh := a, num := b\<rparr>) (st'\<lparr>hh := a, num := b\<rparr>)"
  "st_rel R st st' \<Longrightarrow> st_rel R (st\<lparr>hh := a\<rparr>) (st'\<lparr>hh := a\<rparr>)"
  by (simp_all add: st_rel_def)

lemma enqueue_fields_iso:
  "st_rel R st st' \<Longrightarrow> \<forall>i \<in> set is. R (Field m v i) (Field m' w i) \<Longrightarrow>
   st_rel R (enqueue_fields m v sz is st) (enqueue_fields m' w sz is st')"
proof (induction "is" arbitrary: st st')
  case (Cons i "is")
  have len: "length (queue st') = length (queue st)" using Cons.prems(1) by (auto simp: st_rel_def dest: list_all2_lengthD)
  have "st_rel R (st\<lparr>queue := queue st @ [Field m v i]\<rparr>) (st'\<lparr>queue := queue st' @ [Field m' w i]\<rparr>)"
    using Cons.prems by (auto simp: st_rel_def intro: list_all2_appendI)
  then show ?case using Cons len by simp
qed simp

lemma mix_doubles_iso:
  "st_rel R st st' \<Longrightarrow> \<forall>i \<in> set is. same_float (Double_flat_field m v i) (Double_flat_field m' w i) \<Longrightarrow>
   st_rel R (mix_doubles m v is st) (mix_doubles m' w is st')"
proof (induction "is" arbitrary: st st')
  case (Cons i "is")
  have e: "hh st' = hh st" "num st' = num st" using Cons.prems(1) by (simp_all add: st_rel_def)
  have "caml_hash_mix_double h (Double_flat_field m v i) = caml_hash_mix_double h (Double_flat_field m' w i)" for h
    using Cons.prems(2) by (intro caml_hash_mix_double_same) simp
  then show ?case using Cons.IH Cons.prems e by (auto simp: Let_def intro: st_relI)
qed simp

lemma mix_fields_iso:
  "st_rel R st st' \<Longrightarrow> \<forall>i \<in> set is. Field m' w i = Field m v i \<Longrightarrow>
   st_rel R (mix_fields m v is st) (mix_fields m' w is st')"
proof (induction "is" arbitrary: st st')
  case (Cons i "is")
  have e: "hh st' = hh st" "num st' = num st" using Cons.prems(1) by (simp_all add: st_rel_def)
  then show ?case using Cons.IH Cons.prems by (auto intro: st_relI)
qed simp

lemma hash_value_iso:
  assumes iso: "hash_iso custom_hash m m' R" and r: "R v w" and d: "direct m v" and st: "st_rel R st st'"
  shows "rel_sum (=) (st_rel R) (hash_value custom_hash m sz v st) (hash_value custom_hash m' sz w st')"
proof -
  have e: "hh st' = hh st" "num st' = num st" using st by (simp_all add: st_rel_def)
  show ?thesis
  proof (cases "Is_long v")
    case True
    then show ?thesis using hash_isoD(1,2)[OF iso r] st e by (simp add: hash_value_def st_relI)
  next
    case False
    note w = hash_isoD[OF iso r] False
    consider (closure) "Tag_val m v = Closure_tag" | (str) "Tag_val m v = String_tag" | (dbl) "Tag_val m v = Double_tag"
      | (dbla) "Tag_val m v = Double_array_tag" | (abs) "Tag_val m v = Abstract_tag \<or> Tag_val m v = Cont_tag"
      | (obj) "Tag_val m v = Object_tag" | (custom) "Tag_val m v = Custom_tag"
      | (other) "Tag_val m v \<notin> {Closure_tag, String_tag, Double_tag, Double_array_tag, Abstract_tag, Cont_tag, Object_tag, Custom_tag, Infix_tag, Forward_tag}"
      using d False by (auto simp: direct_def)
    then show ?thesis
    proof cases
      case closure
      then show ?thesis using w e st
        by (auto simp: hash_value_def same_block_def Let_def intro!: enqueue_fields_iso mix_fields_iso st_relI(2))
    next
      case str
      then obtain bs where "string_block m v bs" "string_block m' w bs" using w by (auto simp: same_block_def)
      then show ?thesis using str w e st by (simp add: hash_value_def caml_hash_mix_string_murmur st_relI)
    next
      case dbl
      then have "same_float (Double_val m v) (Double_val m' w)" using w by (simp add: same_block_def)
      then show ?thesis using dbl w e st by (simp add: hash_value_def caml_hash_mix_double_same st_relI)
    next
      case dbla
      then show ?thesis using w st by (simp add: hash_value_def same_block_def mix_doubles_iso)
    next
      case abs
      then show ?thesis using w st by (auto simp: hash_value_def)
    next
      case obj
      then show ?thesis using w e st by (simp add: hash_value_def same_block_def st_relI)
    next
      case custom
      then show ?thesis using w e st by (simp add: hash_value_def same_block_def st_relI split: option.split)
    next
      case other
      then show ?thesis using w e st
        by (auto simp: hash_value_def same_block_def Let_def intro!: enqueue_fields_iso st_relI(2))
    qed
  qed
qed

lemma hash_loop_iso:
  assumes iso: "hash_iso custom_hash m m' R" and "st_rel R st st'"
  shows "\<exists>r. hash_loop custom_hash m sz rd st = Some r \<and> hash_loop custom_hash m' sz rd st' = Some r \<and>
    (case r of Inl e \<Rightarrow> e = Invalid_argument ''hash: mixed block value'' | Inr _ \<Rightarrow> True)"
  using assms
proof (induction custom_hash m sz rd st arbitrary: st' rule: hash_loop.induct)
  case (1 custom_hash m sz rd st)
  have e: "hh st' = hh st" "num st' = num st" "length (queue st') = length (queue st)"
    using "1.prems"(2) by (auto simp: st_rel_def dest: list_all2_lengthD)
  show ?case
  proof (cases "rd < length (queue st) \<and> num st > 0")
    case True
    have "R (queue st ! rd) (queue st' ! rd)" using True "1.prems"(2) by (simp add: st_rel_def list_all2_nthD)
    from again_iso[OF "1.prems"(1) this, of "hh st"] obtain vo wo h' where
      a: "again m (queue st ! rd) (hh st) = Some (vo, h')" "again m' (queue st' ! rd) (hh st) = Some (wo, h')"
        "rel_option (\<lambda>v w. R v w \<and> direct m v) vo wo" by blast
    have s: "st_rel R (st\<lparr>hh := h'\<rparr>) (st'\<lparr>hh := h'\<rparr>)" using "1.prems"(2) by (rule st_relI)
    show ?thesis
    proof (cases vo)
      case None
      then have "wo = None" using a(3) by simp
      then show ?thesis using "1.IH"(1)[OF True a(1)] "1.prems"(1) s a e True None
        by (simp add: hash_loop.simps[of custom_hash m sz rd st] hash_loop.simps[of custom_hash m' sz rd st'])
    next
      case (Some v)
      then obtain w where w: "wo = Some w" "R v w" "direct m v" using a(3) by (cases wo) auto
      from hash_value_iso[OF "1.prems"(1) w(2,3) s, of sz] show ?thesis
      proof (cases rule: rel_sum.cases)
        case raised: (1 x y)
        then have "x = Invalid_argument ''hash: mixed block value''"
          by (auto simp: hash_value_def Let_def split: if_splits option.splits)
        then show ?thesis using raised a e True Some w(1)
          by (simp add: hash_loop.simps[of custom_hash m sz rd st] hash_loop.simps[of custom_hash m' sz rd st'])
      next
        case (2 x y)
        then show ?thesis using "1.IH"(2)[OF True a(1) _ Some] "1.prems"(1) a e True Some w(1)
          by (simp add: hash_loop.simps[of custom_hash m sz rd st] hash_loop.simps[of custom_hash m' sz rd st'])
      qed
    qed
  qed (use e in \<open>auto simp: hash_loop.simps[of custom_hash m sz rd st] hash_loop.simps[of custom_hash m' sz rd st']\<close>)
qed

lemma fold_to_30_bits: "0 \<le> sint (Long_val (Val_int (h AND 0x3FFFFFFF)))" "sint (Long_val (Val_int (h AND 0x3FFFFFFF))) < 2 ^ 30"
proof -
  have "(0x3FFFFFFF :: 32 word) = mask 30" by (simp add: mask_eq_exp_minus_1)
  then have h: "h AND 0x3FFFFFFF = take_bit 30 h" by (simp only: take_bit_eq_mask)
  have u: "0 \<le> uint (take_bit 30 h)" "uint (take_bit 30 h) < 2 ^ 30"
    unfolding unsigned_take_bit_eq using take_bit_int_less_exp[of 30 "uint h"] by simp_all
  then have "sint (take_bit 30 h) = uint (take_bit 30 h)"
    unfolding sint_uint by (intro signed_take_bit_int_eq_self order_trans[OF _ u(1)]) simp_all
  then show "0 \<le> sint (Long_val (Val_int (h AND 0x3FFFFFFF)))" "sint (Long_val (Val_int (h AND 0x3FFFFFFF))) < 2 ^ 30"
    using h u by (simp_all add: sint_Long_val sint_Val_int)
qed

text \<open>C0: the hash depends on the structure of a value only.  On two values that are isomorphic (the
  same value before and after the collector moved it, or two copies), possibly in different
  heaps, \<open>caml_hash_exn\<close> always returns, and returns the same result: a nonnegative integer of
  30 bits, or the exception for mixed blocks.\<close>

theorem caml_hash_exn_structural:
  assumes "hash_iso custom_hash m m' R" and "R v w"
  shows "\<exists>r. caml_hash_exn custom_hash m count limit seed v = Some r \<and>
    caml_hash_exn custom_hash m' count limit seed w = Some r \<and>
    (case r of
       Inl e \<Rightarrow> e = Invalid_argument ''hash: mixed block value''
     | Inr x \<Rightarrow> Is_long x \<and> 0 \<le> sint (Long_val x) \<and> sint (Long_val x) < 2 ^ 30)"
proof -
  define sz where "sz = (if sint (Long_val limit) < 0 \<or> sint (Long_val limit) > int HASH_QUEUE_SIZE then HASH_QUEUE_SIZE
    else nat (sint (Long_val limit)))"
  let ?st = "\<lambda>x. \<lparr>hh = Int_val seed, num = sint (Long_val count), queue = [x]\<rparr>"
  have "st_rel R (?st v) (?st w)" using assms(2) by (simp add: st_rel_def)
  from hash_loop_iso[OF assms(1) this, of sz 0] obtain r where
    r: "hash_loop custom_hash m sz 0 (?st v) = Some r" "hash_loop custom_hash m' sz 0 (?st w) = Some r"
      "case r of Inl e \<Rightarrow> e = Invalid_argument ''hash: mixed block value'' | Inr _ \<Rightarrow> True" by blast
  let ?r = "map_result (\<lambda>h. Val_int (FINAL_MIX h AND 0x3FFFFFFF)) r"
  have "caml_hash_exn custom_hash m count limit seed v = Some ?r" "caml_hash_exn custom_hash m' count limit seed w = Some ?r"
    unfolding caml_hash_exn_def Let_def sz_def[symmetric] r(1,2) by simp_all
  moreover have "case ?r of
       Inl e \<Rightarrow> e = Invalid_argument ''hash: mixed block value''
     | Inr x \<Rightarrow> Is_long x \<and> 0 \<le> sint (Long_val x) \<and> sint (Long_val x) < 2 ^ 30"
    using r(3) fold_to_30_bits by (cases r) (simp_all del: power_numeral)
  ultimately show ?thesis by blast
qed

text \<open>A string in one heap and its copy at another address in another heap.\<close>

definition moved :: "mlvalue \<Rightarrow> mlvalue \<Rightarrow> bool" where
  "moved v w \<longleftrightarrow> v = 0x1008 \<and> w = 0x2008 \<or> Is_long v \<and> w = v"

lemma moved_iso: "hash_iso (\<lambda>_ _. None) (layout_string (\<lambda>_. 0) 0x1000 [97, 98, 99]) example_mem moved"
proof -
  let ?m = "layout_string (\<lambda>_. 0) 0x1000 [97, 98, 99]"
  have s: "string_block ?m 0x1008 [97, 98, 99]"
    using layout_string_block[where bs = "[97, 98, 99]" and m = "\<lambda>_. 0" and a = "0x1000"] by simp
  then have "Tag_val ?m 0x1008 = String_tag" "Tag_val example_mem 0x2008 = String_tag"
    using example_strings(2) by (simp_all add: string_block_def)
  moreover have "\<not> Is_long 0x1008" "Is_block 0x2008" by (simp_all add: Is_long_def Is_block_def)
  ultimately show ?thesis
    using s example_strings(2) unfolding hash_iso_def moved_def same_block_def by auto
qed

theorem caml_hash_exn_structural_witness:
  "moved 0x1008 0x2008 \<and>
   (\<exists>r. caml_hash_exn (\<lambda>_ _. None) (layout_string (\<lambda>_. 0) 0x1000 [97, 98, 99]) (Val_int 10) (Val_int 100) (Val_int 0) 0x1008 = Some r \<and>
      caml_hash_exn (\<lambda>_ _. None) example_mem (Val_int 10) (Val_int 100) (Val_int 0) 0x2008 = Some r)"
proof -
  have m: "moved 0x1008 0x2008" by (simp add: moved_def)
  show ?thesis using caml_hash_exn_structural[OF moved_iso m, of "Val_int 10" "Val_int 100" "Val_int 0"] m by auto
qed

subsection \<open>Variant tags\<close>

lemma hash_variant_loop_eq:
  "hash_variant_loop (Val_int a) tag = Val_int (foldl (\<lambda>a c. 223 * a + ucast c) a tag)"
  by (induction tag arbitrary: a) simp_all

lemma foldl_word_of_int:
  "foldl (\<lambda>a c. 223 * a + ucast c) (word_of_int a :: 32 word) tag = word_of_int (foldl (\<lambda>a c. 223 * a + uint c) a tag)"
proof (induction tag arbitrary: a)
  case (Cons c tag)
  have "223 * word_of_int a + ucast c = (word_of_int (223 * a + uint c) :: 32 word)"
    by (simp only: of_int_add of_int_mult of_int_numeral ucast_eq)
  then show ?case using Cons[of "223 * a + uint c"] by simp
qed simp

text \<open>C0: the tag of a polymorphic variant is the same in the runtime and in the compiler: the 32-bit
  wrap-around of the loop, the mask and the sign extension compute the 31-bit hash of
  \<open>typing/btype.ml\<close>.\<close>

theorem caml_hash_variant_agrees_with_compiler:
  "Is_long (caml_hash_variant tag) \<and> sint (Long_val (caml_hash_variant tag)) = hash_variant tag"
proof -
  define A where "A = foldl (\<lambda>a c. 223 * a + uint c) 0 tag"
  define y where "y = A mod 2 ^ 31"
  have y: "0 \<le> y" "y < 2 ^ 31" by (simp_all add: y_def)
  have v: "hash_variant_loop (Val_int 0) tag = Val_int (word_of_int A)"
    using hash_variant_loop_eq[of 0 tag] foldl_word_of_int[of 0 tag] by (simp add: A_def)
  have "Val_long 0x7FFFFFFF = mask 32" by (simp add: Val_long_def mask_eq_exp_minus_1)
  then have "ucast (Val_int (word_of_int A) AND Val_long 0x7FFFFFFF) = (ucast (Val_int (word_of_int A)) :: 32 word)"
    by (intro bit_word_eqI) (simp add: bit_ucast_iff bit_and_iff bit_mask_iff)
  also have "\<dots> = word_of_int (2 * A + 1)"
  proof -
    have "Val_int (word_of_int A) = word_of_int (2 * sint (word_of_int A :: 32 word) + 1)"
      using arg_cong[OF sint_Val_int[of "word_of_int A"], of "word_of_int :: int \<Rightarrow> 64 word"] by simp
    then have "ucast (Val_int (word_of_int A)) = (word_of_int (2 * sint (word_of_int A :: 32 word) + 1) :: 32 word)"
      by (simp only: ucast_word_of_int_32)
    also have "\<dots> = 2 * word_of_int (sint (word_of_int A :: 32 word)) + 1"
      by (simp only: of_int_add of_int_mult of_int_numeral of_int_1)
    finally show ?thesis by simp
  qed
  finally have r: "caml_hash_variant tag = scast (word_of_int (2 * A + 1) :: 32 word)"
    using v by (simp add: caml_hash_variant_def Let_def)
  have "sint (word_of_int (2 * A + 1) :: 32 word) = (2 * A + 1 + 2 ^ 31) mod 2 ^ 32 - 2 ^ 31"
    unfolding signed_of_int signed_take_bit_eq_take_bit_shift take_bit_eq_mod by simp
  also have "(2 * A + 1 + 2 ^ 31) mod 2 ^ 32 = (2 * y + 1 + 2 ^ 31) mod 2 ^ 32"
    unfolding y_def by (simp add: mult_mod_right mod_simps)
  also have "\<dots> = (if y < 2 ^ 30 then 2 * y + 1 + 2 ^ 31 else 2 * y + 1 - 2 ^ 31)"
  proof (cases "y < 2 ^ 30")
    case False
    have "(2 * y + 1 + 2 ^ 31) mod 2 ^ 32 = (2 * y + 1 + 2 ^ 31 - 2 ^ 32) mod 2 ^ 32" by (simp only: minus_mod_self2)
    then show ?thesis using y False by (simp add: mod_pos_pos_trivial)
  qed (use y in \<open>simp add: mod_pos_pos_trivial\<close>)
  finally have s: "sint (caml_hash_variant tag) = (if y < 2 ^ 30 then 2 * y + 1 else 2 * y + 1 - 2 ^ 32)"
    unfolding r by (simp add: sint_up_scast is_up)
  have "Is_long (caml_hash_variant tag)"
  proof -
    have "odd (sint (caml_hash_variant tag))" unfolding s by simp
    then show ?thesis unfolding Is_long_iff_odd using bit_sint_iff[of "caml_hash_variant tag" 0] by (simp add: bit_0)
  qed
  moreover have "sint (Long_val (caml_hash_variant tag)) = (if y < 2 ^ 30 then y else y - 2 ^ 31)"
    unfolding sint_Long_val s by (simp, presburger)
  moreover have "hash_variant tag = (if y < 2 ^ 30 then y else y - 2 ^ 31)"
    unfolding hash_variant_def A_def[symmetric] y_def[symmetric] Let_def by simp
  ultimately show ?thesis by simp
qed

end
