(* ===== verification/Compare.thy ===== *)
theory Compare
  imports Hash "HOL-Library.Sorting_Algorithms"
begin

text \<open>
  Polymorphic comparison, \<open>runtime/compare.c\<close>.  The comparison functions of custom blocks are
  parameters.  Polling for signals and for the collector, which does not change the values
  compared, is left out.
\<close>

unbundle bit_operations_syntax

section \<open>Floating-point comparisons\<close>

text \<open>The order of the numbers that bit patterns denote, NaN being incomparable.\<close>

definition double_magnitude :: "64 word \<Rightarrow> int" where
  "double_magnitude d = (if bit d 63 then - uint (take_bit 63 d) else uint (take_bit 63 d))"

definition double_lt :: "64 word \<Rightarrow> 64 word \<Rightarrow> bool" where
  "double_lt d1 d2 \<longleftrightarrow> \<not> is_nan d1 \<and> \<not> is_nan d2 \<and> double_magnitude d1 < double_magnitude d2"

definition double_eq :: "64 word \<Rightarrow> 64 word \<Rightarrow> bool" where
  "double_eq d1 d2 \<longleftrightarrow> \<not> is_nan d1 \<and> \<not> is_nan d2 \<and> double_magnitude d1 = double_magnitude d2"

section \<open>The comparison stack\<close>

record compare_item =
  item_v1 :: mlvalue
  item_v2 :: mlvalue
  item_offset :: nat
  item_size :: nat

abbreviation COMPARE_STACK_INIT_SIZE :: nat where "COMPARE_STACK_INIT_SIZE \<equiv> 8"
abbreviation COMPARE_STACK_MIN_ALLOC_SIZE :: nat where "COMPARE_STACK_MIN_ALLOC_SIZE \<equiv> 32"
abbreviation COMPARE_STACK_MAX_SIZE :: nat where "COMPARE_STACK_MAX_SIZE \<equiv> 1024 * 1024"

text \<open>The stack holds \<open>limit\<close> items; \<open>alloc_ok\<close> says which allocations succeed.\<close>

definition compare_resize_stack :: "(nat \<Rightarrow> bool) \<Rightarrow> nat \<Rightarrow> nat result" where
  "compare_resize_stack alloc_ok limit =
     (if limit = COMPARE_STACK_INIT_SIZE then
        (let newsize = COMPARE_STACK_MIN_ALLOC_SIZE
         in if \<not> alloc_ok newsize then Inl Out_of_memory else Inr newsize)
      else
        (let newsize = 2 * limit
         in if newsize \<ge> COMPARE_STACK_MAX_SIZE then Inl Out_of_memory
            else if \<not> alloc_ok newsize then Inl Out_of_memory else Inr newsize))"

section \<open>One round of the comparison\<close>

text \<open>Custom blocks: the name and the comparison functions (numbers stand for code pointers), and
  what a call returns, with the flag \<open>compare_unordered\<close>.\<close>

record custom_operations =
  custom_identifier :: bytes
  custom_compare :: "nat option"
  custom_compare_ext :: "nat option"

record environment =
  custom_ops :: "mem \<Rightarrow> mlvalue \<Rightarrow> custom_operations"
  call_compare :: "nat \<Rightarrow> mem \<Rightarrow> mlvalue \<Rightarrow> mlvalue \<Rightarrow> int32 \<times> bool"
  alloc_ok :: "nat \<Rightarrow> bool"

abbreviation LESS :: intnat where "LESS \<equiv> - 1"
abbreviation EQUAL :: intnat where "EQUAL \<equiv> 0"
abbreviation GREATER :: intnat where "GREATER \<equiv> 1"
definition UNORDERED :: intnat where "UNORDERED = push_bit 63 1"

text \<open>How a round ends: another pair of values to compare, the next item of the stack, a result, an
  exception.\<close>

datatype outcome =
    Again mlvalue mlvalue "compare_item list" nat
  | Next_item "compare_item list" nat
  | Return intnat
  | Raise exn

text \<open>A call to a comparison function of a custom block.\<close>

definition compare_custom ::
  "environment \<Rightarrow> mem \<Rightarrow> bool \<Rightarrow> nat \<Rightarrow> mlvalue \<Rightarrow> mlvalue \<Rightarrow> compare_item list \<Rightarrow> nat \<Rightarrow> outcome" where
  "compare_custom env m tot f v1 v2 stk limit =
     (let (res, unordered) = call_compare env f m v1 v2
      in if unordered \<and> \<not> tot then Return UNORDERED
         else if res \<noteq> 0 then Return (scast res)
         else Next_item stk limit)"

text \<open>The comparison of two floating-point numbers; \<open>None\<close> when they are equal.\<close>

definition compare_doubles :: "bool \<Rightarrow> 64 word \<Rightarrow> 64 word \<Rightarrow> intnat option" where
  "compare_doubles tot d1 d2 =
     (if double_lt d1 d2 then Some LESS
      else if double_lt d2 d1 then Some GREATER
      else if \<not> double_eq d1 d2 then
        (if \<not> tot then Some UNORDERED
         else if double_eq d1 d1 then Some GREATER
         else if double_eq d2 d2 then Some LESS
         else None)
      else None)"

fun compare_double_fields :: "mem \<Rightarrow> bool \<Rightarrow> mlvalue \<Rightarrow> mlvalue \<Rightarrow> nat list \<Rightarrow> intnat option" where
  "compare_double_fields m tot v1 v2 [] = None"
| "compare_double_fields m tot v1 v2 (i # is) =
     (case compare_doubles tot (Double_flat_field m v1 i) (Double_flat_field m v2 i) of
        Some r \<Rightarrow> Some r
      | None \<Rightarrow> compare_double_fields m tot v1 v2 is)"

text \<open>Blocks with fields: sizes first, then the first field, the others being left on the stack.\<close>

definition compare_fields ::
  "environment \<Rightarrow> mem \<Rightarrow> mlvalue \<Rightarrow> mlvalue \<Rightarrow> compare_item list \<Rightarrow> nat \<Rightarrow> outcome" where
  "compare_fields env m v1 v2 stk limit =
     (let sz1 = Allocated_wosize_val m v1; sz2 = Allocated_wosize_val m v2
      in if sz1 \<noteq> sz2 then Return (sz1 - sz2)
         else if sz1 = 0 then Next_item stk limit
         else if sz1 > 1 then
           (case (if length stk \<ge> limit then compare_resize_stack (alloc_ok env) limit else Inr limit) of
              Inl e \<Rightarrow> Raise e
            | Inr limit' \<Rightarrow>
                Again (Field m v1 0) (Field m v2 0)
                  (\<lparr>item_v1 = v1, item_v2 = v2, item_offset = 1, item_size = unat sz1\<rparr> # stk) limit')
         else Again (Field m v1 0) (Field m v2 0) stk limit)"

definition compare_blocks ::
  "environment \<Rightarrow> mem \<Rightarrow> bool \<Rightarrow> mlvalue \<Rightarrow> mlvalue \<Rightarrow> byte \<Rightarrow> compare_item list \<Rightarrow> nat \<Rightarrow> outcome" where
  "compare_blocks env m tot v1 v2 t1 stk limit =
     (if t1 = Forward_tag then Again (Forward_val m v1) (Forward_val m v2) stk limit
      else if t1 = String_tag then
        (if v1 = v2 then Next_item stk limit
         else
           (let len1 = caml_string_length m v1; len2 = caml_string_length m v2;
                n = unat (if len1 \<le> len2 then len1 else len2);
                res = memcmp (load_bytes m v1 n) (load_bytes m v2 n)
            in if res < 0 then Return LESS
               else if res > 0 then Return GREATER
               else if len1 \<noteq> len2 then Return (len1 - len2)
               else Next_item stk limit))
      else if t1 = Double_tag then
        (case compare_doubles tot (Double_val m v1) (Double_val m v2) of
           Some r \<Rightarrow> Return r
         | None \<Rightarrow> Next_item stk limit)
      else if t1 = Double_array_tag then
        (let sz1 = Allocated_wosize_val m v1; sz2 = Allocated_wosize_val m v2
         in if sz1 \<noteq> sz2 then Return (sz1 - sz2)
            else
              (case compare_double_fields m tot v1 v2 [0..<unat sz1] of
                 Some r \<Rightarrow> Return r
               | None \<Rightarrow> Next_item stk limit))
      else if t1 = Abstract_tag then Raise (Invalid_argument ''compare: abstract value'')
      else if t1 = Closure_tag \<or> t1 = Infix_tag then Raise (Invalid_argument ''compare: functional value'')
      else if t1 = Cont_tag then Raise (Invalid_argument ''compare: continuation value'')
      else if t1 = Object_tag then
        (let oid1 = Oid_val m v1; oid2 = Oid_val m v2
         in if oid1 \<noteq> oid2 then Return (oid1 - oid2) else Next_item stk limit)
      else if t1 = Custom_tag then
        (let ops1 = custom_ops env m v1; ops2 = custom_ops env m v2
         in if custom_compare ops1 \<noteq> custom_compare ops2 then
              Return (if ord_class.lexordp (custom_identifier ops1) (custom_identifier ops2) then LESS else GREATER)
            else
              (case custom_compare ops1 of
                 None \<Rightarrow> Raise (Invalid_argument ''compare: abstract value'')
               | Some f \<Rightarrow> compare_custom env m tot f v1 v2 stk limit))
      else compare_fields env m v1 v2 stk limit)"

definition compare_values ::
  "environment \<Rightarrow> mem \<Rightarrow> bool \<Rightarrow> mlvalue \<Rightarrow> mlvalue \<Rightarrow> compare_item list \<Rightarrow> nat \<Rightarrow> outcome" where
  "compare_values env m tot v1 v2 stk limit =
     (if v1 = v2 \<and> tot then Next_item stk limit
      else if Is_long v1 then
        (if v1 = v2 then Next_item stk limit
         else if Is_long v2 then Return (Long_val v1 - Long_val v2)
         else if Tag_val m v2 = Forward_tag then Again v1 (Forward_val m v2) stk limit
         else
           (case (if Tag_val m v2 = Custom_tag then custom_compare_ext (custom_ops env m v2) else None) of
              Some f \<Rightarrow> compare_custom env m tot f v1 v2 stk limit
            | None \<Rightarrow> Return LESS))
      else if Is_long v2 then
        (if Tag_val m v1 = Forward_tag then Again (Forward_val m v1) v2 stk limit
         else
           (case (if Tag_val m v1 = Custom_tag then custom_compare_ext (custom_ops env m v1) else None) of
              Some f \<Rightarrow> compare_custom env m tot f v1 v2 stk limit
            | None \<Rightarrow> Return GREATER))
      else
        (let t1 = Tag_val m v1; t2 = Tag_val m v2
         in if t1 \<noteq> t2 \<and> t1 = Forward_tag then Again (Forward_val m v1) v2 stk limit
            else if t1 \<noteq> t2 \<and> t2 = Forward_tag then Again v1 (Forward_val m v2) stk limit
            else
              (let t1 = (if t1 \<noteq> t2 \<and> t1 = Infix_tag then Closure_tag else t1);
                   t2 = (if Tag_val m v1 \<noteq> t2 \<and> t2 = Infix_tag then Closure_tag else t2)
               in if t1 \<noteq> t2 then Return (ucast t1 - ucast t2)
                  else if Is_mixed_block_reserved (Reserved_val m v1) \<or> Is_mixed_block_reserved (Reserved_val m v2) then
                    Raise (Invalid_argument ''compare: mixed block value'')
                  else compare_blocks env m tot v1 v2 t1 stk limit)))"

text \<open>The label \<open>next_item\<close>.\<close>

definition next_item :: "mem \<Rightarrow> compare_item list \<Rightarrow> nat \<Rightarrow> outcome" where
  "next_item m stk limit =
     (case stk of
        [] \<Rightarrow> Return EQUAL
      | item # stk' \<Rightarrow>
          (let v1 = Field m (item_v1 item) (item_offset item);
               v2 = Field m (item_v2 item) (item_offset item);
               item = item\<lparr>item_offset := item_offset item + 1\<rparr>
           in Again v1 v2 (if item_offset item = item_size item then stk' else item # stk') limit))"

fun round_of :: "environment \<Rightarrow> mem \<Rightarrow> bool \<Rightarrow> outcome \<Rightarrow> outcome" where
  "round_of env m tot (Again v1 v2 stk limit) = compare_values env m tot v1 v2 stk limit"
| "round_of env m tot (Next_item stk limit) = next_item m stk limit"
| "round_of env m tot out = out"

fun finished :: "outcome \<Rightarrow> intnat result option" where
  "finished (Return r) = Some (Inr r)"
| "finished (Raise e) = Some (Inl e)"
| "finished _ = None"

partial_function (option) compare_loop :: "environment \<Rightarrow> mem \<Rightarrow> bool \<Rightarrow> outcome \<Rightarrow> intnat result option" where
  "compare_loop env m tot out =
     (case finished out of
        Some r \<Rightarrow> Some r
      | None \<Rightarrow> compare_loop env m tot (round_of env m tot out))"

lemma compare_loop_done [simp]:
  "compare_loop env m tot (Return r) = Some (Inr r)"
  "compare_loop env m tot (Raise e) = Some (Inl e)"
  by (subst compare_loop.simps, simp)+

lemma compare_loop_Again:
  "compare_loop env m tot (Again v1 v2 stk limit) = compare_loop env m tot (compare_values env m tot v1 v2 stk limit)"
  by (subst compare_loop.simps, simp)

lemma compare_loop_Next_item:
  "compare_loop env m tot (Next_item stk limit) = compare_loop env m tot (next_item m stk limit)"
  by (subst compare_loop.simps, simp)

definition do_compare_val :: "environment \<Rightarrow> mem \<Rightarrow> bool \<Rightarrow> mlvalue \<Rightarrow> mlvalue \<Rightarrow> nat \<Rightarrow> intnat result option" where
  "do_compare_val env m tot v1 v2 limit = compare_loop env m tot (Again v1 v2 [] limit)"

definition compare_val :: "environment \<Rightarrow> mem \<Rightarrow> mlvalue \<Rightarrow> mlvalue \<Rightarrow> bool \<Rightarrow> intnat result option" where
  "compare_val env m v1 v2 tot = do_compare_val env m tot v1 v2 COMPARE_STACK_INIT_SIZE"

definition caml_compare :: "environment \<Rightarrow> mem \<Rightarrow> mlvalue \<Rightarrow> mlvalue \<Rightarrow> mlvalue result option" where
  "caml_compare env m v1 v2 =
     map_option (map_result (\<lambda>res.
       if sint res < 0 then Val_int (- 1) else if sint res > 0 then Val_int 1 else Val_int 0))
       (compare_val env m v1 v2 True)"

definition caml_equal :: "environment \<Rightarrow> mem \<Rightarrow> mlvalue \<Rightarrow> mlvalue \<Rightarrow> mlvalue result option" where
  "caml_equal env m v1 v2 =
     map_option (map_result (\<lambda>res. Val_bool (res = 0))) (compare_val env m v1 v2 False)"

definition caml_notequal :: "environment \<Rightarrow> mem \<Rightarrow> mlvalue \<Rightarrow> mlvalue \<Rightarrow> mlvalue result option" where
  "caml_notequal env m v1 v2 =
     map_option (map_result (\<lambda>res. Val_bool (res \<noteq> 0))) (compare_val env m v1 v2 False)"

definition caml_lessthan :: "environment \<Rightarrow> mem \<Rightarrow> mlvalue \<Rightarrow> mlvalue \<Rightarrow> mlvalue result option" where
  "caml_lessthan env m v1 v2 =
     map_option (map_result (\<lambda>res. Val_bool (sint res < 0 \<and> res \<noteq> UNORDERED))) (compare_val env m v1 v2 False)"

definition caml_lessequal :: "environment \<Rightarrow> mem \<Rightarrow> mlvalue \<Rightarrow> mlvalue \<Rightarrow> mlvalue result option" where
  "caml_lessequal env m v1 v2 =
     map_option (map_result (\<lambda>res. Val_bool (sint res \<le> 0 \<and> res \<noteq> UNORDERED))) (compare_val env m v1 v2 False)"

definition caml_greaterthan :: "environment \<Rightarrow> mem \<Rightarrow> mlvalue \<Rightarrow> mlvalue \<Rightarrow> mlvalue result option" where
  "caml_greaterthan env m v1 v2 =
     map_option (map_result (\<lambda>res. Val_bool (sint res > 0))) (compare_val env m v1 v2 False)"

definition caml_greaterequal :: "environment \<Rightarrow> mem \<Rightarrow> mlvalue \<Rightarrow> mlvalue \<Rightarrow> mlvalue result option" where
  "caml_greaterequal env m v1 v2 =
     map_option (map_result (\<lambda>res. Val_bool (sint res \<ge> 0))) (compare_val env m v1 v2 False)"

section \<open>Comparison of data\<close>

text \<open>Data without functions, abstract values and custom blocks, as trees.\<close>

datatype data =
    DInt int
  | DBlock byte "data list"
  | DString bytes
  | DDouble "64 word"
  | DDoubles "64 word list"
  | DObject int

text \<open>The result of a three-way comparison; \<open>None\<close> for values that are not ordered.\<close>

definition order :: "'a::linorder \<Rightarrow> 'a \<Rightarrow> comp" where
  "order a b = (if a < b then Less else if a = b then Equiv else Greater)"

text \<open>NaN is equal to itself and below all other numbers.\<close>

definition double_key :: "64 word \<Rightarrow> int" where
  "double_key d = (if is_nan d then - (2 ^ 63) else double_magnitude d)"

definition double_order :: "bool \<Rightarrow> 64 word \<Rightarrow> 64 word \<Rightarrow> comp option" where
  "double_order tot d1 d2 =
     (if \<not> tot \<and> (is_nan d1 \<or> is_nan d2) then None else Some (order (double_key d1) (double_key d2)))"

definition string_order :: "bytes \<Rightarrow> bytes \<Rightarrow> comp" where
  "string_order a b = (if ord_class.lexordp a b then Less else if a = b then Equiv else Greater)"

definition then_compare :: "comp option \<Rightarrow> comp option \<Rightarrow> comp option" where
  "then_compare c d = (if c = Some Equiv then d else c)"

fun doubles_order :: "bool \<Rightarrow> 64 word list \<Rightarrow> 64 word list \<Rightarrow> comp option" where
  "doubles_order tot (x # xs) (y # ys) = then_compare (double_order tot x y) (doubles_order tot xs ys)"
| "doubles_order tot _ _ = Some Equiv"

text \<open>Data of different kinds compare by their tags, integers being below all blocks.\<close>

fun data_tag :: "data \<Rightarrow> int" where
  "data_tag (DInt _) = - 1"
| "data_tag (DBlock t _) = uint t"
| "data_tag (DString _) = uint String_tag"
| "data_tag (DDouble _) = uint Double_tag"
| "data_tag (DDoubles _) = uint Double_array_tag"
| "data_tag (DObject _) = uint Object_tag"

definition data_rank :: "data \<Rightarrow> int" where
  "data_rank t = 2 * data_tag t + (case t of DBlock _ _ \<Rightarrow> 0 | _ \<Rightarrow> 1)"

fun data_compare :: "bool \<Rightarrow> data \<Rightarrow> data \<Rightarrow> comp option"
  and list_compare :: "bool \<Rightarrow> data list \<Rightarrow> data list \<Rightarrow> comp option" where
  "data_compare tot (DInt a) (DInt b) = Some (order a b)"
| "data_compare tot (DString a) (DString b) = Some (string_order a b)"
| "data_compare tot (DDouble a) (DDouble b) = double_order tot a b"
| "data_compare tot (DDoubles a) (DDoubles b) =
     then_compare (Some (order (length a) (length b))) (doubles_order tot a b)"
| "data_compare tot (DObject a) (DObject b) = Some (order a b)"
| "data_compare tot (DBlock s a) (DBlock t b) =
     then_compare (Some (order (uint s) (uint t)))
       (then_compare (Some (order (length a) (length b))) (list_compare tot a b))"
| "data_compare tot a b = Some (order (data_rank a) (data_rank b))"
| "list_compare tot (x # xs) (y # ys) =
     (case data_compare tot x y of Some Equiv \<Rightarrow> list_compare tot xs ys | c \<Rightarrow> c)"
| "list_compare tot _ _ = Some Equiv"

text \<open>The value \<open>v\<close> of the heap is the tree \<open>t\<close>, behind \<open>n\<close> forwarding blocks.\<close>

definition plain_block :: "mem \<Rightarrow> mlvalue \<Rightarrow> byte \<Rightarrow> bool" where
  "plain_block m v t \<longleftrightarrow> \<not> Is_long v \<and> Tag_val m v = t \<and> \<not> Is_mixed_block_reserved (Reserved_val m v)"

definition fields_tag :: "byte \<Rightarrow> bool" where
  "fields_tag t \<longleftrightarrow>
     t \<notin> {Forward_tag, String_tag, Double_tag, Double_array_tag, Abstract_tag, Closure_tag, Infix_tag, Cont_tag, Object_tag, Custom_tag}"

inductive represents :: "mem \<Rightarrow> nat \<Rightarrow> mlvalue \<Rightarrow> data \<Rightarrow> bool" for m where
  Int: "Is_long v \<Longrightarrow> represents m 0 v (DInt (sint (Long_val v)))"
| Forward: "plain_block m v Forward_tag \<Longrightarrow> represents m n (Forward_val m v) t \<Longrightarrow> represents m (Suc n) v t"
| Block: "plain_block m v t \<Longrightarrow> fields_tag t \<Longrightarrow> unat (Allocated_wosize_val m v) = length ts \<Longrightarrow>
    (\<And>i. i < length ts \<Longrightarrow> \<exists>n. represents m n (Field m v i) (ts ! i)) \<Longrightarrow> represents m 0 v (DBlock t ts)"
| String: "plain_block m v String_tag \<Longrightarrow> string_block m v bs \<Longrightarrow> represents m 0 v (DString bs)"
| Double: "plain_block m v Double_tag \<Longrightarrow> represents m 0 v (DDouble (Double_val m v))"
| Doubles: "plain_block m v Double_array_tag \<Longrightarrow>
    represents m 0 v (DDoubles (map (Double_flat_field m v) [0..<unat (Allocated_wosize_val m v)]))"
| Object: "plain_block m v Object_tag \<Longrightarrow> represents m 0 v (DObject (sint (Oid_val m v)))"

text \<open>A result of the comparison, classified.\<close>

definition verdict :: "intnat \<Rightarrow> comp option" where
  "verdict res = (if res = UNORDERED then None else Some (order (sint res) 0))"

end
