(* ===== verification/Compare_Correct.thy ===== *)
theory Compare_Correct
  imports Compare
begin

text \<open>
  Polymorphic comparison is correct: each round against the comparison of trees, the loop with
  its stack, and the order on trees, an instance of the library's comparators, as the
  lexicographic order of traversals.
\<close>

unbundle bit_operations_syntax

section \<open>Results\<close>

lemma order_simps [simp]:
  "order a b = Less \<longleftrightarrow> a < b" "order a b = Equiv \<longleftrightarrow> a = b" "order a b = Greater \<longleftrightarrow> b < a"
  by (auto simp: order_def)

lemma verdict_sub:
  assumes "- (2 ^ 62) \<le> sint a" "sint a < 2 ^ 62" "- (2 ^ 62) \<le> sint b" "sint b < 2 ^ 62"
  shows "verdict (a - b) = Some (order (sint a) (sint b))"
proof -
  have s: "sint (a - b) = sint a - sint b"
    using assms unfolding sint_word_ariths by (intro signed_take_bit_int_eq_self) simp_all
  moreover have "sint UNORDERED = - (2 ^ 63)" by (simp add: UNORDERED_def)
  ultimately have "a - b \<noteq> UNORDERED" using assms by auto
  then show ?thesis using s by (auto simp: verdict_def order_def)
qed

lemma verdict_const [simp]: "verdict LESS = Some Less" "verdict EQUAL = Some Equiv" "verdict GREATER = Some Greater"
  "verdict UNORDERED = None"
  by (simp_all add: verdict_def UNORDERED_def order_def)

lemma sint_small: "uint (a :: 64 word) < 2 ^ 62 \<Longrightarrow> sint a = uint a"
  unfolding sint_uint by (intro signed_take_bit_int_eq_self order_trans[OF _ unsigned_greater_eq]) simp_all

lemma verdict_sub_unsigned:
  assumes "uint a < 2 ^ 62" "uint b < 2 ^ 62"
  shows "verdict (a - b) = Some (order (uint a) (uint b))"
proof -
  have "- (2 ^ 62) \<le> uint a" "- (2 ^ 62) \<le> uint b" by (rule order_trans[OF _ unsigned_greater_eq]; simp)+
  then show ?thesis using verdict_sub[of a b] assms by (simp add: sint_small)
qed

lemma order_nat_int: "order (int a) (int b) = order a b"
  by (simp add: order_def)

lemma verdict_sub_nat:
  assumes "unat a < 2 ^ 62" "unat b < 2 ^ 62"
  shows "verdict (a - b) = Some (order (unat a) (unat b))"
proof -
  have "uint a = int (unat a)" "uint b = int (unat b)" by simp_all
  moreover have "int (unat a) < 2 ^ 62" "int (unat b) < 2 ^ 62" using assms by (metis of_nat_less_numeral_power_cancel_iff)+
  ultimately show ?thesis using verdict_sub_unsigned[of a b] by (simp only: order_nat_int)
qed

lemma verdict_Long_val: "verdict (Long_val v1 - Long_val v2) = Some (order (sint (Long_val v1)) (sint (Long_val v2)))"
  using fits_long_Long_val by (intro verdict_sub) (auto simp: fits_long_iff)

lemma verdict_tags: "verdict (ucast (t1 :: byte) - ucast (t2 :: byte)) = Some (order (uint t1) (uint t2))"
proof -
  have "uint (ucast t :: 64 word) = uint t" for t :: byte by (simp add: uint_up_ucast is_up)
  moreover have "uint t < 2 ^ 62" for t :: byte using uint_lt2p[of t] by simp
  ultimately show ?thesis using verdict_sub_unsigned[of "ucast t1" "ucast t2"] by simp
qed

lemma double_key_bound: "\<not> is_nan d \<Longrightarrow> - (2 ^ 63) < double_key d"
proof -
  define u where "u = uint (take_bit 63 d)"
  have "u < 2 ^ 63" "0 \<le> u"
    unfolding u_def unsigned_take_bit_eq using take_bit_int_less_exp[of 63 "uint d"] by simp_all
  then show "\<not> is_nan d \<Longrightarrow> - (2 ^ 63) < double_key d"
    unfolding double_key_def double_magnitude_def u_def[symmetric] by simp
qed

lemma compare_doubles_order:
  "(case compare_doubles tot d1 d2 of Some r \<Rightarrow> verdict r = double_order tot d1 d2 \<and> double_order tot d1 d2 \<noteq> Some Equiv
    | None \<Rightarrow> double_order tot d1 d2 = Some Equiv)"
  using double_key_bound[of d1] double_key_bound[of d2]
  by (cases "is_nan d1"; cases "is_nan d2")
    (auto simp: compare_doubles_def double_lt_def double_eq_def double_order_def double_key_def order_def)

lemma compare_double_fields_order:
  assumes "length xs = length is" "length ys = length is"
    "\<And>j. j < length is \<Longrightarrow> xs ! j = Double_flat_field m v1 (is ! j) \<and> ys ! j = Double_flat_field m v2 (is ! j)"
  shows "(case compare_double_fields m tot v1 v2 is of
      Some r \<Rightarrow> verdict r = doubles_order tot xs ys \<and> doubles_order tot xs ys \<noteq> Some Equiv
    | None \<Rightarrow> doubles_order tot xs ys = Some Equiv)"
  using assms
proof (induction "is" arbitrary: xs ys)
  case (Cons i "is")
  obtain x xs' y ys' where xy: "xs = x # xs'" "ys = y # ys'" using Cons.prems(1,2) by (cases xs; cases ys) auto
  have h: "x = Double_flat_field m v1 i" "y = Double_flat_field m v2 i" using Cons.prems(3)[of 0] xy by auto
  have "xs' ! j = Double_flat_field m v1 (is ! j) \<and> ys' ! j = Double_flat_field m v2 (is ! j)" if "j < length is" for j
    using Cons.prems(3)[of "Suc j"] that xy by auto
  then show ?case
    using Cons.IH[of xs' ys'] Cons.prems(1,2) compare_doubles_order[of tot x y] xy h
    by (auto simp: then_compare_def split: option.splits)
qed simp

lemma string_order_memcmp:
  assumes "n = min (length a) (length b)"
  shows "string_order a b =
    (let r = memcmp (take n a) (take n b) in if r < 0 then Less else if r > 0 then Greater else order (length a) (length b))"
proof -
  let ?r = "memcmp (take n a) (take n b)"
  have "ord_class.lexordp a b \<longleftrightarrow> ?r < 0 \<or> ?r = 0 \<and> length a < length b"
    using memcmp_lexordp[of a b] assms by (simp add: Let_def)
  moreover have "a = b \<longleftrightarrow> ?r = 0 \<and> length a = length b"
    using memcmp_eq_0[of a b] memcmp_eq_0[of b b] assms by auto
  ultimately show ?thesis using memcmp_range[of "take n a" "take n b"] by (auto simp: string_order_def Let_def order_def)
qed

text \<open>How a round settles a comparison with outcome \<open>c\<close>.\<close>

definition settles :: "comp option \<Rightarrow> outcome \<Rightarrow> compare_item list \<Rightarrow> nat \<Rightarrow> bool" where
  "settles c out stk limit \<longleftrightarrow>
     (if c = Some Equiv then out = Next_item stk limit else \<exists>r. out = Return r \<and> verdict r = c)"

lemma settles_Return: "verdict r = c \<Longrightarrow> c \<noteq> Some Equiv \<Longrightarrow> settles c (Return r) stk limit"
  by (simp add: settles_def)

lemma compare_string_settles:
  assumes "plain_block m v1 String_tag" "plain_block m v2 String_tag" "string_block m v1 a" "string_block m v2 b"
  shows "settles (Some (string_order a b)) (compare_blocks env m tot v1 v2 String_tag stk limit) stk limit"
proof (cases "v1 = v2")
  case True
  then have "a = b" using string_block_unique assms(3,4) by blast
  then show ?thesis using True by (simp add: compare_blocks_def settles_def string_order_def lexordp_irreflexive')
next
  case False
  let ?l1 = "caml_string_length m v1" and ?l2 = "caml_string_length m v2" and ?n = "min (length a) (length b)"
  have u: "unat ?l1 = length a" "unat ?l2 = length b" using assms by (simp_all add: string_block_len_unat)
  have n: "unat (if ?l1 \<le> ?l2 then ?l1 else ?l2) = ?n" using u by (auto simp: word_le_nat_alt min_def)
  have l1: "load_bytes m v1 ?n = take ?n a" using string_block_load[OF assms(3), of 0 ?n] by simp
  have l2: "load_bytes m v2 ?n = take ?n b" using string_block_load[OF assms(4), of 0 ?n] by simp
  have v: "verdict (?l1 - ?l2) = Some (order (length a) (length b))"
    using verdict_sub_nat[of ?l1 ?l2] u string_block_length[OF assms(3)] string_block_length[OF assms(4)] by simp
  have ne: "?l1 \<noteq> ?l2 \<longleftrightarrow> length a \<noteq> length b" using u by (metis word_unat_eq_iff)
  show ?thesis
    using False n l1 l2 v ne string_order_memcmp[OF refl, of a b] by (auto simp: compare_blocks_def settles_def Let_def)
qed

lemma represents_not_long: "represents m n v t \<Longrightarrow> Is_long v \<longleftrightarrow> n = 0 \<and> (\<exists>i. t = DInt i)"
  by (induction rule: represents.induct) (auto simp: plain_block_def)

lemma represents_forward: "represents m n v t \<Longrightarrow> \<not> Is_long v \<Longrightarrow> Tag_val m v = Forward_tag \<longleftrightarrow> n \<noteq> 0"
  by (induction rule: represents.induct) (auto simp: plain_block_def fields_tag_def)

inductive_simps represents_Suc: "represents m (Suc n) v t"
inductive_simps represents_DInt: "represents m 0 v (DInt i)"
inductive_simps represents_DBlock: "represents m 0 v (DBlock t ts)"
inductive_simps represents_DString: "represents m 0 v (DString bs)"
inductive_simps represents_DDouble: "represents m 0 v (DDouble d)"
inductive_simps represents_DDoubles: "represents m 0 v (DDoubles ds)"
inductive_simps represents_DObject: "represents m 0 v (DObject i)"

lemmas represents_0 = represents_DInt represents_DBlock represents_DString represents_DDouble represents_DDoubles represents_DObject

text \<open>The tag of a direct block.\<close>

lemma represents_tag:
  assumes "represents m 0 v t" "\<not> Is_long v"
  shows "uint (Tag_val m v) = data_tag t" "plain_block m v (Tag_val m v)" "Tag_val m v \<notin> {Forward_tag, Closure_tag, Infix_tag, Custom_tag}"
  using assms by (cases rule: represents.cases; auto simp: plain_block_def fields_tag_def)+

lemma represents_unique: "represents m n v t \<Longrightarrow> represents m n' v t' \<Longrightarrow> t = t'"
proof (induction arbitrary: n' t' rule: represents.induct)
  case (Int v)
  then show ?case using represents_not_long[OF Int(2)] by (auto simp: represents_0)
next
  case (Forward v n t)
  then obtain k where "n' = Suc k" using represents_forward[OF Forward.prems] by (cases n') (auto simp: plain_block_def)
  then show ?case using Forward by (auto simp: represents_Suc)
next
  case (Block v t ts)
  then have "n' = 0" "\<not> Is_long v" using represents_forward[OF Block.prems] by (auto simp: plain_block_def fields_tag_def)
  moreover from this have "data_tag t' = uint t" using represents_tag[of m v t'] Block by (auto simp: plain_block_def)
  ultimately obtain ts' where t': "t' = DBlock t ts'"
    using Block.prems Block.hyps(1,2) by (cases t') (auto simp: represents_0 plain_block_def fields_tag_def)
  then have ts': "length ts' = length ts" "\<And>i. i < length ts' \<Longrightarrow> \<exists>n. represents m n (Field m v i) (ts' ! i)"
    using Block.prems \<open>n' = 0\<close> Block.hyps(3) by (simp_all add: represents_0)
  have "ts = ts'"
  proof (rule nth_equalityI)
    fix i assume i: "i < length ts"
    then obtain n where "represents m n (Field m v i) (ts' ! i)" using ts' by auto
    then show "ts ! i = ts' ! i" using Block.IH[OF i] by blast
  qed (simp add: ts')
  then show ?case using t' by simp
next
  case (String v bs)
  then have "n' = 0" "\<not> Is_long v" using represents_forward[OF String.prems] by (auto simp: plain_block_def)
  then show ?case using String string_block_unique
    by (cases t') (auto simp: represents_0 plain_block_def fields_tag_def)
next
  case (Double v)
  then have "n' = 0" "\<not> Is_long v" using represents_forward[OF Double.prems] by (auto simp: plain_block_def)
  then show ?case using Double by (cases t') (auto simp: represents_0 plain_block_def fields_tag_def)
next
  case (Doubles v)
  then have "n' = 0" "\<not> Is_long v" using represents_forward[OF Doubles.prems] by (auto simp: plain_block_def)
  then show ?case using Doubles by (cases t') (auto simp: represents_0 plain_block_def fields_tag_def)
next
  case (Object v)
  then have "n' = 0" "\<not> Is_long v" using represents_forward[OF Object.prems] by (auto simp: plain_block_def)
  then show ?case using Object by (cases t') (auto simp: represents_0 plain_block_def fields_tag_def)
qed

text \<open>Forwarding blocks are followed until both values are direct, unless physical equality settles
  the comparison before.\<close>

lemma resolve_forward:
  assumes "represents m n1 v1 t1" "represents m n2 v2 t2"
  shows "(t1 = t2 \<and> tot \<and> compare_loop env m tot (Again v1 v2 stk limit) = compare_loop env m tot (Next_item stk limit)) \<or>
    (\<exists>u1 u2. represents m 0 u1 t1 \<and> represents m 0 u2 t2 \<and>
       compare_loop env m tot (Again v1 v2 stk limit) = compare_loop env m tot (Again u1 u2 stk limit))"
  using assms
proof (induction "n1 + n2" arbitrary: n1 n2 v1 v2 rule: less_induct)
  case less
  show ?case
  proof (cases "v1 = v2 \<and> tot")
    case True
    then have "t1 = t2" using represents_unique less.prems by blast
    moreover have "compare_loop env m tot (Again v1 v2 stk limit) = compare_loop env m tot (Next_item stk limit)"
      using True by (subst compare_loop_Again) (simp add: compare_values_def)
    ultimately show ?thesis using True by blast
  next
    case ne: False
    consider (direct) "n1 = 0" "n2 = 0" | (left) k where "n1 = Suc k" "n2 = 0" | (right) k where "n1 = 0" "n2 = Suc k"
      | (both) k l where "n1 = Suc k" "n2 = Suc l" by (cases n1; cases n2)
    then show ?thesis
    proof cases
      case direct
      then show ?thesis using less.prems by blast
    next
      case left
      have f: "plain_block m v1 Forward_tag" "represents m k (Forward_val m v1) t1" using less.prems(1) left by (auto simp: represents_Suc)
      have "Is_long v2 \<or> Tag_val m v2 \<noteq> Forward_tag" using represents_forward[OF less.prems(2)] left by auto
      then have "compare_loop env m tot (Again v1 v2 stk limit) = compare_loop env m tot (Again (Forward_val m v1) v2 stk limit)"
        using ne f(1) by (subst compare_loop_Again) (auto simp: compare_values_def plain_block_def)
      then show ?thesis using less.hyps[OF _ f(2) less.prems(2)] left by simp
    next
      case right
      have f: "plain_block m v2 Forward_tag" "represents m k (Forward_val m v2) t2" using less.prems(2) right by (auto simp: represents_Suc)
      have "Is_long v1 \<or> Tag_val m v1 \<noteq> Forward_tag" using represents_forward[OF less.prems(1)] right by auto
      then have "compare_loop env m tot (Again v1 v2 stk limit) = compare_loop env m tot (Again v1 (Forward_val m v2) stk limit)"
        using ne f(1) by (subst compare_loop_Again) (auto simp: compare_values_def plain_block_def)
      then show ?thesis using less.hyps[OF _ less.prems(1) f(2)] right by simp
    next
      case both
      have f: "plain_block m v1 Forward_tag" "represents m k (Forward_val m v1) t1"
        "plain_block m v2 Forward_tag" "represents m l (Forward_val m v2) t2"
        using less.prems both by (auto simp: represents_Suc)
      have "compare_loop env m tot (Again v1 v2 stk limit) =
        compare_loop env m tot (Again (Forward_val m v1) (Forward_val m v2) stk limit)"
        using ne f(1,3) by (subst compare_loop_Again) (auto simp: compare_values_def compare_blocks_def plain_block_def)
      then show ?thesis using less.hyps[OF _ f(2,4)] both by simp
    qed
  qed
qed

lemma data_rank_order:
  "data_tag a \<noteq> data_tag b \<Longrightarrow> order (data_rank a) (data_rank b) = order (data_tag a) (data_tag b)"
  by (auto simp: data_rank_def order_def split: data.splits)

lemma compare_same_tag:
  assumes "plain_block m v1 t" "plain_block m v2 t" "\<not> (v1 = v2 \<and> tot)"
  shows "compare_values env m tot v1 v2 stk limit = compare_blocks env m tot v1 v2 t stk limit"
  using assms by (auto simp: compare_values_def plain_block_def)

lemma compare_other_tag:
  assumes "represents m 0 v1 t1" "represents m 0 v2 t2" "\<not> Is_long v1" "\<not> Is_long v2" "Tag_val m v1 \<noteq> Tag_val m v2"
  shows "compare_values env m tot v1 v2 stk limit = Return (ucast (Tag_val m v1) - ucast (Tag_val m v2))"
    and "verdict (ucast (Tag_val m v1) - ucast (Tag_val m v2)) = Some (order (data_tag t1) (data_tag t2))"
    and "data_tag t1 \<noteq> data_tag t2"
proof -
  note tags = represents_tag[OF assms(1,3)] represents_tag[OF assms(2,4)]
  show "compare_values env m tot v1 v2 stk limit = Return (ucast (Tag_val m v1) - ucast (Tag_val m v2))"
    using assms tags by (auto simp: compare_values_def Let_def)
  show "verdict (ucast (Tag_val m v1) - ucast (Tag_val m v2)) = Some (order (data_tag t1) (data_tag t2))"
    using verdict_tags tags by simp
  show "data_tag t1 \<noteq> data_tag t2" using assms(5) tags by (metis uint_word_of_int_eq word_uint_eq_iff)
qed

lemma int_block_settles:
  assumes "represents m 0 v1 t1" "represents m 0 v2 t2" "Is_long v1 \<noteq> Is_long v2"
  shows "settles (Some (order (data_tag t1) (data_tag t2))) (compare_values env m tot v1 v2 stk limit) stk limit"
proof (cases "Is_long v1")
  case True
  then obtain i where "t1 = DInt i" using represents_not_long[OF assms(1)] by auto
  moreover have "0 \<le> data_tag t2" using represents_tag(1)[OF assms(2)] True assms(3) by (metis unsigned_greater_eq)
  ultimately show ?thesis using True assms(3) represents_tag(3)[OF assms(2)]
    by (auto simp: compare_values_def settles_def order_def)
next
  case False
  then obtain i where "t2 = DInt i" using represents_not_long[OF assms(2)] assms(3) by auto
  moreover have "0 \<le> data_tag t1" using represents_tag(1)[OF assms(1)] False by (metis unsigned_greater_eq)
  ultimately show ?thesis using False assms(3) represents_tag(3)[OF assms(1)]
    by (auto simp: compare_values_def settles_def order_def)
qed

lemma object_settles:
  assumes "plain_block m v1 Object_tag" "plain_block m v2 Object_tag" "\<not> (v1 = v2 \<and> tot)"
  shows "settles (Some (order (sint (Oid_val m v1)) (sint (Oid_val m v2)))) (compare_values env m tot v1 v2 stk limit) stk limit"
  using compare_same_tag[OF assms, of env stk limit] verdict_Long_val[of "Mlvalues.Field m v1 1" "Mlvalues.Field m v2 1"]
  by (auto simp: compare_blocks_def settles_def Let_def Oid_val_def dest: signed_word_eqI)

lemma doubles_settles:
  assumes "plain_block m v1 Double_array_tag" "plain_block m v2 Double_array_tag" "\<not> (v1 = v2 \<and> tot)"
    and xs: "xs = map (Double_flat_field m v1) [0..<unat (Allocated_wosize_val m v1)]"
    and ys: "ys = map (Double_flat_field m v2) [0..<unat (Allocated_wosize_val m v2)]"
  shows "settles (data_compare tot (DDoubles xs) (DDoubles ys)) (compare_values env m tot v1 v2 stk limit) stk limit"
proof -
  let ?s1 = "Allocated_wosize_val m v1" and ?s2 = "Allocated_wosize_val m v2"
  have len: "length xs = unat ?s1" "length ys = unat ?s2" by (simp_all add: xs ys)
  note e = compare_same_tag[OF assms(1-3), of env stk limit]
  show ?thesis
  proof (cases "?s1 = ?s2")
    case True
    have "case compare_double_fields m tot v1 v2 [0..<unat ?s1] of
        Some r \<Rightarrow> verdict r = doubles_order tot xs ys \<and> doubles_order tot xs ys \<noteq> Some Equiv
      | None \<Rightarrow> doubles_order tot xs ys = Some Equiv"
      using True len by (intro compare_double_fields_order) (simp_all add: xs ys)
    then show ?thesis using e True len by (auto simp: compare_blocks_def settles_def then_compare_def split: option.splits)
  next
    case False
    then have "unat ?s1 \<noteq> unat ?s2" by (simp add: word_unat_eq_iff)
    moreover have "verdict (?s1 - ?s2) = Some (order (unat ?s1) (unat ?s2))"
      using wosize_bound[of m v1] wosize_bound[of m v2] by (intro verdict_sub_nat) auto
    ultimately show ?thesis using e False len by (simp add: compare_blocks_def settles_def then_compare_def)
  qed
qed

lemma direct_settles:
  assumes r: "represents m 0 v1 t1" "represents m 0 v2 t2" and ne: "\<not> (v1 = v2 \<and> tot)"
    and nb: "\<not> ((\<exists>t ts. t1 = DBlock t ts) \<and> (\<exists>t ts. t2 = DBlock t ts))"
  shows "settles (data_compare tot t1 t2) (compare_values env m tot v1 v2 stk limit) stk limit"
proof -
  note long = represents_not_long[OF r(1)] represents_not_long[OF r(2)]
  consider (ints) "Is_long v1" "Is_long v2" | (mixed) "Is_long v1 \<noteq> Is_long v2"
    | (tags) "\<not> Is_long v1" "\<not> Is_long v2" "Tag_val m v1 \<noteq> Tag_val m v2"
    | (same) "\<not> Is_long v1" "\<not> Is_long v2" "Tag_val m v1 = Tag_val m v2" by blast
  then show ?thesis
  proof cases
    case ints
    then obtain i j where t: "t1 = DInt i" "t2 = DInt j" using long by auto
    then have ij: "i = sint (Long_val v1)" "j = sint (Long_val v2)" using r by (auto simp: represents_0)
    have "v1 = v2 \<longleftrightarrow> i = j" using ints ij by (metis Val_long_Long_val signed_word_eqI)
    then show ?thesis using ints t ij verdict_Long_val[of v1 v2] ne by (auto simp: compare_values_def settles_def)
  next
    case mixed
    have "0 \<le> data_tag t2" if "Is_long v1" using represents_tag(1)[OF r(2)] mixed that by (metis unsigned_greater_eq)
    moreover have "0 \<le> data_tag t1" if "Is_long v2" using represents_tag(1)[OF r(1)] mixed that by (metis unsigned_greater_eq)
    ultimately have "data_tag t1 \<noteq> data_tag t2" using long mixed by auto
    then have "data_compare tot t1 t2 = Some (order (data_tag t1) (data_tag t2))"
      using long mixed data_rank_order[of t1 t2] by (cases t1; cases t2) auto
    then show ?thesis using int_block_settles[OF r mixed] by simp
  next
    case tags
    have "data_compare tot t1 t2 = Some (order (data_tag t1) (data_tag t2))"
      using compare_other_tag(3)[OF r tags] nb data_rank_order[of t1 t2] by (cases t1; cases t2) auto
    then show ?thesis using compare_other_tag[OF r tags] by (simp add: settles_def)
  next
    case same
    have d: "data_tag t1 = data_tag t2" using represents_tag(1)[OF r(1) same(1)] represents_tag(1)[OF r(2) same(2)] same(3) by simp
    have nt: "data_tag t \<notin> {uint String_tag, uint Double_tag, uint Double_array_tag, uint Object_tag}"
      if "represents m 0 v t" "t = DBlock s ts" for v t s ts
      using that by (auto simp: represents_0 fields_tag_def word_uint_eq_iff)
    consider (str) a b where "t1 = DString a" "t2 = DString b" | (dbl) a b where "t1 = DDouble a" "t2 = DDouble b"
      | (dbls) a b where "t1 = DDoubles a" "t2 = DDoubles b" | (obj) a b where "t1 = DObject a" "t2 = DObject b"
      using d nb nt[OF r(1)] nt[OF r(2)] same(1,2) long by (cases t1; cases t2) auto
    then show ?thesis
    proof cases
      case str
      then have p: "plain_block m v1 String_tag" "plain_block m v2 String_tag" "string_block m v1 a" "string_block m v2 b"
        using r by (auto simp: represents_0)
      show ?thesis using compare_string_settles[OF p] compare_same_tag[OF p(1,2) ne] str by simp
    next
      case dbl
      then have p: "plain_block m v1 Double_tag" "plain_block m v2 Double_tag" "a = Double_val m v1" "b = Double_val m v2"
        using r by (auto simp: represents_0)
      show ?thesis using compare_same_tag[OF p(1,2) ne] compare_doubles_order[of tot a b] p(3,4) dbl
        by (auto simp: compare_blocks_def settles_def split: option.splits)
    next
      case dbls
      then have p: "plain_block m v1 Double_array_tag" "plain_block m v2 Double_array_tag"
        "a = map (Double_flat_field m v1) [0..<unat (Allocated_wosize_val m v1)]"
        "b = map (Double_flat_field m v2) [0..<unat (Allocated_wosize_val m v2)]"
        using r by (auto simp: represents_0)
      show ?thesis unfolding dbls by (rule doubles_settles[OF p(1,2) ne p(3,4)])
    next
      case obj
      then have p: "plain_block m v1 Object_tag" "plain_block m v2 Object_tag" "a = sint (Oid_val m v1)" "b = sint (Oid_val m v2)"
        using r by (auto simp: represents_0)
      show ?thesis using object_settles[OF p(1,2) ne] p(3,4) obj by simp
    qed
  qed
qed

text \<open>The stack sizes in use: the initial one, then powers of two up to 524288.\<close>

definition limit_ok :: "compare_item list \<Rightarrow> nat \<Rightarrow> bool" where
  "limit_ok stk limit \<longleftrightarrow>
     length stk \<le> limit \<and> (limit = COMPARE_STACK_INIT_SIZE \<or> (\<exists>k. 5 \<le> k \<and> k \<le> 19 \<and> limit = 2 ^ k))"

fun height :: "data \<Rightarrow> nat" where
  "height (DBlock t ts) = 1 + Max (insert 0 (height ` set ts))"
| "height _ = 0"

lemma height_nth: "i < length ts \<Longrightarrow> height (ts ! i) < height (DBlock t ts)"
  by (simp add: less_Suc_eq_le)

lemma limit_ok_push:
  assumes "limit_ok stk limit" "length stk < 524288" "\<forall>n. alloc_ok env n"
  shows "\<exists>limit'. (if length stk \<ge> limit then compare_resize_stack (alloc_ok env) limit else Inr limit) = Inr limit' \<and>
    limit_ok (item # stk) limit' \<and> limit_ok stk limit'"
proof (cases "length stk \<ge> limit")
  case True
  then have len: "length stk = limit" using assms(1) by (simp add: limit_ok_def)
  show ?thesis
  proof (cases "limit = COMPARE_STACK_INIT_SIZE")
    case True
    then show ?thesis using len assms(3)
      by (auto simp: compare_resize_stack_def limit_ok_def intro!: exI[of _ 5])
  next
    case False
    then obtain k where k: "5 \<le> k" "k \<le> 19" "limit = 2 ^ k" using assms(1) by (auto simp: limit_ok_def)
    have "k \<noteq> 19" using k(3) len assms(2) by auto
    then have k': "Suc k \<le> 19" "2 * limit = 2 ^ Suc k" using k by auto
    then have "2 ^ Suc k \<le> (2 :: nat) ^ 19" by (intro power_increasing) auto
    then have "compare_resize_stack (alloc_ok env) limit = Inr (2 ^ Suc k)"
      using False assms(3) k'(2) by (simp add: compare_resize_stack_def)
    moreover have "limit_ok (item # stk) (2 ^ Suc k)" "limit_ok stk (2 ^ Suc k)"
      using k k' len unfolding limit_ok_def by (auto intro!: exI[of _ "Suc k"])
    ultimately show ?thesis using True by auto
  qed
next
  case False
  then show ?thesis using assms(1) by (auto simp: limit_ok_def)
qed

text \<open>A run that has come to outcome \<open>c\<close> for the current pair: it goes on with the stack if the values
  are equal, and returns otherwise.\<close>

definition decides :: "environment \<Rightarrow> mem \<Rightarrow> bool \<Rightarrow> compare_item list \<Rightarrow> comp option \<Rightarrow> intnat result option \<Rightarrow> bool" where
  "decides env m tot stk c run \<longleftrightarrow>
     (if c = Some Equiv then \<exists>limit. limit_ok stk limit \<and> run = compare_loop env m tot (Next_item stk limit)
      else \<exists>r. run = Some (Inr r) \<and> verdict r = c)"

lemma decides_settles:
  "settles c out stk limit \<Longrightarrow> limit_ok stk limit \<Longrightarrow> decides env m tot stk c (compare_loop env m tot out)"
  by (auto simp: settles_def decides_def)

lemma decides_then:
  assumes "decides env m tot stk' c run"
    and "\<And>limit. limit_ok stk' limit \<Longrightarrow> decides env m tot stk d (compare_loop env m tot (Next_item stk' limit))"
  shows "decides env m tot stk (then_compare c d) run"
  using assms by (auto simp: decides_def then_compare_def)

lemma list_compare_Cons: "list_compare tot (x # xs) (y # ys) = then_compare (data_compare tot x y) (list_compare tot xs ys)"
  by (auto simp: then_compare_def split: option.split comp.split)

declare list_compare.simps(1) [simp del]

text \<open>The fields from \<open>k\<close> on.\<close>

lemma fields_decide:
  assumes field: "\<And>i stk limit. i < length xs \<Longrightarrow> length stk \<le> depth \<Longrightarrow> limit_ok stk limit \<Longrightarrow>
      decides env m tot stk (data_compare tot (xs ! i) (ys ! i)) (compare_loop env m tot (Again (Field m v1 i) (Field m v2 i) stk limit))"
    and len: "length ys = length xs" and stk: "length stk < depth"
  shows "k < length xs \<Longrightarrow> 0 < k \<Longrightarrow>
    limit_ok (\<lparr>item_v1 = v1, item_v2 = v2, item_offset = k, item_size = length xs\<rparr> # stk) limit \<Longrightarrow>
    decides env m tot stk (list_compare tot (drop k xs) (drop k ys))
      (compare_loop env m tot (Next_item (\<lparr>item_v1 = v1, item_v2 = v2, item_offset = k, item_size = length xs\<rparr> # stk) limit))"
proof (induction "length xs - k" arbitrary: k limit rule: less_induct)
  case less
  define stk' where "stk' = (if k + 1 = length xs then stk
    else \<lparr>item_v1 = v1, item_v2 = v2, item_offset = k + 1, item_size = length xs\<rparr> # stk)"
  have l': "limit_ok stk' limit" "length stk' \<le> depth" using less.prems(3) stk by (auto simp: stk'_def limit_ok_def)
  have d: "drop k xs = xs ! k # drop (k + 1) xs" "drop k ys = ys ! k # drop (k + 1) ys"
    using less.prems(1) len by (simp_all add: Cons_nth_drop_Suc)
  have step: "compare_loop env m tot (Next_item (\<lparr>item_v1 = v1, item_v2 = v2, item_offset = k, item_size = length xs\<rparr> # stk) limit) =
    compare_loop env m tot (Again (Field m v1 k) (Field m v2 k) stk' limit)"
    by (subst compare_loop_Next_item) (simp add: next_item_def stk'_def)
  have rest: "decides env m tot stk (list_compare tot (drop (k + 1) xs) (drop (k + 1) ys))
      (compare_loop env m tot (Next_item stk' limit'))" if "limit_ok stk' limit'" for limit'
  proof (cases "k + 1 = length xs")
    case True
    then show ?thesis using that by (auto simp: stk'_def decides_def)
  next
    case False
    then show ?thesis using less.hyps[of "k + 1" limit'] less.prems that by (simp add: stk'_def)
  qed
  show ?case
    unfolding step d list_compare_Cons using rest
    by (rule decides_then[OF field[OF less.prems(1) l'(2,1)]])
qed

lemma doubles_order_refl: "doubles_order True xs xs = Some Equiv"
  by (induction xs) (auto simp: then_compare_def double_order_def)

lemma list_compare_refl:
  "(\<And>t. t \<in> set ts \<Longrightarrow> data_compare True t t = Some Equiv) \<Longrightarrow> list_compare True ts ts = Some Equiv"
  by (induction ts) (simp_all add: list_compare_Cons then_compare_def)

lemma data_compare_refl: "data_compare True t t = Some Equiv"
proof (induction t)
  case (DBlock t ts)
  then show ?case by (simp add: then_compare_def list_compare_refl)
qed (simp_all add: then_compare_def double_order_def doubles_order_refl string_order_def lexordp_irreflexive')

text \<open>Blocks with the same tag: their sizes, then their fields.\<close>

lemma blocks_decide:
  assumes field: "\<And>i stk limit. i < length xs \<Longrightarrow> length stk \<le> depth \<Longrightarrow> limit_ok stk limit \<Longrightarrow> length xs = length ys \<Longrightarrow>
      decides env m tot stk (data_compare tot (xs ! i) (ys ! i)) (compare_loop env m tot (Again (Field m v1 i) (Field m v2 i) stk limit))"
    and alloc: "\<forall>n. alloc_ok env n" and ok: "limit_ok stk limit" and stk: "length stk < depth" "depth \<le> 524288"
    and sz: "unat (Allocated_wosize_val m v1) = length xs" "unat (Allocated_wosize_val m v2) = length ys"
  shows "decides env m tot stk (then_compare (Some (order (length xs) (length ys))) (list_compare tot xs ys))
    (compare_loop env m tot (compare_fields env m v1 v2 stk limit))"
proof -
  let ?s1 = "Allocated_wosize_val m v1" and ?s2 = "Allocated_wosize_val m v2"
  have eq: "?s1 = ?s2 \<longleftrightarrow> length xs = length ys" using sz by (metis word_unat_eq_iff)
  consider (sizes) "length xs \<noteq> length ys" | (empty) "length xs = 0" "length ys = 0"
    | (one) "length xs = 1" "length ys = 1" | (many) "length xs = length ys" "1 < length xs"
    by linarith
  then show ?thesis
  proof cases
    case sizes
    have "verdict (?s1 - ?s2) = Some (order (unat ?s1) (unat ?s2))"
      using wosize_bound[of m v1] wosize_bound[of m v2] by (intro verdict_sub_nat) auto
    then show ?thesis using sizes sz eq by (simp add: compare_fields_def decides_def then_compare_def)
  next
    case empty
    then have "?s1 = 0" "?s2 = 0" using sz by (simp_all add: word_unat_eq_iff)
    then show ?thesis using empty ok by (auto simp: compare_fields_def decides_def then_compare_def)
  next
    case one
    then have "?s1 = 1" "?s2 = 1" using sz by (simp_all add: word_unat_eq_iff)
    then have "compare_fields env m v1 v2 stk limit = Again (Field m v1 0) (Field m v2 0) stk limit"
      by (simp add: compare_fields_def)
    moreover have "list_compare tot xs ys = data_compare tot (xs ! 0) (ys ! 0)"
      using one by (cases xs; cases ys) (auto simp: list_compare_Cons then_compare_def)
    ultimately show ?thesis using field[of 0 stk limit] one stk ok by (simp add: then_compare_def)
  next
    case many
    let ?item = "\<lparr>item_v1 = v1, item_v2 = v2, item_offset = 1, item_size = length xs\<rparr>"
    obtain limit' where l': "(if length stk \<ge> limit then compare_resize_stack (alloc_ok env) limit else Inr limit) = Inr limit'"
      "limit_ok (?item # stk) limit'" using limit_ok_push[OF ok _ alloc, of ?item] stk by auto
    have "?s1 \<noteq> 0" "?s1 > 1" using many sz by (auto simp: word_unat_eq_iff word_less_nat_alt)
    then have e: "compare_fields env m v1 v2 stk limit = Again (Field m v1 0) (Field m v2 0) (?item # stk) limit'"
      using many eq l'(1) sz(1) by (simp add: compare_fields_def Let_def)
    have d: "xs = xs ! 0 # drop 1 xs" "ys = ys ! 0 # drop 1 ys" using many by (cases xs; cases ys; simp)+
    have "decides env m tot (?item # stk) (data_compare tot (xs ! 0) (ys ! 0))
      (compare_loop env m tot (Again (Field m v1 0) (Field m v2 0) (?item # stk) limit'))"
      using many stk l'(2) by (intro field) auto
    then have "decides env m tot stk (then_compare (data_compare tot (xs ! 0) (ys ! 0)) (list_compare tot (drop 1 xs) (drop 1 ys)))
      (compare_loop env m tot (Again (Field m v1 0) (Field m v2 0) (?item # stk) limit'))"
      by (rule decides_then) (rule fields_decide[of xs depth env m tot ys v1 v2 stk 1], use field many stk in auto)
    moreover have "list_compare tot xs ys = then_compare (data_compare tot (xs ! 0) (ys ! 0)) (list_compare tot (drop 1 xs) (drop 1 ys))"
      using d list_compare_Cons by metis
    ultimately show ?thesis using many e by (simp add: then_compare_def)
  qed
qed

lemma compare_decides:
  assumes alloc: "\<forall>n. alloc_ok env n"
  shows "represents m n1 v1 t1 \<Longrightarrow> represents m n2 v2 t2 \<Longrightarrow> limit_ok stk limit \<Longrightarrow> length stk + height t1 \<le> 524288 \<Longrightarrow>
    decides env m tot stk (data_compare tot t1 t2) (compare_loop env m tot (Again v1 v2 stk limit))"
proof (induction "height t1" arbitrary: t1 t2 n1 n2 v1 v2 stk limit rule: less_induct)
  case less
  have same: "decides env m tot stk (data_compare tot t1 t2) (compare_loop env m tot (Next_item stk limit))" if "t1 = t2" tot
    using that less.prems(3) by (auto simp: decides_def data_compare_refl)
  have "decides env m tot stk (data_compare tot t1 t2) (compare_loop env m tot (Again u1 u2 stk limit))"
    if u: "represents m 0 u1 t1" "represents m 0 u2 t2" for u1 u2
  proof -
    consider (eq) "u1 = u2 \<and> tot" | (direct) "\<not> (u1 = u2 \<and> tot)" "\<not> ((\<exists>t ts. t1 = DBlock t ts) \<and> (\<exists>t ts. t2 = DBlock t ts))"
      | (blocks) s xs t ys where "\<not> (u1 = u2 \<and> tot)" "t1 = DBlock s xs" "t2 = DBlock t ys" by blast
    then show ?thesis
    proof cases
      case eq
      then show ?thesis using same represents_unique[OF u(1)] u(2)
        by (subst compare_loop_Again) (simp add: compare_values_def)
    next
      case direct
      then show ?thesis
        using decides_settles[OF direct_settles[OF u direct, of env stk limit] less.prems(3)] by (subst compare_loop_Again) simp
    next
      case blocks
      then have b: "plain_block m u1 s" "plain_block m u2 t" "fields_tag s"
        "unat (Allocated_wosize_val m u1) = length xs" "unat (Allocated_wosize_val m u2) = length ys"
        and f: "\<And>i. i < length xs \<Longrightarrow> \<exists>n. represents m n (Field m u1 i) (xs ! i)"
          "\<And>i. i < length ys \<Longrightarrow> \<exists>n. represents m n (Field m u2 i) (ys ! i)"
        using u by (auto simp: represents_0)
      show ?thesis
      proof (cases "s = t")
        case False
        then have ut: "\<not> Is_long u1" "\<not> Is_long u2" "Tag_val m u1 \<noteq> Tag_val m u2" using b by (auto simp: plain_block_def)
        show ?thesis using compare_other_tag(1)[OF u ut, of env tot stk limit] compare_other_tag(2,3)[OF u ut] blocks False
          by (subst compare_loop_Again) (simp add: decides_def then_compare_def)
      next
        case True
        have "decides env m tot stk' (data_compare tot (xs ! i) (ys ! i)) (compare_loop env m tot (Again (Field m u1 i) (Field m u2 i) stk' limit'))"
          if i: "i < length xs" "length stk' \<le> length stk + 1" "limit_ok stk' limit'" "length xs = length ys" for i stk' limit'
        proof -
          obtain n n' where "represents m n (Field m u1 i) (xs ! i)" "represents m n' (Field m u2 i) (ys ! i)"
            using f(1)[of i] f(2)[of i] i(1,4) by auto
          moreover have "height (xs ! i) < height t1" using height_nth[OF i(1)] blocks(2) by simp
          ultimately show ?thesis using less.hyps i less.prems(4) by simp
        qed
        then have "decides env m tot stk (then_compare (Some (order (length xs) (length ys))) (list_compare tot xs ys))
          (compare_loop env m tot (compare_fields env m u1 u2 stk limit))"
          using less.prems(3,4) blocks(2) alloc b(4,5) by (intro blocks_decide[where depth = "length stk + 1"]) auto
        moreover have "compare_values env m tot u1 u2 stk limit = compare_fields env m u1 u2 stk limit"
          using compare_same_tag[OF b(1) _ blocks(1)] b(2,3) True by (simp add: compare_blocks_def fields_tag_def)
        ultimately show ?thesis using blocks True by (subst compare_loop_Again) (simp add: then_compare_def)
      qed
    qed
  qed
  then show ?case using resolve_forward[OF less.prems(1,2), of tot env stk limit] same by auto
qed

section \<open>The comparison is a total order on data\<close>

text \<open>Comparisons \<open>x\<close> of \<open>a\<close> with \<open>b\<close>, \<open>y\<close> of \<open>b\<close> with \<open>c\<close> and \<open>z\<close> of \<open>a\<close> with \<open>c\<close> that obey transitivity.\<close>

definition transitive_triple :: "comp \<Rightarrow> comp \<Rightarrow> comp \<Rightarrow> bool" where
  "transitive_triple x y z \<longleftrightarrow>
     (x = Equiv \<longrightarrow> z = y) \<and> (y = Equiv \<longrightarrow> z = x) \<and> (x = y \<longrightarrow> z = x)"

definition comp_then :: "comp \<Rightarrow> comp \<Rightarrow> comp" where
  "comp_then c d = (if c = Equiv then d else c)"

fun comp_flip :: "comp \<Rightarrow> comp" where
  "comp_flip Less = Greater"
| "comp_flip Equiv = Equiv"
| "comp_flip Greater = Less"

lemma transitive_triple_then:
  assumes "transitive_triple x y z" "x = Equiv \<Longrightarrow> y = Equiv \<Longrightarrow> z = Equiv \<Longrightarrow> transitive_triple x' y' z'"
  shows "transitive_triple (comp_then x x') (comp_then y y') (comp_then z z')"
proof (cases "x = Equiv \<and> y = Equiv")
  case True
  then show ?thesis using assms by (auto simp: transitive_triple_def comp_then_def)
next
  case False
  then show ?thesis using assms(1) by (cases x; cases y) (auto simp: transitive_triple_def comp_then_def)
qed

lemma transitive_triple_order: "transitive_triple (order a b) (order b c) (order a c)"
  by (auto simp: transitive_triple_def order_def split: if_splits)

lemma transitive_triple_string: "transitive_triple (string_order a b) (string_order b c) (string_order a c)"
proof -
  have t: "ord_class.lexordp a c" if "ord_class.lexordp a b" "ord_class.lexordp b c" for a b c :: bytes
    using lexordp_trans[OF that] by auto
  show ?thesis
    using t lexordp_linear[where ?'a = byte] lexordp_irreflexive'[where ?'a = byte]
    by (simp add: transitive_triple_def string_order_def) metis
qed

definition data_order :: "data \<Rightarrow> data \<Rightarrow> comp" where
  "data_order a b = the (data_compare True a b)"

definition list_order :: "data list \<Rightarrow> data list \<Rightarrow> comp" where
  "list_order a b = the (list_compare True a b)"

definition doubles_ord :: "64 word list \<Rightarrow> 64 word list \<Rightarrow> comp" where
  "doubles_ord a b = the (doubles_order True a b)"

lemma doubles_order_True: "doubles_order True xs ys = Some (doubles_ord xs ys)"
proof -
  have "\<exists>c. doubles_order True xs ys = Some c"
    by (induction True xs ys rule: doubles_order.induct) (auto simp: then_compare_def double_order_def)
  then show ?thesis by (auto simp: doubles_ord_def)
qed

lemma compare_True: "\<exists>c. data_compare True a b = Some c" "\<exists>c. list_compare True xs ys = Some c"
  by (induction True a b and True xs ys rule: data_compare_list_compare.induct)
    (auto simp: then_compare_def double_order_def doubles_order_True list_compare_Cons)

lemma data_compare_True: "data_compare True a b = Some (data_order a b)"
  using compare_True(1)[of a b] by (auto simp: data_order_def)

lemma list_compare_True: "list_compare True xs ys = Some (list_order xs ys)"
  using compare_True(2)[of xs ys] by (auto simp: list_order_def)

lemma data_order_simps:
  "data_order (DInt i) (DInt j) = order i j"
  "data_order (DString bs) (DString cs) = string_order bs cs"
  "data_order (DDouble d) (DDouble e) = order (double_key d) (double_key e)"
  "data_order (DDoubles p) (DDoubles q) = comp_then (order (length p) (length q)) (doubles_ord p q)"
  "data_order (DObject i) (DObject j) = order i j"
  "data_order (DBlock s a) (DBlock t b) =
     comp_then (order (uint s) (uint t)) (comp_then (order (length a) (length b)) (list_order a b))"
  by (simp_all add: data_order_def double_order_def then_compare_def comp_then_def doubles_order_True list_compare_True)

lemma list_order_simps:
  "list_order (x # xs) (y # ys) = comp_then (data_order x y) (list_order xs ys)"
  "list_order [] [] = Equiv"
proof -
  have "Some (list_order (x # xs) (y # ys)) = Some (comp_then (data_order x y) (list_order xs ys))"
    using list_compare_Cons[of True x xs y ys]
    by (simp add: list_compare_True data_compare_True then_compare_def comp_then_def)
  then show "list_order (x # xs) (y # ys) = comp_then (data_order x y) (list_order xs ys)" by simp
qed (simp add: list_order_def)

lemma doubles_ord_simps:
  "doubles_ord (x # xs) (y # ys) = comp_then (order (double_key x) (double_key y)) (doubles_ord xs ys)"
  "doubles_ord [] [] = Equiv"
  by (simp_all add: doubles_ord_def double_order_def then_compare_def comp_then_def)

lemma transitive_triple_doubles:
  "length xs = length ys \<Longrightarrow> length ys = length zs \<Longrightarrow>
   transitive_triple (doubles_ord xs ys) (doubles_ord ys zs) (doubles_ord xs zs)"
  by (induction xs ys zs rule: list_induct3)
    (simp_all add: doubles_ord_simps transitive_triple_then transitive_triple_order, simp add: transitive_triple_def)

lemma transitive_triple_list:
  assumes "\<And>x y z. x \<in> set xs \<Longrightarrow> transitive_triple (data_order x y) (data_order y z) (data_order x z)"
    and "length xs = length ys" "length ys = length zs"
  shows "transitive_triple (list_order xs ys) (list_order ys zs) (list_order xs zs)"
  using assms(2,3,1)
  by (induction xs ys zs rule: list_induct3)
    (simp_all add: list_order_simps transitive_triple_then, simp add: transitive_triple_def)

text \<open>Data of the same kind have the same rank, up to the tag of a block.\<close>

fun same_kind :: "data \<Rightarrow> data \<Rightarrow> bool" where
  "same_kind (DInt _) (DInt _) = True"
| "same_kind (DString _) (DString _) = True"
| "same_kind (DDouble _) (DDouble _) = True"
| "same_kind (DDoubles _) (DDoubles _) = True"
| "same_kind (DObject _) (DObject _) = True"
| "same_kind (DBlock _ _) (DBlock _ _) = True"
| "same_kind _ _ = False"

lemma data_rank_same_kind: "data_rank a = data_rank b \<Longrightarrow> same_kind a b"
  by (cases a; cases b) (auto simp: data_rank_def, presburger+)

lemma data_order_rank:
  assumes "data_rank a \<noteq> data_rank b"
  shows "data_order a b = order (data_rank a) (data_rank b)"
proof (cases "same_kind a b")
  case True
  then show ?thesis using assms
    by (cases a; cases b) (auto simp: data_rank_def data_order_simps comp_then_def order_def)
next
  case False
  then show ?thesis by (cases a; cases b) (auto simp: data_order_def)
qed

lemma data_order_split:
  "data_order a b = comp_then (order (data_rank a) (data_rank b)) (if data_rank a = data_rank b then data_order a b else Equiv)"
  using data_order_rank[of a b] by (auto simp: comp_then_def)

lemma data_order_transitive_same_rank:
  assumes "same_kind a b \<Longrightarrow> same_kind b c \<Longrightarrow> data_rank a = data_rank b \<Longrightarrow> data_rank b = data_rank c \<Longrightarrow>
    transitive_triple (data_order a b) (data_order b c) (data_order a c)"
  shows "transitive_triple (data_order a b) (data_order b c) (data_order a c)"
  by (subst (1 2 3) data_order_split)
    (rule transitive_triple_then[OF transitive_triple_order], use assms data_rank_same_kind in auto)

lemma data_order_transitive: "transitive_triple (data_order a b) (data_order b c) (data_order a c)"
proof (induction a arbitrary: b c)
  case (DBlock s xs)
  show ?case
  proof (rule data_order_transitive_same_rank)
    assume k: "same_kind (DBlock s xs) b" "same_kind b c" "data_rank (DBlock s xs) = data_rank b" "data_rank b = data_rank c"
    from k(1,2) obtain t u ys zs where tu: "b = DBlock t ys" "c = DBlock u zs" by (cases b; cases c) auto
    have "uint t = uint s" "uint u = uint s" using k(3,4) tu by (simp_all add: data_rank_def)
    then have bc: "b = DBlock s ys" "c = DBlock s zs" using tu by (simp_all add: word_uint_eqI)
    have "transitive_triple (comp_then (order (length xs) (length ys)) (list_order xs ys))
      (comp_then (order (length ys) (length zs)) (list_order ys zs)) (comp_then (order (length xs) (length zs)) (list_order xs zs))"
      using DBlock by (intro transitive_triple_then transitive_triple_order transitive_triple_list) auto
    then show "transitive_triple (data_order (DBlock s xs) b) (data_order b c) (data_order (DBlock s xs) c)"
      unfolding bc data_order_simps by (simp add: comp_then_def)
  qed
next
  case (DDoubles xs)
  show ?case
  proof (rule data_order_transitive_same_rank)
    assume k: "same_kind (DDoubles xs) b" "same_kind b c"
    from k obtain ys zs where bc: "b = DDoubles ys" "c = DDoubles zs" by (cases b; cases c) auto
    show "transitive_triple (data_order (DDoubles xs) b) (data_order b c) (data_order (DDoubles xs) c)"
      unfolding bc data_order_simps
      by (intro transitive_triple_then transitive_triple_order transitive_triple_doubles) auto
  qed
next
  case (DInt i)
  show ?case
    by (rule data_order_transitive_same_rank; cases b; cases c) (auto simp: data_order_simps transitive_triple_order)
next
  case (DString bs)
  show ?case
    by (rule data_order_transitive_same_rank; cases b; cases c) (auto simp: data_order_simps transitive_triple_string)
next
  case (DDouble d)
  show ?case
    by (rule data_order_transitive_same_rank; cases b; cases c) (auto simp: data_order_simps transitive_triple_order)
next
  case (DObject i)
  show ?case
    by (rule data_order_transitive_same_rank; cases b; cases c) (auto simp: data_order_simps transitive_triple_order)
qed

lemma comp_flip_then: "comp_flip (comp_then c d) = comp_then (comp_flip c) (comp_flip d)"
  by (cases c) (auto simp: comp_then_def)

lemma order_flip: "order b a = comp_flip (order a b)"
  by (auto simp: order_def)

lemma string_order_flip: "string_order b a = comp_flip (string_order a b)"
  using lexordp_linear[of a b] lexordp_antisym[of a b] lexordp_irreflexive'[of b] by (auto simp: string_order_def)

lemma doubles_ord_flip: "length xs = length ys \<Longrightarrow> doubles_ord ys xs = comp_flip (doubles_ord xs ys)"
proof (induction xs ys rule: list_induct2)
  case (Cons x xs y ys)
  then show ?case using order_flip[of "double_key y" "double_key x"] by (simp add: doubles_ord_simps comp_flip_then)
qed (simp add: doubles_ord_simps)

lemma list_order_flip:
  assumes "\<And>x y. x \<in> set xs \<Longrightarrow> data_order y x = comp_flip (data_order x y)" "length xs = length ys"
  shows "list_order ys xs = comp_flip (list_order xs ys)"
  using assms(2,1) by (induction xs ys rule: list_induct2) (simp_all add: list_order_simps comp_flip_then)

lemma comp_then_flip_cong: "(c = Equiv \<Longrightarrow> d = comp_flip e) \<Longrightarrow> comp_then (comp_flip c) d = comp_flip (comp_then c e)"
  by (cases c) (auto simp: comp_then_def)

lemma data_order_flip_other: "\<not> same_kind a b \<Longrightarrow> data_order b a = comp_flip (data_order a b)"
  using order_flip[of "data_rank b" "data_rank a"] by (cases a; cases b) (simp_all add: data_order_def)

lemma data_order_flip: "data_order b a = comp_flip (data_order a b)"
proof (induction a arbitrary: b)
  case (DBlock s xs)
  show ?case
  proof (cases b)
    case (DBlock t ys)
    have "comp_then (order (length ys) (length xs)) (list_order ys xs) =
      comp_flip (comp_then (order (length xs) (length ys)) (list_order xs ys))"
      unfolding order_flip[of "length ys" "length xs"]
      by (rule comp_then_flip_cong, rule list_order_flip) (use DBlock.IH in auto)
    then show ?thesis
      unfolding DBlock data_order_simps order_flip[of "uint t" "uint s"] by (simp add: comp_flip_then)
  qed (rule data_order_flip_other, simp)+
next
  case (DDoubles xs)
  show ?case
  proof (cases b)
    case (DDoubles ys)
    then show ?thesis unfolding DDoubles data_order_simps order_flip[of "length ys" "length xs"]
      by (intro comp_then_flip_cong doubles_ord_flip) simp
  qed (rule data_order_flip_other, simp)+
next
  case (DInt i)
  show ?case
  proof (cases b)
    case (DInt x)
    show ?thesis unfolding DInt data_order_simps by (rule order_flip)
  qed (rule data_order_flip_other, simp)+
next
  case (DString bs)
  show ?case
  proof (cases b)
    case (DString x)
    show ?thesis unfolding DString data_order_simps by (rule string_order_flip)
  qed (rule data_order_flip_other, simp)+
next
  case (DDouble d)
  show ?case
  proof (cases b)
    case (DDouble x)
    show ?thesis unfolding DDouble data_order_simps by (rule order_flip)
  qed (rule data_order_flip_other, simp)+
next
  case (DObject i)
  show ?case
  proof (cases b)
    case (DObject x)
    show ?thesis unfolding DObject data_order_simps by (rule order_flip)
  qed (rule data_order_flip_other, simp)+
qed

interpretation data: comparator data_order
proof
  show "data_order a a = Equiv" for a using data_compare_refl[of a] by (simp add: data_order_def)
  show "data_order a c = Equiv" if "data_order a b = Equiv" "data_order b c = Equiv" for a b c
    using data_order_transitive[of a b c] that by (simp add: transitive_triple_def)
  show "data_order a c = Less" if "data_order a b = Less" "data_order b c = Less" for a b c
    using data_order_transitive[of a b c] that by (simp add: transitive_triple_def)
  show "data_order b a = Greater \<longleftrightarrow> data_order a b = Less" for a b
    using data_order_flip[of b a] by (cases "data_order a b") auto
qed

section \<open>Correctness of the primitives\<close>

definition represented :: "mem \<Rightarrow> mlvalue \<Rightarrow> data \<Rightarrow> bool" where
  "represented m v t \<longleftrightarrow> (\<exists>n. represents m n v t)"

lemma compare_val_decided:
  assumes "represented m v1 t1" "represented m v2 t2" "\<forall>n. alloc_ok env n" "height t1 \<le> 524288"
  obtains r where "compare_val env m v1 v2 tot = Some (Inr r)" "verdict r = data_compare tot t1 t2"
proof -
  obtain n1 n2 where "represents m n1 v1 t1" "represents m n2 v2 t2" using assms(1,2) by (auto simp: represented_def)
  moreover have "limit_ok [] COMPARE_STACK_INIT_SIZE" by (simp add: limit_ok_def)
  ultimately have "decides env m tot [] (data_compare tot t1 t2) (compare_val env m v1 v2 tot)"
    using compare_decides[OF assms(3)] assms(4) by (simp add: compare_val_def do_compare_val_def)
  then show ?thesis
    using that by (auto simp: decides_def compare_loop_Next_item next_item_def split: if_splits)
qed

text \<open>C5: structural comparison is the recursive comparison of the trees that the two values denote:
  integers before blocks, then tags, sizes and fields from left to right, strings
  lexicographically, forwarding blocks being transparent.  The loop ends, its stack never
  overflows as long as allocations succeed and the first value is at most 524288 blocks
  deep, and the sign of the result is the answer, or the result is the mark for unordered values.\<close>

theorem compare_val_correct:
  assumes "represented m v1 t1" and "represented m v2 t2" and "\<forall>n. alloc_ok env n" and "height t1 \<le> 524288"
  shows "\<exists>r. compare_val env m v1 v2 tot = Some (Inr r) \<and>
    data_compare tot t1 t2 =
      (if r = UNORDERED then None else Some (if sint r < 0 then Less else if r = 0 then Equiv else Greater))"
proof -
  obtain r where "compare_val env m v1 v2 tot = Some (Inr r)" "verdict r = data_compare tot t1 t2"
    using compare_val_decided[OF assms] .
  moreover have "sint r = 0 \<longleftrightarrow> r = 0" by (metis signed_0 signed_word_eqI)
  ultimately show ?thesis by (auto simp: verdict_def order_def)
qed

text \<open>C0: the polymorphic tests answer the order of the trees; a comparison that meets a NaN before a
  difference makes every test false except \<open><>\<close>.\<close>

theorem polymorphic_tests_correct:
  assumes "represented m v1 t1" and "represented m v2 t2" and "\<forall>n. alloc_ok env n" and "height t1 \<le> 524288"
  shows "let c = data_compare False t1 t2 in
    caml_equal env m v1 v2 = Some (Inr (Val_bool (c = Some Equiv))) \<and>
    caml_notequal env m v1 v2 = Some (Inr (Val_bool (c \<noteq> Some Equiv))) \<and>
    caml_lessthan env m v1 v2 = Some (Inr (Val_bool (c = Some Less))) \<and>
    caml_lessequal env m v1 v2 = Some (Inr (Val_bool (c = Some Less \<or> c = Some Equiv))) \<and>
    caml_greaterthan env m v1 v2 = Some (Inr (Val_bool (c = Some Greater))) \<and>
    caml_greaterequal env m v1 v2 = Some (Inr (Val_bool (c = Some Greater \<or> c = Some Equiv)))"
proof -
  obtain r where r: "compare_val env m v1 v2 False = Some (Inr r)" "verdict r = data_compare False t1 t2"
    using compare_val_decided[OF assms] .
  have z: "sint r = 0 \<longleftrightarrow> r = 0" by (metis signed_0 signed_word_eqI)
  have u: "sint UNORDERED < 0" by (simp add: UNORDERED_def)
  show ?thesis
    unfolding Let_def r(2)[symmetric] caml_equal_def caml_notequal_def caml_lessthan_def caml_lessequal_def
      caml_greaterthan_def caml_greaterequal_def r(1)
    using z u by (cases "r = UNORDERED") (auto simp: verdict_def order_def)
qed




section \<open>An example heap\<close>

text \<open>The pair of 1 and 2.\<close>

definition pair_mem :: mem where
  "pair_mem = layout_block (\<lambda>_. 0) 0x1000 0 [Val_int 1, Val_int 2]"

abbreviation plain_environment :: environment where
  "plain_environment \<equiv> \<lparr>custom_ops = (\<lambda>_ _. \<lparr>custom_identifier = [], custom_compare = None, custom_compare_ext = None\<rparr>),
     call_compare = (\<lambda>_ _ _ _. (0, False)), alloc_ok = (\<lambda>_. True)\<rparr>"

lemma represented_Val_int: "represented m (Val_int i) (DInt (sint i))"
  using represents.Int[of "Val_int i" m] by (auto simp: represented_def sint_Long_val sint_Val_int)

lemma pair_represented: "represented pair_mem 0x1008 (DBlock 0 [DInt 1, DInt 2])"
proof -
  have f: "Tag_val pair_mem 0x1008 = 0" "Allocated_wosize_val pair_mem 0x1008 = 2" "Reserved_val pair_mem 0x1008 = 0"
    "Field pair_mem 0x1008 0 = Val_int 1" "Field pair_mem 0x1008 1 = Val_int 2"
    using layout_block[where vs = "[Val_int 1, Val_int 2]" and m = "\<lambda>_. 0" and a = "0x1000" and tag = 0]
    by (simp_all add: pair_mem_def)
  have "plain_block pair_mem 0x1008 0" using f by (simp add: plain_block_def Is_long_def Is_mixed_block_reserved_def)
  moreover have "\<exists>n. represents pair_mem n (Field pair_mem 0x1008 i) ([DInt 1, DInt 2] ! i)" if "i < 2" for i
    using that f(4,5) represented_Val_int[of pair_mem 1] represented_Val_int[of pair_mem 2]
    by (auto simp: represented_def less_2_cases_iff)
  ultimately show ?thesis
    using f(2) represents.Block[of pair_mem "0x1008" 0 "[DInt 1, DInt 2]"] by (auto simp: represented_def fields_tag_def)
qed

theorem compare_val_correct_witness:
  "\<exists>r. compare_val plain_environment pair_mem 0x1008 (Val_int 7) False = Some (Inr r) \<and>
     r \<noteq> UNORDERED \<and> \<not> sint r < 0 \<and> r \<noteq> 0"
  using compare_val_correct[OF pair_represented represented_Val_int[of _ 7], of plain_environment False]
  by (auto simp: data_rank_def order_def split: if_splits)

theorem polymorphic_tests_correct_witness:
  "caml_equal plain_environment pair_mem 0x1008 0x1008 = Some (Inr Val_true) \<and>
   caml_lessthan plain_environment pair_mem 0x1008 0x1008 = Some (Inr Val_false)"
  using polymorphic_tests_correct[OF pair_represented pair_represented, of plain_environment]
  by (simp add: then_compare_def list_compare_Cons)


end
