(* ===== verification/Memory.thy ===== *)
theory Memory
  imports Hash
begin

text \<open>
  Mutation of the heap and allocation on the local stack, \<open>runtime/memory.c\<close> with
  \<open>Is_young\<close> of \<open>caml/address_class.h\<close> and \<open>Ref_table_add\<close> of \<open>caml/minor_gc.h\<close>: the write
  barrier, \<open>caml_modify\<close> and \<open>caml_initialize\<close>, the atomic operations, and the arenas from
  which blocks of bounded lifetime are allocated.

  The state adds to the allocator's state the bounds of the minor heaps, the table of
  remembered fields, the list of the values passed to \<open>caml_darken\<close> (in the order of the
  calls; what marking does with them is not modelled) and the local arenas.  Operations are
  sequential: the atomic operations are single steps.  An operation that may leave the
  modelled part of the runtime returns \<open>None\<close> there.
\<close>

section \<open>State\<close>

record local_arena =
  arena_base :: "64 word"
  arena_length :: uintnat

text \<open>The C structure has an array of \<open>Max_local_arenas\<close> slots and their number in use; the
  list holds the slots in use.\<close>

record local_arenas =
  saved_sp :: intnat
  next_length :: intnat
  arenas :: "local_arena list"

text \<open>\<open>stat_supply\<close> holds what the following calls of the C allocator return, \<open>None\<close>
  standing for the null pointer.\<close>

record gc_st =
  dstate :: dom_st
  minor_heaps_start :: "64 word"
  minor_heaps_end :: "64 word"
  domain_alone :: bool
  marking_started :: bool
  major_ref :: "64 word list"
  darkened :: "mlvalue list"
  local_arenas :: "local_arenas option"
  local_sp :: intnat
  local_top :: "64 word"
  local_limit :: intnat
  stat_supply :: "64 word option list"

abbreviation mem_of :: "gc_st \<Rightarrow> mem" where
  "mem_of st \<equiv> heap (dstate st)"

definition set_mem :: "gc_st \<Rightarrow> mem \<Rightarrow> gc_st" where
  "set_mem st m = st\<lparr>dstate := (dstate st)\<lparr>heap := m\<rparr>\<rparr>"

definition store_word :: "gc_st \<Rightarrow> 64 word \<Rightarrow> 64 word \<Rightarrow> gc_st" where
  "store_word st a w = set_mem st (mem_store64 (mem_of st) a w)"

abbreviation load_word :: "gc_st \<Rightarrow> 64 word \<Rightarrow> 64 word" where
  "load_word st a \<equiv> mem_load64 (mem_of st) a"

text \<open>Results: \<open>None\<close> outside the modelled part, else an exception or a value with the new state.\<close>

type_synonym 'a run = "('a \<times> gc_st) result option"

definition done_run :: "'a \<Rightarrow> gc_st \<Rightarrow> 'a run" where
  "done_run x st = Some (Inr (x, st))"

definition raise :: "exn \<Rightarrow> 'a run" where
  "raise e = Some (Inl e)"

definition bind_run :: "'a run \<Rightarrow> ('a \<Rightarrow> gc_st \<Rightarrow> 'b run) \<Rightarrow> 'b run" where
  "bind_run r f = (case r of None \<Rightarrow> None | Some (Inl e) \<Rightarrow> Some (Inl e) | Some (Inr (x, st)) \<Rightarrow> f x st)"

definition lift_alloc :: "gc_st \<Rightarrow> (mlvalue \<times> dom_st) option \<Rightarrow> mlvalue run" where
  "lift_alloc st r = map_option (\<lambda>(v, d). Inr (v, st\<lparr>dstate := d\<rparr>)) r"

section \<open>The write barrier\<close>

definition Is_young_v :: "gc_st \<Rightarrow> mlvalue \<Rightarrow> bool" where
  "Is_young_v st v \<longleftrightarrow> v < minor_heaps_end st \<and> v > minor_heaps_start st"

definition Is_block_and_young :: "gc_st \<Rightarrow> mlvalue \<Rightarrow> bool" where
  "Is_block_and_young st v \<longleftrightarrow> Is_block v \<and> Is_young_v st v"

text \<open>The table grows when it is full.\<close>

definition Ref_table_add :: "gc_st \<Rightarrow> 64 word \<Rightarrow> gc_st" where
  "Ref_table_add st x = st\<lparr>major_ref := major_ref st @ [x]\<rparr>"

definition call_darken :: "gc_st \<Rightarrow> mlvalue \<Rightarrow> gc_st" where
  "call_darken st v = st\<lparr>darkened := darkened st @ [v]\<rparr>"

definition write_barrier :: "gc_st \<Rightarrow> mlvalue \<Rightarrow> nat \<Rightarrow> mlvalue \<Rightarrow> mlvalue \<Rightarrow> gc_st" where
  "write_barrier st obj fld old_val new_val =
     (if \<not> Is_young_v st obj then
        if Is_block old_val \<and> Is_young_v st old_val then st
        else
          (let st1 = (if Is_block old_val \<and> marking_started st then call_darken st old_val else st)
           in if Is_block_and_young st1 new_val then Ref_table_add st1 (obj + 8 * of_nat fld) else st1)
      else st)"

definition caml_modify :: "gc_st \<Rightarrow> 64 word \<Rightarrow> mlvalue \<Rightarrow> gc_st" where
  "caml_modify st fp val = store_word (write_barrier st fp 0 (load_word st fp) val) fp val"

definition caml_initialize :: "gc_st \<Rightarrow> 64 word \<Rightarrow> mlvalue \<Rightarrow> gc_st" where
  "caml_initialize st fp val =
     (let st1 = store_word st fp val
      in if \<not> Is_young_v st1 fp \<and> Is_block_and_young st1 val then Ref_table_add st1 fp else st1)"

section \<open>Atomic operations\<close>

text \<open>C's \<open>atomic_compare_exchange_strong\<close>, \<open>atomic_exchange\<close> and \<open>atomic_fetch_add\<close>, as steps.\<close>

definition c_compare_exchange :: "gc_st \<Rightarrow> 64 word \<Rightarrow> mlvalue \<Rightarrow> mlvalue \<Rightarrow> bool \<times> gc_st" where
  "c_compare_exchange st p oldval newval =
     (if load_word st p = oldval then (True, store_word st p newval) else (False, st))"

definition c_exchange :: "gc_st \<Rightarrow> 64 word \<Rightarrow> mlvalue \<Rightarrow> mlvalue \<times> gc_st" where
  "c_exchange st p v = (load_word st p, store_word st p v)"

definition c_fetch_add :: "gc_st \<Rightarrow> 64 word \<Rightarrow> 64 word \<Rightarrow> mlvalue \<times> gc_st" where
  "c_fetch_add st p n = (load_word st p, store_word st p (load_word st p + n))"

definition caml_atomic_cas_field :: "gc_st \<Rightarrow> mlvalue \<Rightarrow> nat \<Rightarrow> mlvalue \<Rightarrow> mlvalue \<Rightarrow> bool \<times> gc_st" where
  "caml_atomic_cas_field st obj fld oldval newval =
     (let p = obj + 8 * of_nat fld
      in if domain_alone st then
           if load_word st p = oldval then
             (True, write_barrier (store_word st p newval) obj fld oldval newval)
           else (False, st)
         else
           (case c_compare_exchange st p oldval newval of
              (cas_ret, st1) \<Rightarrow>
                if cas_ret then (True, write_barrier st1 obj fld oldval newval) else (False, st1)))"

definition caml_atomic_make :: "gc_st \<Rightarrow> mlvalue \<Rightarrow> mlvalue run" where
  "caml_atomic_make st v =
     bind_run (lift_alloc st (caml_alloc_small (dstate st) 1 0)) (\<lambda>ref st1. done_run ref (store_word st1 ref v))"

definition caml_atomic_load :: "gc_st \<Rightarrow> mlvalue \<Rightarrow> mlvalue" where
  "caml_atomic_load st ref = (if domain_alone st then Field (mem_of st) ref 0 else load_word st ref)"

definition caml_atomic_exchange :: "gc_st \<Rightarrow> mlvalue \<Rightarrow> mlvalue \<Rightarrow> mlvalue \<times> gc_st" where
  "caml_atomic_exchange st ref v =
     (case (if domain_alone st then (Field (mem_of st) ref 0, store_word st ref v) else c_exchange st ref v) of
        (ret, st1) \<Rightarrow> (ret, write_barrier st1 ref 0 ret v))"

definition caml_atomic_cas :: "gc_st \<Rightarrow> mlvalue \<Rightarrow> mlvalue \<Rightarrow> mlvalue \<Rightarrow> mlvalue \<times> gc_st" where
  "caml_atomic_cas st ref oldv newv =
     (if domain_alone st then
        if load_word st ref = oldv then
          (Val_int 1, write_barrier (store_word st ref newv) ref 0 oldv newv)
        else (Val_int 0, st)
      else
        (case c_compare_exchange st ref oldv newv of
           (cas_ret, st1) \<Rightarrow>
             if cas_ret then (Val_int 1, write_barrier st1 ref 0 oldv newv) else (Val_int 0, st1)))"

definition caml_atomic_fetch_add :: "gc_st \<Rightarrow> mlvalue \<Rightarrow> mlvalue \<Rightarrow> mlvalue \<times> gc_st" where
  "caml_atomic_fetch_add st ref incr =
     (if domain_alone st then
        (let ret = load_word st ref
         in (ret, store_word st ref (Val_long (Long_val ret + Long_val incr))))
      else c_fetch_add st ref (2 * Long_val incr))"

section \<open>The local stack\<close>

definition NOT_MARKABLE :: "64 word" where
  "NOT_MARKABLE = push_bit 8 3"

definition Max_local_arenas :: nat where
  "Max_local_arenas = 19"

definition Init_local_arena_bsize :: intnat where
  "Init_local_arena_bsize = 4096"

definition Local_uninit_hd :: header_t where
  "Local_uninit_hd = Make_header 0 0x42 NOT_MARKABLE"

definition in_arena :: "local_arena \<Rightarrow> 64 word \<Rightarrow> bool" where
  "in_arena a v \<longleftrightarrow> arena_base a \<le> v \<and> v < arena_base a + arena_length a"

definition caml_is_stack :: "gc_st \<Rightarrow> mlvalue \<Rightarrow> bool" where
  "caml_is_stack st v \<longleftrightarrow>
     Is_block v \<and> Color_hd (Hd_val (mem_of st) v) = NOT_MARKABLE \<and>
     (case local_arenas st of
        None \<Rightarrow> False
      | Some loc \<Rightarrow> list_ex (\<lambda>arena. in_arena arena v) (arenas loc))"

definition caml_modify_local :: "gc_st \<Rightarrow> mlvalue \<Rightarrow> nat \<Rightarrow> mlvalue \<Rightarrow> gc_st" where
  "caml_modify_local st obj i val =
     (if Color_hd (Hd_val (mem_of st) obj) = NOT_MARKABLE then store_word st (obj + 8 * of_nat i) val
      else caml_modify st (obj + 8 * of_nat i) val)"

definition caml_get_local_arenas :: "gc_st \<Rightarrow> local_arenas option" where
  "caml_get_local_arenas st =
     (case local_arenas st of None \<Rightarrow> None | Some s \<Rightarrow> Some (s\<lparr>saved_sp := local_sp st\<rparr>))"

definition caml_set_local_arenas :: "gc_st \<Rightarrow> local_arenas option \<Rightarrow> gc_st" where
  "caml_set_local_arenas st s =
     (case s of
        Some s' \<Rightarrow>
          (let a = List.last (arenas s')
           in st\<lparr>local_arenas := s, local_sp := saved_sp s',
                 local_top := arena_base a + arena_length a,
                 local_limit := - arena_length a\<rparr>)
      | None \<Rightarrow> st\<lparr>local_arenas := None, local_sp := 0, local_top := 0, local_limit := 0\<rparr>)"

definition c_alloc :: "gc_st \<Rightarrow> 64 word option run" where
  "c_alloc st = (case stat_supply st of [] \<Rightarrow> None | r # rs \<Rightarrow> done_run r (st\<lparr>stat_supply := rs\<rparr>))"

text \<open>The \<open>do\<close> loop that chooses the length of a new arena.\<close>

partial_function (option) grow_length :: "intnat \<Rightarrow> intnat \<Rightarrow> intnat option" where
  "grow_length sp len =
     (let len' = (if len = 0 then Init_local_arena_bsize else len * 4)
      in if sint (sp + len') < 0 then grow_length sp len' else Some len')"

text \<open>The part of a new arena that mirrors the stack is filled with invalid headers.\<close>

definition uninit_words :: "mem \<Rightarrow> 64 word \<Rightarrow> nat \<Rightarrow> mem" where
  "uninit_words m a n = store_bytes m a (concat (replicate n (le_bytes 8 Local_uninit_hd)))"

definition current_arenas :: "gc_st \<Rightarrow> local_arenas run" where
  "current_arenas st =
     (case caml_get_local_arenas st of
        Some s \<Rightarrow> done_run s st
      | None \<Rightarrow>
          bind_run (c_alloc st) (\<lambda>r st1. case r of
              None \<Rightarrow> raise (Fatal_error ''Out of memory'')
            | Some _ \<Rightarrow> done_run \<lparr>saved_sp = local_sp st1, next_length = 0, arenas = []\<rparr> st1))"

definition add_arena :: "gc_st \<Rightarrow> local_arenas \<Rightarrow> intnat \<Rightarrow> 64 word \<Rightarrow> gc_st" where
  "add_arena st s len arena =
     caml_set_local_arenas
       (set_mem st (uninit_words (mem_of st) (arena + len + saved_sp s) (nat ((7 - sint (saved_sp s)) div 8))))
       (Some (s\<lparr>next_length := len, arenas := arenas s @ [\<lparr>arena_base = arena, arena_length = len\<rparr>]\<rparr>))"

definition caml_local_realloc :: "gc_st \<Rightarrow> unit run" where
  "caml_local_realloc st =
     bind_run (current_arenas st)
       (\<lambda>s st1.
          if length (arenas s) = Max_local_arenas
          then raise (Fatal_error ''Local allocation stack overflow - exceeded Max_local_arenas'')
          else
            (case grow_length (saved_sp s) (next_length s) of
               None \<Rightarrow> None
             | Some len \<Rightarrow>
                 bind_run (c_alloc st1) (\<lambda>r st2. case r of
                     None \<Rightarrow> raise (Fatal_error ''Local allocation stack overflow - out of memory'')
                   | Some arena \<Rightarrow> done_run () (add_arena st2 s len arena))))"

definition caml_alloc_local :: "gc_st \<Rightarrow> uintnat \<Rightarrow> byte \<Rightarrow> mlvalue run" where
  "caml_alloc_local st wosize tag =
     (let sp = local_sp st - Bsize_wsize (Whsize_wosize wosize);
          st1 = st\<lparr>local_sp := sp\<rparr>
      in bind_run (if sint sp < sint (local_limit st1) then caml_local_realloc st1 else done_run () st1)
           (\<lambda>_ st2.
              (let hp = local_top st2 + sp
               in done_run (hp + 8) (store_word st2 hp (Make_header wosize tag NOT_MARKABLE)))))"

definition caml_local_stack_offset :: "gc_st \<Rightarrow> mlvalue" where
  "caml_local_stack_offset st = Val_long (- local_sp st)"

section \<open>Runs and stores\<close>

lemma bind_run_simps [simp]:
  "bind_run None f = None"
  "bind_run (Some (Inl e)) f = Some (Inl e)"
  "bind_run (Some (Inr (x, st))) f = f x st"
  "bind_run (done_run x st) f = f x st"
  "bind_run (raise e) f = raise e"
  by (simp_all add: bind_run_def done_run_def raise_def)

lemma bind_run_eq_done:
  "bind_run r f = done_run y st' \<longleftrightarrow> (\<exists>x st. r = done_run x st \<and> f x st = done_run y st')"
  by (auto simp: bind_run_def done_run_def split: option.splits sum.splits)

lemma done_run_eq [simp]: "done_run x st = done_run y st' \<longleftrightarrow> x = y \<and> st = st'" "raise e \<noteq> done_run x st"
  "None \<noteq> done_run x st" "done_run x st \<noteq> raise e" "done_run x st \<noteq> None" "raise e \<noteq> None"
  by (simp_all add: done_run_def raise_def)

lemma lift_alloc_eq_done:
  "lift_alloc st r = done_run v st' \<longleftrightarrow> (\<exists>d. r = Some (v, d) \<and> st' = st\<lparr>dstate := d\<rparr>)"
  by (cases r) (auto simp: lift_alloc_def done_run_def)

lemma store_word_select [simp]:
  "mem_of (store_word st a w) = mem_store64 (mem_of st) a w"
  "minor_heaps_start (store_word st a w) = minor_heaps_start st"
  "minor_heaps_end (store_word st a w) = minor_heaps_end st"
  "marking_started (store_word st a w) = marking_started st"
  "major_ref (store_word st a w) = major_ref st"
  "darkened (store_word st a w) = darkened st"
  "domain_alone (store_word st a w) = domain_alone st"
  "local_arenas (store_word st a w) = local_arenas st"
  "local_sp (store_word st a w) = local_sp st"
  "local_top (store_word st a w) = local_top st"
  "local_limit (store_word st a w) = local_limit st"
  by (simp_all add: store_word_def set_mem_def)

lemma Is_young_store_word [simp]:
  "Is_young_v (store_word st a w) v = Is_young_v st v"
  "Is_block_and_young (store_word st a w) v = Is_block_and_young st v"
  by (simp_all add: Is_young_v_def Is_block_and_young_def)

lemma table_select [simp]:
  "dstate (Ref_table_add st x) = dstate st" "dstate (call_darken st x) = dstate st"
  "major_ref (call_darken st x) = major_ref st" "darkened (Ref_table_add st x) = darkened st"
  "major_ref (Ref_table_add st x) = major_ref st @ [x]" "darkened (call_darken st x) = darkened st @ [x]"
  "marking_started (Ref_table_add st x) = marking_started st" "marking_started (call_darken st x) = marking_started st"
  "minor_heaps_start (Ref_table_add st x) = minor_heaps_start st" "minor_heaps_start (call_darken st x) = minor_heaps_start st"
  "minor_heaps_end (Ref_table_add st x) = minor_heaps_end st" "minor_heaps_end (call_darken st x) = minor_heaps_end st"
  "domain_alone (Ref_table_add st x) = domain_alone st" "domain_alone (call_darken st x) = domain_alone st"
  by (simp_all add: Ref_table_add_def call_darken_def)

lemma Is_young_tables [simp]:
  "Is_young_v (Ref_table_add st x) v = Is_young_v st v" "Is_young_v (call_darken st x) v = Is_young_v st v"
  "Is_block_and_young (Ref_table_add st x) v = Is_block_and_young st v"
  "Is_block_and_young (call_darken st x) v = Is_block_and_young st v"
  by (simp_all add: Is_young_v_def Is_block_and_young_def)

lemma write_barrier_select [simp]:
  "dstate (write_barrier st obj i old new) = dstate st"
  "marking_started (write_barrier st obj i old new) = marking_started st"
  "minor_heaps_start (write_barrier st obj i old new) = minor_heaps_start st"
  "minor_heaps_end (write_barrier st obj i old new) = minor_heaps_end st"
  "domain_alone (write_barrier st obj i old new) = domain_alone st"
  by (simp_all add: write_barrier_def Let_def)

lemma Is_young_write_barrier [simp]:
  "Is_young_v (write_barrier st obj i old new) v = Is_young_v st v"
  "Is_block_and_young (write_barrier st obj i old new) v = Is_block_and_young st v"
  by (simp_all add: Is_young_v_def Is_block_and_young_def)

text \<open>The barrier does not depend on memory, so it may come before or after the store.\<close>

lemma write_barrier_store_word:
  "write_barrier (store_word st a w) obj i old new = store_word (write_barrier st obj i old new) a w"
  by (simp add: write_barrier_def Let_def)
    (simp add: store_word_def set_mem_def Ref_table_add_def call_darken_def)

lemma store_bytes_load [simp]: "store_bytes m a (load_bytes m a n) = m"
proof (rule ext)
  fix x
  show "store_bytes m a (load_bytes m a n) x = m x" by (simp add: store_bytes_def load_bytes_def)
qed

lemma store64_load64 [simp]: "mem_store64 m a (mem_load64 m a) = m"
proof -
  have "le_bytes 8 (le_word (load_bytes m a 8) :: 64 word) = load_bytes m a 8"
    by (rule le_bytes_le_word) simp_all
  then show ?thesis by (simp add: mem_store64_def mem_load64_def)
qed

section \<open>The atomic operations do not depend on the number of domains\<close>

text \<open>Adding twice the increment to a tagged integer is the tagged sum.\<close>

lemma Val_long_add: "Is_long v \<Longrightarrow> Val_long (Long_val v + x) = v + 2 * x"
proof -
  assume "Is_long v"
  then have "v = Val_long (Long_val v)" by (simp add: Val_long_Long_val)
  then have "v + 2 * x = Val_long (Long_val v) + 2 * x" by simp
  also have "\<dots> = Val_long (Long_val v + x)" unfolding Val_long_def push_bit_eq_mult by simp
  finally show ?thesis by simp
qed

lemma atomic_exchange_modify:
  "caml_atomic_exchange st ref v = (load_word st ref, caml_modify st ref v)"
  by (simp add: caml_atomic_exchange_def c_exchange_def caml_modify_def write_barrier_store_word Field_def)

lemma atomic_cas_modify:
  "caml_atomic_cas st ref oldv newv =
     (if load_word st ref = oldv then (Val_int 1, caml_modify st ref newv) else (Val_int 0, st))"
  by (simp add: caml_atomic_cas_def c_compare_exchange_def caml_modify_def write_barrier_store_word)

lemma atomic_cas_field_barrier:
  "caml_atomic_cas_field st obj i oldval newval =
     (if Field (mem_of st) obj i = oldval then
        (True, store_word (write_barrier st obj i oldval newval) (obj + 8 * of_nat i) newval)
      else (False, st))"
  by (simp add: caml_atomic_cas_field_def c_compare_exchange_def Field_def write_barrier_store_word Let_def)

lemma atomic_fetch_add_store:
  "Is_long (load_word st ref) \<Longrightarrow>
     caml_atomic_fetch_add st ref incr =
       (load_word st ref, store_word st ref (Val_long (Long_val (load_word st ref) + Long_val incr)))"
  by (simp add: caml_atomic_fetch_add_def c_fetch_add_def Val_long_add Let_def)

section \<open>What the collectors rely on\<close>

text \<open>Fields are words at aligned addresses, so two of them do not overlap.\<close>

definition word_addr :: "64 word \<Rightarrow> bool" where
  "word_addr a \<longleftrightarrow> unat a mod 8 = 0"

lemma word_addr_apart:
  assumes "word_addr a" "word_addr b" "a \<noteq> b" shows "8 \<le> unat (b - a)"
proof -
  have "int (unat (b - a)) = (int (unat b) - int (unat a)) mod 2 ^ 64"
    by (simp add: uint_word_ariths)
  moreover have "8 dvd (int (unat b) - int (unat a))"
    using assms unfolding word_addr_def by presburger
  then have "8 dvd (int (unat b) - int (unat a)) mod 2 ^ 64" by (simp add: dvd_mod)
  ultimately have "int 8 dvd int (unat (b - a))" by simp
  then have "8 dvd unat (b - a)" unfolding of_nat_dvd_iff .
  moreover have "0 < unat (b - a)" using assms by (simp add: unat_gt_0)
  ultimately show ?thesis by (auto dest: dvd_imp_le)
qed

text \<open>The minor collector finds every pointer from an old field to a young block through the
  table of remembered fields.\<close>

definition remembered :: "64 word set \<Rightarrow> gc_st \<Rightarrow> bool" where
  "remembered F st \<longleftrightarrow>
     (\<forall>a\<in>F. \<not> Is_young_v st a \<longrightarrow> Is_block_and_young st (load_word st a) \<longrightarrow> a \<in> set (major_ref st))"

text \<open>The incremental marker works on a snapshot: while it runs, a pointer to an old block
  that is removed from an old field has been handed to \<open>caml_darken\<close>.\<close>

definition snapshot :: "64 word set \<Rightarrow> gc_st \<Rightarrow> gc_st \<Rightarrow> bool" where
  "snapshot F st st' \<longleftrightarrow>
     (marking_started st \<longrightarrow>
       (\<forall>a\<in>F. \<not> Is_young_v st a \<longrightarrow>
          (let p = load_word st a in
             Is_block p \<longrightarrow> \<not> Is_young_v st p \<longrightarrow> load_word st' a = p \<or> p \<in> set (darkened st'))))"

definition same_gc :: "gc_st \<Rightarrow> gc_st \<Rightarrow> bool" where
  "same_gc st st' \<longleftrightarrow>
     minor_heaps_start st' = minor_heaps_start st \<and> minor_heaps_end st' = minor_heaps_end st \<and>
     marking_started st' = marking_started st \<and> set (darkened st) \<subseteq> set (darkened st')"

definition barrier_ok :: "64 word set \<Rightarrow> gc_st \<Rightarrow> gc_st \<Rightarrow> bool" where
  "barrier_ok F st st' \<longleftrightarrow>
     same_gc st st' \<and> (remembered F st \<longrightarrow> remembered F st') \<and> snapshot F st st'"

lemma same_gc_young: "same_gc st st' \<Longrightarrow> Is_young_v st' = Is_young_v st"
  by (simp add: same_gc_def Is_young_v_def fun_eq_iff)

lemma barrier_ok_refl [simp]: "barrier_ok F st st"
  by (simp add: barrier_ok_def same_gc_def snapshot_def Let_def)

lemma barrier_ok_trans [trans]:
  assumes "barrier_ok F st st1" "barrier_ok F st1 st2" shows "barrier_ok F st st2"
proof -
  have g: "same_gc st st1" "same_gc st1 st2" using assms by (simp_all add: barrier_ok_def)
  have y: "Is_young_v st1 = Is_young_v st" by (rule same_gc_young[OF g(1)])
  have "load_word st2 a = load_word st a \<or> load_word st a \<in> set (darkened st2)"
    if m: "marking_started st" "a \<in> F" "\<not> Is_young_v st a" "Is_block (load_word st a)"
      "\<not> Is_young_v st (load_word st a)" for a
  proof -
    have "load_word st1 a = load_word st a \<or> load_word st a \<in> set (darkened st1)"
      using assms(1) m by (simp add: barrier_ok_def snapshot_def Let_def)
    then show ?thesis
    proof
      assume e: "load_word st1 a = load_word st a"
      have "marking_started st1" using g(1) m(1) by (simp add: same_gc_def)
      then show ?thesis using assms(2) m e y unfolding barrier_ok_def snapshot_def Let_def by metis
    next
      assume "load_word st a \<in> set (darkened st1)"
      then show ?thesis using g(2) by (auto simp: same_gc_def)
    qed
  qed
  then have "snapshot F st st2" by (simp add: snapshot_def Let_def)
  moreover have "same_gc st st2" using g by (auto simp: same_gc_def)
  ultimately show ?thesis using assms by (simp add: barrier_ok_def)
qed

text \<open>Writes to one word.  \<open>word_write\<close> is the contract for the effect on memory,
  \<open>guarded_write\<close> adds the contract with the collectors.\<close>

locale word_write =
  fixes wr :: "gc_st \<Rightarrow> 64 word \<Rightarrow> mlvalue \<Rightarrow> gc_st"
  assumes mem_write: "mem_of (wr st a v) = mem_store64 (mem_of st) a v"
begin

lemma load_same: "load_word (wr st a v) a = v"
  by (simp add: mem_write)

lemma load_other:
  "word_addr a \<Longrightarrow> word_addr b \<Longrightarrow> a \<noteq> b \<Longrightarrow> load_word (wr st a v) b = load_word st b"
  by (simp add: mem_write mem_load64_store64_other word_addr_apart)

end

locale guarded_write = word_write +
  assumes write_ok: "a \<in> F \<Longrightarrow> \<forall>x\<in>F. word_addr x \<Longrightarrow> barrier_ok F st (wr st a v)"

text \<open>The core of both contracts: a barrier for the old contents of the field, then the store.\<close>

lemma barrier_then_store:
  assumes F: "\<forall>x\<in>F. word_addr x" and a: "obj + 8 * of_nat i \<in> F"
    and y: "Is_young_v st obj = Is_young_v st (obj + 8 * of_nat i)"
  shows "barrier_ok F st (store_word (write_barrier st obj i (load_word st (obj + 8 * of_nat i)) v) (obj + 8 * of_nat i) v)"
proof -
  let ?a = "obj + 8 * of_nat i"
  let ?b = "write_barrier st obj i (load_word st ?a) v"
  let ?st = "store_word ?b ?a v"
  have other: "load_word ?st x = load_word st x" if "x \<in> F" "x \<noteq> ?a" for x
    using F a that by (simp add: mem_load64_store64_other word_addr_apart)
  have gc: "same_gc st ?st" by (auto simp: same_gc_def write_barrier_def Let_def)
  have mono: "set (major_ref st) \<subseteq> set (major_ref ?b)" by (auto simp: write_barrier_def Let_def)
  have added: "?a \<in> set (major_ref ?b)"
    if "remembered F st" "\<not> Is_young_v st ?a" "Is_block_and_young st v"
    using that y a unfolding remembered_def write_barrier_def Let_def Is_block_and_young_def by simp
  have "remembered F ?st" if r: "remembered F st"
    unfolding remembered_def
  proof (intro ballI impI)
    fix x assume x: "x \<in> F" "\<not> Is_young_v ?st x" "Is_block_and_young ?st (load_word ?st x)"
    show "x \<in> set (major_ref ?st)"
    proof (cases "x = ?a")
      case True
      then show ?thesis using added[OF r] x by simp
    next
      case False
      then show ?thesis using r x mono other[of x] unfolding remembered_def by auto
    qed
  qed
  moreover have "load_word st ?a \<in> set (darkened ?st)"
    if "marking_started st" "\<not> Is_young_v st ?a" "Is_block (load_word st ?a)" "\<not> Is_young_v st (load_word st ?a)"
    using that y by (simp add: write_barrier_def Let_def)
  then have "snapshot F st ?st" using other unfolding snapshot_def Let_def by metis
  ultimately show ?thesis using gc by (simp add: barrier_ok_def)
qed

interpretation plain: word_write store_word
  by unfold_locales simp

interpretation modify: guarded_write caml_modify
proof unfold_locales
  fix st a v F
  show "mem_of (caml_modify st a v) = mem_store64 (mem_of st) a v" by (simp add: caml_modify_def)
  assume "a \<in> F" "\<forall>x\<in>F. word_addr x"
  then show "barrier_ok F st (caml_modify st a v)"
    using barrier_then_store[of F a 0 st v] by (simp add: caml_modify_def)
qed

interpretation initialize: word_write caml_initialize
  by unfold_locales (simp add: caml_initialize_def Let_def)

section \<open>Correctness of local allocation\<close>

text \<open>Headers of local blocks.\<close>

lemma bit_NOT_MARKABLE: "bit NOT_MARKABLE n \<longleftrightarrow> n = 8 \<or> n = 9"
proof -
  have m: "(3 :: 64 word) = mask 2" by (simp add: mask_eq_exp_minus_1)
  have b: "bit (3 :: 64 word) k \<longleftrightarrow> k < 2" for k
    unfolding m bit_mask_iff by auto
  show ?thesis unfolding NOT_MARKABLE_def bit_push_bit_iff b by auto
qed

lemma bit_Make_header_local:
  assumes "unat wosize < 2 ^ 46"
  shows "bit (Make_header wosize tag NOT_MARKABLE) n \<longleftrightarrow>
    (n = 8 \<or> n = 9) \<or> bit (Make_header_with_reserved wosize tag 0 0) n"
proof -
  have "Make_header wosize tag NOT_MARKABLE = Make_header_with_reserved wosize tag 0 0 + NOT_MARKABLE"
    by (simp add: Make_header_def Make_header_with_reserved_def)
  also have "\<dots> = Make_header_with_reserved wosize tag 0 0 OR NOT_MARKABLE"
    by (rule disjunctive_add) (auto simp: bit_NOT_MARKABLE bit_Make_header_with_reserved[OF assms])
  finally show ?thesis by (auto simp: bit_or_iff bit_NOT_MARKABLE)
qed

lemma Make_header_local [simp]:
  assumes w: "unat wosize < 2 ^ 46"
  shows "Tag_hd (Make_header wosize tag NOT_MARKABLE) = tag"
    "Allocated_wosize_hd (Make_header wosize tag NOT_MARKABLE) = wosize"
    "Color_hd (Make_header wosize tag NOT_MARKABLE) = NOT_MARKABLE"
proof -
  note b = bit_Make_header_local[OF w] bit_Make_header_with_reserved[OF w]
  show "Tag_hd (Make_header wosize tag NOT_MARKABLE) = tag"
    by (rule bit_word_eqI) (simp add: Tag_hd_def bit_ucast_iff bit_and_iff bit_mask_iff b)
  show "Allocated_wosize_hd (Make_header wosize tag NOT_MARKABLE) = wosize"
    using bit_small_word[OF w]
    by (intro bit_word_eqI)
      (auto simp: Allocated_wosize_hd_def bit_drop_bit_eq bit_and_iff bit_push_bit_iff bit_mask_iff b)
  show "Color_hd (Make_header wosize tag NOT_MARKABLE) = NOT_MARKABLE"
    by (rule bit_word_eqI)
      (auto simp: Color_hd_def bit_and_iff bit_push_bit_iff bit_mask_iff b bit_NOT_MARKABLE)
qed

text \<open>The loop that sizes an arena ends, with enough room and at most four times what is needed.\<close>

lemma sint_diff_nat:
  "S \<le> 2 ^ 62 \<Longrightarrow> L \<le> 2 ^ 62 \<Longrightarrow> sint (of_nat L - of_nat S :: 64 word) = int L - int S"
proof -
  assume "S \<le> 2 ^ 62" "L \<le> 2 ^ 62"
  then have "sint (word_of_int (int L - int S) :: 64 word) = int L - int S"
    by (intro signed_take_bit_in_range) auto
  then show ?thesis by simp
qed

lemma grow_length_enough:
  assumes "S \<le> 2 ^ 56" "8 dvd L" "L = 0 \<or> L < S"
  shows "\<exists>L'. grow_length (- of_nat S) (of_nat L) = Some (of_nat L') \<and>
    S \<le> L' \<and> 0 < L' \<and> 8 dvd L' \<and> L' \<le> max 4096 (4 * S)"
  using assms
proof (induction "S - L" arbitrary: L rule: less_induct)
  case less
  define L' where "L' = (if L = 0 then 4096 else 4 * L)"
  have w: "(if of_nat L = (0 :: 64 word) then Init_local_arena_bsize else of_nat L * 4) = of_nat L'"
  proof (cases "L = 0")
    case False
    then have "L mod 2 ^ 64 = L" "L \<noteq> 0" using less.prems by auto
    then have "of_nat L \<noteq> (0 :: 64 word)" by (simp add: word_unat_eq_iff unat_of_nat)
    then show ?thesis using False by (simp add: L'_def)
  qed (simp add: L'_def Init_local_arena_bsize_def)
  have b: "L' \<le> max 4096 (4 * S)" "0 < L'" "8 dvd L'" "L' \<le> 2 ^ 62"
    using less.prems by (auto simp: L'_def)
  have s: "sint (of_nat L' - of_nat S :: 64 word) = int L' - int S"
    using b less.prems by (intro sint_diff_nat) auto
  show ?case
  proof (cases "L' < S")
    case True
    have "S - L' < S - L" using True less.prems by (auto simp: L'_def)
    from less.hyps[OF this less.prems(1) b(3)] True show ?thesis
      by (subst grow_length.simps) (simp add: w s Let_def)
  next
    case False
    then show ?thesis using b by (subst grow_length.simps) (auto simp: w s Let_def intro!: exI[of _ L'])
  qed
qed

text \<open>The stack grows downwards from the top of the last arena; \<open>local_sp\<close> is minus its size.\<close>

definition stack_used :: "gc_st \<Rightarrow> nat" where
  "stack_used st = unat (- local_sp st)"

definition wf_arena :: "local_arena \<Rightarrow> bool" where
  "wf_arena a \<longleftrightarrow> word_addr (arena_base a) \<and> 8 \<le> unat (arena_base a) \<and> unat (arena_base a) < 2 ^ 63 \<and>
     8 dvd unat (arena_length a) \<and> unat (arena_length a) \<le> 2 ^ 58"

definition wf_local :: "gc_st \<Rightarrow> bool" where
  "wf_local st \<longleftrightarrow> 8 dvd stack_used st \<and> stack_used st \<le> 2 ^ 56 \<and>
     (case local_arenas st of
        None \<Rightarrow> local_sp st = 0 \<and> local_limit st = 0
      | Some s \<Rightarrow> arenas s \<noteq> [] \<and> length (arenas s) \<le> Max_local_arenas \<and>
          (let a = List.last (arenas s) in
             wf_arena a \<and> stack_used st \<le> unat (arena_length a) \<and> next_length s = arena_length a \<and>
             local_top st = arena_base a + arena_length a \<and> local_limit st = - arena_length a))"

text \<open>The C allocator returns aligned addresses in the user half of the address space.\<close>

definition wf_supply :: "gc_st \<Rightarrow> bool" where
  "wf_supply st \<longleftrightarrow> (\<forall>r. Some r \<in> set (stat_supply st) \<longrightarrow> word_addr r \<and> 8 \<le> unat r \<and> unat r < 2 ^ 63)"

lemma length_concat_words [simp]: "length (concat (replicate n (le_bytes 8 (w :: 64 word)))) = 8 * n"
  by (induction n) auto

lemma set_local_arenas_select [simp]:
  "dstate (caml_set_local_arenas st s) = dstate st"
  "stat_supply (caml_set_local_arenas st s) = stat_supply st"
  by (simp_all add: caml_set_local_arenas_def Let_def split: option.split)

text \<open>A new arena: the stack size is kept, the new arena has room for it, and only the arena is written.\<close>

definition new_arena :: "gc_st \<Rightarrow> gc_st \<Rightarrow> bool" where
  "new_arena st st' \<longleftrightarrow>
     (\<exists>s. local_arenas st' = Some s \<and>
        (let a = List.last (arenas s) in
           arenas s = (case local_arenas st of None \<Rightarrow> [] | Some s0 \<Rightarrow> arenas s0) @ [a] \<and>
           same_outside (arena_base a) (unat (arena_length a)) (mem_of st) (mem_of st')))"

text \<open>The words that the stack has in the new arena are filled with invalid headers, no other byte is written.\<close>

definition mirrored :: "gc_st \<Rightarrow> gc_st \<Rightarrow> bool" where
  "mirrored st st' \<longleftrightarrow> mem_of st' = uninit_words (mem_of st) (local_top st' + local_sp st') (stack_used st' div 8)"

lemma uninit_words_load:
  assumes "i < n" "8 * n \<le> 2 ^ 63"
  shows "mem_load64 (uninit_words m a n) (a + 8 * of_nat i) = Local_uninit_hd"
proof -
  let ?w = "le_bytes 8 Local_uninit_hd" and ?m = "uninit_words m a n"
  have all: "load_bytes ?m a (8 * n) = concat (replicate n ?w)"
    using load_bytes_store_bytes_same[of "concat (replicate n ?w)" m a] assms(2) by (simp add: uninit_words_def)
  have "take 8 (drop (8 * i) (concat (replicate n ?w))) = ?w"
    using assms(1)
  proof (induction n arbitrary: i)
    case (Suc n)
    then show ?case by (cases i) simp_all
  qed simp
  then have "load_bytes ?m (a + of_nat (8 * i)) 8 = ?w"
    using load_bytes_slice[of "8 * i" 8 "8 * n" ?m a] assms(1) all by simp
  then show ?thesis by (simp add: mem_load64_def le_word_le_bytes)
qed

lemma uninit_words_outside: "8 * n < 2 ^ 63 \<Longrightarrow> same_outside a (8 * n) m (uninit_words m a n)"
  using same_outside_store_bytes[of 0 "concat (replicate n (le_bytes 8 Local_uninit_hd))" "8 * n" a m]
  by (simp add: uninit_words_def)

lemma add_arena_correct:
  assumes S: "8 dvd S" "S \<le> 2 ^ 56" and L: "S \<le> L" "0 < L" "8 dvd L" "L \<le> 2 ^ 58"
    and base: "word_addr base" "8 \<le> unat base" "unat base < 2 ^ 63"
    and n: "length (arenas s) < Max_local_arenas" and sp: "saved_sp s = - of_nat S"
    and as: "arenas s = (case local_arenas st of None \<Rightarrow> [] | Some s0 \<Rightarrow> arenas s0)"
  shows "wf_local (add_arena st s (of_nat L) base)"
    and "new_arena st (add_arena st s (of_nat L) base)"
    and "local_sp (add_arena st s (of_nat L) base) = - of_nat S"
    and "mirrored st (add_arena st s (of_nat L) base)"
proof -
  let ?st = "add_arena st s (of_nat L) base"
  have uL: "unat (of_nat L :: 64 word) = L" "unat (of_nat S :: 64 word) = S"
    using S L by (simp_all add: unat_of_nat)
  have "sint (saved_sp s) = - int S" using sint_diff_nat[of S 0] S by (simp add: sp)
  then have words: "nat ((7 - sint (saved_sp s)) div 8) = S div 8" using S(1) by (auto elim!: dvdE)
  have addr: "base + of_nat L + saved_sp s = base + of_nat (L - S)" using L(1) by (simp add: sp of_nat_diff)
  have "L - S + length (concat (replicate (S div 8) (le_bytes 8 Local_uninit_hd))) \<le> L"
    using S(1) L(1) by (auto elim!: dvdE)
  then have "same_outside base L (mem_of st) (uninit_words (mem_of st) (base + of_nat (L - S)) (S div 8))"
    unfolding uninit_words_def by (rule same_outside_store_bytes) (use L(4) in simp)
  then have "same_outside base L (mem_of st) (mem_of ?st)"
    unfolding add_arena_def words addr by (simp add: set_mem_def)
  moreover have "wf_arena \<lparr>arena_base = base, arena_length = of_nat L\<rparr>"
    using base L by (simp add: wf_arena_def uL)
  ultimately show "wf_local ?st" "new_arena st ?st" "local_sp ?st = - of_nat S"
    using S L n as by (simp_all add: wf_local_def new_arena_def stack_used_def add_arena_def
        caml_set_local_arenas_def sp uL Let_def)
  have "mem_of ?st = uninit_words (mem_of st) (base + of_nat L + saved_sp s) (S div 8)"
    unfolding add_arena_def words by (simp add: set_mem_def)
  then show "mirrored st ?st"
    by (simp add: mirrored_def stack_used_def add_arena_def caml_set_local_arenas_def Let_def sp uL)
qed

lemma c_alloc_supply:
  "wf_supply st \<Longrightarrow> c_alloc st = done_run (Some a) st1 \<Longrightarrow>
     word_addr a \<and> 8 \<le> unat a \<and> unat a < 2 ^ 63 \<and> dstate st1 = dstate st \<and> local_arenas st1 = local_arenas st"
  by (auto simp: c_alloc_def wf_supply_def split: list.splits)

lemma current_arenas_correct:
  assumes sp: "local_sp st = - of_nat S"
    and old: "\<And>s. local_arenas st = Some s \<Longrightarrow> length (arenas s) \<le> Max_local_arenas \<and>
        (\<exists>L. next_length s = of_nat L \<and> 8 dvd L \<and> L < S)"
    and sup: "wf_supply st" and s: "current_arenas st = done_run s st1"
  shows "saved_sp s = - of_nat S \<and> length (arenas s) \<le> Max_local_arenas \<and> dstate st1 = dstate st \<and> wf_supply st1 \<and>
      local_arenas st1 = local_arenas st \<and> arenas s = (case local_arenas st of None \<Rightarrow> [] | Some s0 \<Rightarrow> arenas s0) \<and>
      (\<exists>L. next_length s = of_nat L \<and> 8 dvd L \<and> (L = 0 \<or> L < S))"
proof (cases "local_arenas st")
  case None
  then show ?thesis
    using s sp sup by (auto simp: current_arenas_def caml_get_local_arenas_def c_alloc_def bind_run_eq_done
        wf_supply_def split: option.splits list.splits intro!: exI[of _ "0 :: nat"])
next
  case (Some s0)
  then show ?thesis using s sp sup old[OF Some] by (auto simp: current_arenas_def caml_get_local_arenas_def)
qed

lemma caml_local_realloc_correct:
  assumes sp: "local_sp st = - of_nat S" and S: "8 dvd S" "S \<le> 2 ^ 56"
    and old: "\<And>s. local_arenas st = Some s \<Longrightarrow> length (arenas s) \<le> Max_local_arenas \<and>
        (\<exists>L. next_length s = of_nat L \<and> 8 dvd L \<and> L < S)"
    and sup: "wf_supply st" and r: "caml_local_realloc st = done_run u st'"
  shows "wf_local st' \<and> new_arena st st' \<and> local_sp st' = - of_nat S \<and> mirrored st st'"
proof -
  obtain s st1 where s: "current_arenas st = done_run s st1"
    using r unfolding caml_local_realloc_def bind_run_eq_done by blast
  from current_arenas_correct[OF sp old sup s]
  obtain L where L: "next_length s = of_nat L" "8 dvd L" "L = 0 \<or> L < S" and s1: "saved_sp s = - of_nat S"
      "length (arenas s) \<le> Max_local_arenas" "dstate st1 = dstate st" "wf_supply st1"
      "local_arenas st1 = local_arenas st" "arenas s = (case local_arenas st of None \<Rightarrow> [] | Some s0 \<Rightarrow> arenas s0)" by blast
  obtain L' where L': "grow_length (- of_nat S) (of_nat L) = Some (of_nat L')" "S \<le> L'" "0 < L'" "8 dvd L'" "L' \<le> max 4096 (4 * S)"
    using grow_length_enough[OF S(2) L(2,3)] by auto
  from r s s1(1) L(1) L'(1) obtain base st2 where n: "length (arenas s) \<noteq> Max_local_arenas"
    and st2: "c_alloc st1 = done_run (Some base) st2" and st': "st' = add_arena st2 s (of_nat L') base"
    by (auto simp: caml_local_realloc_def bind_run_eq_done split: if_splits option.splits)
  note b = c_alloc_supply[OF s1(4) st2]
  have "wf_local st'" "new_arena st2 st'" "local_sp st' = - of_nat S" "mirrored st2 st'"
    unfolding st' using add_arena_correct[of S L' base s st2] S L' b n s1 by auto
  then show ?thesis using b s1(3,5) by (simp add: new_arena_def mirrored_def)
qed

lemma word_addr_add:
  assumes "word_addr a" "8 dvd n" "unat a + n < 2 ^ 64" shows "word_addr (a + of_nat n)"
proof -
  have "unat (a + of_nat n) = unat a + n" using assms(3) by (simp add: unat_word_ariths unat_of_nat)
  then show ?thesis using assms(1,2) unfolding word_addr_def by (auto elim!: dvdE)
qed

lemma word_addr_block: "word_addr a \<Longrightarrow> Is_block a"
proof -
  assume "word_addr a"
  then have "\<not> bit (unat a) 0" unfolding word_addr_def bit_0 by presburger
  then have "\<not> bit a 0" unfolding bit_unsigned_iff by simp
  then show ?thesis by (simp add: Is_long_iff_odd bit_0)
qed

text \<open>The block below the stack of a domain whose last arena has room for it.\<close>

lemma block_in_arena:
  assumes wf: "wf_local st" and Some: "local_arenas st = Some s" and u: "stack_used st = S + 8 * (n + 1)" and n: "0 < n"
    and st': "st' = store_word st (local_top st + local_sp st) (Make_header wosize tag NOT_MARKABLE)"
    and v: "v = local_top st + local_sp st + 8" and w: "unat wosize = n" "n < 2 ^ 46"
  shows "wf_local st' \<and> caml_is_stack st' v \<and> Tag_val (mem_of st') v = tag \<and>
    Allocated_wosize_val (mem_of st') v = wosize \<and> v + 8 * wosize = local_top st' - of_nat S \<and>
    same_outside (v - 8) 8 (mem_of st) (mem_of st') \<and>
    same_outside (arena_base (List.last (arenas s))) (unat (arena_length (List.last (arenas s)))) (mem_of st) (mem_of st')"
proof -
  define a where "a = List.last (arenas s)"
  define L where "L = unat (arena_length a)"
  have wfa: "wf_arena a" "arenas s \<noteq> []" and top: "local_top st = arena_base a + of_nat L"
    and L: "S + 8 * (n + 1) \<le> L" "8 dvd S + 8 * (n + 1)"
    using wf u by (simp_all add: wf_local_def Some a_def L_def Let_def)
  have b: "word_addr (arena_base a)" "unat (arena_base a) < 2 ^ 63" "8 dvd L" "L \<le> 2 ^ 58"
    using wfa(1) by (simp_all add: wf_arena_def L_def)
  have "- local_sp st = of_nat (S + 8 * (n + 1))" unfolding u[symmetric] stack_used_def by simp
  then have sp: "local_sp st = - of_nat (S + 8 * (n + 1))" by (metis minus_minus)
  define k where "k = L - (S + 8 * (n + 1))"
  have k: "8 dvd k" "k + S + 8 * (n + 1) = L" using L b(3) by (simp_all add: k_def)
  have oL: "(of_nat L :: 64 word) = of_nat k + of_nat (S + 8 * (n + 1))"
    using k(2) unfolding of_nat_add [symmetric] by (simp add: add.assoc)
  have hp: "local_top st + local_sp st = arena_base a + of_nat k"
    unfolding top sp oL by (simp only: add.assoc add.right_inverse add_0_right)
  have v': "v = arena_base a + of_nat (k + 8)" unfolding v hp by simp
  have uv: "unat v = unat (arena_base a) + (k + 8)"
    using b k by (simp add: v' unat_word_ariths unat_of_nat)
  have "word_addr v" unfolding v' using b k by (intro word_addr_add) auto
  moreover have "unat (arena_base a + arena_length a) = unat (arena_base a) + L"
    using b by (simp add: unat_word_ariths flip: L_def)
  then have "in_arena a v"
    using uv k n by (simp add: in_arena_def word_le_nat_alt word_less_nat_alt)
  moreover have hd: "Hd_val (mem_of st') v = Make_header wosize tag NOT_MARKABLE"
    by (simp add: Hd_val_def st' v)
  ultimately have "caml_is_stack st' v"
    using w wfa(2) Some word_addr_block[of v] unfolding caml_is_stack_def st' a_def
    by (auto simp: list_ex_iff)
  moreover have "Tag_val (mem_of st') v = tag" "Allocated_wosize_val (mem_of st') v = wosize"
    using hd w by (simp_all add: Tag_val_Hd_val Allocated_wosize_val_def)
  moreover have "v + 8 * wosize = local_top st' - of_nat S"
  proof -
    have "wosize = of_nat n" using w(1) by (simp flip: w(1))
    then show ?thesis unfolding st' store_word_select top oL by (simp add: v')
  qed
  moreover have "same_outside (v - 8) 8 (mem_of st) (mem_of st')"
    using same_outside_store64[of 0 8 "v - 8" "mem_of st"] by (simp add: st' v)
  moreover have "same_outside (arena_base a) L (mem_of st) (mem_of st')"
    unfolding st' hp store_word_select using k b by (intro same_outside_store64) auto
  moreover have "wf_local st'" using wf by (simp add: wf_local_def st' stack_used_def cong: option.case_cong)
  ultimately show ?thesis by (simp add: a_def L_def)
qed

lemma stack_used_sp: "local_sp st = - of_nat (stack_used st)"
  by (simp add: stack_used_def)

lemma stack_used_nat: "n < 2 ^ 64 \<Longrightarrow> local_sp st = - of_nat n \<Longrightarrow> stack_used st = n"
  unfolding stack_used_def by (simp add: unat_of_nat)

lemma same_outside_new_arena:
  assumes "new_arena st st1" "local_arenas st1 = Some s" "local_arenas st2 = Some s"
    "same_outside (arena_base (List.last (arenas s))) (unat (arena_length (List.last (arenas s)))) (mem_of st1) (mem_of st2)"
  shows "new_arena st st2"
  using assms by (auto simp: new_arena_def Let_def intro: same_outside_trans)

text \<open>Lowering \<open>local_sp\<close> leaves a well-formed stack, in the last arena or in a new one.\<close>

lemma local_room:
  assumes wf: "wf_local st" and sup: "wf_supply st" and bnd: "stack_used st < S'" "8 dvd S'" "S' \<le> 2 ^ 48"
    and st1: "(if sint (- of_nat S' :: 64 word) < sint (local_limit st)
          then caml_local_realloc (st\<lparr>local_sp := - of_nat S'\<rparr>) else done_run () (st\<lparr>local_sp := - of_nat S'\<rparr>)) = done_run () st1"
  shows "\<exists>s. wf_local st1 \<and> local_sp st1 = - of_nat S' \<and> local_arenas st1 = Some s \<and>
      (if sint (- of_nat S' :: 64 word) < sint (local_limit st) then new_arena st st1 \<and> mirrored st st1
       else st1 = st\<lparr>local_sp := - of_nat S'\<rparr>)"
proof -
  have sS: "sint (- of_nat S' :: 64 word) = - int S'" using sint_diff_nat[of S' 0] bnd by simp
  show ?thesis
  proof (cases "sint (- of_nat S' :: 64 word) < sint (local_limit st)")
    case True
    have "\<exists>L. next_length s = of_nat L \<and> 8 dvd L \<and> L < S'" if s: "local_arenas st = Some s" for s
    proof -
      define L where "L = unat (arena_length (List.last (arenas s)))"
      have L: "8 dvd L" "L \<le> 2 ^ 58" "local_limit st = - of_nat L" "next_length s = of_nat L"
        using wf by (simp_all add: wf_local_def s Let_def wf_arena_def L_def)
      then show ?thesis using True sS sint_diff_nat[of L 0] by auto
    qed
    moreover have "length (arenas s) \<le> Max_local_arenas" if "local_arenas st = Some s" for s
      using wf that by (simp add: wf_local_def)
    ultimately have "wf_local st1 \<and> new_arena (st\<lparr>local_sp := - of_nat S'\<rparr>) st1 \<and> local_sp st1 = - of_nat S' \<and>
        mirrored (st\<lparr>local_sp := - of_nat S'\<rparr>) st1"
      using True st1 bnd sup
      by (intro caml_local_realloc_correct[where u = "()"]) (auto simp: wf_supply_def)
    then show ?thesis using True by (auto simp: new_arena_def mirrored_def)
  next
    case False
    then have st1': "st1 = st\<lparr>local_sp := - of_nat S'\<rparr>" using st1 by simp
    obtain s where s: "local_arenas st = Some s"
      using wf False sS bnd by (cases "local_arenas st") (auto simp: wf_local_def)
    define L where "L = unat (arena_length (List.last (arenas s)))"
    have L: "L \<le> 2 ^ 58" "local_limit st = - of_nat L" "unat (arena_length (List.last (arenas s))) = L"
      using wf by (simp_all add: wf_local_def s Let_def wf_arena_def L_def)
    then have "S' \<le> L" using False sS sint_diff_nat[of L 0] by simp
    moreover have "stack_used st1 = S'" using bnd by (intro stack_used_nat) (simp_all add: st1')
    ultimately have "wf_local st1"
      using wf bnd L by (simp add: wf_local_def st1' s Let_def)
    then show ?thesis using False by (simp add: st1' s)
  qed
qed

text \<open>The block at the lower end of the stack of a new arena: its header, and invalid headers above it.\<close>

lemma mirrored_block:
  assumes m: "mirrored st st1" and u: "8 dvd stack_used st1" "stack_used st1 \<le> 2 ^ 56" "0 < stack_used st1"
    and st': "mem_of st' = mem_store64 (mem_of st1) (local_top st1 + local_sp st1) hdr"
  shows "same_outside (local_top st1 + local_sp st1) (stack_used st1) (mem_of st) (mem_of st')"
    "\<And>i. 0 < i \<Longrightarrow> 8 * i < stack_used st1 \<Longrightarrow> load_word st' (local_top st1 + local_sp st1 + 8 * of_nat i) = Local_uninit_hd"
proof -
  let ?a = "local_top st1 + local_sp st1"
  define n where "n = stack_used st1 div 8"
  have n: "stack_used st1 = 8 * n" using u(1) by (simp add: n_def)
  have m1: "mem_of st1 = uninit_words (mem_of st) ?a n" using m by (simp add: mirrored_def n_def)
  have out: "same_outside ?a (8 * n) (mem_of st) (mem_of st1)" unfolding m1 using u n by (intro uninit_words_outside) simp
  show "same_outside ?a (stack_used st1) (mem_of st) (mem_of st')"
  proof -
    have "same_outside ?a (8 * n) (mem_of st1) (mem_of st')"
      using same_outside_store64[of 0 "8 * n" ?a "mem_of st1" hdr] u n by (simp add: st')
    then show ?thesis using same_outside_trans[OF out] by (simp add: n)
  qed
  fix i assume i: "0 < i" "8 * i < stack_used st1"
  have ui: "unat (8 * of_nat i :: 64 word) = 8 * i" using i(2) u(2) by (simp add: unat_word_ariths unat_of_nat)
  have "unat (?a + 8 * of_nat i - ?a) = 8 * i" using ui by simp
  moreover have "unat (?a - (?a + 8 * of_nat i)) = 2 ^ 64 - 8 * i"
  proof -
    have "8 * of_nat i \<noteq> (0 :: 64 word)" using ui i(1) by (intro notI) simp
    then show ?thesis using unat_uminus[of "8 * of_nat i :: 64 word"] ui by simp
  qed
  ultimately have "load_word st' (?a + 8 * of_nat i) = load_word st1 (?a + 8 * of_nat i)"
    unfolding st' using i u(2) by (intro mem_load64_store64_other) simp_all
  then show "load_word st' (?a + 8 * of_nat i) = Local_uninit_hd"
    using uninit_words_load[of i n "mem_of st" ?a] i n u(2) by (simp add: m1)
qed

text \<open>C13: a block allocated on the local stack has the requested tag and size, is recognised as
  a stack block, ends exactly where the stack began before, and keeps the stack well formed.
  When the last arena has room for it the arenas stay and the only bytes written are the eight of its header,
  so that the fields keep what was there; otherwise an arena is added, the block is at the lower end
  of the part of it that mirrors the stack, and apart from its header all words of that part are
  invalid headers, and no byte outside that part is written.\<close>

theorem caml_alloc_local_correct:
  assumes "wf_local st" and "wf_supply st" and "0 < unat wosize"
    and "stack_used st + 8 * (unat wosize + 1) \<le> 2 ^ 48"
    and "caml_alloc_local st wosize tag = done_run v st'"
  shows "Hd_val (mem_of st') v = Make_header wosize tag NOT_MARKABLE \<and>
    Tag_val (mem_of st') v = tag \<and> Allocated_wosize_val (mem_of st') v = wosize \<and>
    caml_is_stack st' v \<and> v + 8 * wosize = local_top st' - of_nat (stack_used st) \<and>
    wf_local st' \<and> stack_used st' = stack_used st + 8 * (unat wosize + 1) \<and>
    (if sint (local_limit st) \<le> - int (stack_used st')
     then local_arenas st' = local_arenas st \<and> same_outside (v - 8) 8 (mem_of st) (mem_of st')
     else new_arena st st' \<and> same_outside (v - 8) (stack_used st') (mem_of st) (mem_of st') \<and>
       (\<forall>i. 0 < i \<and> 8 * i < stack_used st' \<longrightarrow> load_word st' (v - 8 + 8 * of_nat i) = Local_uninit_hd))"
proof -
  define n where "n = unat wosize"
  define S where "S = stack_used st"
  define S' where "S' = S + 8 * (n + 1)"
  have bnd: "S' \<le> 2 ^ 48" "n < 2 ^ 46" "0 < n" "8 dvd S'"
    using assms(1,3,4) by (simp_all add: S_def n_def S'_def wf_local_def)
  have wn: "wosize = of_nat n" by (simp add: n_def)
  have "local_sp st - Bsize_wsize (Whsize_wosize wosize) = - of_nat S'"
    unfolding stack_used_sp[of st] wn S'_def by (simp add: Bsize_wsize_def Whsize_wosize_def S_def algebra_simps)
  then obtain st1 where st1: "(if sint (- of_nat S' :: 64 word) < sint (local_limit st)
          then caml_local_realloc (st\<lparr>local_sp := - of_nat S'\<rparr>) else done_run () (st\<lparr>local_sp := - of_nat S'\<rparr>)) = done_run () st1"
    and v: "v = local_top st1 + - of_nat S' + 8"
    and st': "st' = store_word st1 (local_top st1 + - of_nat S') (Make_header wosize tag NOT_MARKABLE)"
    using assms(5) by (auto simp: caml_alloc_local_def Let_def bind_run_eq_done)
  obtain s where wf1: "wf_local st1" and sp1: "local_sp st1 = - of_nat S'" and s: "local_arenas st1 = Some s"
    and new: "if sint (- of_nat S' :: 64 word) < sint (local_limit st) then new_arena st st1 \<and> mirrored st st1
       else st1 = st\<lparr>local_sp := - of_nat S'\<rparr>"
    using local_room[OF assms(1,2) _ bnd(4,1) st1] by (auto simp: S'_def S_def)
  have u1: "stack_used st1 = S + 8 * (n + 1)" using stack_used_nat[OF _ sp1] bnd by (simp add: S'_def)
  have blk: "wf_local st' \<and> caml_is_stack st' v \<and> Tag_val (mem_of st') v = tag \<and>
    Allocated_wosize_val (mem_of st') v = wosize \<and> v + 8 * wosize = local_top st' - of_nat S \<and>
    same_outside (v - 8) 8 (mem_of st1) (mem_of st') \<and>
    same_outside (arena_base (List.last (arenas s))) (unat (arena_length (List.last (arenas s)))) (mem_of st1) (mem_of st')"
    using bnd by (intro block_in_arena[OF wf1 s u1]) (simp_all add: st' v sp1 n_def)
  have u': "stack_used st' = S'" using u1 by (simp add: st' stack_used_def S'_def)
  have s': "local_arenas st' = Some s" by (simp add: st' s)
  have sS: "sint (- of_nat S' :: 64 word) = - int S'" using sint_diff_nat[of S' 0] bnd by simp
  have hd: "Hd_val (mem_of st') v = Make_header wosize tag NOT_MARKABLE" by (simp add: Hd_val_def st' v)
  have "if sint (local_limit st) \<le> - int S'
     then local_arenas st' = local_arenas st \<and> same_outside (v - 8) 8 (mem_of st) (mem_of st')
     else new_arena st st' \<and> same_outside (v - 8) S' (mem_of st) (mem_of st') \<and>
       (\<forall>i. 0 < i \<and> 8 * i < S' \<longrightarrow> load_word st' (v - 8 + 8 * of_nat i) = Local_uninit_hd)"
  proof (cases "sint (local_limit st) \<le> - int S'")
    case True
    then show ?thesis using new blk s s' sS by auto
  next
    case False
    then have st: "new_arena st st1" "mirrored st st1" using new sS by auto
    have "8 dvd stack_used st1" "stack_used st1 \<le> 2 ^ 56" "0 < stack_used st1" using wf1 u1 by (simp_all add: wf_local_def)
    moreover have "mem_of st' = mem_store64 (mem_of st1) (local_top st1 + local_sp st1) (Make_header wosize tag NOT_MARKABLE)"
      by (simp add: st' sp1)
    moreover have a: "local_top st1 + local_sp st1 = v - 8" by (simp add: v sp1)
    moreover have u: "stack_used st1 = S'" using u1 by (simp add: S'_def)
    ultimately have "same_outside (v - 8) S' (mem_of st) (mem_of st')"
      "\<And>i. 0 < i \<Longrightarrow> 8 * i < S' \<Longrightarrow> load_word st' (v - 8 + 8 * of_nat i) = Local_uninit_hd"
      using mirrored_block[OF st(2)] by (metis, metis)
    moreover have "new_arena st st'" using same_outside_new_arena[OF st(1) s s'] blk by blast
    ultimately show ?thesis using False by simp
  qed
  then show ?thesis
    unfolding u' n_def[symmetric] S_def[symmetric] S'_def[symmetric] using blk hd by (simp only: simp_thms)
qed

definition example_gc :: gc_st where
  "example_gc = \<lparr>dstate = \<lparr>young_ptr = 0x10000, young_limit = 0x8000, atom_table = 0x100, heap = (\<lambda>_. 0)\<rparr>,
     minor_heaps_start = 0x8000, minor_heaps_end = 0x10000, domain_alone = True, marking_started = True,
     major_ref = [], darkened = [], local_arenas = None, local_sp = 0, local_top = 0, local_limit = 0,
     stat_supply = [Some 0x20000, Some 0x30000]\<rparr>"

theorem caml_alloc_local_correct_witness:
  "\<exists>v st'. caml_alloc_local example_gc 2 7 = done_run v st' \<and> caml_is_stack st' v \<and> Tag_val (mem_of st') v = 7"
proof -
  have "grow_length (- 24) 0 = Some 4096"
    by (subst grow_length.simps) (simp add: Init_local_arena_bsize_def)
  then obtain v st' where r: "caml_alloc_local example_gc 2 7 = done_run v st'"
    by (simp add: caml_alloc_local_def example_gc_def Let_def Bsize_wsize_def Whsize_wosize_def caml_local_realloc_def
        current_arenas_def caml_get_local_arenas_def c_alloc_def Max_local_arenas_def)
  have "wf_local example_gc" "wf_supply example_gc" "stack_used example_gc = 0"
    by (auto simp: wf_local_def wf_supply_def example_gc_def stack_used_def word_addr_def)
  then show ?thesis using caml_alloc_local_correct[OF _ _ _ _ r] r by auto
qed

end
