(* ===== verification/Array.thy ===== *)
theory Array
  imports Memory
begin

text \<open>
  Arrays, \<open>runtime/array.c\<close>: element access with and without bounds checks, creation,
  copying and concatenation, for arrays of values and for flat arrays of floats, in the heap
  and on the local stack.  Doubles are the 64-bit words that represent them.

  Blocks that do not fit in the minor heap, and a full minor heap, leave the model
  (\<open>None\<close>), as in \<open>Alloc\<close>.  The calls that give the collector or pending signal handlers a
  chance to run have no effect when there is nothing pending, which is the case modelled.
\<close>

section \<open>Sizes\<close>

definition Max_array_wosize :: uintnat where
  "Max_array_wosize = Max_wosize"

definition Max_custom_array_wosize :: uintnat where
  "Max_custom_array_wosize = Max_wosize - 1"

definition Max_unboxed_float_array_wosize :: uintnat where
  "Max_unboxed_float_array_wosize = Max_array_wosize div (8 div 8)"

definition Max_unboxed_int64_array_wosize :: uintnat where
  "Max_unboxed_int64_array_wosize = Max_custom_array_wosize div (8 div 8)"

definition Max_unboxed_int32_array_wosize :: uintnat where
  "Max_unboxed_int32_array_wosize = Max_custom_array_wosize * (8 div 4)"

definition Max_unboxed_nativeint_array_wosize :: uintnat where
  "Max_unboxed_nativeint_array_wosize = Max_custom_array_wosize"

abbreviation Double_wosize :: uintnat where "Double_wosize \<equiv> 8 div 8"

definition caml_array_length :: "mem \<Rightarrow> mlvalue \<Rightarrow> uintnat" where
  "caml_array_length m array =
     (if Tag_val m array = Double_array_tag then Allocated_wosize_val m array div Double_wosize
      else Allocated_wosize_val m array)"

definition caml_is_double_array :: "mem \<Rightarrow> mlvalue \<Rightarrow> bool" where
  "caml_is_double_array m array \<longleftrightarrow> Tag_val m array = Double_array_tag"

section \<open>Reading\<close>

text \<open>\<open>&Field(v, i)\<close> and, with eight-byte doubles, the address of the \<open>i\<close>th double.\<close>

definition field_addr :: "mlvalue \<Rightarrow> 64 word \<Rightarrow> 64 word" where
  "field_addr v i = v + 8 * i"

definition caml_array_get_addr :: "gc_st \<Rightarrow> mlvalue \<Rightarrow> mlvalue \<Rightarrow> mlvalue run" where
  "caml_array_get_addr st array index =
     (let idx = Long_val index
      in if sint idx < 0 \<or> idx \<ge> Allocated_wosize_val (mem_of st) array then raise Array_bound_error
         else done_run (load_word st (field_addr array idx)) st)"

definition alloc_double :: "gc_st \<Rightarrow> 64 word \<Rightarrow> mlvalue run" where
  "alloc_double st d =
     bind_run (lift_alloc st (Alloc_small (dstate st) Double_wosize Double_tag))
       (\<lambda>res st1. done_run res (store_word st1 res d))"

definition alloc_double_local :: "gc_st \<Rightarrow> 64 word \<Rightarrow> mlvalue run" where
  "alloc_double_local st d =
     bind_run (caml_alloc_local st Double_wosize Double_tag) (\<lambda>res st1. done_run res (store_word st1 res d))"

definition caml_floatarray_get :: "gc_st \<Rightarrow> mlvalue \<Rightarrow> mlvalue \<Rightarrow> mlvalue run" where
  "caml_floatarray_get st array index =
     (let idx = Long_val index
      in if sint idx < 0 \<or> idx \<ge> Allocated_wosize_val (mem_of st) array div Double_wosize then raise Array_bound_error
         else alloc_double st (load_word st (field_addr array idx)))"

definition caml_floatarray_get_local :: "gc_st \<Rightarrow> mlvalue \<Rightarrow> mlvalue \<Rightarrow> mlvalue run" where
  "caml_floatarray_get_local st array index =
     (let idx = Long_val index
      in if sint idx < 0 \<or> idx \<ge> Allocated_wosize_val (mem_of st) array div Double_wosize then raise Array_bound_error
         else alloc_double_local st (load_word st (field_addr array idx)))"

definition caml_array_get :: "gc_st \<Rightarrow> mlvalue \<Rightarrow> mlvalue \<Rightarrow> mlvalue run" where
  "caml_array_get st array index =
     (if Tag_val (mem_of st) array = Double_array_tag then caml_floatarray_get st array index
      else caml_array_get_addr st array index)"

definition caml_array_get_local :: "gc_st \<Rightarrow> mlvalue \<Rightarrow> mlvalue \<Rightarrow> mlvalue run" where
  "caml_array_get_local st array index =
     (if Tag_val (mem_of st) array = Double_array_tag then caml_floatarray_get_local st array index
      else caml_array_get_addr st array index)"

definition caml_floatarray_unsafe_get :: "gc_st \<Rightarrow> mlvalue \<Rightarrow> mlvalue \<Rightarrow> mlvalue run" where
  "caml_floatarray_unsafe_get st array index = alloc_double st (load_word st (field_addr array (Long_val index)))"

definition caml_floatarray_unsafe_get_local :: "gc_st \<Rightarrow> mlvalue \<Rightarrow> mlvalue \<Rightarrow> mlvalue run" where
  "caml_floatarray_unsafe_get_local st array index =
     alloc_double_local st (load_word st (field_addr array (Long_val index)))"

definition caml_array_unsafe_get :: "gc_st \<Rightarrow> mlvalue \<Rightarrow> mlvalue \<Rightarrow> mlvalue run" where
  "caml_array_unsafe_get st array index =
     (if Tag_val (mem_of st) array = Double_array_tag then caml_floatarray_unsafe_get st array index
      else done_run (load_word st (field_addr array (Long_val index))) st)"

definition caml_array_unsafe_get_local :: "gc_st \<Rightarrow> mlvalue \<Rightarrow> mlvalue \<Rightarrow> mlvalue run" where
  "caml_array_unsafe_get_local st array index =
     (if Tag_val (mem_of st) array = Double_array_tag then caml_floatarray_unsafe_get_local st array index
      else done_run (load_word st (field_addr array (Long_val index))) st)"

section \<open>Writing\<close>

definition caml_array_set_addr :: "gc_st \<Rightarrow> mlvalue \<Rightarrow> mlvalue \<Rightarrow> mlvalue \<Rightarrow> mlvalue run" where
  "caml_array_set_addr st array index newval =
     (let idx = Long_val index
      in if sint idx < 0 \<or> idx \<ge> Allocated_wosize_val (mem_of st) array then raise Array_bound_error
         else done_run Val_unit (caml_modify st (field_addr array idx) newval))"

definition caml_array_set_addr_local :: "gc_st \<Rightarrow> mlvalue \<Rightarrow> mlvalue \<Rightarrow> mlvalue \<Rightarrow> mlvalue run" where
  "caml_array_set_addr_local st array index newval =
     (let idx = Long_val index
      in if sint idx < 0 \<or> idx \<ge> Allocated_wosize_val (mem_of st) array then raise Array_bound_error
         else done_run Val_unit (caml_modify_local st array (unat idx) newval))"

definition caml_floatarray_set :: "gc_st \<Rightarrow> mlvalue \<Rightarrow> mlvalue \<Rightarrow> mlvalue \<Rightarrow> mlvalue run" where
  "caml_floatarray_set st array index newval =
     (let idx = Long_val index; d = Double_val (mem_of st) newval
      in if sint idx < 0 \<or> idx \<ge> Allocated_wosize_val (mem_of st) array div Double_wosize then raise Array_bound_error
         else done_run Val_unit (store_word st (field_addr array idx) d))"

definition caml_array_set :: "gc_st \<Rightarrow> mlvalue \<Rightarrow> mlvalue \<Rightarrow> mlvalue \<Rightarrow> mlvalue run" where
  "caml_array_set st array index newval =
     (if Tag_val (mem_of st) array = Double_array_tag then caml_floatarray_set st array index newval
      else caml_array_set_addr st array index newval)"

definition caml_array_set_local :: "gc_st \<Rightarrow> mlvalue \<Rightarrow> mlvalue \<Rightarrow> mlvalue \<Rightarrow> mlvalue run" where
  "caml_array_set_local st array index newval =
     (if Tag_val (mem_of st) array = Double_array_tag then caml_floatarray_set st array index newval
      else caml_array_set_addr_local st array index newval)"

definition caml_array_unsafe_set_addr :: "gc_st \<Rightarrow> mlvalue \<Rightarrow> mlvalue \<Rightarrow> mlvalue \<Rightarrow> mlvalue run" where
  "caml_array_unsafe_set_addr st array index newval =
     done_run Val_unit (caml_modify st (field_addr array (Long_val index)) newval)"

definition caml_array_unsafe_set_addr_local :: "gc_st \<Rightarrow> mlvalue \<Rightarrow> mlvalue \<Rightarrow> mlvalue \<Rightarrow> mlvalue run" where
  "caml_array_unsafe_set_addr_local st array index newval =
     done_run Val_unit (caml_modify_local st array (unat (Long_val index)) newval)"

definition caml_floatarray_unsafe_set :: "gc_st \<Rightarrow> mlvalue \<Rightarrow> mlvalue \<Rightarrow> mlvalue \<Rightarrow> mlvalue run" where
  "caml_floatarray_unsafe_set st array index newval =
     done_run Val_unit (store_word st (field_addr array (Long_val index)) (Double_val (mem_of st) newval))"

definition caml_array_unsafe_set :: "gc_st \<Rightarrow> mlvalue \<Rightarrow> mlvalue \<Rightarrow> mlvalue \<Rightarrow> mlvalue run" where
  "caml_array_unsafe_set st array index newval =
     (if Tag_val (mem_of st) array = Double_array_tag then caml_floatarray_unsafe_set st array index newval
      else caml_array_unsafe_set_addr st array index newval)"

definition caml_array_unsafe_set_local :: "gc_st \<Rightarrow> mlvalue \<Rightarrow> mlvalue \<Rightarrow> mlvalue \<Rightarrow> mlvalue run" where
  "caml_array_unsafe_set_local st array index newval =
     (if Tag_val (mem_of st) array = Double_array_tag then caml_floatarray_unsafe_set st array index newval
      else caml_array_unsafe_set_addr_local st array index newval)"

section \<open>Creation\<close>

text \<open>The loops of the file over consecutive words, with the write they use: a plain store, a
  \<open>caml_modify\<close>, or the inlined barrier of \<open>caml_array_fill\<close>.\<close>

fun fill_up :: "(gc_st \<Rightarrow> 64 word \<Rightarrow> mlvalue \<Rightarrow> gc_st) \<Rightarrow> gc_st \<Rightarrow> 64 word \<Rightarrow> mlvalue \<Rightarrow> nat \<Rightarrow> gc_st" where
  "fill_up wr st fp val 0 = st"
| "fill_up wr st fp val (Suc len) = fill_up wr (wr st fp val) (fp + 8) val len"

fun copy_up :: "(gc_st \<Rightarrow> 64 word \<Rightarrow> mlvalue \<Rightarrow> gc_st) \<Rightarrow> gc_st \<Rightarrow> 64 word \<Rightarrow> 64 word \<Rightarrow> nat \<Rightarrow> gc_st" where
  "copy_up wr st dst src 0 = st"
| "copy_up wr st dst src (Suc count) = copy_up wr (wr st dst (load_word st src)) (dst + 8) (src + 8) count"

fun copy_down :: "(gc_st \<Rightarrow> 64 word \<Rightarrow> mlvalue \<Rightarrow> gc_st) \<Rightarrow> gc_st \<Rightarrow> 64 word \<Rightarrow> 64 word \<Rightarrow> nat \<Rightarrow> gc_st" where
  "copy_down wr st dst src 0 = st"
| "copy_down wr st dst src (Suc count) = copy_down wr (wr st dst (load_word st src)) (dst - 8) (src - 8) count"

definition caml_floatarray_create :: "gc_st \<Rightarrow> mlvalue \<Rightarrow> mlvalue run" where
  "caml_floatarray_create st len =
     (let wosize = Long_val len * Double_wosize
      in if wosize \<le> Max_young_wosize then
           if wosize = 0 then done_run (caml_atom (dstate st) 0) st
           else lift_alloc st (Alloc_small (dstate st) wosize Double_array_tag)
         else if wosize > Max_unboxed_float_array_wosize then raise (Invalid_argument ''Float.Array.create'')
         else None)"

definition caml_floatarray_create_local :: "gc_st \<Rightarrow> mlvalue \<Rightarrow> mlvalue run" where
  "caml_floatarray_create_local st len = caml_alloc_local st (Long_val len * Double_wosize) Double_array_tag"

definition make_vect_gen :: "gc_st \<Rightarrow> mlvalue \<Rightarrow> mlvalue \<Rightarrow> bool \<Rightarrow> mlvalue run" where
  "make_vect_gen st len init local =
     (let size = Long_val len
      in if size = 0 then done_run (caml_atom (dstate st) 0) st
         else if Is_block init \<and> Tag_val (mem_of st) init = Double_tag then
           (let d = Double_val (mem_of st) init
            in if size > Max_unboxed_float_array_wosize then raise (Invalid_argument ''Array.make'')
               else
                 (let wsize = size * Double_wosize
                  in bind_run
                       (if local then caml_alloc_local st wsize Double_array_tag
                        else lift_alloc st (caml_alloc (dstate st) wsize Double_array_tag))
                       (\<lambda>res st1. done_run res (fill_up store_word st1 res d (unat size)))))
         else if size > Max_array_wosize then raise (Invalid_argument ''Array.make'')
         else if local then
           bind_run (caml_alloc_local st size 0)
             (\<lambda>res st1. done_run res (fill_up store_word st1 res init (unat size)))
         else if size \<le> Max_young_wosize then
           bind_run (lift_alloc st (caml_alloc_small (dstate st) size 0))
             (\<lambda>res st1. done_run res (fill_up store_word st1 res init (unat size)))
         else None)"

definition caml_make_vect :: "gc_st \<Rightarrow> mlvalue \<Rightarrow> mlvalue \<Rightarrow> mlvalue run" where
  "caml_make_vect st len init = make_vect_gen st len init False"

definition caml_make_local_vect :: "gc_st \<Rightarrow> mlvalue \<Rightarrow> mlvalue \<Rightarrow> mlvalue run" where
  "caml_make_local_vect st len init = make_vect_gen st len init True"

definition caml_make_float_vect :: "gc_st \<Rightarrow> mlvalue \<Rightarrow> mlvalue run" where
  "caml_make_float_vect st len = caml_floatarray_create st len"

text \<open>\<open>caml_alloc_custom\<close> for operations without a finaliser and no memory outside the heap,
  which is how the unboxed arrays are allocated.  The address of a table of operations is an
  argument; such a table takes 64 bytes.\<close>

definition caml_alloc_custom_plain :: "gc_st \<Rightarrow> 64 word \<Rightarrow> uintnat \<Rightarrow> mlvalue run" where
  "caml_alloc_custom_plain st ops bsz =
     (let wosize = 1 + (bsz + 8 - 1) div 8
      in if wosize \<le> Max_young_wosize then
           bind_run (lift_alloc st (caml_alloc_small (dstate st) wosize Custom_tag))
             (\<lambda>result st1. done_run result (store_word st1 result ops))
         else None)"

definition caml_make_unboxed_int32_vect :: "gc_st \<Rightarrow> 64 word \<Rightarrow> mlvalue \<Rightarrow> mlvalue run" where
  "caml_make_unboxed_int32_vect st int32_array_ops len =
     (let num_elements = Long_val len
      in if num_elements > Max_unboxed_int32_array_wosize then raise (Invalid_argument ''Array.make'')
         else
           (let num_fields = num_elements div 2 + num_elements mod 2
            in caml_alloc_custom_plain st (int32_array_ops + 64 * (num_elements mod 2)) (num_fields * 8)))"

definition caml_make_unboxed_int64_vect :: "gc_st \<Rightarrow> 64 word \<Rightarrow> mlvalue \<Rightarrow> mlvalue run" where
  "caml_make_unboxed_int64_vect st ops len =
     (let num_elements = Long_val len
      in if num_elements > Max_unboxed_int64_array_wosize then raise (Invalid_argument ''Array.make'')
         else caml_alloc_custom_plain st ops (num_elements * 8))"

definition caml_make_unboxed_nativeint_vect :: "gc_st \<Rightarrow> 64 word \<Rightarrow> mlvalue \<Rightarrow> mlvalue run" where
  "caml_make_unboxed_nativeint_vect st ops len =
     (let num_elements = Long_val len
      in if num_elements > Max_unboxed_nativeint_array_wosize then raise (Invalid_argument ''Array.make'')
         else caml_alloc_custom_plain st ops (num_elements * 8))"

fun unbox_doubles :: "gc_st \<Rightarrow> 64 word \<Rightarrow> 64 word \<Rightarrow> nat \<Rightarrow> gc_st" where
  "unbox_doubles st dst src 0 = st"
| "unbox_doubles st dst src (Suc n) =
     unbox_doubles (store_word st dst (Double_val (mem_of st) (load_word st src))) (dst + 8) (src + 8) n"

definition make_array_gen :: "gc_st \<Rightarrow> mlvalue \<Rightarrow> bool \<Rightarrow> mlvalue run" where
  "make_array_gen st init local =
     (let size = Allocated_wosize_val (mem_of st) init
      in if size = 0 then done_run init st
         else
           (let v = load_word st (field_addr init 0)
            in if Is_long v \<or> Tag_val (mem_of st) v \<noteq> Double_tag then done_run init st
               else
                 (let wsize = size * Double_wosize
                  in bind_run
                       (if local then caml_alloc_local st wsize Double_array_tag
                        else if wsize \<le> Max_young_wosize then lift_alloc st (caml_alloc_small (dstate st) wsize Double_array_tag)
                        else None)
                       (\<lambda>res st1. done_run res (unbox_doubles st1 res init (unat size))))))"

definition caml_make_array :: "gc_st \<Rightarrow> mlvalue \<Rightarrow> mlvalue run" where
  "caml_make_array st init = make_array_gen st init False"

definition caml_make_array_local :: "gc_st \<Rightarrow> mlvalue \<Rightarrow> mlvalue run" where
  "caml_make_array_local st init = make_array_gen st init True"

section \<open>Blitting\<close>

text \<open>With a single domain the C library moves the words; otherwise they are written one by
  one, in the order that copes with an overlap.\<close>

definition wo_memmove :: "gc_st \<Rightarrow> 64 word \<Rightarrow> 64 word \<Rightarrow> uintnat \<Rightarrow> gc_st" where
  "wo_memmove st dst src nvals =
     (if domain_alone st then set_mem st (memmove (mem_of st) dst src (unat (nvals * 8)))
      else if dst < src then copy_up store_word st dst src (unat nvals)
      else copy_down store_word st (field_addr dst (nvals - 1)) (field_addr src (nvals - 1)) (unat nvals))"

definition caml_floatarray_blit :: "gc_st \<Rightarrow> mlvalue \<Rightarrow> mlvalue \<Rightarrow> mlvalue \<Rightarrow> mlvalue \<Rightarrow> mlvalue \<Rightarrow> gc_st" where
  "caml_floatarray_blit st a1 ofs1 a2 ofs2 n =
     set_mem st (memmove (mem_of st) (field_addr a2 (Long_val ofs2)) (field_addr a1 (Long_val ofs1))
       (unat (Long_val n * 8)))"

definition caml_unboxed_int32_vect_blit :: "gc_st \<Rightarrow> mlvalue \<Rightarrow> mlvalue \<Rightarrow> mlvalue \<Rightarrow> mlvalue \<Rightarrow> mlvalue \<Rightarrow> gc_st" where
  "caml_unboxed_int32_vect_blit st a1 ofs1 a2 ofs2 n =
     set_mem st (memmove (mem_of st) (field_addr a2 1 + 4 * Long_val ofs2) (field_addr a1 1 + 4 * Long_val ofs1)
       (unat (Long_val n * 4)))"

definition caml_unboxed_int64_vect_blit :: "gc_st \<Rightarrow> mlvalue \<Rightarrow> mlvalue \<Rightarrow> mlvalue \<Rightarrow> mlvalue \<Rightarrow> mlvalue \<Rightarrow> gc_st" where
  "caml_unboxed_int64_vect_blit st a1 ofs1 a2 ofs2 n =
     set_mem st (memmove (mem_of st) (field_addr (field_addr a2 1) (Long_val ofs2))
       (field_addr (field_addr a1 1) (Long_val ofs1)) (unat (Long_val n * 8)))"

definition caml_unboxed_nativeint_vect_blit :: "gc_st \<Rightarrow> mlvalue \<Rightarrow> mlvalue \<Rightarrow> mlvalue \<Rightarrow> mlvalue \<Rightarrow> mlvalue \<Rightarrow> gc_st" where
  "caml_unboxed_nativeint_vect_blit st a1 ofs1 a2 ofs2 n =
     set_mem st (memmove (mem_of st) (field_addr (field_addr a2 1) (Long_val ofs2))
       (field_addr (field_addr a1 1) (Long_val ofs1)) (unat (Long_val n * 8)))"

definition caml_array_blit :: "gc_st \<Rightarrow> mlvalue \<Rightarrow> mlvalue \<Rightarrow> mlvalue \<Rightarrow> mlvalue \<Rightarrow> mlvalue \<Rightarrow> gc_st" where
  "caml_array_blit st a1 ofs1 a2 ofs2 n =
     (if Tag_val (mem_of st) a2 = Double_array_tag then caml_floatarray_blit st a1 ofs1 a2 ofs2 n
      else if Is_young_v st a2 \<or> caml_is_stack st a2 then
        wo_memmove st (field_addr a2 (Long_val ofs2)) (field_addr a1 (Long_val ofs1)) (Long_val n)
      else
        (let count = Long_val n
         in if a1 = a2 \<and> sint (Long_val ofs1) < sint (Long_val ofs2) then
              copy_down caml_modify st (field_addr a2 (Long_val ofs2 + count - 1))
                (field_addr a1 (Long_val ofs1 + count - 1)) (nat (sint count))
            else
              copy_up caml_modify st (field_addr a2 (Long_val ofs2)) (field_addr a1 (Long_val ofs1))
                (nat (sint count))))"

section \<open>Extraction and concatenation\<close>

text \<open>The three parallel arrays of arguments are one list of triples.\<close>

type_synonym slice = "mlvalue \<times> intnat \<times> intnat"

definition mlsize_t_max :: uintnat where
  "mlsize_t_max = - 1"

fun gather_size :: "mem \<Rightarrow> slice list \<Rightarrow> uintnat \<Rightarrow> bool \<Rightarrow> (uintnat \<times> bool) result" where
  "gather_size m [] sz isfloat = Inr (sz, isfloat)"
| "gather_size m ((array, offset, len) # slices) sz isfloat =
     (if mlsize_t_max - len < sz then Inl (Invalid_argument ''Array.concat'')
      else gather_size m slices (sz + len) (if Tag_val m array = Double_array_tag then True else isfloat))"

text \<open>The result is fresh, so that \<open>memcpy\<close> copies between disjoint ranges.\<close>

fun gather_copy :: "gc_st \<Rightarrow> mlvalue \<Rightarrow> uintnat \<Rightarrow> slice list \<Rightarrow> gc_st" where
  "gather_copy st res pos [] = st"
| "gather_copy st res pos ((array, offset, len) # slices) =
     gather_copy (set_mem st (memmove (mem_of st) (field_addr res pos) (field_addr array offset) (unat (len * 8))))
       res (pos + len) slices"

definition caml_array_gather :: "gc_st \<Rightarrow> slice list \<Rightarrow> bool \<Rightarrow> mlvalue run" where
  "caml_array_gather st slices local =
     (case gather_size (mem_of st) slices 0 False of
        Inl e \<Rightarrow> raise e
      | Inr (sz, isfloat) \<Rightarrow>
          if sz = 0 then done_run (caml_atom (dstate st) 0) st
          else if isfloat then
            if sz > Max_unboxed_float_array_wosize then raise (Invalid_argument ''Array.concat'')
            else
              (let wsize = sz * Double_wosize
               in bind_run
                    (if local then caml_alloc_local st wsize Double_array_tag
                     else lift_alloc st (caml_alloc (dstate st) wsize Double_array_tag))
                    (\<lambda>res st1. done_run res (gather_copy st1 res 0 slices)))
          else if sz > Max_array_wosize then raise (Invalid_argument ''Array.concat'')
          else if sz \<le> Max_young_wosize \<or> local then
            bind_run
              (if local then caml_alloc_local st sz 0 else lift_alloc st (caml_alloc_small (dstate st) sz 0))
              (\<lambda>res st1. done_run res (gather_copy st1 res 0 slices))
          else None)"

definition caml_array_sub :: "gc_st \<Rightarrow> mlvalue \<Rightarrow> mlvalue \<Rightarrow> mlvalue \<Rightarrow> mlvalue run" where
  "caml_array_sub st a ofs len = caml_array_gather st [(a, Long_val ofs, Long_val len)] False"

definition caml_array_sub_local :: "gc_st \<Rightarrow> mlvalue \<Rightarrow> mlvalue \<Rightarrow> mlvalue \<Rightarrow> mlvalue run" where
  "caml_array_sub_local st a ofs len = caml_array_gather st [(a, Long_val ofs, Long_val len)] True"

definition caml_array_append :: "gc_st \<Rightarrow> mlvalue \<Rightarrow> mlvalue \<Rightarrow> mlvalue run" where
  "caml_array_append st a1 a2 =
     caml_array_gather st [(a1, 0, caml_array_length (mem_of st) a1), (a2, 0, caml_array_length (mem_of st) a2)] False"

definition caml_array_append_local :: "gc_st \<Rightarrow> mlvalue \<Rightarrow> mlvalue \<Rightarrow> mlvalue run" where
  "caml_array_append_local st a1 a2 =
     caml_array_gather st [(a1, 0, caml_array_length (mem_of st) a1), (a2, 0, caml_array_length (mem_of st) a2)] True"

abbreviation Val_emptylist :: mlvalue where "Val_emptylist \<equiv> Val_int 0"

text \<open>The elements of an OCaml list; a cyclic list has none.\<close>

partial_function (option) list_elements :: "mem \<Rightarrow> mlvalue \<Rightarrow> mlvalue list \<Rightarrow> mlvalue list option" where
  "list_elements m l acc =
     (if l = Val_emptylist then Some acc else list_elements m (Field m l 1) (acc @ [Field m l 0]))"

abbreviation STATIC_SIZE :: nat where "STATIC_SIZE \<equiv> 16"

text \<open>Storage for the arguments of a concatenation of more than \<open>STATIC_SIZE\<close> arrays.\<close>

definition extra_storage :: "gc_st \<Rightarrow> nat \<Rightarrow> unit run" where
  "extra_storage st n =
     (if n \<le> STATIC_SIZE then done_run () st
      else
        bind_run (c_alloc st) (\<lambda>arrays st1. case arrays of
            None \<Rightarrow> raise (Fatal_error ''Out of memory'')
          | Some _ \<Rightarrow> bind_run (c_alloc st1) (\<lambda>offsets st2. case offsets of
                None \<Rightarrow> raise Out_of_memory
              | Some _ \<Rightarrow> bind_run (c_alloc st2) (\<lambda>lengths st3. case lengths of
                    None \<Rightarrow> raise Out_of_memory
                  | Some _ \<Rightarrow> done_run () st3))))"

definition array_concat_gen :: "gc_st \<Rightarrow> mlvalue \<Rightarrow> bool \<Rightarrow> mlvalue run" where
  "array_concat_gen st al local =
     (case list_elements (mem_of st) al [] of
        None \<Rightarrow> None
      | Some arrays \<Rightarrow>
          bind_run (extra_storage st (length arrays)) (\<lambda>_ st1.
            caml_array_gather st1 (map (\<lambda>a. (a, 0, caml_array_length (mem_of st1) a)) arrays) local))"

definition caml_array_concat :: "gc_st \<Rightarrow> mlvalue \<Rightarrow> mlvalue run" where
  "caml_array_concat st al = array_concat_gen st al False"

definition caml_array_concat_local :: "gc_st \<Rightarrow> mlvalue \<Rightarrow> mlvalue run" where
  "caml_array_concat_local st al = array_concat_gen st al True"

section \<open>Filling\<close>

text \<open>The body of the loop for an array in the major heap, which inlines the write barrier.\<close>

definition fill_old :: "gc_st \<Rightarrow> 64 word \<Rightarrow> mlvalue \<Rightarrow> gc_st" where
  "fill_old st fp val =
     (let old = load_word st fp
      in if old = val then st
         else
           (let st1 = store_word st fp val
            in if Is_block old \<and> Is_young_v st1 old then st1
               else
                 (let st2 = (if Is_block old \<and> marking_started st1 then call_darken st1 old else st1)
                  in if Is_block_and_young st2 val then Ref_table_add st2 fp else st2)))"

definition caml_array_fill :: "gc_st \<Rightarrow> mlvalue \<Rightarrow> mlvalue \<Rightarrow> mlvalue \<Rightarrow> mlvalue \<Rightarrow> gc_st" where
  "caml_array_fill st array v_ofs v_len val =
     (let ofs = Long_val v_ofs; len = Long_val v_len
      in if Tag_val (mem_of st) array = Double_array_tag then
           fill_up store_word st (field_addr array ofs) (Double_val (mem_of st) val) (nat (sint len))
         else
           (let fp = field_addr array ofs
            in if Is_young_v st array \<or> caml_is_stack st array then fill_up store_word st fp val (nat (sint len))
               else fill_up fill_old st fp val (nat (sint len))))"

definition caml_iarray_of_array :: "mlvalue \<Rightarrow> mlvalue" where
  "caml_iarray_of_array a = a"

definition caml_array_of_iarray :: "mlvalue \<Rightarrow> mlvalue" where
  "caml_array_of_iarray a = a"

section \<open>Indices of other integer types\<close>

text \<open>The macro \<open>CAMLprim_indexed_by\<close>: an index that does not fit in an OCaml integer is out of
  bounds.  The argument is the index widened to 64 bits.\<close>

definition get_indexed_by :: "gc_st \<Rightarrow> mlvalue \<Rightarrow> 64 word \<Rightarrow> mlvalue run" where
  "get_indexed_by st array idx =
     (if idx \<noteq> Long_val (Val_long idx) then raise Array_bound_error else caml_array_get st array (Val_long idx))"

definition unsafe_get_indexed_by :: "gc_st \<Rightarrow> mlvalue \<Rightarrow> 64 word \<Rightarrow> mlvalue run" where
  "unsafe_get_indexed_by st array idx = caml_array_unsafe_get st array (Val_long idx)"

definition set_indexed_by :: "gc_st \<Rightarrow> mlvalue \<Rightarrow> 64 word \<Rightarrow> mlvalue \<Rightarrow> mlvalue run" where
  "set_indexed_by st array idx newval =
     (if idx \<noteq> Long_val (Val_long idx) then raise Array_bound_error else caml_array_set st array (Val_long idx) newval)"

definition unsafe_set_indexed_by :: "gc_st \<Rightarrow> mlvalue \<Rightarrow> 64 word \<Rightarrow> mlvalue \<Rightarrow> mlvalue run" where
  "unsafe_set_indexed_by st array idx newval = caml_array_unsafe_set st array (Val_long idx) newval"

definition caml_array_get_indexed_by_int64 :: "gc_st \<Rightarrow> mlvalue \<Rightarrow> mlvalue \<Rightarrow> mlvalue run" where
  "caml_array_get_indexed_by_int64 st array index = get_indexed_by st array (Int64_val (mem_of st) index)"

definition caml_array_get_indexed_by_int32 :: "gc_st \<Rightarrow> mlvalue \<Rightarrow> mlvalue \<Rightarrow> mlvalue run" where
  "caml_array_get_indexed_by_int32 st array index = get_indexed_by st array (scast (Int32_val (mem_of st) index))"

definition caml_array_get_indexed_by_nativeint :: "gc_st \<Rightarrow> mlvalue \<Rightarrow> mlvalue \<Rightarrow> mlvalue run" where
  "caml_array_get_indexed_by_nativeint st array index = get_indexed_by st array (Nativeint_val (mem_of st) index)"

definition caml_array_set_indexed_by_int64 :: "gc_st \<Rightarrow> mlvalue \<Rightarrow> mlvalue \<Rightarrow> mlvalue \<Rightarrow> mlvalue run" where
  "caml_array_set_indexed_by_int64 st array index newval = set_indexed_by st array (Int64_val (mem_of st) index) newval"

definition caml_array_set_indexed_by_int32 :: "gc_st \<Rightarrow> mlvalue \<Rightarrow> mlvalue \<Rightarrow> mlvalue \<Rightarrow> mlvalue run" where
  "caml_array_set_indexed_by_int32 st array index newval = set_indexed_by st array (scast (Int32_val (mem_of st) index)) newval"

definition caml_array_set_indexed_by_nativeint :: "gc_st \<Rightarrow> mlvalue \<Rightarrow> mlvalue \<Rightarrow> mlvalue \<Rightarrow> mlvalue run" where
  "caml_array_set_indexed_by_nativeint st array index newval =
     set_indexed_by st array (Nativeint_val (mem_of st) index) newval"

end
