(* ===== verification/Array_Correct.thy ===== *)
theory Array_Correct
  imports Array
begin

text \<open>
  Correctness of the array operations of \<open>Array\<close>: the loops over words for any write that
  fulfils the contracts of \<open>Memory\<close>, then element access, blits, fills and concatenations as
  operations on lists of elements, and the invariants of the two collectors over any sequence
  of mutations.
\<close>

section \<open>Loops of writes\<close>

lemma store_bytes_append:
  assumes "length xs + length ys \<le> 2 ^ 63"
  shows "store_bytes (store_bytes m a xs) (a + of_nat (length xs)) ys = store_bytes m a (xs @ ys)"
    and "store_bytes (store_bytes m (a + of_nat (length xs)) ys) a xs = store_bytes m a (xs @ ys)"
proof -
  have l: "unat (of_nat (length xs) :: 64 word) = length xs" using assms by (simp add: unat_of_nat)
  have d: "unat (x - (a + of_nat (length xs))) =
      (if length xs \<le> unat (x - a) then unat (x - a) - length xs else 2 ^ 64 - (length xs - unat (x - a)))" for x
  proof (cases "length xs \<le> unat (x - a)")
    case True
    have e: "x - (a + of_nat (length xs)) = (x - a) - of_nat (length xs)" by simp
    have "unat ((x - a) - of_nat (length xs)) = unat (x - a) - length xs"
      using True l by (subst unat_sub) (simp_all add: word_le_nat_alt)
    then show ?thesis using True unfolding e by simp
  next
    case False
    define e where "e = of_nat (length xs) - (x - a)"
    have e: "unat e = length xs - unat (x - a)"
      unfolding e_def using False l by (subst unat_sub) (simp_all add: word_le_nat_alt)
    then have "e \<noteq> 0" using False by auto
    then have "unat (- e) = 2 ^ 64 - (length xs - unat (x - a))" using e by (simp add: unat_uminus)
    moreover have "x - (a + of_nat (length xs)) = - e" by (simp add: e_def)
    ultimately show ?thesis using False by simp
  qed
  show "store_bytes (store_bytes m a xs) (a + of_nat (length xs)) ys = store_bytes m a (xs @ ys)"
    "store_bytes (store_bytes m (a + of_nat (length xs)) ys) a xs = store_bytes m a (xs @ ys)"
    using assms by (auto simp: fun_eq_iff store_bytes_def d nth_append)
qed

lemma load_bytes_apart:
  assumes "unat (b - a) + n \<le> 2 ^ 64" "k \<le> unat (b - a)" "length bs \<le> k"
  shows "load_bytes (store_bytes m a bs) b n = load_bytes m b n"
proof (rule load_bytes_store_bytes_other)
  fix i assume i: "i < n"
  then have n64: "i < 2 ^ 64" using assms(1) by simp
  have "unat (b + of_nat i - a) = unat ((b - a) + of_nat i)" by (simp add: algebra_simps)
  also have "\<dots> = unat (b - a) + i" using i assms(1) n64 by (simp add: unat_word_ariths unat_of_nat)
  finally show "length bs \<le> unat (b + of_nat i - a)" using assms by simp
qed

context word_write
begin

lemma mem_fill_up:
  "8 * n \<le> 2 ^ 63 \<Longrightarrow>
     mem_of (fill_up wr st a v n) = store_bytes (mem_of st) a (concat (replicate n (le_bytes 8 v)))"
proof (induction n arbitrary: st a)
  case 0
  show ?case by (simp add: store_bytes_def)
next
  case (Suc n)
  then show ?case
    using store_bytes_append(1)[of "le_bytes 8 v" "concat (replicate n (le_bytes 8 v))" "mem_of st" a]
    by (simp add: mem_write mem_store64_def)
qed

lemma mem_copy_up:
  "8 * n \<le> 2 ^ 63 \<Longrightarrow> unat (src - dst) + 8 * n \<le> 2 ^ 64 \<Longrightarrow>
     mem_of (copy_up wr st dst src n) = memmove (mem_of st) dst src (8 * n)"
proof (induction n arbitrary: st dst src)
  case 0
  show ?case by (simp add: memmove_def load_bytes_def store_bytes_def)
next
  case (Suc n)
  let ?m = "mem_of st"
  let ?x = "load_bytes ?m src 8" and ?y = "load_bytes ?m (src + 8) (8 * n)"
  have x: "le_bytes 8 (mem_load64 ?m src) = ?x"
    unfolding mem_load64_def by (rule le_bytes_le_word) simp_all
  have e: "src + 8 - dst = (src - dst) + 8" by simp
  have u: "unat (src + 8 - dst) = unat (src - dst) + 8 \<or> n = 0"
    unfolding e using Suc.prems by (auto simp: unat_word_ariths)
  have y: "load_bytes (store_bytes ?m dst ?x) (src + 8) (8 * n) = ?y"
    using u
  proof
    assume "n = 0" then show ?thesis by (simp add: load_bytes_def)
  next
    assume "unat (src + 8 - dst) = unat (src - dst) + 8"
    then show ?thesis using Suc.prems by (intro load_bytes_apart[where k = 8]) auto
  qed
  have "mem_of (copy_up wr st dst src (Suc n)) = memmove (store_bytes ?m dst ?x) (dst + 8) (src + 8) (8 * n)"
    using Suc.IH[of "src + 8" "dst + 8" "wr st dst (mem_load64 ?m src)"] Suc.prems
    by (simp add: mem_write mem_store64_def x)
  also have "\<dots> = store_bytes ?m dst (?x @ ?y)"
    unfolding memmove_def y using store_bytes_append(1)[of ?x ?y ?m dst] Suc.prems by simp
  also have "?x @ ?y = load_bytes ?m src (8 * Suc n)" using load_bytes_append[of ?m src 8 "8 * n"] by simp
  finally show ?case by (simp add: memmove_def)
qed

lemma mem_copy_down:
  "8 * n \<le> 2 ^ 63 \<Longrightarrow> unat (dst - src) + 8 * n \<le> 2 ^ 64 \<Longrightarrow>
     mem_of (copy_down wr st (dst + 8 * of_nat n - 8) (src + 8 * of_nat n - 8) n) =
       memmove (mem_of st) dst src (8 * n)"
proof (induction n arbitrary: st)
  case 0
  show ?case by (simp add: memmove_def load_bytes_def store_bytes_def)
next
  case (Suc n)
  let ?m = "mem_of st"
  let ?x = "load_bytes ?m src (8 * n)" and ?y = "load_bytes ?m (src + of_nat (8 * n)) 8"
  have y: "le_bytes 8 (mem_load64 ?m (src + of_nat (8 * n))) = ?y"
    unfolding mem_load64_def by (rule le_bytes_le_word) simp_all
  have x: "load_bytes (store_bytes ?m (dst + of_nat (8 * n)) ?y) src (8 * n) = ?x"
  proof (cases "n = 0")
    case False
    define g where "g = (dst - src) + of_nat (8 * n)"
    have ug: "unat g = unat (dst - src) + 8 * n"
      unfolding g_def using Suc.prems by (simp add: unat_word_ariths unat_of_nat)
    then have "g \<noteq> 0" using False by auto
    then have "unat (- g) = 2 ^ 64 - (unat (dst - src) + 8 * n)" using ug by (simp add: unat_uminus)
    moreover have "src - (dst + of_nat (8 * n)) = - g" by (simp add: g_def)
    ultimately show ?thesis using Suc.prems by (intro load_bytes_apart[where k = 8]) auto
  qed (simp add: load_bytes_def)
  have ptr: "a + 8 * of_nat (Suc n) - 8 = a + of_nat (8 * n)" "a + of_nat (8 * n) - 8 = a + 8 * of_nat n - 8" for a :: "64 word"
    by simp_all
  have "mem_of (copy_down wr st (dst + 8 * of_nat (Suc n) - 8) (src + 8 * of_nat (Suc n) - 8) (Suc n)) =
      memmove (store_bytes ?m (dst + of_nat (8 * n)) ?y) dst src (8 * n)"
  proof -
    have "8 * n \<le> 2 ^ 63" "unat (dst - src) + 8 * n \<le> 2 ^ 64" using Suc.prems by auto
    from Suc.IH[OF this] show ?thesis by (simp only: ptr copy_down.simps mem_write mem_store64_def y)
  qed
  also have "\<dots> = store_bytes ?m dst (?x @ ?y)"
    unfolding memmove_def x using store_bytes_append(2)[of ?x ?y ?m dst] Suc.prems by simp
  also have "?x @ ?y = load_bytes ?m src (8 * Suc n)" using load_bytes_append[of ?m src "8 * n" 8] by (simp add: add.commute)
  finally show ?case by (simp only: memmove_def)
qed

end

text \<open>Loops of guarded writes keep the collectors' invariants when all the words written are fields.\<close>

lemma words_up_Suc:
  "(\<forall>i<Suc n. (a :: 64 word) + 8 * of_nat i \<in> F) \<longleftrightarrow> a \<in> F \<and> (\<forall>i<n. a + 8 + 8 * of_nat i \<in> F)"
  unfolding All_less_Suc2 by (simp add: algebra_simps)

lemma words_down_Suc:
  "(\<forall>i<Suc n. (a :: 64 word) - 8 * of_nat i \<in> F) \<longleftrightarrow> a \<in> F \<and> (\<forall>i<n. a - 8 - 8 * of_nat i \<in> F)"
  unfolding All_less_Suc2 by (simp add: algebra_simps)

context guarded_write
begin

lemma fill_up_ok:
  "\<forall>x\<in>F. word_addr x \<Longrightarrow> \<forall>i<n. a + 8 * of_nat i \<in> F \<Longrightarrow> barrier_ok F st (fill_up wr st a v n)"
proof (induction n arbitrary: st a)
  case (Suc n)
  then have "a \<in> F" "\<forall>i<n. a + 8 + 8 * of_nat i \<in> F" unfolding words_up_Suc by auto
  then show ?case
    using Suc.IH[of "a + 8"] write_ok[of a F st v] Suc.prems(1) by (auto intro: barrier_ok_trans)
qed simp

lemma copy_up_ok:
  "\<forall>x\<in>F. word_addr x \<Longrightarrow> \<forall>i<n. dst + 8 * of_nat i \<in> F \<Longrightarrow> barrier_ok F st (copy_up wr st dst src n)"
proof (induction n arbitrary: st dst src)
  case (Suc n)
  then have "dst \<in> F" "\<forall>i<n. dst + 8 + 8 * of_nat i \<in> F" unfolding words_up_Suc by auto
  then show ?case
    using Suc.IH[of "dst + 8"] write_ok[of dst F] Suc.prems(1)
    by (simp add: barrier_ok_trans[of F st "wr st dst (load_word st src)"])
qed simp

lemma copy_down_ok:
  "\<forall>x\<in>F. word_addr x \<Longrightarrow> \<forall>i<n. dst - 8 * of_nat i \<in> F \<Longrightarrow> barrier_ok F st (copy_down wr st dst src n)"
proof (induction n arbitrary: st dst src)
  case (Suc n)
  then have "dst \<in> F" "\<forall>i<n. dst - 8 - 8 * of_nat i \<in> F" unfolding words_down_Suc by auto
  then show ?case
    using Suc.IH[of "dst - 8"] write_ok[of dst F] Suc.prems(1)
    by (simp add: barrier_ok_trans[of F st "wr st dst (load_word st src)"])
qed simp

end

text \<open>Stores into young fields concern neither collector.\<close>

lemma load_outside_words:
  assumes a: "word_addr dst" "word_addr x" and len: "length bs = 8 * k"
    and ne: "\<forall>i<k. x \<noteq> dst + 8 * of_nat i"
  shows "mem_load64 (store_bytes m dst bs) x = mem_load64 m x"
proof -
  define u where "u = unat (x - dst)"
  have dvd: "8 dvd u"
  proof -
    have "int u = (int (unat x) - int (unat dst)) mod 2 ^ 64" by (simp add: u_def uint_word_ariths)
    moreover have "8 dvd (int (unat x) - int (unat dst))" using a unfolding word_addr_def by presburger
    then have "8 dvd (int (unat x) - int (unat dst)) mod 2 ^ 64" by (simp add: dvd_mod)
    ultimately have "int 8 dvd int u" by simp
    then show ?thesis unfolding of_nat_dvd_iff .
  qed
  have ge: "8 * k \<le> u"
  proof (rule ccontr)
    assume "\<not> 8 * k \<le> u"
    then have "u div 8 < k" by auto
    moreover have "x = dst + 8 * of_nat (u div 8)"
    proof -
      have "8 * of_nat (u div 8) = (of_nat (8 * (u div 8)) :: 64 word)" by simp
      also have "\<dots> = of_nat u" using dvd by simp
      also have "\<dots> = x - dst" by (simp add: u_def)
      finally show ?thesis by simp
    qed
    ultimately show False using ne by blast
  qed
  have "u + 8 \<le> 2 ^ 64"
  proof -
    have "u < 2 ^ 64" using unsigned_less[of "x - dst", where ?'a = nat] by (simp add: u_def)
    then show ?thesis using dvd by (auto elim!: dvdE)
  qed
  then have "load_bytes (store_bytes m dst bs) x 8 = load_bytes m x 8"
    using ge len by (intro load_bytes_apart[where k = u]) (auto simp: u_def)
  then show ?thesis by (simp add: mem_load64_def)
qed

lemma young_region_ok:
  assumes F: "\<forall>x\<in>F. word_addr x" "word_addr dst" "length bs = 8 * k" and y: "\<forall>i<k. Is_young_v st (dst + 8 * of_nat i)"
    and gc: "same_gc st st'" "set (major_ref st) \<subseteq> set (major_ref st')" and mem: "mem_of st' = store_bytes (mem_of st) dst bs"
  shows "barrier_ok F st st'"
proof -
  have other: "load_word st' x = load_word st x" if "x \<in> F" "\<not> Is_young_v st x" for x
    unfolding mem using F y that by (intro load_outside_words) auto
  have "Is_young_v st' = Is_young_v st" by (rule same_gc_young[OF gc(1)])
  then have "remembered F st'" if "remembered F st"
    using that gc(2) other unfolding remembered_def Is_block_and_young_def by auto
  moreover have "snapshot F st st'" using other by (simp add: snapshot_def Let_def)
  ultimately show ?thesis using gc(1) by (simp add: barrier_ok_def)
qed

text \<open>The inlined barrier of \<open>caml_array_fill\<close> fulfils the contract of \<open>caml_modify\<close>.\<close>

lemma fill_old_modify:
  assumes "\<not> Is_young_v st fp"
  shows "fill_old st fp val = (if load_word st fp = val then st else caml_modify st fp val)"
  using assms by (simp add: fill_old_def caml_modify_def flip: write_barrier_store_word)
    (simp add: write_barrier_def Let_def)

lemma fill_old_select:
  "mem_of (fill_old st fp val) = mem_store64 (mem_of st) fp val"
  "same_gc st (fill_old st fp val)" "set (major_ref st) \<subseteq> set (major_ref (fill_old st fp val))"
  by (auto simp: fill_old_def same_gc_def Let_def)

interpretation fill: guarded_write fill_old
proof unfold_locales
  fix st a v F
  show "mem_of (fill_old st a v) = mem_store64 (mem_of st) a v" by (rule fill_old_select)
  assume F: "a \<in> F" "\<forall>x\<in>F. word_addr x"
  show "barrier_ok F st (fill_old st a v)"
  proof (cases "Is_young_v st a")
    case True
    then show ?thesis using F fill_old_select
      by (intro young_region_ok[where k = 1 and dst = a and bs = "le_bytes 8 v"]) (auto simp: mem_store64_def)
  next
    case False
    then show ?thesis using modify.write_ok[OF F] by (simp add: fill_old_modify)
  qed
qed

section \<open>Arrays as lists\<close>

text \<open>An array of \<open>n\<close> words at \<open>v\<close>, in the user half of the address space, and its contents.\<close>

definition array_block :: "mem \<Rightarrow> mlvalue \<Rightarrow> nat \<Rightarrow> bool" where
  "array_block m v n \<longleftrightarrow>
     word_addr v \<and> 8 \<le> unat v \<and> unat v + 8 * n \<le> 2 ^ 63 \<and> n < 2 ^ 46 \<and> Allocated_wosize_val m v = of_nat n"

definition elements :: "mem \<Rightarrow> mlvalue \<Rightarrow> nat \<Rightarrow> mlvalue list" where
  "elements m v n = map (Field m v) [0..<n]"

lemma length_elements [simp]: "length (elements m v n) = n"
  by (simp add: elements_def)

lemma nth_elements [simp]: "i < n \<Longrightarrow> elements m v n ! i = Field m v i"
  by (simp add: elements_def)

lemma load_word_field_addr: "load_word st (field_addr v (of_nat i)) = Field (mem_of st) v i"
  by (simp add: field_addr_def Field_def)

lemma Field_store_bytes:
  assumes "length bs = 8 * k" "i + k \<le> 2 ^ 59" "j < 2 ^ 59"
  shows "Field (store_bytes m (v + 8 * of_nat i) bs) v j =
    (if i \<le> j \<and> j < i + k then le_word (take 8 (drop (8 * (j - i)) bs)) else Field m v j)"
proof -
  have a: "v + 8 * of_nat j + of_nat t = v + of_nat (8 * j + t)" for t by (simp add: add.assoc)
  have b: "store_bytes m (v + of_nat (8 * i)) bs (v + of_nat (8 * j + t)) =
      (if i \<le> j \<and> j < i + k then bs ! (8 * j + t - 8 * i) else m (v + of_nat (8 * j + t)))" if t: "t < 8" for t
  proof -
    have "8 * i + length bs \<le> 2 ^ 63" "8 * j + t < 2 ^ 63" using assms t by auto
    then have "store_bytes m (v + of_nat (8 * i)) bs (v + of_nat (8 * j + t)) =
      (if 8 * i \<le> 8 * j + t \<and> 8 * j + t < 8 * i + length bs then bs ! (8 * j + t - 8 * i) else m (v + of_nat (8 * j + t)))"
      by (rule store_bytes_at)
    moreover have "8 * i \<le> 8 * j + t \<and> 8 * j + t < 8 * i + length bs \<longleftrightarrow> i \<le> j \<and> j < i + k"
      using t assms(1) by auto
    ultimately show ?thesis by (simp only:)
  qed
  have "load_bytes (store_bytes m (v + of_nat (8 * i)) bs) (v + 8 * of_nat j) 8 =
      (if i \<le> j \<and> j < i + k then take 8 (drop (8 * (j - i)) bs) else load_bytes m (v + 8 * of_nat j) 8)"
    unfolding load_bytes_def a using assms(1)
    by (intro nth_equalityI) (auto simp: b diff_mult_distrib2 simp del: of_nat_add of_nat_mult)
  then show ?thesis by (simp add: Field_def mem_load64_def)
qed

lemma Field_memmove:
  assumes "i + k \<le> 2 ^ 59" "j < 2 ^ 59"
  shows "Field (memmove m (v + 8 * of_nat i) (w + 8 * of_nat o1) (8 * k)) v j =
    (if i \<le> j \<and> j < i + k then Field m w (o1 + (j - i)) else Field m v j)"
proof -
  have "le_word (take 8 (drop (8 * (j - i)) (load_bytes m (w + 8 * of_nat o1) (8 * k)))) = Field m w (o1 + (j - i))"
    if "i \<le> j" "j < i + k"
  proof -
    have "take 8 (drop (8 * (j - i)) (load_bytes m (w + 8 * of_nat o1) (8 * k))) =
        load_bytes m (w + 8 * of_nat o1 + of_nat (8 * (j - i))) 8"
      using that by (intro load_bytes_slice [symmetric]) auto
    also have "w + 8 * of_nat o1 + of_nat (8 * (j - i)) = w + 8 * of_nat (o1 + (j - i))"
      by (simp only: of_nat_add of_nat_mult of_nat_numeral distrib_left add.assoc)
    finally show ?thesis by (simp add: Field_def mem_load64_def)
  qed
  then show ?thesis unfolding memmove_def using assms Field_store_bytes[of "load_bytes m (w + 8 * of_nat o1) (8 * k)" k i j m v]
    by simp
qed

lemma elements_memmove:
  assumes "i + k \<le> n" "o1 + k \<le> n1" "n \<le> 2 ^ 59"
  shows "elements (memmove m (v + 8 * of_nat i) (w + 8 * of_nat o1) (8 * k)) v n =
    take i (elements m v n) @ take k (drop o1 (elements m w n1)) @ drop (i + k) (elements m v n)"
proof -
  have l: "min (n1 - o1) k = k" "min n i = i" using assms by auto
  show ?thesis using assms by (intro nth_equalityI) (auto simp: Field_memmove nth_append l)
qed

text \<open>A range of elements given by tagged integers.\<close>

definition in_slice :: "nat \<Rightarrow> mlvalue \<Rightarrow> mlvalue \<Rightarrow> bool" where
  "in_slice n ofs len \<longleftrightarrow>
     0 \<le> sint (Long_val ofs) \<and> 0 \<le> sint (Long_val len) \<and> sint (Long_val ofs) + sint (Long_val len) \<le> int n"

lemma in_slice_obtain:
  assumes "in_slice n ofs len"
  obtains i k where "Long_val ofs = of_nat i" "sint (Long_val ofs) = int i"
    "Long_val len = of_nat k" "sint (Long_val len) = int k" "i + k \<le> n"
proof (cases ofs rule: long_index_cases)
  case (2 i)
  note i = 2
  show ?thesis
  proof (cases len rule: long_index_cases)
    case (2 k)
    then show ?thesis using i assms that[of i k] by (auto simp: in_slice_def)
  qed (use assms in \<open>simp add: in_slice_def\<close>)
qed (use assms in \<open>simp add: in_slice_def\<close>)

lemma elements_store:
  "n \<le> 2 ^ 59 \<Longrightarrow> i < n \<Longrightarrow> elements (mem_store64 m (v + 8 * of_nat i) x) v n = (elements m v n)[i := x]"
  using Field_store_bytes[of "le_bytes 8 x" 1 i _ m v] le_word_le_bytes[of 8 x]
  by (intro nth_equalityI) (auto simp: mem_store64_def nth_list_update le_less_Suc_eq)

section \<open>Room in the minor heap\<close>

definition minor_room :: "dom_st \<Rightarrow> nat \<Rightarrow> bool" where
  "minor_room st n \<longleftrightarrow> unat (young_limit st) + 8 * (n + 1) \<le> unat (young_ptr st)"

lemma Alloc_small_room:
  assumes "wf_dom st" "unat wosize \<le> 256"
  shows "Alloc_small_with_reserved st wosize tag reserved = None \<longleftrightarrow> \<not> minor_room st (unat wosize)"
proof -
  have sz: "unat (Bsize_wsize (Whsize_wosize wosize)) = 8 * (unat wosize + 1)"
    using assms(2) by (simp add: Bsize_wsize_def Whsize_wosize_def unat_word_ariths)
  then have "unat (young_ptr st - Bsize_wsize (Whsize_wosize wosize)) = unat (young_ptr st) - 8 * (unat wosize + 1)"
    using assms by (subst unat_sub) (auto simp: wf_dom_def word_le_nat_alt)
  then show ?thesis
    using assms by (auto simp: Alloc_small_with_reserved_def caml_check_gc_interrupt_def Let_def
        word_less_nat_alt minor_room_def wf_dom_def)
qed

section \<open>Element access\<close>

text \<open>What reading the element of index \<open>i\<close> must return: the element, or a new boxed float with
  its value, or the bounds error; a box for which the minor heap has no room is outside the model.\<close>

definition get_spec :: "gc_st \<Rightarrow> mlvalue \<Rightarrow> nat \<Rightarrow> int \<Rightarrow> mlvalue run \<Rightarrow> bool" where
  "get_spec st array n i r \<longleftrightarrow>
     (if 0 \<le> i \<and> i < int n then
        (let x = elements (mem_of st) array n ! nat i
         in if Tag_val (mem_of st) array = Double_array_tag then
              if minor_room (dstate st) 1 then
                \<exists>v st'. r = done_run v st' \<and> Tag_val (mem_of st') v = Double_tag \<and> Double_val (mem_of st') v = x \<and>
                  carved (dstate st) v 1 (dstate st')
              else r = None
            else r = done_run x st)
      else r = raise Array_bound_error)"

definition set_spec :: "gc_st \<Rightarrow> mlvalue \<Rightarrow> nat \<Rightarrow> int \<Rightarrow> mlvalue \<Rightarrow> mlvalue run \<Rightarrow> bool" where
  "set_spec st array n i newval r \<longleftrightarrow>
     (if 0 \<le> i \<and> i < int n then
        (\<exists>st'. r = done_run Val_unit st' \<and>
           elements (mem_of st') array n = (elements (mem_of st) array n)
             [nat i := if Tag_val (mem_of st) array = Double_array_tag then Double_val (mem_of st) newval else newval] \<and>
           same_outside array (8 * n) (mem_of st) (mem_of st'))
      else r = raise Array_bound_error)"

lemma alloc_double_block:
  assumes "wf_dom (dstate st)"
  shows "if minor_room (dstate st) 1 then
      \<exists>v st'. alloc_double st d = done_run v st' \<and> Tag_val (mem_of st') v = Double_tag \<and>
        Double_val (mem_of st') v = d \<and> carved (dstate st) v 1 (dstate st')
    else alloc_double st d = None"
proof -
  have e: "alloc_double st d = lift_alloc st (Do_alloc_small (dstate st) Double_tag [d])"
    by (cases "Alloc_small (dstate st) 1 Double_tag")
      (auto simp: alloc_double_def Do_alloc_small_def lift_alloc_def done_run_def store_word_def set_mem_def set_field_def)
  have room: "Do_alloc_small (dstate st) Double_tag [d] = None \<longleftrightarrow> \<not> minor_room (dstate st) 1"
    using Alloc_small_room[OF assms, of 1 Double_tag 0] by (simp add: Do_alloc_small_def Alloc_small_def)
  show ?thesis
  proof (cases "Do_alloc_small (dstate st) Double_tag [d]")
    case (Some r)
    then obtain v s where r: "Do_alloc_small (dstate st) Double_tag [d] = Some (v, s)" by (cases r) auto
    then have "alloc_double st d = done_run v (st\<lparr>dstate := s\<rparr>)" by (simp add: e lift_alloc_def done_run_def)
    then show ?thesis using Do_alloc_small_block[OF assms _ r] room r
      by (auto simp: Double_val_def Field_def)
  qed (use room in \<open>simp add: e lift_alloc_def\<close>)
qed

lemma bounds_check:
  assumes "array_block m array n" "Long_val index = of_nat i" "i < 2 ^ 63"
  shows "Long_val index \<ge> Allocated_wosize_val m array \<longleftrightarrow> n \<le> i"
  using assms by (simp add: array_block_def word_le_nat_alt unat_of_nat)

lemma caml_array_get_spec:
  assumes b: "array_block (mem_of st) array n" and wf: "wf_dom (dstate st)"
  shows "get_spec st array n (sint (Long_val index)) (caml_array_get st array index)"
proof (cases index rule: long_index_cases)
  case 1
  then show ?thesis
    by (simp add: get_spec_def caml_array_get_def caml_floatarray_get_def caml_array_get_addr_def Let_def)
next
  case (2 i)
  have nz: "\<not> sint (Long_val index) < 0" using 2(1) by simp
  show ?thesis
    using bounds_check[OF b 2(2,3)] alloc_double_block[OF wf, of "Field (mem_of st) array i"] 2(1) nz
    by (auto simp: get_spec_def caml_array_get_def caml_floatarray_get_def caml_array_get_addr_def Let_def
        load_word_field_addr 2(2))
qed

lemma store_element:
  assumes "array_block m array n" "i < n"
  shows "elements (mem_store64 m (field_addr array (of_nat i)) x) array n = (elements m array n)[i := x]"
    "same_outside array (8 * n) m (mem_store64 m (field_addr array (of_nat i)) x)"
  using elements_store[of n i m array x] same_outside_store64[of "8 * i" "8 * n" array m x] assms
  by (simp_all add: array_block_def field_addr_def)

lemma caml_array_set_spec:
  assumes b: "array_block (mem_of st) array n"
  shows "set_spec st array n (sint (Long_val index)) newval (caml_array_set st array index newval)"
proof (cases index rule: long_index_cases)
  case 1
  then show ?thesis
    by (simp add: set_spec_def caml_array_set_def caml_floatarray_set_def caml_array_set_addr_def Let_def)
next
  case (2 i)
  have nz: "\<not> sint (Long_val index) < 0" using 2(1) by simp
  show ?thesis
    using bounds_check[OF b 2(2,3)] store_element[OF b, of i] 2(1) nz
    by (auto simp: set_spec_def caml_array_set_def caml_floatarray_set_def caml_array_set_addr_def Let_def
        2(2) modify.mem_write)
qed

text \<open>An index that is not representable as an OCaml integer is never in bounds.\<close>

lemma index_check:
  assumes "array_block m array n"
  shows "idx = Long_val (Val_long idx) \<or> \<not> (0 \<le> sint idx \<and> sint idx < int n)"
  using assms Long_val_Val_long[of idx] by (auto simp: array_block_def fits_long_iff)

lemma get_indexed_by_spec:
  assumes "array_block (mem_of st) array n" "wf_dom (dstate st)"
  shows "get_spec st array n (sint idx) (get_indexed_by st array idx)"
proof (cases "idx = Long_val (Val_long idx)")
  case True
  then show ?thesis using caml_array_get_spec[OF assms, of "Val_long idx"] by (simp add: get_indexed_by_def)
next
  case False
  then show ?thesis using index_check[OF assms(1), of idx] by (simp add: get_indexed_by_def get_spec_def)
qed

lemma set_indexed_by_spec:
  assumes "array_block (mem_of st) array n"
  shows "set_spec st array n (sint idx) newval (set_indexed_by st array idx newval)"
proof (cases "idx = Long_val (Val_long idx)")
  case True
  then show ?thesis using caml_array_set_spec[OF assms, of "Val_long idx"] by (simp add: set_indexed_by_def)
next
  case False
  then show ?thesis using index_check[OF assms, of idx] by (simp add: set_indexed_by_def set_spec_def)
qed

text \<open>C20: reading and writing an element, with an index of any of the integer types, acts on
  the list of elements exactly when the index is between 0 and the length, and raises the
  bounds error otherwise, also for an index that does not fit in an OCaml integer; a flat
  array of floats boxes what is read in a new block and unboxes what is written; nothing but
  the element changes.\<close>

theorem array_access_correct:
  assumes "array_block (mem_of st) array n" and "wf_dom (dstate st)"
  shows "get_spec st array n (sint (Long_val index)) (caml_array_get st array index) \<and>
    set_spec st array n (sint (Long_val index)) newval (caml_array_set st array index newval) \<and>
    get_spec st array n (sint (Int64_val (mem_of st) index)) (caml_array_get_indexed_by_int64 st array index) \<and>
    set_spec st array n (sint (Int64_val (mem_of st) index)) newval (caml_array_set_indexed_by_int64 st array index newval) \<and>
    get_spec st array n (sint (Int32_val (mem_of st) index)) (caml_array_get_indexed_by_int32 st array index) \<and>
    set_spec st array n (sint (Int32_val (mem_of st) index)) newval (caml_array_set_indexed_by_int32 st array index newval) \<and>
    get_spec st array n (sint (Nativeint_val (mem_of st) index)) (caml_array_get_indexed_by_nativeint st array index) \<and>
    set_spec st array n (sint (Nativeint_val (mem_of st) index)) newval (caml_array_set_indexed_by_nativeint st array index newval)"
proof -
  have i32: "sint (scast (Int32_val (mem_of st) index) :: 64 word) = sint (Int32_val (mem_of st) index)"
    by (simp add: sint_up_scast is_up)
  show ?thesis
    using caml_array_get_spec[OF assms, of index] caml_array_set_spec[OF assms(1), of index newval]
      get_indexed_by_spec[OF assms, of "scast (Int32_val (mem_of st) index)"]
      set_indexed_by_spec[OF assms(1), of "scast (Int32_val (mem_of st) index)" newval]
      get_indexed_by_spec[OF assms] set_indexed_by_spec[OF assms(1)]
    unfolding i32 caml_array_get_indexed_by_int64_def caml_array_set_indexed_by_int64_def
      caml_array_get_indexed_by_int32_def caml_array_set_indexed_by_int32_def
      caml_array_get_indexed_by_nativeint_def caml_array_set_indexed_by_nativeint_def
    by blast
qed

section \<open>Blits\<close>

lemma memmove_select [simp]: "mem_of (set_mem st m) = m"
  by (simp add: set_mem_def)

lemma unat_diff_bound:
  fixes a b :: "64 word"
  assumes "unat a + k \<le> 2 ^ 63" "unat b + k \<le> 2 ^ 63" "b \<le> a \<or> unat a + k \<le> unat b"
  shows "unat (a - b) + k \<le> 2 ^ 64"
proof (cases "b \<le> a")
  case True
  then show ?thesis using assms by (simp add: unat_sub)
next
  case False
  then have u: "unat (b - a) = unat b - unat a" and "b - a \<noteq> 0" by (auto simp: unat_sub)
  then have "unat (- (b - a)) = 2 ^ 64 - (unat b - unat a)" using unat_uminus[of "b - a"] unfolding u by simp
  then show ?thesis using assms False by (simp add: word_le_nat_alt)
qed

text \<open>Whatever path it takes, a blit is a \<open>memmove\<close>.\<close>

definition apart :: "mlvalue \<Rightarrow> nat \<Rightarrow> mlvalue \<Rightarrow> nat \<Rightarrow> bool" where
  "apart v n w k \<longleftrightarrow> unat v + 8 * n \<le> unat w \<or> unat w + 8 * k \<le> unat v"

lemma field_addr_last: "field_addr (a + 8 * of_nat i) (of_nat k - 1) = a + 8 * of_nat i + 8 * of_nat k - 8"
  "field_addr a (of_nat i + of_nat k - 1) = a + 8 * of_nat i + 8 * of_nat k - 8"
  by (simp_all add: field_addr_def algebra_simps)

lemma unat_field_addr:
  "array_block m v n \<Longrightarrow> i \<le> n \<Longrightarrow> unat (v + 8 * of_nat i) = unat v + 8 * i"
  unfolding array_block_def by (simp add: unat_word_ariths unat_of_nat)

lemma wo_memmove_mem:
  assumes b: "unat dst + 8 * k \<le> 2 ^ 63" "unat src + 8 * k \<le> 2 ^ 63"
  shows "mem_of (wo_memmove st dst src (of_nat k)) = memmove (mem_of st) dst src (8 * k)"
proof -
  have k: "unat (of_nat k :: 64 word) = k" "unat (of_nat k * 8 :: 64 word) = 8 * k"
    using b by (simp_all add: unat_word_ariths unat_of_nat)
  have up: "unat (src - dst) + 8 * k \<le> 2 ^ 64" if "dst < src" using that b by (intro unat_diff_bound) auto
  have down: "unat (dst - src) + 8 * k \<le> 2 ^ 64" if "\<not> dst < src" using that b by (intro unat_diff_bound) auto
  have "8 * k \<le> 2 ^ 63" using b by simp
  then show ?thesis
    using plain.mem_copy_up[OF _ up] plain.mem_copy_down[OF _ down] field_addr_last(1)[of dst 0 k] field_addr_last(1)[of src 0 k]
    by (auto simp: wo_memmove_def k)
qed

lemma caml_array_blit_mem:
  assumes b: "array_block (mem_of st) a1 n1" "array_block (mem_of st) a2 n2" "a1 = a2 \<or> apart a1 n1 a2 n2"
    and i1: "Long_val ofs1 = of_nat i1" "sint (Long_val ofs1) = int i1" "i1 + k \<le> n1"
    and i2: "Long_val ofs2 = of_nat i2" "sint (Long_val ofs2) = int i2" "i2 + k \<le> n2"
    and k: "Long_val n = of_nat k" "sint (Long_val n) = int k"
  shows "mem_of (caml_array_blit st a1 ofs1 a2 ofs2 n) =
    memmove (mem_of st) (a2 + 8 * of_nat i2) (a1 + 8 * of_nat i1) (8 * k)"
proof -
  let ?s = "a1 + 8 * of_nat i1 :: 64 word" and ?d = "a2 + 8 * of_nat i2 :: 64 word"
  have u: "unat ?s = unat a1 + 8 * i1" "unat ?d = unat a2 + 8 * i2"
    using b i1(3) i2(3) by (auto intro: unat_field_addr)
  have bs: "unat a1 + 8 * n1 \<le> 2 ^ 63" "unat a2 + 8 * n2 \<le> 2 ^ 63" using b(1,2) by (auto simp: array_block_def)
  then have r: "unat ?s + 8 * k \<le> 2 ^ 63" "unat ?d + 8 * k \<le> 2 ^ 63" "8 * k \<le> 2 ^ 63" using u i1(3) i2(3) by auto
  have k8: "unat (of_nat k * 8 :: 64 word) = 8 * k" using r(3) by (simp add: unat_word_ariths unat_of_nat)
  have fa: "field_addr a2 (of_nat i2) = ?d" "field_addr a1 (of_nat i1) = ?s" by (simp_all add: field_addr_def)
  have down: "mem_of (copy_down caml_modify st (field_addr a2 (of_nat i2 + of_nat k - 1))
      (field_addr a1 (of_nat i1 + of_nat k - 1)) k) = memmove (mem_of st) ?d ?s (8 * k)" if "a1 = a2" "i1 < i2"
  proof -
    have "?s \<le> ?d" using that u by (simp add: word_le_nat_alt)
    then show ?thesis unfolding field_addr_last using r by (intro modify.mem_copy_down unat_diff_bound) auto
  qed
  have up: "mem_of (copy_up caml_modify st ?d ?s k) = memmove (mem_of st) ?d ?s (8 * k)" if "\<not> (a1 = a2 \<and> i1 < i2)"
  proof -
    have "?d \<le> ?s \<or> unat ?s + 8 * k \<le> unat ?d"
    proof (cases "a1 = a2")
      case True
      then show ?thesis using that u by (simp add: word_le_nat_alt)
    next
      case False
      then have "apart a1 n1 a2 n2" using b(3) by simp
      then show ?thesis unfolding apart_def word_le_nat_alt u using i1(3) i2(3) by auto
    qed
    then show ?thesis using r by (intro modify.mem_copy_up unat_diff_bound) auto
  qed
  show ?thesis
    using wo_memmove_mem[OF r(2,1)] up down
    by (auto simp: caml_array_blit_def caml_floatarray_blit_def i1(1) i2(1) k(1)
        i1(2)[unfolded i1(1)] i2(2)[unfolded i2(1)] k(2)[unfolded k(1)] fa k8 Let_def)
qed

text \<open>C9: blitting between arrays of values or of floats, in the minor heap, on the local stack
  or in the major heap, with one domain or several, and also when source and destination
  overlap, replaces the destination range by the elements that the source range had before,
  and changes no byte outside the destination array.\<close>

theorem caml_array_blit_correct:
  assumes "array_block (mem_of st) a1 n1" and "array_block (mem_of st) a2 n2" and "a1 = a2 \<or> apart a1 n1 a2 n2"
    and "in_slice n1 ofs1 n" and "in_slice n2 ofs2 n"
  shows "let st' = caml_array_blit st a1 ofs1 a2 ofs2 n;
      i1 = nat (sint (Long_val ofs1)); i2 = nat (sint (Long_val ofs2)); k = nat (sint (Long_val n));
      old = elements (mem_of st) a2 n2
    in elements (mem_of st') a2 n2 =
         take i2 old @ take k (drop i1 (elements (mem_of st) a1 n1)) @ drop (i2 + k) old \<and>
       same_outside a2 (8 * n2) (mem_of st) (mem_of st')"
proof -
  obtain i1 k where 1: "Long_val ofs1 = of_nat i1" "sint (Long_val ofs1) = int i1"
    "Long_val n = of_nat k" "sint (Long_val n) = int k" "i1 + k \<le> n1" by (rule in_slice_obtain[OF assms(4)])
  obtain i2 k' where 2: "Long_val ofs2 = of_nat i2" "sint (Long_val ofs2) = int i2"
    "Long_val n = of_nat k'" "sint (Long_val n) = int k'" "i2 + k' \<le> n2" by (rule in_slice_obtain[OF assms(5)])
  have [simp]: "k' = k" using 1 2 by simp
  have m: "mem_of (caml_array_blit st a1 ofs1 a2 ofs2 n) =
      memmove (mem_of st) (a2 + 8 * of_nat i2) (a1 + 8 * of_nat i1) (8 * k)"
    using 1 2 by (intro caml_array_blit_mem[OF assms(1-3)]) auto
  have n2: "n2 < 2 ^ 46" using assms(2) by (simp add: array_block_def)
  have "same_outside a2 (8 * n2) (mem_of st) (memmove (mem_of st) (a2 + of_nat (8 * i2)) (a1 + 8 * of_nat i1) (8 * k))"
    unfolding memmove_def using 2(5) n2 by (intro same_outside_store_bytes) auto
  then show ?thesis
    using elements_memmove[of i2 k n2 i1 n1 "mem_of st" a2 a1] 1(5) 2(5) n2 by (simp add: m 1(2,4) 2(2) Let_def)
qed

section \<open>Fills\<close>

lemma elements_store_words:
  assumes "i + length xs \<le> n" "n \<le> 2 ^ 59"
  shows "elements (store_bytes m (v + 8 * of_nat i) (concat (map (le_bytes 8) xs))) v n =
    take i (elements m v n) @ xs @ drop (i + length xs) (elements m v n)"
proof -
  have "le_word (take 8 (drop (8 * d) (concat (map (le_bytes 8) xs)))) = xs ! d" if "d < length xs" for d
    using concat_le_bytes_slice[OF that] le_word_le_bytes[of 8 "xs ! d"] by simp
  then have "Field (store_bytes m (v + 8 * of_nat i) (concat (map (le_bytes 8) xs))) v j =
      (if i \<le> j \<and> j < i + length xs then xs ! (j - i) else Field m v j)" if "j < n" for j
    using assms that Field_store_bytes[of "concat (map (le_bytes 8) xs)" "length xs" i j m v] by auto
  moreover have "min n i = i" using assms by auto
  ultimately show ?thesis using assms by (intro nth_equalityI) (auto simp: nth_append)
qed

lemma caml_array_fill_correct:
  assumes "array_block (mem_of st) array n" and "in_slice n ofs len"
  shows "let st' = caml_array_fill st array ofs len val;
      i = nat (sint (Long_val ofs)); k = nat (sint (Long_val len)); old = elements (mem_of st) array n;
      x = (if Tag_val (mem_of st) array = Double_array_tag then Double_val (mem_of st) val else val)
    in elements (mem_of st') array n = take i old @ replicate k x @ drop (i + k) old \<and>
       same_outside array (8 * n) (mem_of st) (mem_of st')"
proof -
  obtain i k where i: "Long_val ofs = of_nat i" "sint (Long_val ofs) = int i"
    "Long_val len = of_nat k" "sint (Long_val len) = int k" "i + k \<le> n" by (rule in_slice_obtain[OF assms(2)])
  have n: "n < 2 ^ 46" using assms(1) by (simp add: array_block_def)
  have fa: "field_addr array (of_nat i) = array + 8 * of_nat i" by (simp add: field_addr_def)
  let ?x = "if Tag_val (mem_of st) array = Double_array_tag then Double_val (mem_of st) val else val"
  have m: "mem_of (caml_array_fill st array ofs len val) =
      store_bytes (mem_of st) (array + 8 * of_nat i) (concat (map (le_bytes 8) (replicate k ?x)))"
    using i(5) n by (simp add: caml_array_fill_def i(1,2,4) fa plain.mem_fill_up fill.mem_fill_up Let_def)
  have "same_outside array (8 * n) (mem_of st)
      (store_bytes (mem_of st) (array + of_nat (8 * i)) (concat (map (le_bytes 8) (replicate k ?x))))"
    using i(5) n by (intro same_outside_store_bytes) auto
  then show ?thesis
    using elements_store_words[of i "replicate k ?x" n "mem_of st" array] i(5) n by (simp add: m i(2,4) Let_def)
qed

section \<open>Extraction and concatenation\<close>

definition total_length :: "slice list \<Rightarrow> nat" where
  "total_length slices = sum_list (map (\<lambda>(a, ofs, len). unat len) slices)"

definition slice_elements :: "mem \<Rightarrow> slice \<Rightarrow> mlvalue list" where
  "slice_elements m s = (case s of (a, ofs, len) \<Rightarrow> map (Field m a) [unat ofs..<unat ofs + unat len])"

lemma total_length_simps [simp]:
  "total_length [] = 0" "total_length ((a, ofs, len) # slices) = unat len + total_length slices"
  by (simp_all add: total_length_def)

text \<open>The test for overflow of the total size is exact.\<close>

lemma gather_size_correct:
  "gather_size m slices sz isfloat =
     (if unat sz + total_length slices < 2 ^ 64
      then Inr (sz + of_nat (total_length slices), isfloat \<or> (\<exists>(a, ofs, len) \<in> set slices. Tag_val m a = Double_array_tag))
      else Inl (Invalid_argument ''Array.concat''))"
proof (induction slices arbitrary: sz isfloat)
  case Nil
  show ?case using unsigned_less[of sz, where ?'a = nat] by simp
next
  case (Cons s slices)
  obtain a ofs len where s: "s = (a, ofs, len)" by (cases s)
  have "unat (mlsize_t_max - len) = 2 ^ 64 - 1 - unat len"
  proof -
    have "len \<le> mlsize_t_max" unfolding mlsize_t_max_def by simp
    then have "unat (mlsize_t_max - len) = unat mlsize_t_max - unat len" by (rule unat_sub)
    then show ?thesis by (simp add: mlsize_t_max_def unat_uminus)
  qed
  then have ovf: "mlsize_t_max - len < sz \<longleftrightarrow> 2 ^ 64 \<le> unat sz + unat len"
    using unsigned_less[of len, where ?'a = nat] by (auto simp: word_less_nat_alt)
  show ?case
  proof (cases "2 ^ 64 \<le> unat sz + unat len")
    case True
    then show ?thesis by (simp add: s ovf)
  next
    case False
    then have "unat (sz + len) = unat sz + unat len" by (simp add: unat_word_ariths)
    then show ?thesis using False ovf by (auto simp: s Cons.IH add.assoc)
  qed
qed

text \<open>Copying the slices one after the other into a block that overlaps none of them.\<close>

definition slice_apart :: "mlvalue \<Rightarrow> nat \<Rightarrow> slice \<Rightarrow> bool" where
  "slice_apart res n s \<longleftrightarrow> (case s of (a, ofs, len) \<Rightarrow>
     unat a + 8 * (unat ofs + unat len) \<le> 2 ^ 63 \<and>
     (unat a + 8 * (unat ofs + unat len) \<le> unat res \<or> unat res + 8 * n \<le> unat a))"

lemma slice_elements_frame:
  assumes out: "same_outside res (8 * n) m m'" and ap: "slice_apart res n s" and res: "unat res + 8 * n \<le> 2 ^ 63"
  shows "slice_elements m' s = slice_elements m s"
proof -
  obtain a ofs len where s: "s = (a, ofs, len)" by (cases s)
  have "Field m' a j = Field m a j" if j: "j < unat ofs + unat len" for j
  proof -
    have "8 * n \<le> unat (a + 8 * of_nat j + of_nat i - res)" if i: "i < 8" for i
    proof -
      have b: "8 * j + i < 8 * (unat ofs + unat len)" using i j by simp
      have "a + 8 * of_nat j + of_nat i = a + of_nat (8 * j + i)" by (simp add: add.assoc)
      moreover have u: "unat (a + of_nat (8 * j + i)) = unat a + (8 * j + i)"
        using ap b by (simp add: slice_apart_def s unat_word_ariths unat_of_nat)
      moreover have "8 * n \<le> unat (a + of_nat (8 * j + i) - res)"
      proof (cases "unat res + 8 * n \<le> unat a")
        case True
        then show ?thesis using u by (subst unat_sub) (simp_all add: word_le_nat_alt)
      next
        case False
        then have "unat a + (8 * j + i) < unat res" using ap b by (simp add: slice_apart_def s)
        moreover define d where "d = res - (a + of_nat (8 * j + i))"
        ultimately have d: "unat d = unat res - (unat a + (8 * j + i))" "d \<noteq> 0"
          unfolding d_def using u by (auto simp: unat_sub word_le_nat_alt)
        then have "unat (- d) = 2 ^ 64 - unat d" by (simp add: unat_uminus)
        moreover have "- d = a + of_nat (8 * j + i) - res" by (simp add: d_def)
        ultimately show ?thesis using d(1) res by simp
      qed
      ultimately show ?thesis by (simp only:)
    qed
    then show ?thesis
      unfolding Field_def mem_load64_def using load_bytes_same_outside[OF out, of 8 "a + 8 * of_nat j"] by simp
  qed
  then show ?thesis by (simp add: slice_elements_def s)
qed

lemma gather_copy_correct:
  assumes "\<forall>s\<in>set slices. slice_apart res n s" "pos + total_length slices \<le> n" "n < 2 ^ 46" "unat res + 8 * n \<le> 2 ^ 63"
  shows "elements (mem_of (gather_copy st res (of_nat pos) slices)) res n =
      take pos (elements (mem_of st) res n) @ concat (map (slice_elements (mem_of st)) slices) @
      drop (pos + total_length slices) (elements (mem_of st) res n) \<and>
    same_outside res (8 * n) (mem_of st) (mem_of (gather_copy st res (of_nat pos) slices)) \<and>
    gather_copy st res (of_nat pos) slices = set_mem st (mem_of (gather_copy st res (of_nat pos) slices))"
  using assms
proof (induction slices arbitrary: st pos)
  case Nil
  then show ?case by (simp add: set_mem_def)
next
  case (Cons s slices)
  obtain a ofs len where s: "s = (a, ofs, len)" by (cases s)
  define k where "k = unat len"
  let ?m1 = "memmove (mem_of st) (res + 8 * of_nat pos) (a + 8 * of_nat (unat ofs)) (8 * k)"
  let ?st1 = "set_mem st ?m1"
  have k: "len = of_nat k" "pos + k + total_length slices \<le> n" "unat (len * 8) = 8 * k"
    using Cons.prems(2,3) by (simp_all add: k_def s unat_word_ariths)
  have out: "same_outside res (8 * n) (mem_of st) ?m1"
    using same_outside_store_bytes[of "8 * pos" "load_bytes (mem_of st) (a + 8 * of_nat (unat ofs)) (8 * k)" "8 * n" res "mem_of st"] k Cons.prems(3)
    by (simp add: memmove_def)
  have step: "gather_copy st res (of_nat pos) (s # slices) = gather_copy ?st1 res (of_nat (pos + k)) slices"
    using k(3) by (simp add: s field_addr_def k(1))
  have "elements ?m1 res n = take pos (elements (mem_of st) res n) @
      take k (drop (unat ofs) (elements (mem_of st) a (unat ofs + k))) @ drop (pos + k) (elements (mem_of st) res n)"
    using k(2) Cons.prems(3) by (intro elements_memmove) auto
  also have "take k (drop (unat ofs) (elements (mem_of st) a (unat ofs + k))) = slice_elements (mem_of st) s"
    by (simp add: slice_elements_def s elements_def drop_map take_map k_def)
  finally have e1: "elements ?m1 res n = take pos (elements (mem_of st) res n) @
      slice_elements (mem_of st) s @ drop (pos + k) (elements (mem_of st) res n)" .
  have ls: "length (slice_elements (mem_of st) s) = k" by (simp add: slice_elements_def s k_def)
  have same: "map (slice_elements ?m1) slices = map (slice_elements (mem_of st)) slices"
    using slice_elements_frame[OF out _ Cons.prems(4)] Cons.prems(1) by simp
  have "min n pos = pos" using k(2) by simp
  then have tk: "take (pos + k) (elements ?m1 res n) = take pos (elements (mem_of st) res n) @ slice_elements (mem_of st) s"
    unfolding e1 using ls by simp
  have dr: "drop (pos + k + t) (elements ?m1 res n) = drop (pos + k + t) (elements (mem_of st) res n)" for t
    unfolding e1 using k(2) ls by (simp add: add.commute add.left_commute min_def)
  let ?r = "gather_copy ?st1 res (of_nat (pos + k)) slices"
  have IH: "elements (mem_of ?r) res n = take (pos + k) (elements ?m1 res n) @ concat (map (slice_elements ?m1) slices) @
      drop (pos + k + total_length slices) (elements ?m1 res n)"
    "same_outside res (8 * n) ?m1 (mem_of ?r)" "?r = set_mem ?st1 (mem_of ?r)"
    using Cons.IH[of "pos + k" ?st1] Cons.prems(1,3,4) k(2) by simp_all
  have "total_length (s # slices) = k + total_length slices" by (simp add: s k_def)
  then show ?case
    unfolding step using IH(1) same_outside_trans[OF out IH(2)] trans[OF IH(3), of "set_mem st (mem_of ?r)"]
    unfolding same tk dr by (simp add: set_mem_def add.assoc del: of_nat_add)
qed

text \<open>What gathering slices must return.\<close>

definition gather_spec :: "gc_st \<Rightarrow> slice list \<Rightarrow> mlvalue run \<Rightarrow> bool" where
  "gather_spec st slices r \<longleftrightarrow>
     (let n = total_length slices;
          tag = (if \<exists>(a, ofs, len) \<in> set slices. Tag_val (mem_of st) a = Double_array_tag then Double_array_tag else 0)
      in if unat Max_wosize < n then r = raise (Invalid_argument ''Array.concat'')
         else if n = 0 then r = done_run (caml_atom (dstate st) 0) st
         else if n \<le> 256 \<and> minor_room (dstate st) n then
           \<exists>v st'. r = done_run v st' \<and> Tag_val (mem_of st') v = tag \<and> Allocated_wosize_val (mem_of st') v = of_nat n \<and>
             elements (mem_of st') v n = concat (map (slice_elements (mem_of st)) slices) \<and>
             carved (dstate st) v n (dstate st')
         else r = None)"

text \<open>The slices lie in arrays outside the free part of the minor heap.\<close>

definition slice_ok :: "gc_st \<Rightarrow> slice \<Rightarrow> bool" where
  "slice_ok st s \<longleftrightarrow> (case s of (a, ofs, len) \<Rightarrow>
     unat a + 8 * (unat ofs + unat len) \<le> 2 ^ 63 \<and>
     (unat (young_ptr (dstate st)) \<le> unat a \<or> unat a + 8 * (unat ofs + unat len) \<le> unat (young_limit (dstate st))))"

lemma slice_ok_apart:
  assumes c: "carved (dstate st) v n d" and s: "slice_ok st s"
  shows "slice_apart v n s" "slice_apart (young_ptr d) (n + 1) s"
proof -
  have v: "unat v = unat (young_ptr d) + 8" "unat (young_ptr d) + 8 * (n + 1) = unat (young_ptr (dstate st))"
    "unat (young_limit (dstate st)) \<le> unat (young_ptr d)"
  proof -
    show e: "unat (young_ptr d) + 8 * (n + 1) = unat (young_ptr (dstate st))" using c by (simp add: carved_def)
    have "unat (young_ptr d) + 8 < 2 ^ 64" using e unsigned_less[of "young_ptr (dstate st)", where ?'a = nat] by simp
    then show "unat v = unat (young_ptr d) + 8" using c by (simp add: carved_def unat_word_ariths)
    show "unat (young_limit (dstate st)) \<le> unat (young_ptr d)" using c by (auto simp: carved_def wf_dom_def)
  qed
  then show "slice_apart v n s" "slice_apart (young_ptr d) (n + 1) s"
    using s by (auto simp: slice_apart_def slice_ok_def split: prod.splits)
qed

lemma gather_alloc:
  assumes wf: "wf_dom (dstate st)" "unat (young_ptr (dstate st)) \<le> 2 ^ 63" and n: "n = total_length slices" "0 < n" "n \<le> 256"
    and ok: "\<forall>s\<in>set slices. slice_ok st s"
    and al: "al = Alloc_small_with_reserved (dstate st) (of_nat n) tag 0"
  shows "if minor_room (dstate st) n then
      \<exists>v st'. bind_run (lift_alloc st al) (\<lambda>res st1. done_run res (gather_copy st1 res 0 slices)) = done_run v st' \<and>
        Tag_val (mem_of st') v = tag \<and> Allocated_wosize_val (mem_of st') v = of_nat n \<and>
        elements (mem_of st') v n = concat (map (slice_elements (mem_of st)) slices) \<and>
        carved (dstate st) v n (dstate st')
    else bind_run (lift_alloc st al) (\<lambda>res st1. done_run res (gather_copy st1 res 0 slices)) = None"
proof -
  have u: "unat (of_nat n :: 64 word) = n" using n(3) by (simp add: unat_of_nat)
  have room: "al = None \<longleftrightarrow> \<not> minor_room (dstate st) n"
    using Alloc_small_room[OF wf(1), of "of_nat n" tag 0] n(3) by (simp add: al u)
  show ?thesis
  proof (cases al)
    case None
    then show ?thesis using room by (simp add: lift_alloc_def)
  next
    case (Some r)
    then obtain v d where r: "al = Some (v, d)" by (cases r) auto
    have c: "carved (dstate st) v n d" and hd: "Hd_val (heap d) v = Make_header_with_reserved (of_nat n) tag 0 0"
      using Alloc_small_carved[OF wf(1) _ r[unfolded al]] n(3) by (simp_all add: u)
    let ?st1 = "st\<lparr>dstate := d\<rparr>"
    let ?st' = "gather_copy ?st1 v (of_nat 0) slices"
    have ap: "\<forall>s\<in>set slices. slice_apart v n s" using ok slice_ok_apart(1)[OF c] by auto
    have uv: "unat v + 8 * n \<le> 2 ^ 63"
      using c wf(2) by (simp add: carved_def unat_word_ariths)
    have g: "elements (mem_of ?st') v n = concat (map (slice_elements (heap d)) slices)"
      "same_outside v (8 * n) (heap d) (mem_of ?st')" "?st' = set_mem ?st1 (mem_of ?st')"
      using gather_copy_correct[OF ap, of 0 ?st1] n uv by simp_all
    have "slice_elements (heap d) s = slice_elements (mem_of st) s" if "s \<in> set slices" for s
      using c wf(2) ok that slice_ok_apart(2)[OF c, of s]
      by (intro slice_elements_frame[where n = "n + 1" and res = "young_ptr d"]) (auto simp: carved_def)
    then have fr: "map (slice_elements (heap d)) slices = map (slice_elements (mem_of st)) slices" by simp
    have "Hd_val (mem_of ?st') v = Hd_val (heap d) v" using g(2) n(3) by (intro Hd_val_same_outside) auto
    then have "Tag_val (mem_of ?st') v = tag" "Allocated_wosize_val (mem_of ?st') v = of_nat n"
      using hd u n(3) by (simp_all add: Tag_val_Hd_val Allocated_wosize_val_def)
    moreover have "dstate ?st' = d\<lparr>heap := mem_of ?st'\<rparr>"
      by (rule trans[OF arg_cong[OF g(3), of dstate]]) (simp add: set_mem_def)
    then have "carved (dstate st) v n (dstate ?st')" using carved_inside[OF c g(2)] by (simp only:)
    ultimately show ?thesis using room r g(1) fr by (simp add: lift_alloc_def done_run_def)
  qed
qed

lemma caml_array_gather_spec:
  assumes wf: "wf_dom (dstate st)" "unat (young_ptr (dstate st)) \<le> 2 ^ 63" and ok: "\<forall>s\<in>set slices. slice_ok st s"
  shows "gather_spec st slices (caml_array_gather st slices False)"
proof -
  define n where "n = total_length slices"
  define fl where "fl = (\<exists>(a, ofs, len) \<in> set slices. Tag_val (mem_of st) a = Double_array_tag)"
  have gs: "gather_size (mem_of st) slices 0 False =
      (if n < 2 ^ 64 then Inr (of_nat n, fl) else Inl (Invalid_argument ''Array.concat''))"
    using gather_size_correct[of "mem_of st" slices 0 False] by (simp add: n_def fl_def)
  have mx: "unat Max_wosize = 2 ^ 46 - 1" by (simp add: Max_wosize_def mask_eq_exp_minus_1)
  have u: "unat (of_nat n :: 64 word) = n" if "n < 2 ^ 64" using that by (simp add: unat_of_nat)
  have big: "(of_nat n :: 64 word) > Max_wosize \<longleftrightarrow> unat Max_wosize < n" if "n < 2 ^ 64"
    using u[OF that] by (simp add: word_less_nat_alt)
  have zero: "(of_nat n :: 64 word) = 0 \<longleftrightarrow> n = 0" if "n < 2 ^ 64" using u[OF that] by (simp add: word_unat_eq_iff)
  have small: "(of_nat n :: 64 word) \<le> Max_young_wosize \<longleftrightarrow> n \<le> 256" if "n < 2 ^ 64"
    using u[OF that] by (simp add: word_le_nat_alt Max_young_wosize_def)
  have al: "caml_alloc (dstate st) (of_nat n) Double_array_tag =
      (if n \<le> 256 then Alloc_small_with_reserved (dstate st) (of_nat n) Double_array_tag 0 else None)" if "n < 2 ^ 64" "n \<noteq> 0"
    using small[OF that(1)] zero[OF that(1)] that(2)
    by (cases "Alloc_small_with_reserved (dstate st) (of_nat n) Double_array_tag 0")
      (auto simp: caml_alloc_def caml_alloc_with_reserved_def Let_def)
  note ga = gather_alloc[OF wf n_def _ _ ok refl]
  show ?thesis
  proof (cases "unat Max_wosize < n")
    case True
    then have "caml_array_gather st slices False = raise (Invalid_argument ''Array.concat'')"
      using gs big zero by (auto simp: caml_array_gather_def Max_unboxed_float_array_wosize_def Max_array_wosize_def)
    then show ?thesis using True by (simp add: gather_spec_def n_def Let_def)
  next
    case False
    then have n64: "n < 2 ^ 64" using mx by simp
    show ?thesis
      using False gs big[OF n64] zero[OF n64] small[OF n64] al[OF n64] ga[of Double_array_tag] ga[of 0] n64
      by (auto simp: caml_array_gather_def gather_spec_def Max_unboxed_float_array_wosize_def Max_array_wosize_def
          caml_alloc_small_def caml_alloc_small_with_reserved_def Let_def lift_alloc_def
          simp flip: n_def fl_def)
  qed
qed

text \<open>An OCaml list in memory.\<close>

fun list_at :: "mem \<Rightarrow> mlvalue \<Rightarrow> mlvalue list \<Rightarrow> bool" where
  "list_at m l [] \<longleftrightarrow> l = Val_emptylist"
| "list_at m l (x # xs) \<longleftrightarrow> l \<noteq> Val_emptylist \<and> Field m l 0 = x \<and> list_at m (Field m l 1) xs"

lemma list_elements_list_at: "list_at m l xs \<Longrightarrow> list_elements m l acc = Some (acc @ xs)"
proof (induction xs arbitrary: l acc)
  case Nil
  then show ?case by (subst list_elements.simps) simp
next
  case (Cons x xs)
  then show ?case by (subst list_elements.simps) simp
qed

definition whole :: "mem \<Rightarrow> mlvalue \<Rightarrow> slice" where
  "whole m a = (a, 0, caml_array_length m a)"

lemma extra_storage_state:
  assumes "extra_storage st n = done_run u st1" shows "dstate st1 = dstate st"
proof -
  have c: "c_alloc s = done_run r s' \<Longrightarrow> dstate s' = dstate s" for s r s'
    by (auto simp: c_alloc_def split: list.splits)
  show ?thesis
    using assms by (auto simp: extra_storage_def bind_run_eq_done split: if_splits option.splits dest!: c)
qed

lemma slice_ok_cong: "dstate st1 = dstate st \<Longrightarrow> slice_ok st1 s = slice_ok st s"
  by (simp add: slice_ok_def)

text \<open>C10: gathering slices returns an array of their elements in order, a flat float array if one of
  the arrays is one, in a new block that overlaps nothing allocated before; a total length beyond
  the maximal size of a block, even one that overflows the machine word, raises
  Invalid_argument, and the result of an empty gathering is the empty array.  Extracting a sub-array, appending two
  arrays and concatenating a list of arrays, of any length when the C allocator gives the storage for the
  arguments, gather the slices they stand for.  A result of more than 256 words, which is allocated in the major heap, or one
  for which the minor heap has no room is outside the model.\<close>

theorem array_gather_correct:
  assumes "wf_dom (dstate st)" and "unat (young_ptr (dstate st)) \<le> 2 ^ 63"
    and "\<forall>s\<in>set slices. slice_ok st s"
    and "slice_ok st (a, Long_val ofs, Long_val len)"
    and "slice_ok st (whole (mem_of st) a1)" and "slice_ok st (whole (mem_of st) a2)"
    and "list_at (mem_of st) al arrays" and "extra_storage st (length arrays) = done_run u st1"
    and "\<forall>b\<in>set arrays. slice_ok st (whole (mem_of st) b)"
  shows "gather_spec st slices (caml_array_gather st slices False) \<and>
    gather_spec st [(a, Long_val ofs, Long_val len)] (caml_array_sub st a ofs len) \<and>
    gather_spec st [whole (mem_of st) a1, whole (mem_of st) a2] (caml_array_append st a1 a2) \<and>
    gather_spec st1 (map (whole (mem_of st)) arrays) (caml_array_concat st al)"
proof -
  note g = caml_array_gather_spec[OF assms(1,2)]
  have d: "dstate st1 = dstate st" using extra_storage_state[OF assms(8)] .
  have "caml_array_concat st al = caml_array_gather st1 (map (whole (mem_of st)) arrays) False"
    using list_elements_list_at[OF assms(7), of "[]"] assms(8) d
    by (simp add: caml_array_concat_def array_concat_gen_def whole_def [abs_def])
  moreover have "gather_spec st1 (map (whole (mem_of st)) arrays) (caml_array_gather st1 (map (whole (mem_of st)) arrays) False)"
    using assms(1,2,9) by (intro caml_array_gather_spec) (auto simp: d slice_ok_cong[OF d])
  ultimately show ?thesis
    using assms(3-6) g[of "[(a, Long_val ofs, Long_val len)]"] g[of "[whole (mem_of st) a1, whole (mem_of st) a2]"] g[of slices]
    by (simp add: caml_array_sub_def caml_array_append_def whole_def)
qed

section \<open>The mutator and the collectors\<close>

text \<open>A loop of plain stores leaves everything but memory alone.\<close>

lemma same_gc_store_word [simp]: "same_gc (store_word st a w) st' = same_gc st st'" "same_gc st st"
  by (simp_all add: same_gc_def)

lemma plain_loops_gc:
  "same_gc st (fill_up store_word st a v n) \<and> major_ref (fill_up store_word st a v n) = major_ref st"
  "same_gc st (copy_up store_word st d c n) \<and> major_ref (copy_up store_word st d c n) = major_ref st"
  "same_gc st (copy_down store_word st d c n) \<and> major_ref (copy_down store_word st d c n) = major_ref st"
proof -
  show "same_gc st (fill_up store_word st a v n) \<and> major_ref (fill_up store_word st a v n) = major_ref st"
  proof (induction n arbitrary: st a)
    case (Suc n)
    show ?case using Suc.IH[of "store_word st a v" "a + 8"] by simp
  qed simp
  show "same_gc st (copy_up store_word st d c n) \<and> major_ref (copy_up store_word st d c n) = major_ref st"
  proof (induction n arbitrary: st d c)
    case (Suc n)
    show ?case using Suc.IH[of "store_word st d (load_word st c)" "d + 8" "c + 8"] by simp
  qed simp
  show "same_gc st (copy_down store_word st d c n) \<and> major_ref (copy_down store_word st d c n) = major_ref st"
  proof (induction n arbitrary: st d c)
    case (Suc n)
    show ?case using Suc.IH[of "store_word st d (load_word st c)" "d - 8" "c - 8"] by simp
  qed simp
qed

lemma wo_memmove_gc: "same_gc st (wo_memmove st d c n) \<and> major_ref (wo_memmove st d c n) = major_ref st"
  using plain_loops_gc by (simp add: wo_memmove_def) (simp add: same_gc_def set_mem_def)

text \<open>An array of values in the heap: its elements are fields that the collectors
  know about, on the same side of the generations as the array.\<close>

definition heap_fields :: "64 word set \<Rightarrow> gc_st \<Rightarrow> mlvalue \<Rightarrow> nat \<Rightarrow> bool" where
  "heap_fields F st array n \<longleftrightarrow>
     Tag_val (mem_of st) array \<noteq> Double_array_tag \<and> \<not> caml_is_stack st array \<and>
     (\<forall>j<n. array + 8 * of_nat j \<in> F \<and> Is_young_v st (array + 8 * of_nat j) = Is_young_v st array)"

inductive mutator :: "64 word set \<Rightarrow> gc_st \<Rightarrow> gc_st \<Rightarrow> bool" for F where
  start: "mutator F st st"
| modify: "mutator F st st1 \<Longrightarrow> fp \<in> F \<Longrightarrow> mutator F st (caml_modify st1 fp val)"
| initialize: "mutator F st st1 \<Longrightarrow> fp \<in> F \<Longrightarrow> Is_long (load_word st1 fp) \<Longrightarrow> mutator F st (caml_initialize st1 fp val)"
| exchange: "mutator F st st1 \<Longrightarrow> ref \<in> F \<Longrightarrow> mutator F st (snd (caml_atomic_exchange st1 ref v))"
| cas: "mutator F st st1 \<Longrightarrow> ref \<in> F \<Longrightarrow> mutator F st (snd (caml_atomic_cas st1 ref oldv newv))"
| cas_field: "mutator F st st1 \<Longrightarrow> obj + 8 * of_nat i \<in> F \<Longrightarrow>
    Is_young_v st1 obj = Is_young_v st1 (obj + 8 * of_nat i) \<Longrightarrow>
    mutator F st (snd (caml_atomic_cas_field st1 obj i oldv newv))"
| fetch_add: "mutator F st st1 \<Longrightarrow> ref \<in> F \<Longrightarrow> Is_long (load_word st1 ref) \<Longrightarrow>
    mutator F st (snd (caml_atomic_fetch_add st1 ref incr))"
| set: "mutator F st st1 \<Longrightarrow> array_block (mem_of st1) array n \<Longrightarrow> heap_fields F st1 array n \<Longrightarrow>
    caml_array_set st1 array index newval = done_run u st2 \<Longrightarrow> mutator F st st2"
| fill: "mutator F st st1 \<Longrightarrow> array_block (mem_of st1) array n \<Longrightarrow> heap_fields F st1 array n \<Longrightarrow>
    in_slice n ofs len \<Longrightarrow> mutator F st (caml_array_fill st1 array ofs len val)"
| blit: "mutator F st st1 \<Longrightarrow> array_block (mem_of st1) a1 n1 \<Longrightarrow> array_block (mem_of st1) a2 n2 \<Longrightarrow>
    a1 = a2 \<or> apart a1 n1 a2 n2 \<Longrightarrow> heap_fields F st1 a2 n2 \<Longrightarrow> in_slice n1 ofs1 k \<Longrightarrow> in_slice n2 ofs2 k \<Longrightarrow>
    mutator F st (caml_array_blit st1 a1 ofs1 a2 ofs2 k)"

lemma initialize_modify: "Is_long (load_word st fp) \<Longrightarrow> caml_initialize st fp v = caml_modify st fp v"
  by (simp add: caml_initialize_def caml_modify_def Let_def flip: write_barrier_store_word)
    (simp add: write_barrier_def Let_def)

lemma fetch_add_modify:
  "Is_long (load_word st ref) \<Longrightarrow>
     snd (caml_atomic_fetch_add st ref incr) = caml_modify st ref (Val_long (Long_val (load_word st ref) + Long_val incr))"
  by (simp add: atomic_fetch_add_store caml_modify_def flip: write_barrier_store_word)
    (simp add: write_barrier_def Let_def Is_block_and_young_def)

lemma heap_fields_range:
  assumes "heap_fields F st array n" "i + k \<le> n"
  shows "\<forall>j<k. array + 8 * of_nat i + 8 * of_nat j \<in> F"
    "Is_young_v st array \<Longrightarrow> \<forall>j<k. Is_young_v st (array + 8 * of_nat i + 8 * of_nat j)"
proof -
  have e: "array + 8 * of_nat i + 8 * of_nat j = array + 8 * of_nat (i + j)" for j
    by (simp add: algebra_simps)
  show "\<forall>j<k. array + 8 * of_nat i + 8 * of_nat j \<in> F"
    "Is_young_v st array \<Longrightarrow> \<forall>j<k. Is_young_v st (array + 8 * of_nat i + 8 * of_nat j)"
    unfolding e using assms unfolding heap_fields_def by (auto simp del: of_nat_add)
qed

lemma fill_ok:
  assumes F: "\<forall>x\<in>F. word_addr x" and b: "array_block (mem_of st) array n" and h: "heap_fields F st array n"
    and sl: "in_slice n ofs len"
  shows "barrier_ok F st (caml_array_fill st array ofs len val)"
proof -
  obtain i k where i: "Long_val ofs = of_nat i" "sint (Long_val ofs) = int i"
    "Long_val len = of_nat k" "sint (Long_val len) = int k" "i + k \<le> n" by (rule in_slice_obtain[OF sl])
  note r = heap_fields_range[OF h i(5)]
  have n: "unat array + 8 * n \<le> 2 ^ 63" "word_addr array" using b by (simp_all add: array_block_def)
  have wa: "word_addr (array + 8 * of_nat i)" using word_addr_add[of array "8 * i"] n i(5) by simp
  have "barrier_ok F st (fill_up store_word st (array + 8 * of_nat i) val k)" if y: "Is_young_v st array"
    using plain_loops_gc(1) plain.mem_fill_up[of k st "array + 8 * of_nat i" val] i(5) n
    by (intro young_region_ok[OF F wa _ r(2)[OF y], of "concat (replicate k (le_bytes 8 val))"]) auto
  moreover have "barrier_ok F st (fill_up fill_old st (array + 8 * of_nat i) val k)"
    by (rule fill.fill_up_ok[OF F r(1)])
  ultimately show ?thesis
    using h by (simp add: caml_array_fill_def heap_fields_def i(1,2,4) field_addr_def Let_def)
qed

lemma blit_ok:
  assumes F: "\<forall>x\<in>F. word_addr x" and b: "array_block (mem_of st) a1 n1" "array_block (mem_of st) a2 n2"
      "a1 = a2 \<or> apart a1 n1 a2 n2" and h: "heap_fields F st a2 n2"
    and sl: "in_slice n1 ofs1 n" "in_slice n2 ofs2 n"
  shows "barrier_ok F st (caml_array_blit st a1 ofs1 a2 ofs2 n)"
proof -
  obtain i1 k where 1: "Long_val ofs1 = of_nat i1" "sint (Long_val ofs1) = int i1"
    "Long_val n = of_nat k" "sint (Long_val n) = int k" "i1 + k \<le> n1" by (rule in_slice_obtain[OF sl(1)])
  obtain i2 k' where 2: "Long_val ofs2 = of_nat i2" "sint (Long_val ofs2) = int i2"
    "Long_val n = of_nat k'" "sint (Long_val n) = int k'" "i2 + k' \<le> n2" by (rule in_slice_obtain[OF sl(2)])
  have [simp]: "k' = k" using 1 2 by simp
  note r = heap_fields_range[OF h 2(5)[simplified]]
  have n: "unat a2 + 8 * n2 \<le> 2 ^ 63" "word_addr a2" using b(2) by (simp_all add: array_block_def)
  have wa: "word_addr (a2 + 8 * of_nat i2)" using word_addr_add[of a2 "8 * i2"] n 2(5) by simp
  have m: "mem_of (caml_array_blit st a1 ofs1 a2 ofs2 n) =
      memmove (mem_of st) (a2 + 8 * of_nat i2) (a1 + 8 * of_nat i1) (8 * k)"
    using 1 2 by (intro caml_array_blit_mem[OF b]) auto
  show ?thesis
  proof (cases "Is_young_v st a2")
    case True
    then have e: "caml_array_blit st a1 ofs1 a2 ofs2 n =
        wo_memmove st (field_addr a2 (of_nat i2)) (field_addr a1 (of_nat i1)) (of_nat k)"
      using h by (simp add: caml_array_blit_def heap_fields_def 1(1,3) 2(1))
    show ?thesis
      using wo_memmove_gc m unfolding memmove_def e
      by (intro young_region_ok[OF F wa _ r(2)[OF True], of "load_bytes (mem_of st) (a1 + 8 * of_nat i1) (8 * k)"]) auto
  next
    case False
    have down: "\<forall>i<k. field_addr a2 (of_nat i2 + of_nat k - 1) - 8 * of_nat i \<in> F"
    proof (intro allI impI)
      fix i assume i: "i < k"
      have "field_addr a2 (of_nat i2 + of_nat k - 1) - 8 * of_nat i = a2 + 8 * of_nat i2 + 8 * of_nat (k - 1 - i)"
        using i by (simp add: field_addr_def of_nat_diff algebra_simps)
      then show "field_addr a2 (of_nat i2 + of_nat k - 1) - 8 * of_nat i \<in> F" using r(1) i by (simp del: of_nat_diff)
    qed
    have "barrier_ok F st (copy_down caml_modify st (field_addr a2 (of_nat i2 + of_nat k - 1)) src k)" for src
      by (rule modify.copy_down_ok[OF F down])
    moreover have "barrier_ok F st (copy_up caml_modify st (field_addr a2 (of_nat i2)) src k)" for src
      using modify.copy_up_ok[OF F r(1)] by (simp add: field_addr_def)
    ultimately show ?thesis
      using h False 1(4) by (auto simp: caml_array_blit_def heap_fields_def 1(1) 1(3) 2(1) Let_def simp flip: 1(3))
  qed
qed

lemma set_ok:
  assumes F: "\<forall>x\<in>F. word_addr x" and b: "array_block (mem_of st) array n" and h: "heap_fields F st array n"
    and r: "caml_array_set st array index newval = done_run u st'"
  shows "barrier_ok F st st'"
proof (cases index rule: long_index_cases)
  case 1
  then show ?thesis
    using r h by (simp add: caml_array_set_def caml_array_set_addr_def heap_fields_def Let_def)
next
  case (2 i)
  have nz: "\<not> sint (Long_val index) < 0" using 2(1) by simp
  from r h have "i < n" and st': "st' = caml_modify st (array + 8 * of_nat i) newval"
    using bounds_check[OF b 2(2,3)] nz
    by (auto simp: caml_array_set_def caml_array_set_addr_def heap_fields_def field_addr_def 2(2) Let_def split: if_splits)
  then show ?thesis using h modify.write_ok[of "array + 8 * of_nat i" F st newval] F by (simp add: heap_fields_def)
qed

text \<open>C4: over any sequence of mutations of the heap (assignment, initialisation, the atomic
  operations, and array assignment, fill and blit), the fields of the major heap that point
  to young blocks stay listed in the table that the minor collector scans; and while the major
  collector is marking, every pointer to an old block that an old field held at the start is
  still there or was handed to the marker.\<close>

theorem mutator_keeps_collector_invariants:
  assumes "\<forall>x\<in>F. word_addr x" and "remembered F st" and "mutator F st st'"
  shows "remembered F st' \<and> snapshot F st st'"
proof -
  have "barrier_ok F st st'"
    using assms(3)
  proof (induction rule: mutator.induct)
    case start
    show ?case by simp
  next
    case (cas_field st st1 obj i oldv newv)
    then show ?case
      using barrier_then_store[OF assms(1), of obj i st1 newv]
      by (auto simp: atomic_cas_field_barrier Field_def intro: barrier_ok_trans)
  next
    case (set st st1 array n index newval u st2)
    then show ?case using set_ok[OF assms(1)] by (blast intro: barrier_ok_trans)
  next
    case (fill st st1 array n ofs len val)
    then show ?case using fill_ok[OF assms(1)] by (blast intro: barrier_ok_trans)
  next
    case (blit st st1 a1 n1 a2 n2 ofs1 k ofs2)
    then show ?case using blit_ok[OF assms(1)] by (blast intro: barrier_ok_trans)
  qed (use modify.write_ok[OF _ assms(1)] in
      \<open>auto simp: initialize_modify fetch_add_modify atomic_exchange_modify atomic_cas_modify intro: barrier_ok_trans\<close>)
  then show ?thesis using assms(2) by (simp add: barrier_ok_def)
qed

section \<open>An example\<close>

text \<open>An array of three integers in the major heap, and a young block.\<close>

definition example_arrays :: gc_st where
  "example_arrays = set_mem example_gc (layout_block (\<lambda>_. 0) 0x40000 0 [Val_int 1, Val_int 2, Val_int 3])"

abbreviation old_array :: mlvalue where "old_array \<equiv> 0x40008"

lemma example_array:
  "array_block (mem_of example_arrays) old_array 3" "Tag_val (mem_of example_arrays) old_array = 0"
  "elements (mem_of example_arrays) old_array 3 = [Val_int 1, Val_int 2, Val_int 3]"
  "wf_dom (dstate example_arrays)" "unat (young_ptr (dstate example_arrays)) = 0x10000"
  "unat (young_limit (dstate example_arrays)) = 0x8000"
proof -
  let ?vs = "[Val_int 1, Val_int 2, Val_int 3]"
  have m: "mem_of example_arrays = layout_block (\<lambda>_. 0) 0x40000 0 ?vs" by (simp add: example_arrays_def)
  have l: "Tag_val (mem_of example_arrays) old_array = 0" "Allocated_wosize_val (mem_of example_arrays) old_array = 3"
    "\<And>i. i < 3 \<Longrightarrow> Field (mem_of example_arrays) old_array i = ?vs ! i"
    using layout_block[where vs = ?vs and m = "\<lambda>_. 0" and a = "0x40000" and tag = 0] by (simp_all add: m)
  then show "array_block (mem_of example_arrays) old_array 3" "Tag_val (mem_of example_arrays) old_array = 0"
    by (simp_all add: array_block_def word_addr_def)
  show "elements (mem_of example_arrays) old_array 3 = ?vs"
    using l(3) by (simp add: elements_def upt_rec)
  show "wf_dom (dstate example_arrays)" "unat (young_ptr (dstate example_arrays)) = 0x10000"
    "unat (young_limit (dstate example_arrays)) = 0x8000"
    by (simp_all add: wf_dom_def example_arrays_def example_gc_def set_mem_def)
qed

lemma Long_val_small: "- (2 ^ 31) \<le> k \<Longrightarrow> k < 2 ^ 31 \<Longrightarrow> sint (Long_val (Val_int (word_of_int k))) = k"
  by (simp add: Val_int_def Long_val_Val_long fits_long_scast32 sint_up_scast is_up signed_take_bit_in_range)

theorem array_access_correct_witness:
  "caml_array_get example_arrays old_array (Val_int 1) = done_run (Val_int 2) example_arrays \<and>
   caml_array_get example_arrays old_array (Val_int 3) = raise Array_bound_error"
proof -
  have "sint (Long_val (Val_int 1)) = 1" "sint (Long_val (Val_int 3)) = 3"
    using Long_val_small[of 1] Long_val_small[of 3] by simp_all
  then show ?thesis
    using array_access_correct[OF example_array(1,4), of "Val_int 1"] array_access_correct[OF example_array(1,4), of "Val_int 3"]
      example_array(2,3) by (simp add: get_spec_def)
qed

theorem caml_array_blit_correct_witness:
  "elements (mem_of (caml_array_blit example_arrays old_array (Val_int 0) old_array (Val_int 1) (Val_int 2))) old_array 3 =
     [Val_int 1, Val_int 1, Val_int 2]"
proof -
  have "sint (Long_val (Val_int 0)) = 0" "sint (Long_val (Val_int 1)) = 1" "sint (Long_val (Val_int 2)) = 2"
    using Long_val_small[of 0] Long_val_small[of 1] Long_val_small[of 2] by simp_all
  then show ?thesis
    using caml_array_blit_correct[OF example_array(1,1), of "Val_int 0" "Val_int 2" "Val_int 1"] example_array(3)
    by (simp add: in_slice_def Let_def numeral_2_eq_2)
qed

theorem array_gather_correct_witness:
  "(\<exists>v st'. caml_array_sub example_arrays old_array (Val_int 1) (Val_int 2) = done_run v st' \<and>
     elements (mem_of st') v 2 = [Val_int 2, Val_int 3]) \<and>
   caml_array_gather example_arrays (replicate 32 (old_array, 0, 2 ^ 59)) False = raise (Invalid_argument ''Array.concat'')"
proof -
  have v: "Long_val (Val_int 1) = 1" "Long_val (Val_int 2) = 2"
    using Long_val_small[of 1] Long_val_small[of 2] by (simp_all add: signed_word_eqI)
  have w: "whole (mem_of example_arrays) old_array = (old_array, 0, 3)"
    using example_array(1,2) by (simp add: whole_def caml_array_length_def array_block_def)
  have ok: "slice_ok example_arrays (old_array, i, k)" if "unat i \<le> 3" "unat k \<le> 2 ^ 59" for i k
    using that example_array(5) by (simp add: slice_ok_def)
  have "extra_storage example_arrays (length []) = done_run () example_arrays" by (simp add: extra_storage_def)
  note g = array_gather_correct[OF example_array(4), of "replicate 32 (old_array, 0, 2 ^ 59)" old_array "Val_int 1" "Val_int 2"
      old_array old_array Val_emptylist "[]", OF _ _ _ _ _ _ this]
  have all: "gather_spec example_arrays (replicate 32 (old_array, 0, 2 ^ 59))
      (caml_array_gather example_arrays (replicate 32 (old_array, 0, 2 ^ 59)) False)"
    "gather_spec example_arrays [(old_array, Long_val (Val_int 1), Long_val (Val_int 2))]
      (caml_array_sub example_arrays old_array (Val_int 1) (Val_int 2))"
    using g ok example_array(5) by (simp_all add: v w)
  have "total_length (replicate 32 (old_array, 0, 2 ^ 59)) = 2 ^ 64" by (simp add: total_length_def sum_list_replicate)
  then have big: "caml_array_gather example_arrays (replicate 32 (old_array, 0, 2 ^ 59)) False =
      raise (Invalid_argument ''Array.concat'')"
    using all(1) by (simp add: gather_spec_def Max_wosize_def mask_eq_exp_minus_1 Let_def)
  have "Field (mem_of example_arrays) old_array 1 = Val_int 2" "Field (mem_of example_arrays) old_array 2 = Val_int 3"
    using nth_elements[of 1 3 "mem_of example_arrays" old_array] nth_elements[of 2 3 "mem_of example_arrays" old_array]
    unfolding example_array(3) by simp_all
  moreover have "[Suc 0..<2] = [1]" by (simp add: upt_rec)
  ultimately have "slice_elements (mem_of example_arrays) (old_array, 1, 2) = [Val_int 2, Val_int 3]"
    by (simp add: slice_elements_def)
  then show ?thesis
    using all(2) big example_array(5,6)
    by (auto simp: gather_spec_def v minor_room_def Max_wosize_def mask_eq_exp_minus_1 Let_def)
qed

theorem mutator_keeps_collector_invariants_witness:
  "old_array \<in> set (major_ref (caml_modify example_arrays old_array 0x9000))"
proof -
  let ?st = "caml_modify example_arrays old_array 0x9000"
  have "Field (mem_of example_arrays) old_array 0 = Val_int 1"
    using nth_elements[of 0 3 "mem_of example_arrays" old_array] unfolding example_array(3) by simp
  then have "remembered {old_array} example_arrays"
    by (simp add: remembered_def Field_def Is_block_and_young_def)
  moreover have "mutator {old_array} example_arrays ?st" by (intro mutator.intros) simp
  ultimately have "remembered {old_array} ?st"
    using mutator_keeps_collector_invariants[of "{old_array}" example_arrays ?st] by (simp add: word_addr_def)
  moreover have "\<not> Is_young_v ?st old_array" "Is_block_and_young ?st (load_word ?st old_array)"
    by (simp_all add: caml_modify_def Is_block_and_young_def Is_young_v_def example_arrays_def example_gc_def
        set_mem_def Is_long_iff_odd)
  ultimately show ?thesis by (simp add: remembered_def)
qed

end
