(* ===== verification/Parsing.thy ===== *)
theory Parsing
  imports Lexing Mlvalues
begin

text \<open>
  The pushdown automaton of generated parsers, \<open>runtime/parsing.c\<close>, with the driver of
  \<open>stdlib/parsing.ml\<close> that calls it.  The automaton is written with labels and jumps: here each
  label is a constructor of a datatype and has a definition of its own, which returns the
  label where the code goes next.  The fields of the environment that hold tagged integers
  are the integers; \<open>Int_val_of\<close> is what the macro \<open>Int_val\<close> makes of them, which the code uses to
  read all of them but \<open>stacksize\<close>.  The four stacks are lists.  An access outside a table or a
  stack and a sum that overflows a C \<open>int\<close> make the run \<open>None\<close>.  Tracing is left out.
\<close>

unbundle bit_operations_syntax

section \<open>C integers\<close>

text \<open>\<open>Int_val\<close> of a tagged integer: the conversion to \<open>int\<close> keeps 32 bits.\<close>

definition Int_val_of :: "int \<Rightarrow> int" where
  "Int_val_of n = signed_take_bit 31 n"

definition c_int_range :: "int \<Rightarrow> bool" where
  "c_int_range n \<longleftrightarrow> - (2 ^ 31) \<le> n \<and> n < 2 ^ 31"

lemma Int_val_of_range [simp]: "c_int_range n \<Longrightarrow> Int_val_of n = n"
  by (simp add: Int_val_of_def c_int_range_def signed_take_bit_int_eq_self)

lemma c_int_range_const [simp]: "c_int_range (- 1)" "c_int_range 0" "c_int_range 1"
  by (simp_all add: c_int_range_def)

lemma Int_val_of_const [simp]: "Int_val_of (- 1) = - 1" "Int_val_of 0 = 0" "Int_val_of 1 = 1"
  by simp_all

section \<open>Tables and environment\<close>

definition ERRCODE :: int where
  "ERRCODE = 256"

record parser_tables =
  transl_const :: "int list"
  transl_block :: "int list"
  tbl_lhs :: bytes
  tbl_len :: bytes
  tbl_defred :: bytes
  tbl_dgoto :: bytes
  tbl_sindex :: bytes
  tbl_rindex :: bytes
  tbl_gindex :: bytes
  tablesize :: int
  tbl_table :: bytes
  tbl_check :: bytes

record parser_env =
  s_stack :: "int list"
  v_stack :: "mlvalue list"
  symb_start_stack :: "mlvalue list"
  symb_end_stack :: "mlvalue list"
  stacksize :: int
  stackbase :: int
  curr_char :: int
  lval :: mlvalue
  symb_start :: mlvalue
  symb_end :: mlvalue
  env_asp :: int
  rule_len :: int
  rule_number :: int
  env_sp :: int
  env_state :: int
  env_errflag :: int

datatype parser_input = START | TOKEN_READ | STACKS_GROWN_1 | STACKS_GROWN_2 | SEMANTIC_ACTION_COMPUTED | ERROR_DETECTED

datatype parser_output =
  READ_TOKEN | RAISE_PARSE_ERROR | GROW_STACKS_1 | GROW_STACKS_2 | COMPUTE_SEMANTIC_ACTION | CALL_ERROR_FUNCTION

text \<open>The local variables of the engine.\<close>

record pda =
  p_env :: parser_env
  p_state :: int
  p_sp :: int
  p_errflag :: int

text \<open>The labels, with the local variable that is live there; \<open>Return\<close> leaves the engine.\<close>

datatype label =
    Loop
  | Testshift
  | Recover
  | Shift int
  | Shift_recover int
  | Push
  | Reduce int
  | Semantic_action
  | Return parser_output

definition SAVE :: "pda \<Rightarrow> pda" where
  "SAVE st = st\<lparr>p_env := (p_env st)\<lparr>env_sp := p_sp st, env_state := p_state st, env_errflag := p_errflag st\<rparr>\<rparr>"

definition RESTORE :: "parser_env \<Rightarrow> pda" where
  "RESTORE env =
     \<lparr>p_env = env, p_state = Int_val_of (env_state env), p_sp = Int_val_of (env_sp env),
      p_errflag = Int_val_of (env_errflag env)\<rparr>"

text \<open>Reading and writing a stack.\<close>

definition stack_get :: "'a list \<Rightarrow> int \<Rightarrow> 'a option" where
  "stack_get s i = (if 0 \<le> i \<and> i < int (length s) then Some (s ! nat i) else None)"

definition stack_set :: "'a list \<Rightarrow> int \<Rightarrow> 'a \<Rightarrow> 'a list option" where
  "stack_set s i x = (if 0 \<le> i \<and> i < int (length s) then Some (s[nat i := x]) else None)"

definition state_at :: "parser_env \<Rightarrow> int \<Rightarrow> int option" where
  "state_at env i = map_option Int_val_of (stack_get (s_stack env) i)"

text \<open>The test that the code repeats: the compressed table has an entry for \<open>col\<close> in the row that
  \<open>index\<close> gives; its position if it has.\<close>

definition table_entry :: "parser_tables \<Rightarrow> bytes \<Rightarrow> int \<Rightarrow> int \<Rightarrow> int option option" where
  "table_entry tables index row col =
     Option.bind (Short index row) (\<lambda>n1.
       let n2 = n1 + col
       in if \<not> c_int_range n2 then None
          else if n1 \<noteq> 0 \<and> n2 \<ge> 0 \<and> n2 \<le> Int_val_of (tablesize tables) then
            map_option (\<lambda>chk. if chk = col then Some n2 else None) (Short (tbl_check tables) n2)
          else Some None)"

section \<open>The labels\<close>

definition loop_lbl :: "parser_tables \<Rightarrow> pda \<Rightarrow> (label \<times> pda) option" where
  "loop_lbl tables st =
     map_option (\<lambda>n.
         if n \<noteq> 0 then (Reduce n, st)
         else if Int_val_of (curr_char (p_env st)) \<ge> 0 then (Testshift, st)
         else (Return READ_TOKEN, SAVE st))
       (Short (tbl_defred tables) (p_state st))"

definition token_read :: "mem \<Rightarrow> parser_tables \<Rightarrow> pda \<Rightarrow> mlvalue \<Rightarrow> pda option" where
  "token_read m tables st arg =
     (if Is_block arg then
        map_option (\<lambda>c. st\<lparr>p_env := (p_env st)\<lparr>curr_char := c, lval := Field m arg 0\<rparr>\<rparr>)
          (stack_get (transl_block tables) (uint (Tag_val m arg)))
      else
        map_option (\<lambda>c. st\<lparr>p_env := (p_env st)\<lparr>curr_char := c, lval := Val_long 0\<rparr>\<rparr>)
          (stack_get (transl_const tables) (sint (Int_val arg))))"

definition testshift_lbl :: "parser_tables \<Rightarrow> pda \<Rightarrow> (label \<times> pda) option" where
  "testshift_lbl tables st =
     (let c = Int_val_of (curr_char (p_env st))
      in Option.bind (table_entry tables (tbl_sindex tables) (p_state st) c) (\<lambda>shift.
         case shift of
           Some n2 \<Rightarrow> Some (Shift n2, st)
         | None \<Rightarrow>
             Option.bind (table_entry tables (tbl_rindex tables) (p_state st) c) (\<lambda>reduce.
             case reduce of
               Some n2 \<Rightarrow> map_option (\<lambda>n. (Reduce n, st)) (Short (tbl_table tables) n2)
             | None \<Rightarrow>
                 if p_errflag st > 0 then Some (Recover, st)
                 else Some (Return CALL_ERROR_FUNCTION, SAVE st))))"

text \<open>The loop of \<open>recover\<close>: the stack pointer and the table position of the first state, from
  the top down to \<open>stackbase\<close>, that can shift the error token.  The comparison with
  \<open>stackbase\<close> is unsigned.\<close>

function find_recovery :: "parser_tables \<Rightarrow> parser_env \<Rightarrow> int \<Rightarrow> (int \<times> int) option option" where
  "find_recovery tables env sp =
     (case state_at env sp of
        None \<Rightarrow> None
      | Some state1 \<Rightarrow>
          (case table_entry tables (tbl_sindex tables) state1 ERRCODE of
             None \<Rightarrow> None
           | Some (Some n2) \<Rightarrow> Some (Some (sp, n2))
           | Some None \<Rightarrow>
               if Int_val_of (stackbase env) < 0 \<or> sp \<le> Int_val_of (stackbase env) then Some None
               else find_recovery tables env (sp - 1)))"
  by pat_completeness auto

termination find_recovery
  by (relation "measure (\<lambda>(_, _, sp). nat sp)") (auto simp: state_at_def stack_get_def split: if_splits)

declare find_recovery.simps [simp del]

definition recover_lbl :: "parser_tables \<Rightarrow> pda \<Rightarrow> (label \<times> pda) option" where
  "recover_lbl tables st =
     (if p_errflag st < 3 then
        map_option (\<lambda>r. case r of
            Some (sp, n2) \<Rightarrow> (Shift_recover n2, st\<lparr>p_errflag := 3, p_sp := sp\<rparr>)
          | None \<Rightarrow> (Return RAISE_PARSE_ERROR, st\<lparr>p_errflag := 3\<rparr>))
          (find_recovery tables (p_env st) (p_sp st))
      else if Int_val_of (curr_char (p_env st)) = 0 then Some (Return RAISE_PARSE_ERROR, st)
      else Some (Loop, st\<lparr>p_env := (p_env st)\<lparr>curr_char := - 1\<rparr>\<rparr>))"

definition shift_lbl :: "pda \<Rightarrow> int \<Rightarrow> label \<times> pda" where
  "shift_lbl st n2 =
     (Shift_recover n2,
      st\<lparr>p_env := (p_env st)\<lparr>curr_char := - 1\<rparr>,
         p_errflag := (if p_errflag st > 0 then p_errflag st - 1 else p_errflag st)\<rparr>)"

text \<open>The stack pointer is unsigned.\<close>

definition fits_stack :: "parser_env \<Rightarrow> int \<Rightarrow> bool" where
  "fits_stack env sp \<longleftrightarrow> 0 \<le> sp \<and> sp < stacksize env"

definition shift_recover_lbl :: "parser_tables \<Rightarrow> pda \<Rightarrow> int \<Rightarrow> (label \<times> pda) option" where
  "shift_recover_lbl tables st n2 =
     map_option (\<lambda>state.
         let st = st\<lparr>p_state := state, p_sp := p_sp st + 1\<rparr>
         in if fits_stack (p_env st) (p_sp st) then (Push, st) else (Return GROW_STACKS_1, SAVE st))
       (Short (tbl_table tables) n2)"

definition push_lbl :: "pda \<Rightarrow> (label \<times> pda) option" where
  "push_lbl st =
     (let env = p_env st; sp = p_sp st
      in Option.bind (stack_set (s_stack env) sp (p_state st)) (\<lambda>s.
         Option.bind (stack_set (v_stack env) sp (lval env)) (\<lambda>v.
         Option.bind (stack_set (symb_start_stack env) sp (symb_start env)) (\<lambda>b.
         Option.bind (stack_set (symb_end_stack env) sp (symb_end env)) (\<lambda>e.
           Some (Loop, st\<lparr>p_env := env\<lparr>s_stack := s, v_stack := v, symb_start_stack := b, symb_end_stack := e\<rparr>\<rparr>))))))"

definition reduce_lbl :: "parser_tables \<Rightarrow> pda \<Rightarrow> int \<Rightarrow> (label \<times> pda) option" where
  "reduce_lbl tables st n =
     Option.bind (Short (tbl_len tables) n) (\<lambda>m.
       let env = (p_env st)\<lparr>env_asp := p_sp st, rule_number := n, rule_len := m\<rparr>;
           sp = p_sp st - m + 1
       in Option.bind (Short (tbl_lhs tables) n) (\<lambda>m.
          Option.bind (state_at env (sp - 1)) (\<lambda>state1.
          Option.bind (table_entry tables (tbl_gindex tables) m state1) (\<lambda>goto.
          Option.bind (case goto of
              Some n2 \<Rightarrow> Short (tbl_table tables) n2
            | None \<Rightarrow> Short (tbl_dgoto tables) m) (\<lambda>state.
            let st = st\<lparr>p_env := env, p_sp := sp, p_state := state\<rparr>
            in if fits_stack env sp then Some (Semantic_action, st) else Some (Return GROW_STACKS_2, SAVE st))))))"

definition semantic_action_lbl :: "pda \<Rightarrow> label \<times> pda" where
  "semantic_action_lbl st = (Return COMPUTE_SEMANTIC_ACTION, SAVE st)"

definition semantic_action_computed :: "pda \<Rightarrow> mlvalue \<Rightarrow> pda option" where
  "semantic_action_computed st arg =
     (let env = p_env st; sp = p_sp st; asp = Int_val_of (env_asp env)
      in Option.bind (stack_set (s_stack env) sp (p_state st)) (\<lambda>s.
         Option.bind (stack_set (v_stack env) sp arg) (\<lambda>v.
         Option.bind (stack_get (symb_end_stack env) asp) (\<lambda>e_asp.
         Option.bind (stack_set (symb_end_stack env) sp e_asp) (\<lambda>e.
         Option.bind
           (if sp > asp then
              Option.bind (stack_get e asp) (\<lambda>e_asp. stack_set (symb_start_stack env) sp e_asp)
            else Some (symb_start_stack env)) (\<lambda>b.
           Some (st\<lparr>p_env := env\<lparr>s_stack := s, v_stack := v, symb_start_stack := b, symb_end_stack := e\<rparr>\<rparr>)))))))"

section \<open>The engine\<close>

fun goto_label :: "parser_tables \<Rightarrow> label \<Rightarrow> pda \<Rightarrow> (label \<times> pda) option" where
  "goto_label tables Loop st = loop_lbl tables st"
| "goto_label tables Testshift st = testshift_lbl tables st"
| "goto_label tables Recover st = recover_lbl tables st"
| "goto_label tables (Shift n2) st = Some (shift_lbl st n2)"
| "goto_label tables (Shift_recover n2) st = shift_recover_lbl tables st n2"
| "goto_label tables Push st = push_lbl st"
| "goto_label tables (Reduce n) st = reduce_lbl tables st n"
| "goto_label tables Semantic_action st = Some (semantic_action_lbl st)"
| "goto_label tables (Return out) st = Some (Return out, st)"

text \<open>How far a run is from leaving the engine: after a shift, or once the token has been
  discarded, there is no token left to look at; recovery raises \<open>errflag\<close>, and the next
  failure discards the token.\<close>

definition phase :: "pda \<Rightarrow> nat" where
  "phase st = (if Int_val_of (curr_char (p_env st)) < 0 then 0 else if p_errflag st \<ge> 3 then 1 else 2)"

fun distance :: "label \<Rightarrow> pda \<Rightarrow> nat" where
  "distance Loop st = 10 * phase st + 3"
| "distance Testshift st = (if phase st = 0 then 30 else 10 * phase st + 2)"
| "distance Recover st = (if phase st = 1 then 11 else 21)"
| "distance (Shift n2) st = 6"
| "distance (Shift_recover n2) st = 10 * phase st + 5"
| "distance Push st = 10 * phase st + 4"
| "distance (Reduce n) st = 2"
| "distance Semantic_action st = 1"
| "distance (Return out) st = 0"

lemma phase_env [simp]:
  "phase (st\<lparr>p_state := x, p_sp := y\<rparr>) = phase st"
  "phase (SAVE st) = phase st"
  by (simp_all add: phase_def SAVE_def)

lemma distance_decreases:
  assumes "goto_label tables lbl st = Some (lbl', st')" "\<nexists>out. lbl = Return out"
  shows "distance lbl' st' < distance lbl st"
  using assms
  by (cases lbl)
    (auto simp: loop_lbl_def testshift_lbl_def recover_lbl_def shift_lbl_def shift_recover_lbl_def push_lbl_def
      reduce_lbl_def semantic_action_lbl_def phase_def Let_def split: option.splits if_splits bind_splits)

function run :: "parser_tables \<Rightarrow> label \<Rightarrow> pda \<Rightarrow> (parser_output \<times> parser_env) option" where
  "run tables lbl st =
     (case lbl of
        Return out \<Rightarrow> Some (out, p_env st)
      | _ \<Rightarrow>
          (case goto_label tables lbl st of
             None \<Rightarrow> None
           | Some (lbl', st') \<Rightarrow> run tables lbl' st'))"
  by pat_completeness auto

termination run
  by (relation "measure (\<lambda>(_, lbl, st). distance lbl st)") (use distance_decreases in \<open>fastforce+\<close>)

declare run.simps [simp del]

definition caml_parse_engine ::
  "mem \<Rightarrow> parser_tables \<Rightarrow> parser_env \<Rightarrow> parser_input \<Rightarrow> mlvalue \<Rightarrow> (parser_output \<times> parser_env) option" where
  "caml_parse_engine m tables env cmd arg =
     (case cmd of
        START \<Rightarrow> run tables Loop \<lparr>p_env = env, p_state = 0, p_sp = Int_val_of (env_sp env), p_errflag = 0\<rparr>
      | TOKEN_READ \<Rightarrow> Option.bind (token_read m tables (RESTORE env) arg) (run tables Testshift)
      | ERROR_DETECTED \<Rightarrow> run tables Recover (RESTORE env)
      | STACKS_GROWN_1 \<Rightarrow> run tables Push (RESTORE env)
      | STACKS_GROWN_2 \<Rightarrow> run tables Semantic_action (RESTORE env)
      | SEMANTIC_ACTION_COMPUTED \<Rightarrow> Option.bind (semantic_action_computed (RESTORE env) arg) (run tables Loop))"

end
