(* ===== verification/Parsing_Refine.thy ===== *)
theory Parsing_Refine
  imports Parsing
begin

text \<open>
  The engine of \<open>Parsing\<close> together with the driver of \<open>stdlib/parsing.ml\<close> against an LR
  automaton on lists: the specification has a stack of frames, a lookahead and an input, and
  one rule per move (reduce, read, shift, the moves of error recovery).  The driver calls the
  engine, reads tokens, runs semantic actions and grows the stacks; every run of it is
  simulated by the automaton, so that it accepts or rejects as the automaton does.
\<close>

section \<open>The driver\<close>

text \<open>A frame of the stack: state, semantic value, start and end positions.\<close>

type_synonym frame = "int \<times> mlvalue \<times> mlvalue \<times> mlvalue"

text \<open>A token as the lexer returns it, with its positions.\<close>

type_synonym token = "mlvalue \<times> mlvalue \<times> mlvalue"

text \<open>Semantic actions are OCaml code of the parser, here a parameter: a rule number, the length of
  its right-hand side and the frames of the stack, top first, give a value, the exception
  \<open>YYexit\<close> with a value, or the exception \<open>Parse_error\<close>.\<close>

datatype action_result = Computed mlvalue | YYexit mlvalue | Parse_error

type_synonym actions = "int \<Rightarrow> nat \<Rightarrow> frame list \<Rightarrow> action_result"

definition frame_at :: "parser_env \<Rightarrow> nat \<Rightarrow> frame" where
  "frame_at env i = (s_stack env ! i, v_stack env ! i, symb_start_stack env ! i, symb_end_stack env ! i)"

text \<open>The frames from index 0 to \<open>sp\<close>, top first.\<close>

definition frames :: "parser_env \<Rightarrow> int \<Rightarrow> frame list" where
  "frames env sp = map (frame_at env) (rev [0..<nat (sp + 1)])"

definition action_of :: "actions \<Rightarrow> parser_env \<Rightarrow> action_result" where
  "action_of act env = act (rule_number env) (nat (rule_len env)) (frames env (env_asp env))"

definition grow_stacks :: "mlvalue \<Rightarrow> parser_env \<Rightarrow> parser_env" where
  "grow_stacks dummy_pos env =
     (let oldsize = stacksize env; k = nat oldsize
      in env\<lparr>s_stack := s_stack env @ replicate k 0, v_stack := v_stack env @ replicate k Val_unit,
             symb_start_stack := symb_start_stack env @ replicate k dummy_pos,
             symb_end_stack := symb_end_stack env @ replicate k dummy_pos, stacksize := oldsize * 2\<rparr>)"

datatype driver =
    Call parser_input mlvalue parser_env "token list"
  | Accept mlvalue
  | Reject

text \<open>What the function \<open>loop\<close> of \<open>yyparse\<close> does with the answer of the engine: its next call, or the
  end of the parsing.  It has none when it needs a token at the end of the input.\<close>

fun reply :: "mlvalue \<Rightarrow> actions \<Rightarrow> parser_output \<Rightarrow> parser_env \<Rightarrow> token list \<Rightarrow> driver option" where
  "reply dummy_pos act READ_TOKEN env input =
     (case input of
        [] \<Rightarrow> None
      | (t, b, e) # input' \<Rightarrow> Some (Call TOKEN_READ t (env\<lparr>symb_start := b, symb_end := e\<rparr>) input'))"
| "reply dummy_pos act RAISE_PARSE_ERROR env input = Some Reject"
| "reply dummy_pos act COMPUTE_SEMANTIC_ACTION env input =
     (case action_of act env of
        Computed v \<Rightarrow> Some (Call SEMANTIC_ACTION_COMPUTED v env input)
      | YYexit v \<Rightarrow> Some (Accept v)
      | Parse_error \<Rightarrow> Some (Call ERROR_DETECTED Val_unit env input))"
| "reply dummy_pos act GROW_STACKS_1 env input = Some (Call STACKS_GROWN_1 Val_unit (grow_stacks dummy_pos env) input)"
| "reply dummy_pos act GROW_STACKS_2 env input = Some (Call STACKS_GROWN_2 Val_unit (grow_stacks dummy_pos env) input)"
| "reply dummy_pos act CALL_ERROR_FUNCTION env input = Some (Call ERROR_DETECTED Val_unit env input)"

fun yyparse_loop :: "mem \<Rightarrow> mlvalue \<Rightarrow> parser_tables \<Rightarrow> actions \<Rightarrow> nat \<Rightarrow> driver \<Rightarrow> driver option" where
  "yyparse_loop m dummy_pos tables act fuel (Accept v) = Some (Accept v)"
| "yyparse_loop m dummy_pos tables act fuel Reject = Some Reject"
| "yyparse_loop m dummy_pos tables act 0 (Call cmd arg env input) = None"
| "yyparse_loop m dummy_pos tables act (Suc fuel) (Call cmd arg env input) =
     (case caml_parse_engine m tables env cmd arg of
        None \<Rightarrow> None
      | Some (out, env') \<Rightarrow>
          (case reply dummy_pos act out env' input of
             None \<Rightarrow> None
           | Some d \<Rightarrow> yyparse_loop m dummy_pos tables act fuel d))"

text \<open>The start of \<open>yyparse\<close>: the start symbol is encoded as a first token.\<close>

definition yyparse_start :: "parser_env \<Rightarrow> int \<Rightarrow> mlvalue \<Rightarrow> token list \<Rightarrow> driver" where
  "yyparse_start env start curr_p input =
     Call START Val_unit (env\<lparr>stackbase := env_sp env + 1, curr_char := start, symb_end := curr_p\<rparr>) input"

section \<open>The automaton\<close>

record lr =
  lr_state :: int
  lr_stack :: "frame list"
  lr_base :: int
  lr_look :: "int option"
  lr_lval :: mlvalue
  lr_start :: mlvalue
  lr_end :: mlvalue
  lr_err :: int
  lr_input :: "token list"

datatype lr_conf = Running lr | Recovering lr | Accepted mlvalue | Rejected

text \<open>The code and the value of a token.\<close>

definition token_code :: "mem \<Rightarrow> parser_tables \<Rightarrow> mlvalue \<Rightarrow> (int \<times> mlvalue) option" where
  "token_code m tables t =
     (if Is_block t then map_option (\<lambda>c. (c, Field m t 0)) (stack_get (transl_block tables) (uint (Tag_val m t)))
      else map_option (\<lambda>c. (c, Val_long 0)) (stack_get (transl_const tables) (sint (Int_val t))))"

definition entry_value :: "parser_tables \<Rightarrow> bytes \<Rightarrow> int \<Rightarrow> int \<Rightarrow> int option" where
  "entry_value tables index row col =
     (case table_entry tables index row col of
        Some (Some n2) \<Rightarrow> Short (tbl_table tables) n2
      | _ \<Rightarrow> None)"

definition no_entry :: "parser_tables \<Rightarrow> bytes \<Rightarrow> int \<Rightarrow> int \<Rightarrow> bool" where
  "no_entry tables index row col \<longleftrightarrow> table_entry tables index row col = Some None"

text \<open>The rule to reduce by: the default of the state, or one that the lookahead selects.\<close>

definition reduction :: "parser_tables \<Rightarrow> lr \<Rightarrow> int \<Rightarrow> bool" where
  "reduction tables a n \<longleftrightarrow>
     Short (tbl_defred tables) (lr_state a) = Some n \<and> n \<noteq> 0 \<or>
     Short (tbl_defred tables) (lr_state a) = Some 0 \<and>
       (\<exists>c. lr_look a = Some c \<and> no_entry tables (tbl_sindex tables) (lr_state a) c \<and>
            entry_value tables (tbl_rindex tables) (lr_state a) c = Some n)"

definition goto_state :: "parser_tables \<Rightarrow> int \<Rightarrow> int \<Rightarrow> int option" where
  "goto_state tables s nt =
     (if no_entry tables (tbl_gindex tables) nt s then Short (tbl_dgoto tables) nt
      else entry_value tables (tbl_gindex tables) nt s)"

definition frame_state :: "frame \<Rightarrow> int" where
  "frame_state f = fst f"

text \<open>The frame that replaces the \<open>k\<close> top frames of a stack.\<close>

definition reduced_frame :: "int \<Rightarrow> mlvalue \<Rightarrow> nat \<Rightarrow> frame list \<Rightarrow> frame" where
  "reduced_frame s v k fs =
     (let end_pos = snd (snd (snd (fs ! 0)))
      in (s, v, if k = 0 then end_pos else fst (snd (snd (fs ! (k - 1)))), end_pos))"

text \<open>The frame of a token.\<close>

definition push_frame :: "int \<Rightarrow> lr \<Rightarrow> lr" where
  "push_frame s a = a\<lparr>lr_state := s, lr_stack := (s, lr_lval a, lr_start a, lr_end a) # lr_stack a\<rparr>"

definition can_recover :: "parser_tables \<Rightarrow> frame \<Rightarrow> int \<Rightarrow> bool" where
  "can_recover tables f s \<longleftrightarrow> entry_value tables (tbl_sindex tables) (frame_state f) ERRCODE = Some s"

text \<open>The frames that recovery may look at: it pops no frame at or below the base.\<close>

definition recoverable :: "lr \<Rightarrow> nat" where
  "recoverable a = Suc (nat (int (length (lr_stack a)) - 1 - lr_base a))"

inductive lr_step :: "mem \<Rightarrow> parser_tables \<Rightarrow> actions \<Rightarrow> lr_conf \<Rightarrow> lr_conf \<Rightarrow> bool"
  for m tables act where
  reduce: "reduction tables a n \<Longrightarrow> Short (tbl_len tables) n = Some (int k) \<Longrightarrow> Short (tbl_lhs tables) n = Some nt \<Longrightarrow>
    k < length (lr_stack a) \<Longrightarrow> goto_state tables (frame_state (lr_stack a ! k)) nt = Some s \<Longrightarrow>
    act n k (lr_stack a) = Computed v \<Longrightarrow>
    lr_step m tables act (Running a)
      (Running (a\<lparr>lr_state := s, lr_stack := reduced_frame s v k (lr_stack a) # drop k (lr_stack a)\<rparr>))"
| accept: "reduction tables a n \<Longrightarrow> Short (tbl_len tables) n = Some (int k) \<Longrightarrow> Short (tbl_lhs tables) n = Some nt \<Longrightarrow>
    k < length (lr_stack a) \<Longrightarrow> goto_state tables (frame_state (lr_stack a ! k)) nt = Some s \<Longrightarrow>
    act n k (lr_stack a) = YYexit v \<Longrightarrow> lr_step m tables act (Running a) (Accepted v)"
| action_fails: "reduction tables a n \<Longrightarrow> Short (tbl_len tables) n = Some (int (Suc k)) \<Longrightarrow> Short (tbl_lhs tables) n = Some nt \<Longrightarrow>
    Suc k < length (lr_stack a) \<Longrightarrow> goto_state tables (frame_state (lr_stack a ! Suc k)) nt = Some s \<Longrightarrow>
    act n (Suc k) (lr_stack a) = Parse_error \<Longrightarrow>
    lr_step m tables act (Running a) (Recovering (a\<lparr>lr_state := s, lr_stack := drop k (lr_stack a)\<rparr>))"
| read: "Short (tbl_defred tables) (lr_state a) = Some 0 \<Longrightarrow> lr_look a = None \<Longrightarrow> lr_input a = (t, b, e) # input \<Longrightarrow>
    token_code m tables t = Some (c, v) \<Longrightarrow>
    lr_step m tables act (Running a)
      (Running (a\<lparr>lr_look := Some c, lr_lval := v, lr_start := b, lr_end := e, lr_input := input\<rparr>))"
| shift: "Short (tbl_defred tables) (lr_state a) = Some 0 \<Longrightarrow> lr_look a = Some c \<Longrightarrow>
    entry_value tables (tbl_sindex tables) (lr_state a) c = Some s \<Longrightarrow>
    lr_step m tables act (Running a)
      (Running (push_frame s (a\<lparr>lr_look := None, lr_err := (if lr_err a > 0 then lr_err a - 1 else lr_err a)\<rparr>)))"
| error: "Short (tbl_defred tables) (lr_state a) = Some 0 \<Longrightarrow> lr_look a = Some c \<Longrightarrow>
    no_entry tables (tbl_sindex tables) (lr_state a) c \<Longrightarrow> no_entry tables (tbl_rindex tables) (lr_state a) c \<Longrightarrow>
    lr_step m tables act (Running a) (Recovering a)"
| recover: "lr_err a < 3 \<Longrightarrow> k < recoverable a \<Longrightarrow> k < length (lr_stack a) \<Longrightarrow> can_recover tables (lr_stack a ! k) s \<Longrightarrow>
    \<forall>j<k. no_entry tables (tbl_sindex tables) (frame_state (lr_stack a ! j)) ERRCODE \<Longrightarrow>
    lr_step m tables act (Recovering a)
      (Running (push_frame s (a\<lparr>lr_stack := drop k (lr_stack a), lr_err := 3\<rparr>)))"
| give_up: "lr_err a < 3 \<Longrightarrow>
    \<forall>j<recoverable a. j < length (lr_stack a) \<and> no_entry tables (tbl_sindex tables) (frame_state (lr_stack a ! j)) ERRCODE \<Longrightarrow>
    lr_step m tables act (Recovering a) Rejected"
| discard: "3 \<le> lr_err a \<Longrightarrow> lr_look a \<noteq> Some 0 \<Longrightarrow>
    lr_step m tables act (Recovering a) (Running (a\<lparr>lr_look := None\<rparr>))"
| end_of_input: "3 \<le> lr_err a \<Longrightarrow> lr_look a = Some 0 \<Longrightarrow> lr_step m tables act (Recovering a) Rejected"

inductive_cases lr_step_RunningE: "lr_step m tables act (Running a) c"
inductive_cases lr_step_RecoveringE: "lr_step m tables act (Recovering a) c"
inductive_cases lr_step_finalE [elim!]: "lr_step m tables act (Accepted v) c" "lr_step m tables act Rejected c"

text \<open>A configuration that is not final and has no step: a table ends too early, or the input does.\<close>

definition stuck :: "parser_tables \<Rightarrow> lr_conf \<Rightarrow> bool" where
  "stuck tables c \<longleftrightarrow> (\<forall>m act c'. \<not> lr_step m tables act c c') \<and> (\<forall>v. c \<noteq> Accepted v) \<and> c \<noteq> Rejected"

text \<open>The automaton moves, or it stays and a weight does not grow.\<close>

definition moves :: "mem \<Rightarrow> parser_tables \<Rightarrow> actions \<Rightarrow> int \<Rightarrow> int \<Rightarrow> lr_conf \<Rightarrow> lr_conf \<Rightarrow> bool" where
  "moves m tables act w w' c c' \<longleftrightarrow> (lr_step m tables act)\<^sup>+\<^sup>+ c c' \<or> c' = c \<and> w' \<le> w"

lemma moves_stay [simp, intro]: "w' \<le> w \<Longrightarrow> moves m tables act w w' c c"
  by (simp add: moves_def)

lemma moves_step [intro]: "lr_step m tables act c c' \<Longrightarrow> moves m tables act w w' c c'"
  by (auto simp: moves_def)

lemma moves_trans: "moves m tables act w w1 c c1 \<Longrightarrow> moves m tables act w1 w2 c1 c2 \<Longrightarrow> moves m tables act w w2 c c2"
  unfolding moves_def by (meson order_trans tranclp_trans)

lemma moves_steps: "moves m tables act w w' c c' \<Longrightarrow> (lr_step m tables act)\<^sup>*\<^sup>* c c'"
  unfolding moves_def by (auto simp: tranclp_into_rtranclp)

section \<open>Stacks as lists\<close>

definition wf_env :: "parser_env \<Rightarrow> bool" where
  "wf_env env \<longleftrightarrow> int (length (s_stack env)) = stacksize env \<and> length (v_stack env) = length (s_stack env) \<and>
     length (symb_start_stack env) = length (s_stack env) \<and> length (symb_end_stack env) = length (s_stack env) \<and>
     0 \<le> stackbase env \<and> c_int_range (stackbase env) \<and> c_int_range (curr_char env) \<and>
     (\<forall>s\<in>set (s_stack env). c_int_range s)"

definition wf_pda :: "pda \<Rightarrow> bool" where
  "wf_pda st \<longleftrightarrow> wf_env (p_env st) \<and> fits_stack (p_env st) (p_sp st) \<and> c_int_range (p_state st) \<and>
     0 \<le> p_errflag st \<and> p_errflag st \<le> 3"

text \<open>Integers that fit are read as they are.\<close>

lemma Int_val_of_wf [simp]:
  "wf_env env \<Longrightarrow> Int_val_of (stackbase env) = stackbase env" "wf_env env \<Longrightarrow> Int_val_of (curr_char env) = curr_char env"
  "wf_pda st \<Longrightarrow> Int_val_of (stackbase (p_env st)) = stackbase (p_env st)"
  "wf_pda st \<Longrightarrow> Int_val_of (curr_char (p_env st)) = curr_char (p_env st)"
  by (simp_all add: wf_env_def wf_pda_def)

lemma state_at_wf: "\<forall>s\<in>set (s_stack env). c_int_range s \<Longrightarrow> state_at env i = stack_get (s_stack env) i"
  by (auto simp: state_at_def stack_get_def nat_less_iff)

lemma Short_range [simp]: "Short tbl n = Some x \<Longrightarrow> c_int_range x"
proof -
  assume "Short tbl n = Some x"
  then obtain w :: "16 word" where "x = sint w" by (auto simp: Short_def split: if_splits)
  then show ?thesis using sint_greater_eq[of w] sint_less[of w] by (simp add: c_int_range_def)
qed

text \<open>The state of the engine with the fields of the environment read as they are.\<close>

definition restored :: "parser_env \<Rightarrow> pda" where
  "restored env = \<lparr>p_env = env, p_state = env_state env, p_sp = env_sp env, p_errflag = env_errflag env\<rparr>"

definition saved_range :: "parser_env \<Rightarrow> bool" where
  "saved_range env \<longleftrightarrow> c_int_range (env_state env) \<and> c_int_range (env_sp env) \<and> c_int_range (env_errflag env)"

lemma RESTORE_restored: "saved_range env \<Longrightarrow> RESTORE env = restored env"
  by (simp add: saved_range_def RESTORE_def restored_def)

lemma length_frames [simp]: "length (frames env sp) = nat (sp + 1)"
  by (simp add: frames_def)

lemma frames_nth: "int k \<le> sp \<Longrightarrow> frames env sp ! k = frame_at env (nat (sp - int k))"
proof -
  assume k: "int k \<le> sp"
  have "nat (sp + 1) - Suc k = nat (sp - int k)" using k by simp
  then show ?thesis using k by (simp add: frames_def rev_nth)
qed

lemma drop_frames: "int k \<le> sp + 1 \<Longrightarrow> drop k (frames env sp) = frames env (sp - int k)"
  by (rule nth_equalityI) (auto simp: frames_nth nat_diff_distrib' algebra_simps)

lemma frames_cong:
  assumes "\<And>i. int i \<le> sp \<Longrightarrow> frame_at env' i = frame_at env i"
  shows "frames env' sp = frames env sp"
  unfolding frames_def using assms by auto

lemma frames_Cons: "0 \<le> sp \<Longrightarrow> frames env sp = frame_at env (nat sp) # frames env (sp - 1)"
  by (rule nth_equalityI) (auto simp: frames_nth nth_Cons algebra_simps split: nat.split)

lemma stack_get_nth: "stack_get s i = Some x \<longleftrightarrow> 0 \<le> i \<and> i < int (length s) \<and> x = s ! nat i"
  by (auto simp: stack_get_def)

lemma stack_set_nth: "stack_set s i x = Some s' \<longleftrightarrow> 0 \<le> i \<and> i < int (length s) \<and> s' = s[nat i := x]"
  by (auto simp: stack_set_def)

text \<open>Writing the frame at \<open>sp\<close>.\<close>

lemma frames_update:
  assumes "0 \<le> sp" "sp < int (length s)" "length v = length s" "length b = length s" "length e = length s"
    and env: "s_stack env' = s[nat sp := x1]" "v_stack env' = v[nat sp := x2]"
      "symb_start_stack env' = b[nat sp := x3]" "symb_end_stack env' = e[nat sp := x4]"
    and old: "s_stack env = s" "v_stack env = v" "symb_start_stack env = b" "symb_end_stack env = e"
  shows "frames env' sp = (x1, x2, x3, x4) # frames env (sp - 1)"
proof -
  have "frame_at env' (nat sp) = (x1, x2, x3, x4)" using assms by (simp add: frame_at_def)
  moreover have "frames env' (sp - 1) = frames env (sp - 1)"
    using assms by (intro frames_cong) (auto simp: frame_at_def nth_list_update)
  ultimately show ?thesis using frames_Cons[OF assms(1), of env'] by simp
qed

section \<open>The simulation\<close>

definition abs_lr :: "pda \<Rightarrow> token list \<Rightarrow> lr" where
  "abs_lr st input =
     (let env = p_env st in
      \<lparr>lr_state = p_state st, lr_stack = frames env (p_sp st), lr_base = stackbase env,
       lr_look = (if curr_char env < 0 then None else Some (curr_char env)),
       lr_lval = lval env, lr_start = symb_start env, lr_end = symb_end env, lr_err = p_errflag st, lr_input = input\<rparr>)"

lemma abs_lr_select [simp]:
  "lr_state (abs_lr st input) = p_state st" "lr_stack (abs_lr st input) = frames (p_env st) (p_sp st)"
  "lr_base (abs_lr st input) = stackbase (p_env st)" "lr_err (abs_lr st input) = p_errflag st"
  "lr_look (abs_lr st input) = (if curr_char (p_env st) < 0 then None else Some (curr_char (p_env st)))"
  "lr_lval (abs_lr st input) = lval (p_env st)" "lr_start (abs_lr st input) = symb_start (p_env st)"
  "lr_end (abs_lr st input) = symb_end (p_env st)" "lr_input (abs_lr st input) = input"
  by (simp_all add: abs_lr_def Let_def)

lemma restored_SAVE [simp]: "restored (p_env (SAVE st)) =
    st\<lparr>p_env := (p_env st)\<lparr>env_sp := p_sp st, env_state := p_state st, env_errflag := p_errflag st\<rparr>\<rparr>"
  by (simp add: restored_def SAVE_def)

lemma frames_saved [simp]:
  "frames (env\<lparr>env_sp := a, env_state := b, env_errflag := c\<rparr>) sp = frames env sp"
  "frames (env\<lparr>env_asp := a, rule_number := b, rule_len := c\<rparr>) sp = frames env sp"
  "frames (env\<lparr>curr_char := c1\<rparr>) sp = frames env sp"
  "frames (env\<lparr>curr_char := c1, lval := c2\<rparr>) sp = frames env sp"
  "frames (env\<lparr>symb_start := p1, symb_end := p2\<rparr>) sp = frames env sp"
  by (simp_all add: frames_def frame_at_def cong: map_cong)

lemma wf_saved [simp]:
  "wf_env (env\<lparr>env_sp := a, env_state := b, env_errflag := c\<rparr>) = wf_env env"
  "wf_env (env\<lparr>env_asp := a, rule_number := b, rule_len := c\<rparr>) = wf_env env"
  "wf_env env \<Longrightarrow> wf_env (env\<lparr>curr_char := c1\<rparr>) = c_int_range c1"
  "wf_env env \<Longrightarrow> wf_env (env\<lparr>curr_char := c1, lval := c2\<rparr>) = c_int_range c1"
  "wf_env (env\<lparr>symb_start := p1, symb_end := p2\<rparr>) = wf_env env"
  by (simp_all add: wf_env_def)

text \<open>A reduction in progress: \<open>asp\<close> is the top before it, \<open>p_sp\<close> the place of the new frame.\<close>

definition reducing :: "parser_tables \<Rightarrow> pda \<Rightarrow> token list \<Rightarrow> lr_conf \<Rightarrow> bool" where
  "reducing tables st input c \<longleftrightarrow>
     (let env = p_env st; asp = env_asp env in
      wf_env env \<and> c_int_range (p_state st) \<and> 0 \<le> p_errflag st \<and> p_errflag st \<le> 3 \<and> fits_stack env asp \<and> 1 \<le> p_sp st \<and> 0 \<le> rule_len env \<and> p_sp st = asp - rule_len env + 1 \<and>
      Short (tbl_len tables) (rule_number env) = Some (rule_len env) \<and>
      (\<exists>nt s0. Short (tbl_lhs tables) (rule_number env) = Some nt \<and>
         goto_state tables (s_stack env ! nat (p_sp st - 1)) nt = Some (p_state st) \<and>
         c = Running (abs_lr (st\<lparr>p_state := s0, p_sp := asp\<rparr>) input) \<and>
         reduction tables (abs_lr (st\<lparr>p_state := s0, p_sp := asp\<rparr>) input) (rule_number env)))"

fun sim_out :: "parser_tables \<Rightarrow> parser_output \<Rightarrow> parser_env \<Rightarrow> token list \<Rightarrow> lr_conf \<Rightarrow> bool" where
  "sim_out tables READ_TOKEN env input c \<longleftrightarrow>
     wf_pda (restored env) \<and> curr_char env < 0 \<and> Short (tbl_defred tables) (env_state env) = Some 0 \<and>
     c = Running (abs_lr (restored env) input)"
| "sim_out tables RAISE_PARSE_ERROR env input c \<longleftrightarrow> c = Rejected"
| "sim_out tables CALL_ERROR_FUNCTION env input c \<longleftrightarrow>
     wf_pda (restored env) \<and> c = Recovering (abs_lr (restored env) input)"
| "sim_out tables GROW_STACKS_1 env input c \<longleftrightarrow>
     wf_env env \<and> c_int_range (env_state env) \<and> 0 \<le> env_errflag env \<and> env_errflag env \<le> 3 \<and>
     fits_stack env (env_sp env - 1) \<and>
     c = Running (push_frame (env_state env) (abs_lr (restored env\<lparr>p_sp := env_sp env - 1\<rparr>) input))"
| "sim_out tables GROW_STACKS_2 env input c \<longleftrightarrow> reducing tables (restored env) input c"
| "sim_out tables COMPUTE_SEMANTIC_ACTION env input c \<longleftrightarrow>
     reducing tables (restored env) input c \<and> fits_stack env (env_sp env)"

fun sim :: "parser_tables \<Rightarrow> label \<Rightarrow> pda \<Rightarrow> token list \<Rightarrow> lr_conf \<Rightarrow> bool" where
  "sim tables Loop st input c \<longleftrightarrow> wf_pda st \<and> c = Running (abs_lr st input)"
| "sim tables Testshift st input c \<longleftrightarrow>
     wf_pda st \<and> c = Running (abs_lr st input) \<and> 0 \<le> curr_char (p_env st) \<and>
     Short (tbl_defred tables) (p_state st) = Some 0"
| "sim tables Recover st input c \<longleftrightarrow> wf_pda st \<and> c = Recovering (abs_lr st input)"
| "sim tables (Shift n2) st input c \<longleftrightarrow>
     wf_pda st \<and> c = Running (abs_lr st input) \<and> 0 \<le> curr_char (p_env st) \<and>
     Short (tbl_defred tables) (p_state st) = Some 0 \<and>
     table_entry tables (tbl_sindex tables) (p_state st) (curr_char (p_env st)) = Some (Some n2)"
| "sim tables (Shift_recover n2) st input c \<longleftrightarrow>
     wf_pda st \<and> (case Short (tbl_table tables) n2 of
         Some s \<Rightarrow> c = Running (push_frame s (abs_lr st input))
       | None \<Rightarrow> stuck tables c)"
| "sim tables Push st input c \<longleftrightarrow>
     wf_pda st \<and> 1 \<le> p_sp st \<and>
     c = Running (push_frame (p_state st) (abs_lr (st\<lparr>p_sp := p_sp st - 1\<rparr>) input))"
| "sim tables (Reduce n) st input c \<longleftrightarrow>
     wf_pda st \<and> c = Running (abs_lr st input) \<and> reduction tables (abs_lr st input) n"
| "sim tables Semantic_action st input c \<longleftrightarrow> reducing tables st input c \<and> fits_stack (p_env st) (p_sp st)"
| "sim tables (Return out) st input c \<longleftrightarrow> sim_out tables out (p_env st) input c"

text \<open>How many calls of the engine may follow before the automaton moves: at a negative weight it moves
  now.\<close>

fun out_weight :: "parser_output \<Rightarrow> int" where
  "out_weight GROW_STACKS_1 = 2"
| "out_weight GROW_STACKS_2 = 1"
| "out_weight _ = 0"

fun weight :: "parser_tables \<Rightarrow> label \<Rightarrow> int" where
  "weight tables Recover = - 1"
| "weight tables (Shift n2) = - 1"
| "weight tables (Shift_recover n2) = (if Short (tbl_table tables) n2 = None then - 1 else 2)"
| "weight tables Semantic_action = 0"
| "weight tables (Return out) = out_weight out"
| "weight tables _ = 1"

lemma abs_lr_saved [simp]:
  "abs_lr (st\<lparr>p_env := (p_env st)\<lparr>env_sp := a, env_state := b, env_errflag := c\<rparr>\<rparr>) input = abs_lr st input"
  "abs_lr (st\<lparr>p_env := (p_env st)\<lparr>env_asp := a, rule_number := b, rule_len := c\<rparr>\<rparr>) input = abs_lr st input"
  by (simp_all add: abs_lr_def Let_def)

lemma frame_state_frames: "int k \<le> sp \<Longrightarrow> frame_state (frames env sp ! k) = s_stack env ! nat (sp - int k)"
  by (simp add: frames_nth frame_at_def frame_state_def)

lemma wf_env_states: "wf_env env \<Longrightarrow> state_at env i = stack_get (s_stack env) i"
  by (rule state_at_wf) (simp add: wf_env_def)

lemma find_recovery_wf:
  "wf_env env \<Longrightarrow> find_recovery tables env sp =
     (case stack_get (s_stack env) sp of
        None \<Rightarrow> None
      | Some state1 \<Rightarrow>
          (case table_entry tables (tbl_sindex tables) state1 ERRCODE of
             None \<Rightarrow> None
           | Some (Some n2) \<Rightarrow> Some (Some (sp, n2))
           | Some None \<Rightarrow> if sp \<le> stackbase env then Some None else find_recovery tables env (sp - 1)))"
  by (subst find_recovery.simps) (simp add: wf_env_states wf_env_def cong: option.case_cong)

text \<open>What the search for a recovery state returns.\<close>

lemma find_recovery_spec:
  assumes "find_recovery tables env sp = Some r" "wf_env env"
  shows "case r of
      Some (sp', n2) \<Rightarrow> \<exists>k. sp' = sp - int k \<and> int k \<le> sp \<and> sp < int (length (s_stack env)) \<and> k < Suc (nat (sp - stackbase env)) \<and>
        table_entry tables (tbl_sindex tables) (s_stack env ! nat sp') ERRCODE = Some (Some n2) \<and>
        (\<forall>j<k. no_entry tables (tbl_sindex tables) (s_stack env ! nat (sp - int j)) ERRCODE)
    | None \<Rightarrow> \<forall>j<Suc (nat (sp - stackbase env)). int j \<le> sp \<and>
        no_entry tables (tbl_sindex tables) (s_stack env ! nat (sp - int j)) ERRCODE"
  using assms
proof (induction tables env sp rule: find_recovery.induct)
  case (1 tables env sp)
  have base: "0 \<le> stackbase env" using "1.prems"(2) by (simp add: wf_env_def)
  obtain state1 where s1: "stack_get (s_stack env) sp = Some state1"
    using 1(2) by (subst (asm) find_recovery_wf[OF 1(3)]) (auto split: option.splits)
  then have at: "state_at env sp = Some state1" using 1(3) by (simp add: wf_env_states)
  from s1 have sp: "0 \<le> sp" "sp < int (length (s_stack env))" "state1 = s_stack env ! nat sp" by (auto simp: stack_get_nth)
  obtain e where e: "table_entry tables (tbl_sindex tables) state1 ERRCODE = Some e"
    using 1(2) s1 by (subst (asm) find_recovery_wf[OF 1(3)]) (auto split: option.splits)
  show ?case
  proof (cases e)
    case (Some n2)
    then have "r = Some (sp, n2)" using 1(2) s1 e by (subst (asm) find_recovery_wf[OF 1(3)]) simp
    then show ?thesis using sp e Some by (auto intro!: exI[of _ 0])
  next
    case None
    then have no: "no_entry tables (tbl_sindex tables) (s_stack env ! nat sp) ERRCODE"
      using e sp by (simp add: no_entry_def)
    show ?thesis
    proof (cases "sp \<le> stackbase env")
      case True
      then have "r = None" using 1(2) s1 e None by (subst (asm) find_recovery_wf[OF 1(3)]) simp
      then show ?thesis using True no sp by (auto simp: less_Suc_eq)
    next
      case False
      then have rec: "find_recovery tables env (sp - 1) = Some r"
        using 1(2) s1 e None "1.prems"(2) by (subst (asm) find_recovery_wf[OF 1(3)]) simp
      note IH = "1.IH"[OF at e None _ rec "1.prems"(2)]
      have sub: "sp - 1 - int j = sp - int (Suc j)" for j by simp
      have nz: "nat (sp - stackbase env) = Suc (nat (sp - 1 - stackbase env))" using False by simp
      show ?thesis
      proof (cases r)
        case None
        then show ?thesis
          using IH no False base "1.prems"(2) sp unfolding nz by (auto simp: sub less_Suc_eq_0_disj)
      next
        case (Some x)
        then obtain sp' n2 where x: "r = Some (sp', n2)" by (cases x) auto
        then obtain k where k: "sp' = sp - 1 - int k" "int k \<le> sp - 1" "k < Suc (nat (sp - 1 - stackbase env))"
          "table_entry tables (tbl_sindex tables) (s_stack env ! nat sp') ERRCODE = Some (Some n2)"
          "\<forall>j<k. no_entry tables (tbl_sindex tables) (s_stack env ! nat (sp - 1 - int j)) ERRCODE"
          using IH False base "1.prems"(2) by auto
        have "\<forall>j<Suc k. no_entry tables (tbl_sindex tables) (s_stack env ! nat (sp - int j)) ERRCODE"
          using no k(5) by (auto simp: sub less_Suc_eq_0_disj)
        then show ?thesis using k x sp nz by (auto intro!: exI[of _ "Suc k"])
      qed
    qed
  qed
qed

text \<open>A frame that stops the search without an answer.\<close>

lemma recovery_stuck:
  assumes "lr_err a < 3" "k < recoverable a" "\<And>s. \<not> can_recover tables (lr_stack a ! k) s"
    "\<not> (k < length (lr_stack a) \<and> no_entry tables (tbl_sindex tables) (frame_state (lr_stack a ! k)) ERRCODE)"
    "\<forall>j<k. no_entry tables (tbl_sindex tables) (frame_state (lr_stack a ! j)) ERRCODE"
  shows "stuck tables (Recovering a)"
proof -
  have "\<not> lr_step m tables act (Recovering a) c" for m act c
  proof
    assume "lr_step m tables act (Recovering a) c"
    then show False
    proof cases
      case (recover k' s)
      consider "k' < k" | "k' = k" | "k < k'" by linarith
      then show False
        using recover assms by cases (auto simp: can_recover_def no_entry_def entry_value_def split: option.splits)
    qed (use assms in auto)
  qed
  then show ?thesis by (simp add: stuck_def)
qed

lemma recoverable_abs: "0 \<le> p_sp st \<Longrightarrow> recoverable (abs_lr st input) = Suc (nat (p_sp st - stackbase (p_env st)))"
  by (simp add: recoverable_def)

lemma sim_loop:
  assumes "sim tables Loop st input c" "loop_lbl tables st = Some (lbl, st')"
  shows "sim tables lbl st' input c"
  using assms by (auto simp: loop_lbl_def reduction_def wf_pda_def fits_stack_def SAVE_def restored_def split: if_splits)

lemma sim_testshift:
  assumes "sim tables Testshift st input c" "testshift_lbl tables st = Some (lbl, st')"
  shows "\<exists>c'. moves m tables act (weight tables Testshift) (weight tables lbl) c c' \<and> sim tables lbl st' input c'"
proof -
  let ?c = "curr_char (p_env st)"
  have wf: "wf_pda st" and c: "c = Running (abs_lr st input)" and cc: "0 \<le> ?c" and d: "Short (tbl_defred tables) (p_state st) = Some 0"
    using assms(1) by simp_all
  have iv [simp]: "Int_val_of ?c = ?c" using wf by simp
  obtain sh where sh: "table_entry tables (tbl_sindex tables) (p_state st) ?c = Some sh"
    using assms(2) by (auto simp: testshift_lbl_def Let_def split: bind_splits)
  show ?thesis
  proof (cases sh)
    case (Some n2)
    then show ?thesis using assms(2) sh wf c cc d by (auto simp: testshift_lbl_def Let_def)
  next
    case None
    then have no: "no_entry tables (tbl_sindex tables) (p_state st) ?c" using sh by (simp add: no_entry_def)
    obtain re where re: "table_entry tables (tbl_rindex tables) (p_state st) ?c = Some re"
      using assms(2) sh None by (auto simp: testshift_lbl_def Let_def split: bind_splits)
    show ?thesis
    proof (cases re)
      case (Some n2)
      then obtain n where n: "Short (tbl_table tables) n2 = Some n" "lbl = Reduce n" "st' = st"
        using assms(2) sh \<open>sh = None\<close> re by (auto simp: testshift_lbl_def Let_def)
      then have "reduction tables (abs_lr st input) n"
        using no cc d re Some by (simp add: reduction_def entry_value_def)
      then show ?thesis using n wf c by (intro exI[of _ c]) auto
    next
      case None
      then have "no_entry tables (tbl_rindex tables) (p_state st) ?c" using re by (simp add: no_entry_def)
      then have "lr_step m tables act c (Recovering (abs_lr st input))"
        unfolding c using no cc d by (intro lr_step.error) auto
      moreover have "sim tables lbl st' input (Recovering (abs_lr st input))"
        using assms(2) sh \<open>sh = None\<close> re None wf
        by (auto simp: testshift_lbl_def Let_def wf_pda_def fits_stack_def SAVE_def restored_def split: if_splits)
      ultimately show ?thesis by blast
    qed
  qed
qed

lemma abs_lr_pop:
  assumes "int k \<le> p_sp st + 1"
  shows "abs_lr (st\<lparr>p_errflag := e, p_sp := p_sp st - int k\<rparr>) input =
    (abs_lr st input)\<lparr>lr_stack := drop k (lr_stack (abs_lr st input)), lr_err := e\<rparr>"
  using drop_frames[OF assms, of "p_env st"] by (simp add: abs_lr_def Let_def)

lemma sim_recover:
  assumes s: "sim tables Recover st input c" and r: "recover_lbl tables st = Some (lbl, st')"
  shows "\<exists>c'. moves m tables act (weight tables Recover) (weight tables lbl) c c' \<and> sim tables lbl st' input c'"
proof (cases "p_errflag st < 3")
  case True
  have wf: "wf_pda st" and c: "c = Recovering (abs_lr st input)" using s by simp_all
  have base: "wf_env (p_env st)" and sp: "0 \<le> p_sp st" using wf by (auto simp: wf_pda_def fits_stack_def)
  obtain x where x: "find_recovery tables (p_env st) (p_sp st) = Some x" using True r by (auto simp: recover_lbl_def)
  note spec = find_recovery_spec[OF x base]
  show ?thesis
  proof (cases x)
    case None
    then have lbl: "lbl = Return RAISE_PARSE_ERROR" using True r x by (simp add: recover_lbl_def)
    have "lr_step m tables act c Rejected"
      unfolding c
    proof (rule lr_step.give_up)
      show "\<forall>j<recoverable (abs_lr st input). j < length (lr_stack (abs_lr st input)) \<and>
          no_entry tables (tbl_sindex tables) (frame_state (lr_stack (abs_lr st input) ! j)) ERRCODE"
        using spec None sp by (auto simp: recoverable_abs frame_state_frames)
    qed (use True in simp)
    then show ?thesis using lbl by auto
  next
    case (Some y)
    then obtain sp' n2 where y: "x = Some (sp', n2)" by (cases y) auto
    then obtain k where k: "sp' = p_sp st - int k" "int k \<le> p_sp st" "k < Suc (nat (p_sp st - stackbase (p_env st)))"
      "table_entry tables (tbl_sindex tables) (s_stack (p_env st) ! nat sp') ERRCODE = Some (Some n2)"
      "\<forall>j<k. no_entry tables (tbl_sindex tables) (s_stack (p_env st) ! nat (p_sp st - int j)) ERRCODE"
      using spec by auto
    have lbl: "lbl = Shift_recover n2" "st' = st\<lparr>p_errflag := 3, p_sp := p_sp st - int k\<rparr>"
      using True r x y k(1) by (simp_all add: recover_lbl_def)
    have wf': "wf_pda st'" using wf k(2) by (auto simp: lbl wf_pda_def fits_stack_def)
    show ?thesis
    proof (cases "Short (tbl_table tables) n2")
      case None
      have "stuck tables c"
        using k None sp True unfolding c
        by (intro recovery_stuck[where k = k]) (auto simp: frame_state_frames recoverable_abs can_recover_def entry_value_def no_entry_def)
      then show ?thesis using None lbl(1) wf' by auto
    next
      case (Some s1)
      have "lr_step m tables act c
          (Running (push_frame s1 ((abs_lr st input)\<lparr>lr_stack := drop k (lr_stack (abs_lr st input)), lr_err := 3\<rparr>)))"
        unfolding c
      proof (rule lr_step.recover)
        show "can_recover tables (lr_stack (abs_lr st input) ! k) s1"
          using k Some by (simp add: can_recover_def entry_value_def frame_state_frames)
        show "\<forall>j<k. no_entry tables (tbl_sindex tables) (frame_state (lr_stack (abs_lr st input) ! j)) ERRCODE"
          using k by (simp add: frame_state_frames)
      qed (use True k sp in \<open>auto simp: recoverable_abs\<close>)
      moreover have "sim tables lbl st' input
          (Running (push_frame s1 ((abs_lr st input)\<lparr>lr_stack := drop k (lr_stack (abs_lr st input)), lr_err := 3\<rparr>)))"
        using wf' Some lbl abs_lr_pop[of k st 3 input] k(2) by simp
      ultimately show ?thesis by blast
    qed
  qed
next
  case False
  have wf: "wf_pda st" and c: "c = Recovering (abs_lr st input)" using s by simp_all
  have iv [simp]: "Int_val_of (curr_char (p_env st)) = curr_char (p_env st)" using wf by simp
  show ?thesis
  proof (cases "curr_char (p_env st) = 0")
    case True
    then have "lr_step m tables act c Rejected" unfolding c using False by (intro lr_step.end_of_input) auto
    moreover have "sim tables lbl st' input Rejected" using True False r by (auto simp: recover_lbl_def)
    ultimately show ?thesis by blast
  next
    case nz: False
    then have "lr_step m tables act c (Running ((abs_lr st input)\<lparr>lr_look := None\<rparr>))"
      unfolding c using False by (intro lr_step.discard) auto
    moreover have "sim tables lbl st' input (Running ((abs_lr st input)\<lparr>lr_look := None\<rparr>))"
      using nz False r wf by (auto simp: recover_lbl_def wf_pda_def fits_stack_def abs_lr_def Let_def)
    ultimately show ?thesis by blast
  qed
qed

lemma sim_shift:
  assumes s: "sim tables (Shift n2) st input c" and r: "shift_lbl st n2 = (lbl, st')"
  shows "\<exists>c'. moves m tables act (weight tables (Shift n2)) (weight tables lbl) c c' \<and> sim tables lbl st' input c'"
proof (cases "Short (tbl_table tables) n2")
  case None
  have "stuck tables c"
    using s None by (auto simp: stuck_def reduction_def no_entry_def entry_value_def elim!: lr_step_RunningE)
  then show ?thesis using None s r by (intro exI[of _ c]) (auto simp: shift_lbl_def wf_pda_def fits_stack_def)
next
  case (Some s1)
  let ?a = "(abs_lr st input)\<lparr>lr_look := None, lr_err := (if p_errflag st > 0 then p_errflag st - 1 else p_errflag st)\<rparr>"
  have c: "c = Running (abs_lr st input)" using s by simp
  have "lr_step m tables act c (Running (push_frame s1 ?a))"
    unfolding c
  proof (rule lr_step.shift[of tables "abs_lr st input" "curr_char (p_env st)" s1 m act, unfolded abs_lr_select(4)])
  qed (use s Some in \<open>simp_all add: entry_value_def\<close>)
  moreover have "abs_lr st' input = ?a" using r by (auto simp: shift_lbl_def abs_lr_def Let_def)
  moreover have "wf_pda st'" "lbl = Shift_recover n2" using r s by (auto simp: shift_lbl_def wf_pda_def fits_stack_def)
  then have "sim tables lbl st' input (Running (push_frame s1 (abs_lr st' input)))" using Some by simp
  ultimately show ?thesis by auto
qed

lemma sim_shift_recover:
  assumes "sim tables (Shift_recover n2) st input c" "shift_recover_lbl tables st n2 = Some (lbl, st')"
  shows "sim tables lbl st' input c"
  using assms
  by (auto simp: shift_recover_lbl_def wf_pda_def fits_stack_def SAVE_def restored_def Let_def abs_lr_def push_frame_def
      split: if_splits)

lemma sim_push:
  assumes s: "sim tables Push st input c" and r: "push_lbl st = Some (lbl, st')"
  shows "sim tables lbl st' input c"
proof -
  let ?env = "p_env st" and ?sp = "p_sp st"
  obtain ss v b e where set: "stack_set (s_stack ?env) ?sp (p_state st) = Some ss" "stack_set (v_stack ?env) ?sp (lval ?env) = Some v"
    "stack_set (symb_start_stack ?env) ?sp (symb_start ?env) = Some b" "stack_set (symb_end_stack ?env) ?sp (symb_end ?env) = Some e"
    and st': "lbl = Loop" "st' = st\<lparr>p_env := ?env\<lparr>s_stack := ss, v_stack := v, symb_start_stack := b, symb_end_stack := e\<rparr>\<rparr>"
    using r by (auto simp: push_lbl_def Let_def split: bind_splits)
  have wf: "wf_env ?env" "fits_stack ?env ?sp" "1 \<le> ?sp" using s by (simp_all add: wf_pda_def)
  have "frames (p_env st') ?sp = (p_state st, lval ?env, symb_start ?env, symb_end ?env) # frames ?env (?sp - 1)"
    using set wf unfolding st' by (intro frames_update) (auto simp: stack_set_nth wf_env_def)
  then have "abs_lr st' input = push_frame (p_state st) (abs_lr (st\<lparr>p_sp := ?sp - 1\<rparr>) input)"
    by (simp add: st' abs_lr_def push_frame_def Let_def)
  moreover have "wf_pda st'"
  proof -
    have "set ss \<subseteq> insert (p_state st) (set (s_stack ?env))"
      using set(1) by (auto simp: stack_set_nth dest: subsetD[OF set_update_subset_insert])
    then show ?thesis using set wf s by (auto simp: st' wf_pda_def wf_env_def fits_stack_def stack_set_nth)
  qed
  ultimately show ?thesis using s st' by simp
qed

lemma reducing_saved [simp]:
  "reducing tables (st\<lparr>p_env := (p_env st)\<lparr>env_sp := a, env_state := b, env_errflag := c\<rparr>\<rparr>) input x = reducing tables st input x"
  by (simp add: reducing_def abs_lr_def Let_def fits_stack_def)

definition lengths_ok :: "parser_tables \<Rightarrow> bool" where
  "lengths_ok tables \<longleftrightarrow> (\<forall>n k. Short (tbl_len tables) n = Some k \<longrightarrow> 0 \<le> k)"

lemma reducing_SAVE: "reducing tables (restored (p_env (SAVE st))) input x = reducing tables st input x"
  by simp

lemma sim_reduce:
  assumes s: "sim tables (Reduce n) st input c" and r: "reduce_lbl tables st n = Some (lbl, st')"
    and len: "lengths_ok tables"
  shows "sim tables lbl st' input c"
proof -
  let ?env = "p_env st" and ?sp = "p_sp st"
  have at: "state_at (?env\<lparr>env_asp := i1, rule_number := i2, rule_len := i3\<rparr>) i = stack_get (s_stack ?env) i" for i i1 i2 i3
    using s by (subst wf_env_states) (simp_all add: wf_pda_def)
  obtain k nt s1 g s2 where k: "Short (tbl_len tables) n = Some k" "Short (tbl_lhs tables) n = Some nt"
      "stack_get (s_stack ?env) (?sp - k) = Some s1" "table_entry tables (tbl_gindex tables) nt s1 = Some g"
      "(case g of Some n2 \<Rightarrow> Short (tbl_table tables) n2 | None \<Rightarrow> Short (tbl_dgoto tables) nt) = Some s2"
    using r by (auto simp: reduce_lbl_def Let_def at split: bind_splits)
  have s2: "c_int_range s2" using k(5) by (auto split: option.splits)
  let ?st = "st\<lparr>p_env := ?env\<lparr>env_asp := ?sp, rule_number := n, rule_len := k\<rparr>, p_sp := ?sp - k + 1, p_state := s2\<rparr>"
  have out: "(lbl, st') = (if fits_stack ?env (?sp - k + 1) then (Semantic_action, ?st) else (Return GROW_STACKS_2, SAVE ?st))"
    using r k by (auto simp: reduce_lbl_def Let_def fits_stack_def at split: if_splits)
  have "goto_state tables s1 nt = Some s2"
    using k(4,5) by (cases g) (auto simp: goto_state_def no_entry_def entry_value_def)
  moreover have "?sp - k + 1 - 1 = ?sp - k" by simp
  ultimately have "reducing tables ?st input c"
    using s k(1-3) s2 len unfolding reducing_def Let_def
    by (auto simp: wf_pda_def fits_stack_def stack_get_nth lengths_ok_def intro!: exI[of _ "p_state st"])
  then show ?thesis using out by (auto simp: fits_stack_def reducing_SAVE simp del: restored_SAVE split: if_splits)
qed

lemma sim_semantic_action:
  assumes "sim tables Semantic_action st input c" "semantic_action_lbl st = (lbl, st')"
  shows "sim tables lbl st' input c"
  using assms
  by (auto simp: semantic_action_lbl_def fits_stack_def reducing_SAVE simp del: restored_SAVE) (simp_all add: SAVE_def)

text \<open>One jump of the engine, and a whole run of it.\<close>

lemma goto_label_sim:
  assumes s: "sim tables lbl st input c" and g: "goto_label tables lbl st = Some (lbl', st')" and len: "lengths_ok tables"
  shows "\<exists>c'. moves m tables act (weight tables lbl) (weight tables lbl') c c' \<and> sim tables lbl' st' input c'"
proof -
  have stay: "weight tables lbl' \<le> weight tables lbl \<Longrightarrow> sim tables lbl' st' input c \<Longrightarrow> ?thesis" by blast
  show ?thesis
  proof (cases lbl)
    case Loop
    then have "weight tables lbl' \<le> 1" using g by (auto simp: loop_lbl_def split: if_splits)
    then show ?thesis using s g sim_loop Loop by (intro stay) (auto simp del: sim.simps)
  next
    case Testshift then show ?thesis using s g by (auto intro: sim_testshift simp del: sim.simps weight.simps)
  next
    case Recover then show ?thesis using s g by (auto intro: sim_recover simp del: sim.simps weight.simps)
  next
    case (Shift n2) then show ?thesis using s g by (auto intro: sim_shift simp del: sim.simps weight.simps)
  next
    case (Shift_recover n2)
    then have "weight tables lbl' \<le> weight tables lbl" using g by (auto simp: shift_recover_lbl_def Let_def split: if_splits)
    then show ?thesis using s g sim_shift_recover Shift_recover by (intro stay) (auto simp del: sim.simps)
  next
    case Push
    then have "weight tables lbl' \<le> 1" using g by (auto simp: push_lbl_def Let_def split: bind_splits)
    then show ?thesis using s g sim_push Push by (intro stay) (auto simp del: sim.simps)
  next
    case (Reduce n)
    then have "weight tables lbl' \<le> 1" using g by (auto simp: reduce_lbl_def Let_def split: bind_splits if_splits)
    then show ?thesis using s g sim_reduce[OF _ _ len] Reduce by (intro stay) (auto simp del: sim.simps)
  next
    case Semantic_action
    then have "weight tables lbl' \<le> 0" using g by (auto simp: semantic_action_lbl_def)
    then show ?thesis using s g sim_semantic_action Semantic_action by (intro stay) (auto simp del: sim.simps)
  next
    case (Return out) then show ?thesis using s g by (intro stay) (auto simp del: sim.simps)
  qed
qed

lemma run_unfold:
  assumes "run tables lbl st = Some (out, env)" "\<nexists>o'. lbl = Return o'"
  obtains lbl' st' where "goto_label tables lbl st = Some (lbl', st')" "run tables lbl' st' = Some (out, env)"
  using assms(1) unfolding run.simps[of tables lbl st]
  using assms(2) by (auto simp del: goto_label.simps split: label.splits option.splits)

lemma run_sim:
  assumes "sim tables lbl st input c" "run tables lbl st = Some (out, env)"
    and len: "lengths_ok tables"
  shows "\<exists>c'. moves m tables act (weight tables lbl) (out_weight out) c c' \<and> sim_out tables out env input c'"
  using assms
proof (induction "distance lbl st" arbitrary: lbl st c rule: less_induct)
  case less
  show ?case
  proof (cases "\<exists>o'. lbl = Return o'")
    case True
    then show ?thesis using less.prems(1,2) by (intro exI[of _ c]) (auto simp: run.simps[of _ "Return _"])
  next
    case False
    then obtain lbl' st' where g: "goto_label tables lbl st = Some (lbl', st')" "run tables lbl' st' = Some (out, env)"
      using run_unfold[OF less.prems(2)] by blast
    then obtain c1 where c1: "moves m tables act (weight tables lbl) (weight tables lbl') c c1" "sim tables lbl' st' input c1"
      using goto_label_sim[OF less.prems(1) _ len] by blast
    obtain c' where "moves m tables act (weight tables lbl') (out_weight out) c1 c'" "sim_out tables out env input c'"
      using less.hyps[OF _ c1(2) g(2) len] distance_decreases[OF g(1)] False by blast
    then show ?thesis using moves_trans[OF c1(1)] by blast
  qed
qed

section \<open>The driver simulated\<close>

text \<open>What the tables and the actions must satisfy: lengths and token codes are not negative, and no
  action of an empty production raises \<open>Parse_error\<close>.\<close>

definition parser_ok :: "parser_tables \<Rightarrow> actions \<Rightarrow> bool" where
  "parser_ok tables act \<longleftrightarrow>
     lengths_ok tables \<and>
     (\<forall>c \<in> set (transl_const tables) \<union> set (transl_block tables). 0 \<le> c \<and> c_int_range c) \<and>
     (\<forall>n fs. act n 0 fs \<noteq> Parse_error)"

definition start_pda :: "parser_env \<Rightarrow> pda" where
  "start_pda env = \<lparr>p_env = env, p_state = 0, p_sp = env_sp env, p_errflag = 0\<rparr>"

fun dsim :: "parser_tables \<Rightarrow> actions \<Rightarrow> driver \<Rightarrow> lr_conf \<Rightarrow> bool" where
  "dsim tables act (Call START arg env input) c \<longleftrightarrow> sim tables Loop (start_pda env) input c"
| "dsim tables act (Call TOKEN_READ arg env input) c \<longleftrightarrow>
     (\<exists>env0 b e. env = env0\<lparr>symb_start := b, symb_end := e\<rparr> \<and> sim_out tables READ_TOKEN env0 ((arg, b, e) # input) c)"
| "dsim tables act (Call ERROR_DETECTED arg env input) c \<longleftrightarrow> sim tables Recover (restored env) input c"
| "dsim tables act (Call STACKS_GROWN_1 arg env input) c \<longleftrightarrow> sim tables Push (restored env) input c"
| "dsim tables act (Call STACKS_GROWN_2 arg env input) c \<longleftrightarrow> sim tables Semantic_action (restored env) input c"
| "dsim tables act (Call SEMANTIC_ACTION_COMPUTED arg env input) c \<longleftrightarrow>
     sim tables Semantic_action (restored env) input c \<and> action_of act env = Computed arg"
| "dsim tables act (Accept v) c \<longleftrightarrow> c = Accepted v"
| "dsim tables act Reject c \<longleftrightarrow> c = Rejected"

lemma token_read_code:
  "token_read m tables st t =
     map_option (\<lambda>(c, v). st\<lparr>p_env := (p_env st)\<lparr>curr_char := c, lval := v\<rparr>\<rparr>) (token_code m tables t)"
  by (simp add: token_read_def token_code_def option.map_comp comp_def)

lemma stack_get_set: "stack_get s i = Some x \<Longrightarrow> x \<in> set s"
  unfolding stack_get_nth by (auto simp: nat_less_iff intro!: nth_mem)

lemma token_code_range:
  assumes "parser_ok tables act" "token_code m tables t = Some (c, v)"
  shows "0 \<le> c" "c_int_range c"
proof -
  have "c \<in> set (transl_const tables) \<union> set (transl_block tables)"
    using assms(2) stack_get_set[of "transl_block tables"] stack_get_set[of "transl_const tables"]
    by (auto simp: token_code_def split: if_splits)
  then show "0 \<le> c" "c_int_range c" using assms(1) unfolding parser_ok_def by blast+
qed

lemma restored_select [simp]:
  "p_env (restored env) = env" "p_sp (restored env) = env_sp env" "p_state (restored env) = env_state env"
  "p_errflag (restored env) = env_errflag env"
  by (simp_all add: restored_def)

lemma read_sim:
  assumes ok: "parser_ok tables act" and d: "dsim tables act (Call TOKEN_READ t env input) c"
    and st: "token_read m tables (restored env) t = Some st"
  shows "\<exists>c'. lr_step m tables act c c' \<and> sim tables Testshift st input c'"
proof -
  obtain env0 b e where env: "env = env0\<lparr>symb_start := b, symb_end := e\<rparr>" "sim_out tables READ_TOKEN env0 ((t, b, e) # input) c"
    using d by auto
  obtain code v where code: "token_code m tables t = Some (code, v)"
    "st = (restored env)\<lparr>p_env := env\<lparr>curr_char := code, lval := v\<rparr>\<rparr>"
    using st by (auto simp: token_read_code)
  have "lr_step m tables act c (Running ((abs_lr (restored env0) ((t, b, e) # input))
      \<lparr>lr_look := Some code, lr_lval := v, lr_start := b, lr_end := e, lr_input := input\<rparr>))"
    using env(2) code(1) by (auto intro!: lr_step.read)
  moreover have "abs_lr st input = (abs_lr (restored env0) ((t, b, e) # input))
      \<lparr>lr_look := Some code, lr_lval := v, lr_start := b, lr_end := e, lr_input := input\<rparr>"
    using token_code_range[OF ok code(1)] by (simp add: code env abs_lr_def Let_def frames_def frame_at_def)
  moreover have "wf_pda st" using env token_code_range(2)[OF ok code(1)] by (simp add: code wf_pda_def wf_env_def fits_stack_def)
  moreover have "0 \<le> curr_char (p_env st)" "Short (tbl_defred tables) (p_state st) = Some 0"
    using token_code_range[OF ok code(1)] env by (simp_all add: code)
  ultimately show ?thesis by (metis sim.simps(2))
qed

text \<open>The value of a semantic action enters the stack.\<close>

lemma computed_frames:
  assumes wf: "wf_env env" "fits_stack env (env_asp env)" "1 \<le> env_sp env" "fits_stack env (env_sp env)"
    "0 \<le> rule_len env" "env_sp env = env_asp env - rule_len env + 1"
    and range: "c_int_range (env_state env)" "0 \<le> env_errflag env" "env_errflag env \<le> 3" "c_int_range (env_asp env)"
    and st: "semantic_action_computed (restored env) v = Some st"
  shows "frames (p_env st) (env_sp env) =
      reduced_frame (env_state env) v (nat (rule_len env)) (frames env (env_asp env)) # frames env (env_sp env - 1) \<and>
    wf_pda st \<and> p_sp st = env_sp env \<and> p_state st = env_state env \<and> p_errflag st = env_errflag env \<and>
    stackbase (p_env st) = stackbase env \<and> curr_char (p_env st) = curr_char env \<and> lval (p_env st) = lval env \<and>
    symb_start (p_env st) = symb_start env \<and> symb_end (p_env st) = symb_end env"
proof -
  let ?sp = "env_sp env" and ?asp = "env_asp env" and ?k = "nat (rule_len env)"
  let ?last_pos = "symb_end_stack env ! nat ?asp"
  let ?start_pos = "if ?sp > ?asp then ?last_pos else symb_start_stack env ! nat ?sp"
  let ?b = "(symb_start_stack env)[nat ?sp := ?start_pos]"
  have ends: "(symb_end_stack env)[nat ?sp := ?last_pos] ! nat ?asp = ?last_pos" if "?sp > ?asp"
    using that wf(2) by (subst nth_list_update_neq) (auto simp: fits_stack_def)
  have eq: "st = (restored env)\<lparr>p_env := env\<lparr>s_stack := (s_stack env)[nat ?sp := env_state env],
      v_stack := (v_stack env)[nat ?sp := v], symb_start_stack := ?b,
      symb_end_stack := (symb_end_stack env)[nat ?sp := ?last_pos]\<rparr>\<rparr>"
    using st ends range(4) by (auto simp: semantic_action_computed_def stack_get_nth stack_set_nth Let_def bind_eq_Some_conv
      split: if_splits)
  have "frames (p_env st) ?sp = (env_state env, v, ?start_pos, ?last_pos) # frames env (?sp - 1)"
    using wf(1,4) unfolding eq by (intro frames_update) (auto simp: wf_env_def fits_stack_def)
  moreover have "(env_state env, v, ?start_pos, ?last_pos) = reduced_frame (env_state env) v ?k (frames env ?asp)"
  proof -
    have "frames env ?asp ! (?k - 1) = frame_at env (nat ?sp)" if "?k \<noteq> 0"
    proof -
      have "?asp - int (?k - 1) = ?sp" "int (?k - 1) \<le> ?asp" using that wf(3,6) by auto
      then show ?thesis using frames_nth[of "?k - 1" ?asp env] by simp
    qed
    then show ?thesis using wf(2,5,6) by (auto simp: reduced_frame_def Let_def frames_nth frame_at_def fits_stack_def)
  qed
  moreover have "\<forall>s\<in>set ((s_stack env)[nat ?sp := env_state env]). c_int_range s"
    using wf(1) range(1) by (auto simp: wf_env_def dest: subsetD[OF set_update_subset_insert])
  ultimately show ?thesis using wf(1,4) range by (simp add: eq wf_pda_def wf_env_def fits_stack_def)
qed

lemma reducing_facts:
  assumes "reducing tables st input c"
  obtains a nt where "c = Running a" "reduction tables a (rule_number (p_env st))"
    "a = (abs_lr st input)\<lparr>lr_state := lr_state a, lr_stack := frames (p_env st) (env_asp (p_env st))\<rparr>"
    "Short (tbl_len tables) (rule_number (p_env st)) = Some (int (nat (rule_len (p_env st))))"
    "Short (tbl_lhs tables) (rule_number (p_env st)) = Some nt"
    "nat (rule_len (p_env st)) < length (lr_stack a)"
    "goto_state tables (frame_state (lr_stack a ! nat (rule_len (p_env st)))) nt = Some (p_state st)"
    "drop (nat (rule_len (p_env st))) (lr_stack a) = frames (p_env st) (p_sp st - 1)"
proof -
  let ?env = "p_env st" and ?k = "nat (rule_len (p_env st))"
  obtain nt s0 where r: "Short (tbl_lhs tables) (rule_number ?env) = Some nt"
      "goto_state tables (s_stack ?env ! nat (p_sp st - 1)) nt = Some (p_state st)"
      "c = Running (abs_lr (st\<lparr>p_state := s0, p_sp := env_asp ?env\<rparr>) input)"
      "reduction tables (abs_lr (st\<lparr>p_state := s0, p_sp := env_asp ?env\<rparr>) input) (rule_number ?env)"
      "1 \<le> p_sp st" "0 \<le> rule_len ?env" "p_sp st = env_asp ?env - rule_len ?env + 1"
      "Short (tbl_len tables) (rule_number ?env) = Some (rule_len ?env)"
    using assms by (auto simp: reducing_def Let_def)
  have k: "env_asp ?env - int ?k = p_sp st - 1" "int ?k \<le> env_asp ?env" using r by auto
  show ?thesis
  proof (rule that[OF r(3,4) _ _ r(1)])
    show "?k < length (lr_stack (abs_lr (st\<lparr>p_state := s0, p_sp := env_asp ?env\<rparr>) input))" using r(5,6,7) by simp
    show "Short (tbl_len tables) (rule_number ?env) = Some (int ?k)" using r by simp
  qed (use r(2) k in \<open>simp_all add: frame_state_frames drop_frames abs_lr_def Let_def\<close>)
qed

lemma computed_sim:
  assumes range: "c_int_range (env_asp env)" and d: "dsim tables act (Call SEMANTIC_ACTION_COMPUTED v env input) c"
    and st: "semantic_action_computed (restored env) v = Some st"
  shows "\<exists>c'. lr_step m tables act c c' \<and> sim tables Loop st input c'"
proof -
  let ?k = "nat (rule_len env)"
  have red: "reducing tables (restored env) input c" and fits: "fits_stack env (env_sp env)"
    and av: "action_of act env = Computed v"
    using d by simp_all
  obtain a nt where a: "c = Running a" "reduction tables a (rule_number env)"
    "a = (abs_lr (restored env) input)\<lparr>lr_state := lr_state a, lr_stack := frames env (env_asp env)\<rparr>"
    "Short (tbl_len tables) (rule_number env) = Some (int ?k)" "Short (tbl_lhs tables) (rule_number env) = Some nt"
    "?k < length (lr_stack a)" "goto_state tables (frame_state (lr_stack a ! ?k)) nt = Some (env_state env)"
    "drop ?k (lr_stack a) = frames env (env_sp env - 1)"
    using reducing_facts[OF red] unfolding restored_select by blast
  have stack: "lr_stack a = frames env (env_asp env)" by (subst a(3)) simp
  let ?a' = "a\<lparr>lr_state := env_state env, lr_stack := reduced_frame (env_state env) v ?k (lr_stack a) # drop ?k (lr_stack a)\<rparr>"
  have "act (rule_number env) ?k (lr_stack a) = Computed v" using av by (simp add: action_of_def stack)
  then have step: "lr_step m tables act c (Running ?a')" unfolding a(1) by (rule lr_step.reduce[OF a(2,4,5,6,7)])
  have wf: "wf_env env" "fits_stack env (env_asp env)" "1 \<le> env_sp env" "0 \<le> rule_len env"
      "env_sp env = env_asp env - rule_len env + 1"
    using red by (auto simp: reducing_def Let_def)
  moreover have "c_int_range (env_state env)" "0 \<le> env_errflag env" "env_errflag env \<le> 3"
    using red by (auto simp: reducing_def Let_def)
  then have "abs_lr st input = ?a' \<and> wf_pda st"
    using computed_frames[OF wf(1-3) fits wf(4,5) _ _ _ range st] a(8)[symmetric] unfolding stack
    by (subst a(3)) (simp add: Let_def abs_lr_def)
  then show ?thesis using step by (metis sim.simps(1))
qed

text \<open>A stack whose height is a C \<open>int\<close>, with room for one more frame: what the engine saved it reads
  back.\<close>

fun shallow :: "lr_conf \<Rightarrow> bool" where
  "shallow (Running a) \<longleftrightarrow> int (length (lr_stack a)) < 2 ^ 31 - 1"
| "shallow (Recovering a) \<longleftrightarrow> int (length (lr_stack a)) < 2 ^ 31 - 1"
| "shallow _ \<longleftrightarrow> True"

lemma wf_pda_saved: "wf_pda (restored env) \<Longrightarrow> env_sp env < 2 ^ 31 \<Longrightarrow> saved_range env"
  by (auto simp: wf_pda_def saved_range_def restored_def c_int_range_def fits_stack_def)

lemma reducing_saved_range:
  assumes "reducing tables (restored env) input c" "shallow c"
  shows "saved_range env" "c_int_range (env_asp env)"
  using assms by (auto simp: reducing_def restored_def saved_range_def c_int_range_def Let_def fits_stack_def)

lemma dsim_saved:
  assumes "dsim tables act (Call cmd arg env input) c" "shallow c" "cmd \<noteq> START"
  shows "RESTORE env = restored env"
proof (rule RESTORE_restored)
  show "saved_range env"
  proof (cases cmd)
    case TOKEN_READ
    then obtain env0 b e where env: "env = env0\<lparr>symb_start := b, symb_end := e\<rparr>" "sim_out tables READ_TOKEN env0 ((arg, b, e) # input) c"
      using assms(1) by auto
    then have "saved_range env0" using assms(2) by (intro wf_pda_saved) (auto split: if_splits)
    then show ?thesis by (simp add: env saved_range_def)
  next
    case STACKS_GROWN_1
    then show ?thesis using assms by (intro wf_pda_saved) (auto simp: push_frame_def split: if_splits)
  next
    case ERROR_DETECTED
    then show ?thesis using assms by (intro wf_pda_saved) (auto split: if_splits)
  qed (use assms reducing_saved_range(1)[of tables env input c] in simp_all)
qed

text \<open>A call of the engine.\<close>

fun cmd_weight :: "parser_input \<Rightarrow> int" where
  "cmd_weight START = 2"
| "cmd_weight STACKS_GROWN_1 = 2"
| "cmd_weight STACKS_GROWN_2 = 1"
| "cmd_weight _ = 0"

lemma engine_sim:
  assumes ok: "parser_ok tables act" and d: "dsim tables act (Call cmd arg env input) c" and sh: "shallow c"
    and e: "caml_parse_engine m tables env cmd arg = Some (out, env')"
  shows "\<exists>c'. moves m tables act (cmd_weight cmd - 1) (out_weight out) c c' \<and> sim_out tables out env' input c'"
proof -
  have len: "lengths_ok tables" using ok by (simp add: parser_ok_def)
  have run: "?thesis" if "moves m tables act (cmd_weight cmd - 1) (weight tables lbl) c c1" "sim tables lbl st input c1"
      "run tables lbl st = Some (out, env')" for c1 lbl st
    using run_sim[OF that(2,3) len, of m act] moves_trans[OF that(1)] by blast
  note saved = dsim_saved[OF d sh]
  show ?thesis
  proof (cases cmd)
    case START
    then have "Int_val_of (env_sp env) = env_sp env"
      using d sh by (auto simp: start_pda_def wf_pda_def fits_stack_def c_int_range_def)
    then show ?thesis using e d START
      by (intro run[of Loop c "start_pda env"]) (auto simp: caml_parse_engine_def start_pda_def)
  next
    case TOKEN_READ
    then obtain st where st: "token_read m tables (restored env) arg = Some st" "run tables Testshift st = Some (out, env')"
      using e saved by (auto simp: caml_parse_engine_def bind_eq_Some_conv)
    then obtain c1 where "lr_step m tables act c c1" "sim tables Testshift st input c1"
      using read_sim[OF ok _ st(1)] d TOKEN_READ by blast
    then show ?thesis using run st(2) by blast
  next
    case STACKS_GROWN_1
    then show ?thesis using e d saved by (intro run[of Push c "restored env"]) (auto simp: caml_parse_engine_def)
  next
    case STACKS_GROWN_2
    then show ?thesis using e d saved by (intro run[of Semantic_action c "restored env"]) (auto simp: caml_parse_engine_def)
  next
    case SEMANTIC_ACTION_COMPUTED
    then obtain st where st: "semantic_action_computed (restored env) arg = Some st" "run tables Loop st = Some (out, env')"
      using e saved by (auto simp: caml_parse_engine_def bind_eq_Some_conv)
    then obtain c1 where "lr_step m tables act c c1" "sim tables Loop st input c1"
      using computed_sim[OF _ _ st(1)] reducing_saved_range(2)[OF _ sh] d SEMANTIC_ACTION_COMPUTED by auto
    then show ?thesis using run st(2) by blast
  next
    case ERROR_DETECTED
    then show ?thesis using e d saved by (intro run[of Recover c "restored env"]) (auto simp: caml_parse_engine_def)
  qed
qed

text \<open>Growing the stacks keeps the frames in use.\<close>

lemma grow_stacks_wf:
  assumes "wf_env env" "0 \<le> sp" "sp < stacksize env"
  shows "wf_env (grow_stacks dummy env)" "frames (grow_stacks dummy env) sp = frames env sp"
    "stacksize (grow_stacks dummy env) = 2 * stacksize env"
proof -
  show "wf_env (grow_stacks dummy env)" using assms by (auto simp: wf_env_def grow_stacks_def Let_def)
  show "frames (grow_stacks dummy env) sp = frames env sp"
    using assms by (intro frames_cong) (auto simp: grow_stacks_def frame_at_def wf_env_def Let_def nth_append)
qed (simp add: grow_stacks_def Let_def)

lemma grow_stacks_nth: "i < length (s_stack env) \<Longrightarrow> s_stack (grow_stacks dummy env) ! i = s_stack env ! i"
  by (simp add: grow_stacks_def Let_def nth_append)

lemma grow_stacks_select [simp]:
  "env_sp (grow_stacks dummy env) = env_sp env" "env_asp (grow_stacks dummy env) = env_asp env"
  "env_state (grow_stacks dummy env) = env_state env" "env_errflag (grow_stacks dummy env) = env_errflag env"
  "rule_len (grow_stacks dummy env) = rule_len env" "rule_number (grow_stacks dummy env) = rule_number env"
  "stackbase (grow_stacks dummy env) = stackbase env" "curr_char (grow_stacks dummy env) = curr_char env"
  "lval (grow_stacks dummy env) = lval env" "symb_start (grow_stacks dummy env) = symb_start env"
  "symb_end (grow_stacks dummy env) = symb_end env"
  by (simp_all add: grow_stacks_def Let_def)

lemma grown_abs:
  assumes "wf_env env" "fits_stack env sp"
  shows "abs_lr (restored (grow_stacks dummy env)\<lparr>p_state := s, p_sp := sp\<rparr>) input = abs_lr (restored env\<lparr>p_state := s, p_sp := sp\<rparr>) input"
  using grow_stacks_wf(2)[of env sp dummy] assms by (simp add: abs_lr_def Let_def fits_stack_def)

lemma grown_reducing:
  assumes "reducing tables (restored env) input c"
  shows "reducing tables (restored (grow_stacks dummy env)) input c \<and> fits_stack (grow_stacks dummy env) (env_sp env)"
proof -
  have wf: "wf_env env" "fits_stack env (env_asp env)" using assms by (auto simp: reducing_def Let_def)
  have "nat (env_sp env - 1) < length (s_stack env)"
    using assms by (auto simp: reducing_def Let_def wf_env_def fits_stack_def)
  then show ?thesis
    using assms grow_stacks_wf[of env "env_asp env" dummy] wf
    by (auto simp: reducing_def Let_def fits_stack_def grow_stacks_nth grown_abs[OF wf])
qed

text \<open>The answer of the driver.\<close>

fun driver_weight :: "driver \<Rightarrow> int" where
  "driver_weight (Call cmd arg env input) = cmd_weight cmd"
| "driver_weight _ = 0"

lemma action_sim:
  assumes ok: "parser_ok tables act" and s: "sim_out tables COMPUTE_SEMANTIC_ACTION env input c"
    and r: "reply dummy_pos act COMPUTE_SEMANTIC_ACTION env input = Some d"
  shows "\<exists>c'. moves m tables act 0 (driver_weight d) c c' \<and> dsim tables act d c'"
proof -
  let ?k = "nat (rule_len env)"
  have red: "reducing tables (restored env) input c" and fits: "fits_stack env (env_sp env)" using s by simp_all
  obtain a nt where a: "c = Running a" "reduction tables a (rule_number env)"
    "a = (abs_lr (restored env) input)\<lparr>lr_state := lr_state a, lr_stack := frames env (env_asp env)\<rparr>"
    "Short (tbl_len tables) (rule_number env) = Some (int ?k)" "Short (tbl_lhs tables) (rule_number env) = Some nt"
    "?k < length (lr_stack a)" "goto_state tables (frame_state (lr_stack a ! ?k)) nt = Some (env_state env)"
    "drop ?k (lr_stack a) = frames env (env_sp env - 1)"
    using reducing_facts[OF red] unfolding restored_select by blast
  have stack: "lr_stack a = frames env (env_asp env)" by (subst a(3)) simp
  have act: "action_of act env = act (rule_number env) ?k (lr_stack a)" by (simp add: action_of_def stack)
  show ?thesis
  proof (cases "action_of act env")
    case (Computed v)
    then show ?thesis using r s by (intro exI[of _ c]) auto
  next
    case (YYexit v)
    then have "lr_step m tables act c (Accepted v)" unfolding a(1) using act by (intro lr_step.accept[OF a(2,4,5,6,7)]) simp
    then show ?thesis using YYexit r by auto
  next
    case Parse_error
    then obtain j where j: "?k = Suc j" using ok act unfolding parser_ok_def by (cases ?k) auto
    let ?a' = "a\<lparr>lr_state := env_state env, lr_stack := drop j (lr_stack a)\<rparr>"
    have "lr_step m tables act c (Recovering ?a')"
      unfolding a(1) using Parse_error act a(2,4-7) j by (intro lr_step.action_fails[of tables a "rule_number env" j nt]) auto
    moreover have "abs_lr (restored env) input = ?a'"
    proof -
      have "env_asp env - int j = env_sp env" "int j \<le> env_asp env + 1" using red j by (auto simp: reducing_def Let_def)
      then have "drop j (lr_stack a) = frames env (env_sp env)" unfolding stack by (simp add: drop_frames)
      then show ?thesis by (subst a(3)) (simp add: abs_lr_def Let_def)
    qed
    moreover have "wf_pda (restored env)" using red fits by (simp add: reducing_def wf_pda_def Let_def)
    ultimately show ?thesis using Parse_error r by auto
  qed
qed

lemma reply_sim:
  assumes ok: "parser_ok tables act" and s: "sim_out tables out env input c" and r: "reply dummy_pos act out env input = Some d"
  shows "\<exists>c'. moves m tables act (out_weight out) (driver_weight d) c c' \<and> dsim tables act d c'"
proof -
  have stay: "driver_weight d \<le> out_weight out \<Longrightarrow> dsim tables act d c \<Longrightarrow> ?thesis" by blast
  show ?thesis
  proof (cases out)
    case READ_TOKEN
    then show ?thesis using s r by (intro stay) (fastforce split: list.splits intro: exI[of _ env])+
  next
    case GROW_STACKS_1
    then have wf: "wf_env env" "fits_stack env (env_sp env - 1)" and d: "d = Call STACKS_GROWN_1 Val_unit (grow_stacks dummy_pos env) input"
      using s r by auto
    then show ?thesis
      using s GROW_STACKS_1 grow_stacks_wf[of env "env_sp env - 1" dummy_pos]
      by (intro stay) (auto simp: wf_pda_def fits_stack_def abs_lr_def Let_def)
  next
    case GROW_STACKS_2
    then show ?thesis using s r grown_reducing[of tables env input c dummy_pos] by (intro stay) auto
  next
    case COMPUTE_SEMANTIC_ACTION
    then show ?thesis using s r action_sim[OF ok, of env input c dummy_pos d m] by simp
  qed (use s r in \<open>auto intro!: stay\<close>)
qed

section \<open>Parsing refines the automaton\<close>

text \<open>One round of the loop.\<close>

lemma round_sim:
  assumes ok: "parser_ok tables act" and d: "dsim tables act (Call cmd arg env input) c" and sh: "shallow c"
    and e: "caml_parse_engine m tables env cmd arg = Some (out, env')" and r: "reply dummy_pos act out env' input = Some d1"
  shows "\<exists>c'. moves m tables act (cmd_weight cmd - 1) (driver_weight d1) c c' \<and> dsim tables act d1 c'"
  using engine_sim[OF ok d sh e] reply_sim[OF ok _ r] moves_trans by blast

lemma yyparse_loop_sim:
  assumes "parser_ok tables act" "dsim tables act d c" "\<forall>c'. (lr_step m tables act)\<^sup>*\<^sup>* c c' \<longrightarrow> shallow c'" "yyparse_loop m dummy_pos tables act fuel d = Some d'"
  shows "\<exists>c'. (lr_step m tables act)\<^sup>*\<^sup>* c c' \<and> dsim tables act d' c'"
  using assms
proof (induction m dummy_pos tables act fuel d arbitrary: c rule: yyparse_loop.induct)
  case (4 m dummy_pos tables act fuel cmd arg env input)
  then obtain out env' d1 where e: "caml_parse_engine m tables env cmd arg = Some (out, env')"
      "reply dummy_pos act out env' input = Some d1" "yyparse_loop m dummy_pos tables act fuel d1 = Some d'"
    by (auto split: option.splits)
  obtain c1 where c1: "(lr_step m tables act)\<^sup>*\<^sup>* c c1" "dsim tables act d1 c1"
    using round_sim[OF "4.prems"(1,2) _ e(1,2)] "4.prems"(3) moves_steps by blast
  have "\<exists>c'. (lr_step m tables act)\<^sup>*\<^sup>* c1 c' \<and> dsim tables act d' c'"
    using "4.IH"[OF e(1) refl e(2)] "4.prems"(1,3) c1 e(3) by (meson rtranclp_trans)
  then show ?case using c1(1) by (meson rtranclp_trans)
qed auto

end
