(* ===== verification/Parsing_Complete.thy ===== *)
theory Parsing_Complete
  imports Parsing_Refine
begin

text \<open>
  The other direction of \<open>Parsing_Refine\<close>: the automaton is deterministic, and whenever the engine
  or the driver cannot go on, the automaton is stuck.  So the loop of \<open>yyparse\<close> accepts a value,
  after finitely many rounds, exactly when the automaton accepts it, and rejects exactly when
  the automaton rejects.
\<close>

section \<open>The automaton is deterministic\<close>

lemma no_entry_value: "no_entry tables index row col \<Longrightarrow> entry_value tables index row col = None"
  by (simp add: no_entry_def entry_value_def)

lemma reduction_unique: "reduction tables a n \<Longrightarrow> reduction tables a n' \<Longrightarrow> n = n'"
  by (auto simp: reduction_def)

lemma reduction_excludes:
  assumes "reduction tables a n" "Short (tbl_defred tables) (lr_state a) = Some 0"
  shows "lr_look a \<noteq> None" "lr_look a = Some c \<Longrightarrow> entry_value tables (tbl_sindex tables) (lr_state a) c = None"
    "lr_look a = Some c \<Longrightarrow> \<not> no_entry tables (tbl_rindex tables) (lr_state a) c"
  using assms by (auto simp: reduction_def no_entry_value)

lemma recovery_unique:
  assumes "can_recover tables (stack ! k) s" "\<forall>j<k. no_entry tables (tbl_sindex tables) (frame_state (stack ! j)) ERRCODE"
    and "can_recover tables (stack ! k') s'" "\<forall>j<k'. no_entry tables (tbl_sindex tables) (frame_state (stack ! j)) ERRCODE"
  shows "k = k' \<and> s = s'"
proof -
  have "\<not> k < k'" "\<not> k' < k" using assms by (auto simp: can_recover_def no_entry_value)
  then show ?thesis using assms by (auto simp: can_recover_def)
qed

text \<open>What a reduction leads to.\<close>

definition reduced :: "actions \<Rightarrow> int \<Rightarrow> lr \<Rightarrow> nat \<Rightarrow> int \<Rightarrow> lr_conf" where
  "reduced act n a k s =
     (case act n k (lr_stack a) of
        Computed v \<Rightarrow> Running (a\<lparr>lr_state := s, lr_stack := reduced_frame s v k (lr_stack a) # drop k (lr_stack a)\<rparr>)
      | YYexit v \<Rightarrow> Accepted v
      | Parse_error \<Rightarrow> Recovering (a\<lparr>lr_state := s, lr_stack := drop (k - 1) (lr_stack a)\<rparr>))"

lemma step_reduced:
  assumes "lr_step m tables act (Running a) c" "reduction tables a n"
  shows "\<exists>k nt s. Short (tbl_len tables) n = Some (int k) \<and> Short (tbl_lhs tables) n = Some nt \<and>
    k < length (lr_stack a) \<and> goto_state tables (frame_state (lr_stack a ! k)) nt = Some s \<and> c = reduced act n a k s"
  using assms(1)
proof cases
  case (reduce n' k nt s v)
  then show ?thesis using reduction_unique[OF assms(2) reduce(2)] by (auto simp: reduced_def)
next
  case (accept n' k nt s v)
  then show ?thesis using reduction_unique[OF assms(2) accept(2)] by (auto simp: reduced_def)
next
  case (action_fails n' k nt s)
  then show ?thesis
    using reduction_unique[OF assms(2) action_fails(2)] by (intro exI[of _ "Suc k"] exI[of _ nt] exI[of _ s]) (auto simp: reduced_def)
next
  case (shift c' s)
  then show ?thesis using reduction_excludes(2)[OF assms(2)] by simp
next
  case (error c')
  then show ?thesis using reduction_excludes(3)[OF assms(2)] by simp
qed (use reduction_excludes(1)[OF assms(2)] in simp)

lemma step_not_reduced:
  assumes "lr_step m tables act (Running a) c1" "lr_step m tables act (Running a) c2" "\<nexists>n. reduction tables a n"
  shows "c1 = c2"
  using assms(1)
proof cases
  case (read t b e input c v)
  from assms(2) show ?thesis by cases (use read assms(3) in auto)
next
  case (shift c s)
  from assms(2) show ?thesis by cases (use shift assms(3) no_entry_value in auto)
next
  case (error c)
  from assms(2) show ?thesis by cases (use error assms(3) no_entry_value in auto)
qed (use assms(3) in auto)

lemma running_step_unique:
  assumes "lr_step m tables act (Running a) c1" "lr_step m tables act (Running a) c2"
  shows "c1 = c2"
proof (cases "\<exists>n. reduction tables a n")
  case True
  then obtain n where n: "reduction tables a n" by blast
  show ?thesis using step_reduced[OF assms(1) n] step_reduced[OF assms(2) n] by auto
qed (use step_not_reduced[OF assms] in blast)

lemma recovering_step_unique:
  assumes "lr_step m tables act (Recovering a) c1" "lr_step m tables act (Recovering a) c2"
  shows "c1 = c2"
  using assms(1)
proof cases
  case (recover k s)
  from assms(2) show ?thesis
  proof cases
    case (recover k' s')
    then show ?thesis using \<open>c1 = _\<close> recovery_unique[of tables "lr_stack a" k s k' s'] \<open>can_recover tables (lr_stack a ! k) s\<close>
        \<open>\<forall>j<k. _ j\<close> by simp
  qed (use recover in \<open>auto simp: can_recover_def no_entry_value\<close>)
next
  case give_up
  from assms(2) show ?thesis by cases (use give_up in \<open>auto simp: can_recover_def no_entry_value\<close>)
next
  case discard
  from assms(2) show ?thesis by cases (use discard in auto)
next
  case end_of_input
  from assms(2) show ?thesis by cases (use end_of_input in auto)
qed

lemma lr_step_deterministic: "lr_step m tables act c c1 \<Longrightarrow> lr_step m tables act c c2 \<Longrightarrow> c1 = c2"
  by (cases c) (auto dest: running_step_unique recovering_step_unique)

section \<open>When the engine cannot go on, the automaton is stuck\<close>

definition halted :: "mem \<Rightarrow> parser_tables \<Rightarrow> actions \<Rightarrow> lr_conf \<Rightarrow> bool" where
  "halted m tables act c \<longleftrightarrow> (\<forall>c'. \<not> lr_step m tables act c c') \<and> (\<forall>v. c \<noteq> Accepted v) \<and> c \<noteq> Rejected"

lemma stuck_halted: "stuck tables c \<Longrightarrow> halted m tables act c"
  by (simp add: stuck_def halted_def)

lemma halted_RunningI:
  assumes red: "\<And>n k nt s. reduction tables a n \<Longrightarrow> Short (tbl_len tables) n = Some (int k) \<Longrightarrow> Short (tbl_lhs tables) n = Some nt \<Longrightarrow>
      k < length (lr_stack a) \<Longrightarrow> goto_state tables (frame_state (lr_stack a ! k)) nt = Some s \<Longrightarrow> False"
    and other: "Short (tbl_defred tables) (lr_state a) = Some 0 \<Longrightarrow>
      (case lr_look a of
         None \<Rightarrow> \<forall>t b e input. lr_input a = (t, b, e) # input \<longrightarrow> token_code m tables t = None
       | Some c \<Rightarrow> entry_value tables (tbl_sindex tables) (lr_state a) c = None \<and>
           \<not> (no_entry tables (tbl_sindex tables) (lr_state a) c \<and> no_entry tables (tbl_rindex tables) (lr_state a) c))"
  shows "halted m tables act (Running a)"
proof -
  have "\<not> lr_step m tables act (Running a) c" for c
  proof
    assume s: "lr_step m tables act (Running a) c"
    show False
    proof (cases "\<exists>n. reduction tables a n")
      case True
      then show ?thesis using step_reduced[OF s] red by blast
    next
      case False
      from s show ?thesis by cases (use False other in auto)
    qed
  qed
  then show ?thesis by (simp add: halted_def)
qed

text \<open>A search for a recovery state that fails: some frame of the search has no answer.\<close>

lemma find_recovery_fails:
  assumes "find_recovery tables env sp = None" "wf_env env" "0 \<le> sp" "sp < int (length (s_stack env))"
  shows "\<exists>k. int k \<le> sp \<and> k < Suc (nat (sp - stackbase env)) \<and>
    table_entry tables (tbl_sindex tables) (s_stack env ! nat (sp - int k)) ERRCODE = None \<and>
    (\<forall>j<k. no_entry tables (tbl_sindex tables) (s_stack env ! nat (sp - int j)) ERRCODE)"
  using assms
proof (induction tables env sp rule: find_recovery.induct)
  case (1 tables env sp)
  let ?e = "table_entry tables (tbl_sindex tables) (s_stack env ! nat sp) ERRCODE"
  have s1: "stack_get (s_stack env) sp = Some (s_stack env ! nat sp)" using 1(4,5) by (simp add: stack_get_def)
  then have at: "state_at env sp = Some (s_stack env ! nat sp)" using 1(3) by (simp add: wf_env_states)
  have base: "0 \<le> stackbase env" using 1(3) by (simp add: wf_env_def)
  show ?case
  proof (cases ?e)
    case None
    then show ?thesis using 1(4) by (intro exI[of _ 0]) simp
  next
    case (Some e)
    then have e: "e = None" "stackbase env < sp" "find_recovery tables env (sp - 1) = None"
      using 1(2) s1 by (subst (asm) find_recovery_wf[OF 1(3)]; auto split: option.splits if_splits)+
    then obtain k where k: "int k \<le> sp - 1" "k < Suc (nat (sp - 1 - stackbase env))"
      "table_entry tables (tbl_sindex tables) (s_stack env ! nat (sp - 1 - int k)) ERRCODE = None"
      "\<forall>j<k. no_entry tables (tbl_sindex tables) (s_stack env ! nat (sp - 1 - int j)) ERRCODE"
      using "1.IH"[OF at Some e(1)] 1(3,4,5) base by auto
    have sub: "sp - 1 - int j = sp - int (Suc j)" for j by simp
    have "\<forall>j<Suc k. no_entry tables (tbl_sindex tables) (s_stack env ! nat (sp - int j)) ERRCODE"
      using k(4) Some e(1) by (auto simp: sub less_Suc_eq_0_disj no_entry_def)
    then show ?thesis using k e(2) by (intro exI[of _ "Suc k"]) (auto simp: sub)
  qed
qed

lemma testshift_halted:
  assumes "sim tables Testshift st input c" "testshift_lbl tables st = None"
  shows "halted m tables act c"
proof -
  let ?c = "curr_char (p_env st)"
  have c: "c = Running (abs_lr st input)" "0 \<le> ?c" "Short (tbl_defred tables) (p_state st) = Some 0" using assms(1) by simp_all
  have iv [simp]: "Int_val_of ?c = ?c" using assms(1) by simp
  have none: "entry_value tables (tbl_sindex tables) (p_state st) ?c = None"
    using assms(2) by (auto simp: testshift_lbl_def Let_def entry_value_def split: option.splits)
  show ?thesis unfolding c(1)
  proof (rule halted_RunningI)
    fix n assume "reduction tables (abs_lr st input) n"
    then show False using assms(2) c(2,3)
      by (auto simp: reduction_def testshift_lbl_def Let_def no_entry_def entry_value_def split: option.splits bind_splits)
  next
    have "\<not> (no_entry tables (tbl_sindex tables) (p_state st) ?c \<and> no_entry tables (tbl_rindex tables) (p_state st) ?c)"
      using assms(2) by (auto simp: testshift_lbl_def Let_def no_entry_def split: if_splits)
    then show "case lr_look (abs_lr st input) of
        None \<Rightarrow> \<forall>t b e input'. lr_input (abs_lr st input) = (t, b, e) # input' \<longrightarrow> token_code m tables t = None
      | Some c \<Rightarrow> entry_value tables (tbl_sindex tables) (lr_state (abs_lr st input)) c = None \<and>
          \<not> (no_entry tables (tbl_sindex tables) (lr_state (abs_lr st input)) c \<and>
             no_entry tables (tbl_rindex tables) (lr_state (abs_lr st input)) c)"
      using c(2) none by simp
  qed
qed

lemma recover_halted:
  assumes s: "sim tables Recover st input c" and r: "recover_lbl tables st = None"
  shows "halted m tables act c"
proof -
  have wf: "wf_pda st" and c: "c = Recovering (abs_lr st input)" using s by simp_all
  have f: "find_recovery tables (p_env st) (p_sp st) = None" "p_errflag st < 3"
    using r by (auto simp: recover_lbl_def split: if_splits)
  have sp: "0 \<le> p_sp st" "p_sp st < int (length (s_stack (p_env st)))" "wf_env (p_env st)"
    using wf by (auto simp: wf_pda_def wf_env_def fits_stack_def)
  obtain k where k: "int k \<le> p_sp st" "k < Suc (nat (p_sp st - stackbase (p_env st)))"
    "table_entry tables (tbl_sindex tables) (s_stack (p_env st) ! nat (p_sp st - int k)) ERRCODE = None"
    "\<forall>j<k. no_entry tables (tbl_sindex tables) (s_stack (p_env st) ! nat (p_sp st - int j)) ERRCODE"
    using find_recovery_fails[OF f(1) sp(3,1,2)] by blast
  have "stuck tables (Recovering (abs_lr st input))"
    using k f(2) sp(1)
    by (intro recovery_stuck[where k = k]) (auto simp: frame_state_frames recoverable_abs can_recover_def entry_value_def no_entry_def)
  then show ?thesis unfolding c by (rule stuck_halted)
qed

lemma reduce_halted:
  assumes s: "sim tables (Reduce n) st input c" and r: "reduce_lbl tables st n = None"
  shows "halted m tables act c"
proof -
  have wf: "wf_pda st" and c: "c = Running (abs_lr st input)" "reduction tables (abs_lr st input) n" using s by simp_all
  show ?thesis unfolding c(1)
  proof (rule halted_RunningI)
    fix n' k nt s1
    assume n': "reduction tables (abs_lr st input) n'" "Short (tbl_len tables) n' = Some (int k)"
      "Short (tbl_lhs tables) n' = Some nt" "k < length (lr_stack (abs_lr st input))"
      "goto_state tables (frame_state (lr_stack (abs_lr st input) ! k)) nt = Some s1"
    have "n' = n" using reduction_unique[OF n'(1) c(2)] .
    moreover have k: "int k \<le> p_sp st" using n'(4) wf by (simp add: wf_pda_def fits_stack_def)
    moreover have "stack_get (s_stack (p_env st)) (p_sp st - int k) = Some (s_stack (p_env st) ! nat (p_sp st - int k))"
      using k wf by (auto simp: stack_get_def wf_pda_def wf_env_def fits_stack_def)
    moreover have "state_at (p_env st\<lparr>env_asp := i1, rule_number := i2, rule_len := i3\<rparr>) i = stack_get (s_stack (p_env st)) i"
      for i i1 i2 i3
      using wf by (subst wf_env_states) (simp_all add: wf_pda_def)
    ultimately show False
      using r n' by (auto simp: reduce_lbl_def Let_def frame_state_frames goto_state_def entry_value_def no_entry_def
          split: option.splits bind_splits if_splits)
  next
    assume d: "Short (tbl_defred tables) (lr_state (abs_lr st input)) = Some 0"
    obtain cc where "lr_look (abs_lr st input) = Some cc" using reduction_excludes(1)[OF c(2) d] by auto
    then show "case lr_look (abs_lr st input) of
        None \<Rightarrow> \<forall>t b e input'. lr_input (abs_lr st input) = (t, b, e) # input' \<longrightarrow> token_code m tables t = None
      | Some c \<Rightarrow> entry_value tables (tbl_sindex tables) (lr_state (abs_lr st input)) c = None \<and>
          \<not> (no_entry tables (tbl_sindex tables) (lr_state (abs_lr st input)) c \<and>
             no_entry tables (tbl_rindex tables) (lr_state (abs_lr st input)) c)"
      using reduction_excludes(2,3)[OF c(2) d] by simp
  qed
qed

lemma goto_label_halted:
  assumes s: "sim tables lbl st input c" and g: "goto_label tables lbl st = None"
  shows "halted m tables act c"
proof (cases lbl)
  case Loop
  then show ?thesis using s g by (auto simp: loop_lbl_def reduction_def intro!: halted_RunningI)
next
  case (Shift_recover n2)
  then have "stuck tables c" using s g by (auto simp: shift_recover_lbl_def)
  then show ?thesis by (rule stuck_halted)
next
  case Push
  then show ?thesis
    using s g by (auto simp: push_lbl_def Let_def stack_set_def wf_pda_def wf_env_def fits_stack_def split: bind_splits if_splits)
qed (use s g testshift_halted recover_halted reduce_halted in \<open>auto simp del: sim.simps\<close>)

lemma run_halted:
  assumes "sim tables lbl st input c" "run tables lbl st = None" and len: "lengths_ok tables"
  shows "\<exists>c'. (lr_step m tables act)\<^sup>*\<^sup>* c c' \<and> halted m tables act c'"
  using assms
proof (induction "distance lbl st" arbitrary: lbl st c rule: less_induct)
  case less
  have nr: "\<nexists>o'. lbl = Return o'" using less.prems(2) by (auto simp: run.simps[of _ "Return _"])
  show ?case
  proof (cases "goto_label tables lbl st")
    case None
    then show ?thesis using goto_label_halted[OF less.prems(1)] by blast
  next
    case (Some x)
    then obtain lbl' st' where x: "goto_label tables lbl st = Some (lbl', st')" by (cases x) auto
    have none: "run tables lbl' st' = None"
      using less.prems(2) x nr unfolding run.simps[of tables lbl st] by (auto split: label.splits)
    obtain c1 where c1: "(lr_step m tables act)\<^sup>*\<^sup>* c c1" "sim tables lbl' st' input c1"
      using goto_label_sim[OF less.prems(1) x len] moves_steps by blast
    show ?thesis using less.hyps[OF distance_decreases[OF x nr] c1(2) none len] c1(1) by (meson rtranclp_trans)
  qed
qed

lemma engine_halted:
  assumes ok: "parser_ok tables act" and d: "dsim tables act (Call cmd arg env input) c" and sh: "shallow c"
    and e: "caml_parse_engine m tables env cmd arg = None"
  shows "\<exists>c'. (lr_step m tables act)\<^sup>*\<^sup>* c c' \<and> halted m tables act c'"
proof -
  have len: "lengths_ok tables" using ok by (simp add: parser_ok_def)
  have run: "?thesis" if "sim tables lbl st input c1" "run tables lbl st = None" "(lr_step m tables act)\<^sup>*\<^sup>* c c1" for lbl st c1
    using run_halted[OF that(1,2) len, of m act] that(3) by (meson rtranclp_trans)
  note saved = dsim_saved[OF d sh]
  show ?thesis
  proof (cases cmd)
    case TOKEN_READ
    show ?thesis
    proof (cases "token_read m tables (restored env) arg")
      case None
      obtain env0 b e where env: "sim_out tables READ_TOKEN env0 ((arg, b, e) # input) c" using d TOKEN_READ by auto
      then have c: "c = Running (abs_lr (restored env0) ((arg, b, e) # input))" by simp
      have "halted m tables act c"
        unfolding c using env None by (intro halted_RunningI) (auto simp: reduction_def token_read_code)
      then show ?thesis by blast
    next
      case (Some st)
      then have "run tables Testshift st = None" using e TOKEN_READ saved by (simp add: caml_parse_engine_def)
      then show ?thesis using read_sim[OF ok _ Some, of input c] d TOKEN_READ run by blast
    qed
  next
    case SEMANTIC_ACTION_COMPUTED
    then have asp: "c_int_range (env_asp env)" using d reducing_saved_range(2)[OF _ sh] by auto
    then have "Int_val_of (env_asp env) = env_asp env" by simp
    then have "semantic_action_computed (restored env) arg \<noteq> None"
      using d SEMANTIC_ACTION_COMPUTED
      by (auto simp: semantic_action_computed_def Let_def reducing_def wf_env_def fits_stack_def stack_get_def stack_set_def)
    then obtain st where st: "semantic_action_computed (restored env) arg = Some st" by blast
    then have "run tables Loop st = None" using e SEMANTIC_ACTION_COMPUTED saved by (simp add: caml_parse_engine_def)
    then show ?thesis 
      using computed_sim[OF asp _ st, of tables act input c] d SEMANTIC_ACTION_COMPUTED run by blast
  next
    case START
    then show ?thesis using e d sh by (intro run[of Loop "start_pda env" c])
      (auto simp: caml_parse_engine_def start_pda_def c_int_range_def wf_pda_def fits_stack_def)
  next
    case STACKS_GROWN_1
    then show ?thesis using e d saved by (intro run[of Push "restored env" c]) (auto simp: caml_parse_engine_def)
  next
    case STACKS_GROWN_2
    then show ?thesis using e d saved by (intro run[of Semantic_action "restored env" c]) (auto simp: caml_parse_engine_def)
  next
    case ERROR_DETECTED
    then show ?thesis using e d saved by (intro run[of Recover "restored env" c]) (auto simp: caml_parse_engine_def)
  qed
qed

lemma reply_halted:
  assumes s: "sim_out tables out env input c" and r: "reply dummy_pos act out env input = None"
  shows "halted m tables act c"
proof -
  have out: "out = READ_TOKEN" "input = []" using r by (cases out; auto split: list.splits action_result.splits)+
  then show ?thesis using s by (auto simp: reduction_def intro!: halted_RunningI)
qed

section \<open>The loop decides as the automaton does\<close>

definition final :: "lr_conf \<Rightarrow> bool" where
  "final c \<longleftrightarrow> c = Rejected \<or> (\<exists>v. c = Accepted v)"

text \<open>A deterministic run to a final configuration passes through every reachable configuration.\<close>

lemma final_no_step: "final f \<Longrightarrow> \<not> lr_step m tables act f c"
  by (auto simp: final_def)

lemma final_stays: "final c \<Longrightarrow> (lr_step m tables act ^^ n) c f \<Longrightarrow> f = c"
  by (cases n) (simp, metis relpowp_Suc_D2 final_no_step)

lemma on_the_way:
  assumes "(lr_step m tables act)\<^sup>*\<^sup>* c c'" "(lr_step m tables act ^^ n) c f" "final f"
  shows "\<exists>n'\<le>n. (lr_step m tables act ^^ n') c' f"
  using assms
proof (induction arbitrary: n rule: converse_rtranclp_induct)
  case base
  then show ?case by blast
next
  case (step c c1)
  then obtain n1 where n: "n = Suc n1" using final_no_step by (cases n) auto
  then obtain c2 where "lr_step m tables act c c2" "(lr_step m tables act ^^ n1) c2 f"
    using step.prems(1) by (metis relpowp_Suc_D2)
  then have "(lr_step m tables act ^^ n1) c1 f" using lr_step_deterministic[OF step.hyps(1)] by blast
  then show ?case using step.IH[of n1] step.prems(2) n by (meson le_SucI)
qed

lemma on_the_way_strict:
  assumes "(lr_step m tables act)\<^sup>+\<^sup>+ c c'" "(lr_step m tables act ^^ n) c f" "final f"
  shows "\<exists>n'<n. (lr_step m tables act ^^ n') c' f"
proof -
  obtain c1 where c1: "lr_step m tables act c c1" "(lr_step m tables act)\<^sup>*\<^sup>* c1 c'" using assms(1) by (meson tranclpD)
  then obtain n1 where n: "n = Suc n1" using assms(2,3) final_no_step by (cases n) auto
  then obtain c2 where "lr_step m tables act c c2" "(lr_step m tables act ^^ n1) c2 f"
    using assms(2) by (metis relpowp_Suc_D2)
  then have "(lr_step m tables act ^^ n1) c1 f" using lr_step_deterministic[OF c1(1)] by blast
  then show ?thesis using on_the_way[OF c1(2) _ assms(3)] n by (meson le_imp_less_Suc)
qed

lemma halted_not_on_the_way:
  assumes "(lr_step m tables act)\<^sup>*\<^sup>* c c'" "halted m tables act c'" "(lr_step m tables act ^^ n) c f" "final f"
  shows False
proof -
  obtain n' where n': "(lr_step m tables act ^^ n') c' f" using on_the_way[OF assms(1,3,4)] by blast
  show False
  proof (cases n')
    case 0
    then show ?thesis using n' assms(2,4) by (auto simp: halted_def final_def)
  next
    case (Suc j)
    then show ?thesis using n' assms(2) by (metis relpowp_Suc_D2 halted_def)
  qed
qed

lemma cmd_weights: "0 \<le> cmd_weight cmd \<and> cmd_weight cmd \<le> 2"
  by (cases cmd) simp_all

lemma driver_weights: "0 \<le> driver_weight d \<and> driver_weight d \<le> 2"
  by (cases d) (simp_all add: cmd_weights)

lemma yyparse_loop_complete:
  assumes "parser_ok tables act" "dsim tables act d c" "(lr_step m tables act ^^ n) c f" "final f"
    and sh: "\<forall>c'. (lr_step m tables act)\<^sup>*\<^sup>* c c' \<longrightarrow> shallow c'"
  shows "\<exists>fuel d'. yyparse_loop m dummy_pos tables act fuel d = Some d' \<and> dsim tables act d' f"
  using assms(2,3) sh
proof (induction "3 * n + nat (driver_weight d)" arbitrary: n d c rule: less_induct)
  case less
  show ?case
  proof (cases d)
    case (Call cmd arg env input)
    note d = less.prems(1)[unfolded Call]
    have sh: "shallow c" using less.prems(3) by blast
    obtain out env' where e: "caml_parse_engine m tables env cmd arg = Some (out, env')"
      using engine_halted[OF assms(1) d sh] halted_not_on_the_way[OF _ _ less.prems(2) assms(4)] by fastforce
    obtain c0 where c0: "moves m tables act (cmd_weight cmd - 1) (out_weight out) c c0" "sim_out tables out env' input c0"
      using engine_sim[OF assms(1) d sh e] by blast
    obtain d1 where r: "reply dummy_pos act out env' input = Some d1"
      using reply_halted[OF c0(2)] halted_not_on_the_way[OF moves_steps[OF c0(1)] _ less.prems(2) assms(4)] by fastforce
    obtain c1 where c1: "moves m tables act (cmd_weight cmd - 1) (driver_weight d1) c c1" "dsim tables act d1 c1"
      using round_sim[OF assms(1) d sh e r] by blast
    obtain n1 where n1: "(lr_step m tables act ^^ n1) c1 f" "n1 < n \<or> n1 = n \<and> driver_weight d1 \<le> cmd_weight cmd - 1"
      using c1(1) on_the_way_strict[OF _ less.prems(2) assms(4)] less.prems(2) unfolding moves_def by blast
    have "3 * n1 + nat (driver_weight d1) < 3 * n + nat (driver_weight d)"
      using n1(2) driver_weights[of d1] cmd_weights[of cmd] Call by auto
    then obtain fuel d' where "yyparse_loop m dummy_pos tables act fuel d1 = Some d' \<and> dsim tables act d' f"
      using less.hyps[OF _ c1(2) n1(1)] less.prems(3) moves_steps[OF c1(1)] by (meson rtranclp_trans)
    then show ?thesis using Call e r by (intro exI[of _ "Suc fuel"] exI[of _ d']) simp
  next
    case (Accept v)
    then have "f = c" using less.prems final_stays by (auto simp: final_def)
    then show ?thesis using Accept less.prems(1) by auto
  next
    case Reject
    then have "f = c" using less.prems final_stays by (auto simp: final_def)
    then show ?thesis using Reject less.prems(1) by auto
  qed
qed

text \<open>The automaton at the start of \<open>yyparse\<close>: state 0, the frames that earlier parsings left, and the
  code of the start symbol as lookahead.\<close>

definition initial_conf :: "parser_env \<Rightarrow> int \<Rightarrow> mlvalue \<Rightarrow> token list \<Rightarrow> lr_conf" where
  "initial_conf env start curr_p input =
     Running \<lparr>lr_state = 0, lr_stack = frames env (env_sp env), lr_base = env_sp env + 1, lr_look = Some start,
       lr_lval = lval env, lr_start = symb_start env, lr_end = curr_p, lr_err = 0, lr_input = input\<rparr>"

lemma dsim_start:
  assumes "wf_env env" "fits_stack env (env_sp env)" "0 \<le> start" "c_int_range start"
    "shallow (initial_conf env start curr_p input)"
  shows "dsim tables act (yyparse_start env start curr_p input) (initial_conf env start curr_p input)"
  using assms
  by (auto simp: yyparse_start_def initial_conf_def start_pda_def abs_lr_def wf_pda_def wf_env_def fits_stack_def Let_def
        c_int_range_def intro!: frames_cong[symmetric] simp: frame_at_def)

lemma dsim_final: "dsim tables act d (Accepted v) \<longleftrightarrow> d = Accept v" "dsim tables act d Rejected \<longleftrightarrow> d = Reject"
  by (induction tables act d "Accepted v" rule: dsim.induct; auto simp: reducing_def Let_def)+

lemma yyparse_loop_decides:
  assumes "parser_ok tables act" "dsim tables act d c" "final f" and sh: "\<forall>c'. (lr_step m tables act)\<^sup>*\<^sup>* c c' \<longrightarrow> shallow c'"
    and r: "\<And>d'. dsim tables act d' f \<longleftrightarrow> d' = r"
  shows "(\<exists>fuel. yyparse_loop m dummy_pos tables act fuel d = Some r) \<longleftrightarrow> (lr_step m tables act)\<^sup>*\<^sup>* c f"
proof
  assume "\<exists>fuel. yyparse_loop m dummy_pos tables act fuel d = Some r"
  then obtain c' where c': "(lr_step m tables act)\<^sup>*\<^sup>* c c'" "dsim tables act r c'"
    using yyparse_loop_sim[OF assms(1,2) sh] by blast
  have "dsim tables act r f" using r by blast
  then have "c' = f" using assms(3) c'(2) by (auto simp: final_def dsim_final)
  then show "(lr_step m tables act)\<^sup>*\<^sup>* c f" using c'(1) by simp
next
  assume "(lr_step m tables act)\<^sup>*\<^sup>* c f"
  then obtain n where n: "(lr_step m tables act ^^ n) c f" by (auto simp: rtranclp_power)
  obtain fuel d' where "yyparse_loop m dummy_pos tables act fuel d = Some d'" "dsim tables act d' f"
    using yyparse_loop_complete[OF assms(1,2) n assms(3) sh, of dummy_pos] by blast
  then show "\<exists>fuel. yyparse_loop m dummy_pos tables act fuel d = Some r" using r[of d'] by auto
qed

text \<open>A run of \<open>n\<close> steps to a final configuration pushes at most \<open>n\<close> frames, so that a terminating parse
  stays within any bound that leaves room for them.\<close>

fun depth :: "lr_conf \<Rightarrow> nat" where
  "depth (Running a) = length (lr_stack a)"
| "depth (Recovering a) = length (lr_stack a)"
| "depth _ = 0"

lemma lr_step_depth: "lr_step m tables act c c' \<Longrightarrow> depth c' \<le> Suc (depth c)"
  by (induction rule: lr_step.induct) (auto simp: push_frame_def)

lemma run_depth:
  assumes "(lr_step m tables act ^^ n) c f" "final f" "(lr_step m tables act)\<^sup>*\<^sup>* c c'"
  shows "depth c' \<le> depth c + n"
  using assms
proof (induction n arbitrary: c)
  case 0
  then have "c' = c" using final_no_step by (metis converse_rtranclpE relpowp_0_E)
  then show ?case by simp
next
  case (Suc n)
  obtain c1 where c1: "lr_step m tables act c c1" "(lr_step m tables act ^^ n) c1 f"
    using Suc.prems(1) by (metis relpowp_Suc_D2)
  show ?case
  proof (cases "c' = c")
    case False
    then obtain c2 where c2: "lr_step m tables act c c2" "(lr_step m tables act)\<^sup>*\<^sup>* c2 c'"
      using Suc.prems(3) by (metis converse_rtranclpE)
    then have "c2 = c1" using lr_step_deterministic[OF c1(1)] by simp
    then show ?thesis using Suc.IH[OF c1(2) Suc.prems(2)] c2(2) lr_step_depth[OF c1(1)] by fastforce
  qed simp
qed

lemma run_shallow:
  assumes "(lr_step m tables act ^^ n) c f" "final f" "int (depth c + n) < 2 ^ 31 - 1"
  shows "\<forall>c'. (lr_step m tables act)\<^sup>*\<^sup>* c c' \<longrightarrow> shallow c'"
proof (intro allI impI)
  fix c' assume "(lr_step m tables act)\<^sup>*\<^sup>* c c'"
  then have "depth c' \<le> depth c + n" by (rule run_depth[OF assms(1,2)])
  then show "shallow c'" using assms(3) by (cases c') auto
qed

text \<open>C0: the parser generated by \<open>ocamlyacc\<close> decides as the LR automaton of its tables: the loop of
  \<open>yyparse\<close>, with the C engine in it, returns a value after finitely many calls of the engine
  exactly when the automaton accepts that value from the start state, and raises
  \<open>Parse_error\<close> exactly when the automaton rejects, error recovery and growth of the stacks
  included.  The engine keeps stack positions, states and token codes in a C \<open>int\<close>, so the code of
  the start symbol and those of the tables are C integers, and no configuration that the
  automaton reaches has a stack of \<open>2 ^ 31 - 1\<close> frames or more.  The semantic action of a production with an
  empty right-hand side does not raise \<open>Parse_error\<close>: the code would look for a state to recover
  from in a place of the stack that it has not written.\<close>

theorem yyparse_decides:
  assumes "parser_ok tables act" "wf_env env" "fits_stack env (env_sp env)" "0 \<le> start" "c_int_range start"
    and "\<forall>c. (lr_step m tables act)\<^sup>*\<^sup>* (initial_conf env start curr_p input) c \<longrightarrow> shallow c"
  shows "((\<exists>fuel. yyparse_loop m dummy_pos tables act fuel (yyparse_start env start curr_p input) = Some (Accept v)) \<longleftrightarrow>
      (lr_step m tables act)\<^sup>*\<^sup>* (initial_conf env start curr_p input) (Accepted v)) \<and>
    ((\<exists>fuel. yyparse_loop m dummy_pos tables act fuel (yyparse_start env start curr_p input) = Some Reject) \<longleftrightarrow>
      (lr_step m tables act)\<^sup>*\<^sup>* (initial_conf env start curr_p input) Rejected)"
proof -
  have start: "dsim tables act (yyparse_start env start curr_p input) (initial_conf env start curr_p input)"
    using assms(6) by (intro dsim_start[OF assms(2-5)]) blast
  show ?thesis
    using yyparse_loop_decides[OF assms(1) start _ assms(6)] by (simp add: final_def dsim_final)
qed

section \<open>A parser for one token\<close>

text \<open>The rules \<open>s: A\<close> and the entry rule, whose action raises \<open>YYexit\<close>; the stacks have two
  places, so that the parsing grows them.\<close>

definition one_token_tables :: parser_tables where
  "one_token_tables =
     \<lparr>transl_const = [2], transl_block = [], tbl_lhs = [0, 0, 0, 0, 1, 0], tbl_len = [0, 0, 1, 0, 2, 0],
      tbl_defred = [0, 0, 0, 0, 1, 0, 2, 0], tbl_dgoto = [3, 0, 0, 0], tbl_sindex = [1, 0, 1, 0, 0, 0, 0, 0],
      tbl_rindex = [0, 0, 0, 0, 0, 0, 0, 0], tbl_gindex = [0, 0, 0, 0], tablesize = 3,
      tbl_table = [0, 0, 0, 0, 1, 0, 2, 0], tbl_check = [0, 0, 0, 0, 1, 0, 2, 0]\<rparr>"

definition one_token_actions :: actions where
  "one_token_actions n k fs = (if n = 2 then YYexit (fst (snd (hd fs))) else Computed (Val_long 7))"

definition two_places :: parser_env where
  "two_places =
     \<lparr>s_stack = [0, 0], v_stack = [1, 1], symb_start_stack = [1, 1], symb_end_stack = [1, 1], stacksize = 2, stackbase = 0,
      curr_char = 0, lval = 1, symb_start = 1, symb_end = 1, env_asp = 0, rule_len = 0, rule_number = 0, env_sp = 0,
      env_state = 0, env_errflag = 0\<rparr>"

lemma one_token_shorts:
  "Short (tbl_lhs one_token_tables) 1 = Some 0" "Short (tbl_lhs one_token_tables) 2 = Some 1"
  "Short (tbl_len one_token_tables) 0 = Some 0" "Short (tbl_len one_token_tables) 1 = Some 1"
  "Short (tbl_len one_token_tables) 2 = Some 2" "Short (tbl_defred one_token_tables) 0 = Some 0"
  "Short (tbl_defred one_token_tables) 1 = Some 0" "Short (tbl_defred one_token_tables) 2 = Some 1"
  "Short (tbl_defred one_token_tables) 3 = Some 2" "Short (tbl_dgoto one_token_tables) 0 = Some 3"
  "Short (tbl_dgoto one_token_tables) 1 = Some 0" "Short (tbl_sindex one_token_tables) 0 = Some 1"
  "Short (tbl_sindex one_token_tables) 1 = Some 1" "Short (tbl_gindex one_token_tables) 0 = Some 0"
  "Short (tbl_gindex one_token_tables) 1 = Some 0" "Short (tbl_table one_token_tables) 2 = Some 1"
  "Short (tbl_table one_token_tables) 3 = Some 2" "Short (tbl_check one_token_tables) 2 = Some 1"
  "Short (tbl_check one_token_tables) 3 = Some 2"
  by (simp_all add: Short_def one_token_tables_def)

lemma one_token_lengths: "lengths_ok one_token_tables"
  unfolding lengths_ok_def
proof (intro allI impI)
  fix n k assume s: "Short (tbl_len one_token_tables) n = Some k"
  then have "0 \<le> n" "2 * nat n + 1 < 6" by (auto simp: Short_def one_token_tables_def split: if_splits)
  then have "n = 0 \<or> n = 1 \<or> n = 2" by presburger
  then show "0 \<le> k" using s one_token_shorts(3-5) by (elim disjE) simp_all
qed

lemma one_token_ok: "parser_ok one_token_tables one_token_actions"
  using one_token_lengths by (simp add: parser_ok_def one_token_tables_def one_token_actions_def c_int_range_def)

lemma one_token_ints [simp]: "Int_val_of 2 = 2" "Int_val_of 3 = 3" "c_int_range 2" "c_int_range 3"
  by (simp_all add: c_int_range_def)

lemma one_token_translation:
  "transl_const one_token_tables = [2]" "tablesize one_token_tables = 3"
  by (simp_all add: one_token_tables_def)

lemmas one_token_labels = one_token_shorts one_token_translation loop_lbl_def testshift_lbl_def table_entry_def shift_lbl_def
  shift_recover_lbl_def push_lbl_def reduce_lbl_def semantic_action_lbl_def semantic_action_computed_def token_read_def
  stack_get_def stack_set_def fits_stack_def SAVE_def RESTORE_def state_at_def grow_stacks_def action_of_def one_token_actions_def
  frames_def frame_at_def

lemma one_token_frames: "rev [0..<3] = [2, 1, 0 :: nat]" "replicate 2 x = [x, x]"
  by (simp_all add: upt_rec numeral_2_eq_2)

lemma one_token_value: "sint (Int_val (Val_long 0)) = 0"
  by (simp add: Int_val_def Long_val_def Val_long_def)

lemma one_token_run:
  "yyparse_loop m 1 one_token_tables one_token_actions (Suc (Suc (Suc (Suc 0)))) (yyparse_start two_places 1 1 [(Val_long 0, 1, 1)]) =
   Some (Accept (Val_long 7))"
  by (simp add: yyparse_start_def caml_parse_engine_def two_places_def run.simps[of one_token_tables] one_token_labels one_token_frames
      one_token_value)

text \<open>The run of the automaton.\<close>

definition one_token_start :: lr_conf where
  "one_token_start = initial_conf two_places 1 1 [(Val_long 0, 1, 1)]"

lemmas one_token_moves = one_token_shorts one_token_translation no_entry_def entry_value_def table_entry_def reduction_def
  goto_state_def frame_state_def push_frame_def token_code_def stack_get_def one_token_actions_def one_token_value

lemma one_token_entries:
  "table_entry one_token_tables (tbl_sindex one_token_tables) 0 1 = Some (Some 2)"
  "table_entry one_token_tables (tbl_sindex one_token_tables) 1 2 = Some (Some 3)"
  "table_entry one_token_tables (tbl_gindex one_token_tables) 0 s = (if c_int_range s then Some None else None)"
  "table_entry one_token_tables (tbl_gindex one_token_tables) 1 s = (if c_int_range s then Some None else None)"
  by (simp_all add: one_token_moves)

lemma one_token_code: "token_code m one_token_tables (Val_long 0) = Some (2, Val_long 0)"
  using one_token_value by (simp add: token_code_def stack_get_def one_token_translation Val_long_def Is_long_def)

lemma one_token_path:
  "\<exists>f. final f \<and> (lr_step m one_token_tables one_token_actions ^^ 5) one_token_start f"
proof -
  let ?step = "lr_step m one_token_tables one_token_actions"
  let ?a0 = "\<lparr>lr_state = 0, lr_stack = frames two_places 0, lr_base = 1, lr_look = Some 1,
       lr_lval = 1, lr_start = 1, lr_end = 1, lr_err = 0, lr_input = [(Val_long 0, 1, 1)]\<rparr>"
  let ?a1 = "push_frame 1 (?a0\<lparr>lr_look := None, lr_err := 0\<rparr>)"
  let ?a2 = "?a1\<lparr>lr_look := Some 2, lr_lval := Val_long 0, lr_start := 1, lr_end := 1, lr_input := []\<rparr>"
  let ?a3 = "push_frame 2 (?a2\<lparr>lr_look := None, lr_err := 0\<rparr>)"
  let ?a4 = "?a3\<lparr>lr_state := 3, lr_stack := reduced_frame 3 (Val_long 7) 1 (lr_stack ?a3) # drop 1 (lr_stack ?a3)\<rparr>"
  have fr: "frames two_places 0 = [(0, 1, 1, 1)]" by (simp add: frames_def frame_at_def two_places_def)
  have 0: "one_token_start = Running ?a0" by (simp add: one_token_start_def initial_conf_def two_places_def)
  have 1: "?step (Running ?a0) (Running ?a1)"
    using lr_step.shift[of one_token_tables ?a0 1 1 m one_token_actions] by (simp add: entry_value_def one_token_entries one_token_shorts)
  have 2: "?step (Running ?a1) (Running ?a2)"
    by (rule lr_step.read[OF _ _ _ one_token_code]) (simp_all add: push_frame_def one_token_shorts)
  have 3: "?step (Running ?a2) (Running ?a3)"
    using lr_step.shift[of one_token_tables ?a2 2 2 m one_token_actions]
    by (simp add: entry_value_def one_token_entries one_token_shorts push_frame_def)
  have 4: "?step (Running ?a3) (Running ?a4)"
    by (rule lr_step.reduce[of _ _ 1 _ 0])
      (simp_all add: reduction_def push_frame_def one_token_shorts goto_state_def no_entry_def one_token_entries frame_state_def
        one_token_actions_def fr)
  have 5: "?step (Running ?a4) (Accepted (Val_long 7))"
    by (rule lr_step.accept[of _ _ 2 2 1 0])
      (simp_all add: reduction_def push_frame_def one_token_shorts goto_state_def no_entry_def one_token_entries frame_state_def
        one_token_actions_def fr reduced_frame_def)
  have "(?step ^^ 5) one_token_start (Accepted (Val_long 7))"
    unfolding 0 using 1 2 3 4 5 by (simp add: numeral_eq_Suc) blast
  then show ?thesis by (auto simp: final_def)
qed

lemma one_token_shallow:
  "\<forall>c. (lr_step m one_token_tables one_token_actions)\<^sup>*\<^sup>* one_token_start c \<longrightarrow> shallow c"
proof -
  obtain f where f: "final f" "(lr_step m one_token_tables one_token_actions ^^ 5) one_token_start f" using one_token_path by blast
  have "depth one_token_start = 1" by (simp add: one_token_start_def initial_conf_def two_places_def)
  then show ?thesis using run_shallow[OF f(2,1)] by simp
qed

theorem yyparse_decides_witness:
  "parser_ok one_token_tables one_token_actions \<and>
   (lr_step (\<lambda>_. 0) one_token_tables one_token_actions)\<^sup>*\<^sup>* one_token_start (Accepted (Val_long 7))"
proof -
  have "wf_env two_places" "fits_stack two_places (env_sp two_places)"
    by (simp_all add: two_places_def wf_env_def fits_stack_def)
  note decides = yyparse_decides[OF one_token_ok this _ _ one_token_shallow[of "\<lambda>_. 0", unfolded one_token_start_def],
    where dummy_pos = 1 and v = "Val_long 7"]
  show ?thesis using one_token_ok one_token_run[of "\<lambda>_. 0"] decides unfolding one_token_start_def by auto
qed

end
