(* ===== verification/Postable.thy ===== *)
theory Postable
  imports Mlvalues
begin

text \<open>
  The position table of marshalling, \<open>runtime/extern.c\<close>: a hash table with open addressing and linear
  probing that records the objects already written.  A bit vector tells which entries are
  occupied; the others are not initialised, and reading one of them, or outside the arrays,
  is \<open>None\<close>.  The table refines a partial map from objects to positions.
\<close>

unbundle bit_operations_syntax

section \<open>The table\<close>

record object_position =
  op_obj :: mlvalue
  op_pos :: uintnat

record position_table =
  pt_shift :: nat
  pt_size :: uintnat
  pt_mask :: uintnat
  pt_threshold :: uintnat
  pt_present :: "uintnat list"
  pt_entries :: "object_position option list"

definition Bitvect_size :: "uintnat \<Rightarrow> uintnat" where
  "Bitvect_size n = (n + 63) div 64"

abbreviation POS_TABLE_INIT_SIZE_LOG2 :: nat where "POS_TABLE_INIT_SIZE_LOG2 \<equiv> 8"

definition POS_TABLE_INIT_SIZE :: uintnat where
  "POS_TABLE_INIT_SIZE = push_bit POS_TABLE_INIT_SIZE_LOG2 1"

definition HASH_FACTOR :: uintnat where
  "HASH_FACTOR = 11400714819323198486"

text \<open>The macro \<open>Hash\<close>.\<close>

definition Hash_pos :: "mlvalue \<Rightarrow> nat \<Rightarrow> uintnat" where
  "Hash_pos v shift = drop_bit shift (v * HASH_FACTOR)"

definition Threshold :: "uintnat \<Rightarrow> uintnat" where
  "Threshold sz = (sz * 2) div 3"

definition bitvect_test :: "uintnat list \<Rightarrow> uintnat \<Rightarrow> bool option" where
  "bitvect_test bv i =
     (if unat (i div 64) < length bv
      then Some (bv ! unat (i div 64) AND push_bit (unat (i AND 63)) 1 \<noteq> 0) else None)"

definition bitvect_set :: "uintnat list \<Rightarrow> uintnat \<Rightarrow> uintnat list option" where
  "bitvect_set bv i =
     (if unat (i div 64) < length bv
      then Some (bv[unat (i div 64) := bv ! unat (i div 64) OR push_bit (unat (i AND 63)) 1]) else None)"

text \<open>A table of a given size with no occupied entry; the entries are not initialised.\<close>

definition empty_table :: "nat \<Rightarrow> uintnat \<Rightarrow> position_table" where
  "empty_table shift sz =
     \<lparr>pt_shift = shift, pt_size = sz, pt_mask = sz - 1, pt_threshold = Threshold sz,
      pt_present = replicate (unat (Bitvect_size sz)) 0, pt_entries = replicate (unat sz) None\<rparr>"

definition entry_get :: "position_table \<Rightarrow> uintnat \<Rightarrow> object_position option" where
  "entry_get t h = (if unat h < length (pt_entries t) then pt_entries t ! unat h else None)"

definition entry_set :: "position_table \<Rightarrow> uintnat \<Rightarrow> object_position \<Rightarrow> position_table option" where
  "entry_set t h e =
     (if unat h < length (pt_entries t) then Some (t\<lparr>pt_entries := (pt_entries t)[unat h := Some e]\<rparr>) else None)"

section \<open>Operations\<close>

definition extern_init_position_table :: position_table where
  "extern_init_position_table = empty_table (64 - POS_TABLE_INIT_SIZE_LOG2) POS_TABLE_INIT_SIZE"

text \<open>The loop of the search: the position of the object, if it is there, and the index for recording
  it.\<close>

partial_function (option) probe :: "position_table \<Rightarrow> mlvalue \<Rightarrow> uintnat \<Rightarrow> (uintnat option \<times> uintnat) option" where
  "probe t obj h =
     (case bitvect_test (pt_present t) h of
        None \<Rightarrow> None
      | Some b \<Rightarrow>
          (if \<not> b then Some (None, h)
           else
             (case entry_get t h of
                None \<Rightarrow> None
              | Some e \<Rightarrow>
                  (if op_obj e = obj then Some (Some (op_pos e), h)
                   else probe t obj ((h + 1) AND pt_mask t)))))"

definition extern_lookup_position :: "position_table \<Rightarrow> mlvalue \<Rightarrow> (uintnat option \<times> uintnat) option" where
  "extern_lookup_position t obj = probe t obj (Hash_pos obj (pt_shift t))"

text \<open>Occupying an entry.\<close>

definition occupy :: "position_table \<Rightarrow> uintnat \<Rightarrow> object_position \<Rightarrow> position_table option" where
  "occupy t h e =
     (case bitvect_set (pt_present t) h of
        None \<Rightarrow> None
      | Some bv \<Rightarrow> entry_set (t\<lparr>pt_present := bv\<rparr>) h e)"

partial_function (option) free_slot :: "position_table \<Rightarrow> uintnat \<Rightarrow> uintnat option" where
  "free_slot t h =
     (case bitvect_test (pt_present t) h of
        None \<Rightarrow> None
      | Some b \<Rightarrow> if b then free_slot t ((h + 1) AND pt_mask t) else Some h)"

fun reinsert :: "position_table \<Rightarrow> position_table \<Rightarrow> nat list \<Rightarrow> position_table option" where
  "reinsert old t [] = Some t"
| "reinsert old t (i # is) =
     Option.bind (bitvect_test (pt_present old) (of_nat i)) (\<lambda>b.
       if \<not> b then reinsert old t is
       else
         Option.bind (entry_get old (of_nat i)) (\<lambda>e.
         Option.bind (free_slot t (Hash_pos (op_obj e) (pt_shift t))) (\<lambda>h.
         Option.bind (occupy t h e) (\<lambda>t'. reinsert old t' is))))"

text \<open>Growing the table.  The argument says which allocations of bytes succeed.\<close>

definition extern_resize_position_table :: "(nat \<Rightarrow> bool) \<Rightarrow> position_table \<Rightarrow> position_table result option" where
  "extern_resize_position_table alloc_ok old =
     (let new_size = (if pt_size old < 1000000 then 8 * pt_size old else 2 * pt_size old);
          new_shift = (if pt_size old < 1000000 then pt_shift old - 3 else pt_shift old - 1)
      in if new_size = 0 \<or> unat new_size * 16 \<ge> 2 ^ 64 \<or> \<not> alloc_ok (unat new_size * 16)
            \<or> \<not> alloc_ok (unat (Bitvect_size new_size) * 8)
         then Some (Inl Out_of_memory)
         else map_option Inr (reinsert old (empty_table new_shift new_size) [0..<unat (pt_size old)]))"

text \<open>The body of \<open>extern_record_location_with_data\<close>, on the table and the counter of objects.\<close>

definition record_entry ::
  "(nat \<Rightarrow> bool) \<Rightarrow> position_table \<times> uintnat \<Rightarrow> mlvalue \<Rightarrow> uintnat \<Rightarrow> uintnat \<Rightarrow> (position_table \<times> uintnat) result option" where
  "record_entry alloc_ok tc obj h data =
     (case tc of
        (t, obj_counter) \<Rightarrow>
          (case occupy t h \<lparr>op_obj = obj, op_pos = data\<rparr> of
             None \<Rightarrow> None
           | Some t' \<Rightarrow>
               (let obj_counter' = obj_counter + 1
                in if obj_counter' \<ge> pt_threshold t'
                   then map_option (map_result (\<lambda>t''. (t'', obj_counter'))) (extern_resize_position_table alloc_ok t')
                   else Some (Inr (t', obj_counter')))))"

section \<open>Bit vectors\<close>

lemma bitvect_index: "unat (of_nat i div 64 :: uintnat) = i div 64" "unat (of_nat i AND 63 :: uintnat) = i mod 64"
  if "i < 2 ^ 64"
proof -
  show "unat (of_nat i div 64 :: uintnat) = i div 64" using that by (simp add: unat_div unat_of_nat)
  have "(63 :: uintnat) = mask 6" by (simp add: mask_eq_exp_minus_1)
  then have "unat (of_nat i AND 63 :: uintnat) = unat (take_bit 6 (of_nat i :: uintnat))" by (simp only: take_bit_eq_mask)
  also have "\<dots> = i mod 64" unfolding unsigned_take_bit_eq using that by (simp add: take_bit_eq_mod unat_of_nat)
  finally show "unat (of_nat i AND 63 :: uintnat) = i mod 64" .
qed

definition present_at :: "position_table \<Rightarrow> nat \<Rightarrow> bool" where
  "present_at t i \<longleftrightarrow> bit (pt_present t ! (i div 64)) (i mod 64)"

text \<open>A table with room for \<open>2 ^ k\<close> entries.\<close>

definition table_dims :: "nat \<Rightarrow> position_table \<Rightarrow> bool" where
  "table_dims k t \<longleftrightarrow> 6 \<le> k \<and> k \<le> 60 \<and> pt_shift t = 64 - k \<and> pt_size t = 2 ^ k \<and> pt_mask t = 2 ^ k - 1 \<and>
     pt_threshold t = Threshold (2 ^ k) \<and> length (pt_present t) = 2 ^ k div 64 \<and> length (pt_entries t) = 2 ^ k"

lemma small_index: "i < 2 ^ k \<Longrightarrow> k \<le> 60 \<Longrightarrow> i < (2 ^ 64 :: nat)"
  using power_increasing[of k 60 "2::nat"] by simp

lemma word_index:
  assumes "6 \<le> k" "i < 2 ^ k"
  shows "i div 64 < 2 ^ k div (64 :: nat)"
proof -
  have "(64::nat) dvd 2 ^ k" using assms(1) le_imp_power_dvd[of 6 k "2::nat"] by simp
  then show ?thesis using assms(2) by (metis div_less_iff_less_mult dvd_div_mult_self zero_less_numeral)
qed

lemma bitvect_test_present:
  assumes "table_dims k t" "i < 2 ^ k"
  shows "bitvect_test (pt_present t) (of_nat i) = Some (present_at t i)"
proof -
  have i: "i < 2 ^ 64" using small_index[OF assms(2)] assms(1) by (simp add: table_dims_def)
  have "i div 64 < 2 ^ k div 64" using word_index[OF _ assms(2)] assms(1) by (simp add: table_dims_def)
  then show ?thesis
    using assms bitvect_index[OF i] by (simp add: bitvect_test_def table_dims_def present_at_def and_exp_eq_0_iff_not_bit)
qed

definition entry_at :: "position_table \<Rightarrow> nat \<Rightarrow> object_position option" where
  "entry_at t i = pt_entries t ! i"

lemma entry_get_at: "table_dims k t \<Longrightarrow> i < 2 ^ k \<Longrightarrow> entry_get t (of_nat i) = entry_at t i"
  using small_index[of i k] by (simp add: entry_get_def entry_at_def table_dims_def unat_of_nat)

lemma occupy_ok:
  assumes "table_dims k t" "i < 2 ^ k"
  obtains t' where "occupy t (of_nat i) e = Some t'" "table_dims k t'"
    "\<And>j. j < 2 ^ k \<Longrightarrow> present_at t' j \<longleftrightarrow> j = i \<or> present_at t j"
    "\<And>j. j < 2 ^ k \<Longrightarrow> entry_at t' j = (if j = i then Some e else entry_at t j)"
proof -
  have i: "i < 2 ^ 64" using small_index[OF assms(2)] assms(1) by (simp add: table_dims_def)
  have q: "j div 64 < 2 ^ k div 64" if "j < 2 ^ k" for j :: nat
    using word_index[OF _ that] assms(1) by (simp add: table_dims_def)
  let ?bv = "(pt_present t)[i div 64 := pt_present t ! (i div 64) OR push_bit (i mod 64) 1]"
  let ?t = "t\<lparr>pt_present := ?bv, pt_entries := (pt_entries t)[i := Some e]\<rparr>"
  have "occupy t (of_nat i) e = Some ?t"
    using assms bitvect_index[OF i] q[OF assms(2)] i
    by (simp add: occupy_def bitvect_set_def entry_set_def table_dims_def unat_of_nat)
  moreover have "table_dims k ?t" using assms(1) by (simp add: table_dims_def)
  moreover have "present_at ?t j \<longleftrightarrow> j = i \<or> present_at t j" if "j < 2 ^ k" for j
  proof (cases "j div 64 = i div 64")
    case True
    then have "j mod 64 = i mod 64 \<longleftrightarrow> j = i" by (metis div_mod_decomp)
    then show ?thesis
      using True q[OF that] assms(1) by (auto simp: present_at_def table_dims_def bit_simps)
  next
    case False
    then show ?thesis by (auto simp: present_at_def)
  qed
  moreover have "entry_at ?t j = (if j = i then Some e else entry_at t j)" if "j < 2 ^ k" for j
    using that assms(1) by (simp add: entry_at_def table_dims_def)
  ultimately show ?thesis using that by blast
qed

lemma unat_exp: "k \<le> 60 \<Longrightarrow> unat (2 ^ k :: uintnat) = 2 ^ k"
proof -
  assume "k \<le> 60"
  then have "2 ^ k < (2 ^ 64 :: nat)" by (intro power_strict_increasing) auto
  then have "unat (of_nat (2 ^ k) :: uintnat) = 2 ^ k" by (subst unat_of_nat) simp
  then show ?thesis by simp
qed

lemma empty_table_dims:
  assumes "6 \<le> k" "k \<le> 60"
  shows "table_dims k (empty_table (64 - k) (2 ^ k))"
    and "i < 2 ^ k \<Longrightarrow> \<not> present_at (empty_table (64 - k) (2 ^ k)) i"
proof -
  have d: "(64::nat) dvd 2 ^ k" using assms le_imp_power_dvd[of 6 k "2::nat"] by simp
  have u: "unat (2 ^ k :: uintnat) = 2 ^ k" using unat_exp assms by simp
  have "2 ^ k \<le> (2 ^ 60 :: nat)" using assms by (intro power_increasing) auto
  then have b: "unat (Bitvect_size (2 ^ k)) = 2 ^ k div 64"
  proof -
    have "unat (2 ^ k + 63 :: uintnat) = 2 ^ k + 63" using \<open>2 ^ k \<le> (2 ^ 60 :: nat)\<close> u by (simp add: unat_word_ariths)
    then show ?thesis using d by (auto simp: Bitvect_size_def unat_div elim!: dvdE)
  qed
  show "table_dims k (empty_table (64 - k) (2 ^ k))"
    using assms b u by (simp add: table_dims_def empty_table_def)
  show "\<not> present_at (empty_table (64 - k) (2 ^ k)) i" if "i < 2 ^ k"
  proof -
    have "i div 64 < 2 ^ k div 64" using word_index[OF assms(1) that] .
    then show ?thesis by (simp add: present_at_def empty_table_def b)
  qed
qed

section \<open>Probing\<close>

definition home :: "nat \<Rightarrow> mlvalue \<Rightarrow> nat" where
  "home k obj = unat (Hash_pos obj (64 - k))"

definition slot :: "nat \<Rightarrow> mlvalue \<Rightarrow> nat \<Rightarrow> nat" where
  "slot k obj d = (home k obj + d) mod 2 ^ k"

lemma slot_less [simp]: "slot k obj d < 2 ^ k"
  by (simp add: slot_def)

lemma home_less: "k \<le> 60 \<Longrightarrow> home k obj < 2 ^ k"
proof -
  assume k: "k \<le> 60"
  let ?x = "obj * HASH_FACTOR"
  have "home k obj = unat ?x div 2 ^ (64 - k)"
    unfolding home_def Hash_pos_def unat_drop_bit_eq by (simp add: drop_bit_eq_div)
  moreover have "unat ?x < 2 ^ (64 - k) * 2 ^ k" using k unsigned_less[of ?x, where ?'a = nat] by (simp flip: power_add)
  ultimately show ?thesis by (simp add: less_mult_imp_div_less mult.commute)
qed

lemma Hash_pos_slot: "k \<le> 60 \<Longrightarrow> Hash_pos obj (64 - k) = of_nat (slot k obj 0)"
  using home_less[of k obj] by (simp add: slot_def home_def)

lemma next_slot: "k \<le> 60 \<Longrightarrow> (of_nat (slot k obj d) + 1) AND (2 ^ k - 1) = (of_nat (slot k obj (Suc d)) :: uintnat)"
proof -
  assume k: "k \<le> 60"
  have "(of_nat (slot k obj d) + 1) AND (2 ^ k - 1) = take_bit k (of_nat (Suc (slot k obj d)) :: uintnat)"
    by (simp add: take_bit_eq_mask mask_eq_exp_minus_1 add.commute)
  also have "\<dots> = of_nat (Suc (slot k obj d) mod 2 ^ k)" by (subst take_bit_of_nat) (simp only: take_bit_eq_mod)
  also have "Suc (slot k obj d) mod 2 ^ k = slot k obj (Suc d)" by (simp add: slot_def mod_Suc_eq)
  finally show ?thesis .
qed

text \<open>Every index is reached.\<close>

lemma slot_surj: "i < 2 ^ k \<Longrightarrow> k \<le> 60 \<Longrightarrow> \<exists>d<2 ^ k. slot k obj d = i"
proof -
  assume i: "i < 2 ^ k" and k: "k \<le> 60"
  have h: "home k obj < 2 ^ k" by (rule home_less[OF k])
  let ?d = "(i + (2 ^ k - home k obj)) mod 2 ^ k"
  have "slot k obj ?d = (home k obj + (i + (2 ^ k - home k obj))) mod 2 ^ k"
    unfolding slot_def by (simp add: mod_add_right_eq)
  also have "home k obj + (i + (2 ^ k - home k obj)) = i + 2 ^ k" using h by simp
  finally have "slot k obj ?d = i" using i by simp
  then show ?thesis by (intro exI[of _ ?d]) simp
qed

section \<open>The map that a table represents\<close>

definition table_rep :: "nat \<Rightarrow> position_table \<Rightarrow> (mlvalue \<rightharpoonup> uintnat) \<Rightarrow> bool" where
  "table_rep k t M \<longleftrightarrow> table_dims k t \<and> finite (dom M) \<and> card (dom M) < 2 ^ k \<and>
     (\<forall>i<2 ^ k. present_at t i \<longrightarrow> (\<exists>e. entry_at t i = Some e \<and> M (op_obj e) = Some (op_pos e))) \<and>
     (\<forall>i<2 ^ k. \<forall>j<2 ^ k. present_at t i \<longrightarrow> present_at t j \<longrightarrow>
        op_obj (the (entry_at t i)) = op_obj (the (entry_at t j)) \<longrightarrow> i = j) \<and>
     (\<forall>obj p. M obj = Some p \<longrightarrow>
        (\<exists>d. present_at t (slot k obj d) \<and> entry_at t (slot k obj d) = Some \<lparr>op_obj = obj, op_pos = p\<rparr> \<and>
             (\<forall>d'<d. present_at t (slot k obj d'))))"

lemma table_rep_dims: "table_rep k t M \<Longrightarrow> table_dims k t"
  by (simp add: table_rep_def)

lemma table_rep_entry:
  assumes "table_rep k t M" "present_at t i" "i < 2 ^ k"
  obtains e where "entry_at t i = Some e" "M (op_obj e) = Some (op_pos e)"
  using assms unfolding table_rep_def by blast

lemma table_rep_inj:
  assumes "table_rep k t M" "i < 2 ^ k" "j < 2 ^ k" "present_at t i" "present_at t j"
    "op_obj (the (entry_at t i)) = op_obj (the (entry_at t j))"
  shows "i = j"
  using assms unfolding table_rep_def by blast

lemma table_rep_chain:
  assumes "table_rep k t M" "M obj = Some p"
  shows "\<exists>d. present_at t (slot k obj d) \<and> entry_at t (slot k obj d) = Some \<lparr>op_obj = obj, op_pos = p\<rparr> \<and>
    (\<forall>d'<d. present_at t (slot k obj d'))"
  using assms unfolding table_rep_def by blast

lemma free_slot_exists:
  assumes "table_rep k t M"
  shows "\<exists>d. \<not> present_at t (slot k obj d)"
proof -
  let ?P = "{i. i < 2 ^ k \<and> present_at t i}"
  have "inj_on (\<lambda>i. op_obj (the (entry_at t i))) ?P" using assms by (auto simp: table_rep_def inj_on_def)
  moreover have "(\<lambda>i. op_obj (the (entry_at t i))) ` ?P \<subseteq> dom M" using assms by (fastforce simp: table_rep_def)
  ultimately have "card ?P \<le> card (dom M)" using assms by (intro card_inj_on_le) (auto simp: table_rep_def)
  then have "card ?P < card {..<(2::nat) ^ k}" using assms by (simp add: table_rep_def)
  then have "\<not> {..<(2::nat) ^ k} \<subseteq> ?P" using card_mono[of ?P "{..<(2::nat) ^ k}"] by auto
  then obtain i where i: "i < 2 ^ k" "\<not> present_at t i" by auto
  have "k \<le> 60" using assms by (simp add: table_rep_def table_dims_def)
  then obtain d where "slot k obj d = i" using slot_surj[OF i(1)] by blast
  then show ?thesis using i(2) by auto
qed

text \<open>Where the search stops: at the first slot that is free or holds the object.\<close>

definition stops_at :: "nat \<Rightarrow> position_table \<Rightarrow> mlvalue \<Rightarrow> nat \<Rightarrow> bool" where
  "stops_at k t obj d \<longleftrightarrow> \<not> present_at t (slot k obj d) \<or> op_obj (the (entry_at t (slot k obj d))) = obj"

lemma probe_stops:
  assumes rep: "table_rep k t M" and "stops_at k t obj d" "\<And>d'. d0 \<le> d' \<Longrightarrow> d' < d \<Longrightarrow> \<not> stops_at k t obj d'" "d0 \<le> d"
  shows "probe t obj (of_nat (slot k obj d0)) =
    Some (if present_at t (slot k obj d) then map_option op_pos (entry_at t (slot k obj d)) else None, of_nat (slot k obj d))"
  using assms(2-4)
proof (induction "d - d0" arbitrary: d0)
  case 0
  then have d: "d0 = d" by simp
  note dims = table_rep_dims[OF rep]
  show ?case
  proof (cases "present_at t (slot k obj d)")
    case True
    then obtain e where "entry_at t (slot k obj d) = Some e" by (rule table_rep_entry[OF rep]) simp_all
    then show ?thesis
      using True 0(2) unfolding d probe.simps[of t obj "of_nat (slot k obj d)"]
      by (simp add: bitvect_test_present[OF dims] entry_get_at[OF dims] stops_at_def)
  next
    case False
    then show ?thesis
      unfolding d probe.simps[of t obj "of_nat (slot k obj d)"] by (simp add: bitvect_test_present[OF dims])
  qed
next
  case (Suc x)
  have dims: "table_dims k t" "k \<le> 60" "pt_mask t = 2 ^ k - 1" using rep by (auto simp: table_rep_def table_dims_def)
  have "\<not> stops_at k t obj d0" using Suc by simp
  then have pr: "present_at t (slot k obj d0)" "op_obj (the (entry_at t (slot k obj d0))) \<noteq> obj" by (auto simp: stops_at_def)
  obtain e where e: "entry_at t (slot k obj d0) = Some e" by (rule table_rep_entry[OF rep pr(1)]) simp_all
  have "probe t obj (of_nat (slot k obj d0)) = probe t obj (of_nat (slot k obj (Suc d0)))"
    using e pr unfolding probe.simps[of t obj "of_nat (slot k obj d0)"]
    by (simp add: bitvect_test_present[OF dims(1)] entry_get_at[OF dims(1)] dims(3) next_slot[OF dims(2)])
  then show ?case using Suc(1)[of "Suc d0"] Suc(2-5) by auto
qed

lemma extern_lookup_position_rep:
  assumes rep: "table_rep k t M"
  obtains d where "extern_lookup_position t obj = Some (M obj, of_nat (slot k obj d))"
    "M obj = None \<Longrightarrow> \<not> present_at t (slot k obj d)" "\<And>d'. M obj = None \<Longrightarrow> d' < d \<Longrightarrow> present_at t (slot k obj d')"
proof -
  define d where "d = (LEAST d. stops_at k t obj d)"
  have ex: "\<exists>d. stops_at k t obj d" using free_slot_exists[OF rep] by (auto simp: stops_at_def)
  have stop: "stops_at k t obj d" unfolding d_def using ex by (rule LeastI_ex)
  have before: "\<not> stops_at k t obj d'" if "d' < d" for d' using that unfolding d_def by (rule not_less_Least)
  have dims: "k \<le> 60" "pt_shift t = 64 - k" using rep by (simp_all add: table_rep_def table_dims_def)
  have look: "extern_lookup_position t obj =
      Some (if present_at t (slot k obj d) then map_option op_pos (entry_at t (slot k obj d)) else None, of_nat (slot k obj d))"
    unfolding extern_lookup_position_def dims(2) Hash_pos_slot[OF dims(1)] using stop before by (intro probe_stops[OF rep]) auto
  show ?thesis
  proof (cases "present_at t (slot k obj d)")
    case True
    then obtain e where e: "entry_at t (slot k obj d) = Some e" "M (op_obj e) = Some (op_pos e)"
      by (rule table_rep_entry[OF rep]) simp_all
    moreover have "op_obj e = obj" using stop True e by (simp add: stops_at_def)
    ultimately show ?thesis using that[of d] look True by simp
  next
    case False
    have "M obj = None"
    proof (rule ccontr)
      assume "M obj \<noteq> None"
      then obtain p where p: "M obj = Some p" by blast
      obtain d1 where d1: "present_at t (slot k obj d1)" "entry_at t (slot k obj d1) = Some \<lparr>op_obj = obj, op_pos = p\<rparr>"
        "\<And>d'. d' < d1 \<Longrightarrow> present_at t (slot k obj d')" using table_rep_chain[OF rep p] by blast
      have "stops_at k t obj d1" using d1 by (simp add: stops_at_def)
      then have "d \<le> d1" using before by (meson not_le)
      then show False using d1 False by (cases "d = d1") auto
    qed
    then show ?thesis using that[of d] look False before by (auto simp: stops_at_def)
  qed
qed

text \<open>Occupying the first free slot of an object that is not in the table.\<close>

lemma occupy_rep:
  assumes rep: "table_rep k t M" and new: "M obj = None" "card (dom M) + 1 < 2 ^ k"
    and d: "\<not> present_at t (slot k obj d)" "\<And>d'. d' < d \<Longrightarrow> present_at t (slot k obj d')"
  obtains t' where "occupy t (of_nat (slot k obj d)) \<lparr>op_obj = obj, op_pos = p\<rparr> = Some t'" "table_rep k t' (M(obj \<mapsto> p))"
proof -
  let ?s = "slot k obj d" and ?e = "\<lparr>op_obj = obj, op_pos = p\<rparr>" and ?M = "M(obj \<mapsto> p)"
  note dims = table_rep_dims[OF rep]
  obtain t' where t': "occupy t (of_nat ?s) ?e = Some t'" "table_dims k t'"
    "\<And>j. j < 2 ^ k \<Longrightarrow> present_at t' j \<longleftrightarrow> j = ?s \<or> present_at t j"
    "\<And>j. j < 2 ^ k \<Longrightarrow> entry_at t' j = (if j = ?s then Some ?e else entry_at t j)"
    using occupy_ok[OF dims, of ?s ?e] by auto
  have ent: "\<exists>e. entry_at t' i = Some e \<and> ?M (op_obj e) = Some (op_pos e) \<and> (i \<noteq> ?s \<longrightarrow> op_obj e \<noteq> obj)"
    if i: "i < 2 ^ k" "present_at t' i" for i
  proof (cases "i = ?s")
    case False
    then obtain e where "entry_at t i = Some e" "M (op_obj e) = Some (op_pos e)"
      using i t'(3)[OF i(1)] table_rep_entry[OF rep _ i(1)] by metis
    then show ?thesis using False new(1) t'(4)[OF i(1)] by auto
  qed (use t'(4) i in auto)
  have inj: "i = j" if ij: "i < 2 ^ k" "j < 2 ^ k" "present_at t' i" "present_at t' j"
      "op_obj (the (entry_at t' i)) = op_obj (the (entry_at t' j))" for i j
  proof (cases "i = ?s \<or> j = ?s")
    case True
    then show ?thesis using ent[OF ij(1,3)] ent[OF ij(2,4)] ij(5) t'(4)[OF ij(1)] t'(4)[OF ij(2)] by auto
  next
    case False
    then show ?thesis using ij t'(3,4) rep by (auto simp: table_rep_def)
  qed
  have chain: "\<exists>d1. present_at t' (slot k obj' d1) \<and> entry_at t' (slot k obj' d1) = Some \<lparr>op_obj = obj', op_pos = p'\<rparr> \<and>
      (\<forall>d'<d1. present_at t' (slot k obj' d'))" if "?M obj' = Some p'" for obj' p'
  proof (cases "obj' = obj")
    case True
    then show ?thesis using that d(2) t'(3,4) by (intro exI[of _ d]) simp
  next
    case False
    then have p': "M obj' = Some p'" using that by simp
    obtain d1 where d1: "present_at t (slot k obj' d1)" "entry_at t (slot k obj' d1) = Some \<lparr>op_obj = obj', op_pos = p'\<rparr>"
      "\<And>d'. d' < d1 \<Longrightarrow> present_at t (slot k obj' d')" using table_rep_chain[OF rep p'] by blast
    then show ?thesis using d(1) t'(3,4) by (intro exI[of _ d1]) auto
  qed
  have fin: "finite (dom M)" using rep by (simp add: table_rep_def)
  then have "card (dom ?M) < 2 ^ k" using new by (simp add: card_insert_if)
  moreover have "finite (dom ?M)" using fin by simp
  moreover have "\<exists>e. entry_at t' i = Some e \<and> ?M (op_obj e) = Some (op_pos e)" if "i < 2 ^ k" "present_at t' i" for i
    using ent[OF that] by blast
  ultimately have "table_rep k t' ?M" unfolding table_rep_def using t'(2) inj chain by blast
  then show ?thesis using that t'(1) by blast
qed

section \<open>Growing\<close>

lemma free_slot_first:
  assumes rep: "table_rep k t M" and "\<not> present_at t (slot k obj d)" "\<And>d'. d0 \<le> d' \<Longrightarrow> d' < d \<Longrightarrow> present_at t (slot k obj d')" "d0 \<le> d"
  shows "free_slot t (of_nat (slot k obj d0)) = Some (of_nat (slot k obj d))"
  using assms(2-4)
proof (induction "d - d0" arbitrary: d0)
  case 0
  then have d: "d0 = d" by simp
  show ?case
    using 0(2) unfolding d free_slot.simps[of t "of_nat (slot k obj d)"] by (simp add: bitvect_test_present[OF table_rep_dims[OF rep]])
next
  case (Suc x)
  have dims: "k \<le> 60" "pt_mask t = 2 ^ k - 1" using rep by (auto simp: table_rep_def table_dims_def)
  have "free_slot t (of_nat (slot k obj d0)) = free_slot t (of_nat (slot k obj (Suc d0)))"
    using Suc unfolding free_slot.simps[of t "of_nat (slot k obj d0)"]
    by (simp add: bitvect_test_present[OF table_rep_dims[OF rep]] dims(2) next_slot[OF dims(1)])
  then show ?case using Suc(1)[of "Suc d0"] Suc(2-5) by auto
qed

lemma insert_new:
  assumes rep: "table_rep k t M" and new: "M obj = None" "card (dom M) + 1 < 2 ^ k"
  obtains h t' where "free_slot t (Hash_pos obj (pt_shift t)) = Some h" "occupy t h \<lparr>op_obj = obj, op_pos = p\<rparr> = Some t'"
    "table_rep k t' (M(obj \<mapsto> p))"
proof -
  define d where "d = (LEAST d. \<not> present_at t (slot k obj d))"
  have d: "\<not> present_at t (slot k obj d)" unfolding d_def by (rule LeastI_ex[OF free_slot_exists[OF rep]])
  have before: "present_at t (slot k obj d')" if "d' < d" for d' using not_less_Least[OF that[unfolded d_def]] by simp
  have dims: "k \<le> 60" "pt_shift t = 64 - k" using rep by (simp_all add: table_rep_def table_dims_def)
  have "free_slot t (Hash_pos obj (pt_shift t)) = Some (of_nat (slot k obj d))"
    unfolding dims(2) Hash_pos_slot[OF dims(1)] using d before by (intro free_slot_first[OF rep]) auto
  moreover obtain t' where "occupy t (of_nat (slot k obj d)) \<lparr>op_obj = obj, op_pos = p\<rparr> = Some t'" "table_rep k t' (M(obj \<mapsto> p))"
    using occupy_rep[OF rep new d before] .
  ultimately show ?thesis using that by blast
qed

lemma map_le_updD:
  assumes "N x = None" "N(x \<mapsto> y) \<subseteq>\<^sub>m N'"
  shows "N \<subseteq>\<^sub>m N' \<and> N' x = Some y"
proof -
  have "N a = N' a" if "a \<in> dom N" for a using assms that unfolding map_le_def by (metis domI domIff fun_upd_apply)
  moreover have "N' x = Some y" using assms(2) unfolding map_le_def by (metis domI fun_upd_same)
  ultimately show ?thesis by (simp add: map_le_def)
qed

lemma reinsert_rep:
  assumes old: "table_rep k old M" and card: "card (dom M) < 2 ^ k'"
  shows "table_rep k' t N \<Longrightarrow> set is \<subseteq> {..<2 ^ k} \<Longrightarrow> distinct is \<Longrightarrow> N \<subseteq>\<^sub>m M \<Longrightarrow>
    (\<forall>i\<in>set is. present_at old i \<longrightarrow> N (op_obj (the (entry_at old i))) = None) \<Longrightarrow>
    \<exists>t' N'. reinsert old t is = Some t' \<and> table_rep k' t' N' \<and> N \<subseteq>\<^sub>m N' \<and> N' \<subseteq>\<^sub>m M \<and>
      (\<forall>i\<in>set is. present_at old i \<longrightarrow> N' (op_obj (the (entry_at old i))) \<noteq> None)"
proof (induction "is" arbitrary: t N)
  case (Cons i "is")
  have i: "i < 2 ^ k" using Cons.prems by simp
  note test = bitvect_test_present[OF table_rep_dims[OF old] i]
  show ?case
  proof (cases "present_at old i")
    case False
    then show ?thesis using Cons test by simp
  next
    case True
    obtain e where e: "entry_at old i = Some e" "M (op_obj e) = Some (op_pos e)" by (rule table_rep_entry[OF old True i])
    have new: "N (op_obj e) = None" using Cons.prems(5) True e by simp
    have finM: "finite (dom M)" using old by (simp add: table_rep_def)
    have "insert (op_obj e) (dom N) \<subseteq> dom M" using map_le_implies_dom_le[OF Cons.prems(4)] e(2) by auto
    then have "card (insert (op_obj e) (dom N)) \<le> card (dom M)" using finM by (rule card_mono[rotated])
    moreover have "finite (dom N)" using Cons.prems(1) by (simp add: table_rep_def)
    ultimately have "card (dom N) + 1 < 2 ^ k'" using new card by (simp add: domIff)
    then obtain h t1 where t1: "free_slot t (Hash_pos (op_obj e) (pt_shift t)) = Some h"
        "occupy t h \<lparr>op_obj = op_obj e, op_pos = op_pos e\<rparr> = Some t1" "table_rep k' t1 (N(op_obj e \<mapsto> op_pos e))"
      by (rule insert_new[OF Cons.prems(1) new])
    have "occupy t h e = Some t1" using t1(2) by (cases e) simp
    then have "reinsert old t (i # is) = reinsert old t1 is"
      using test True e t1(1) entry_get_at[OF table_rep_dims[OF old] i] by simp
    moreover have others: "op_obj (the (entry_at old j)) \<noteq> op_obj e" if "j \<in> set is" "present_at old j" for j
    proof
      assume "op_obj (the (entry_at old j)) = op_obj e"
      then have "j = i" using that Cons.prems(2) True i e(1) by (intro table_rep_inj[OF old]) auto
      then show False using that Cons.prems(3) by simp
    qed
    moreover have "N(op_obj e \<mapsto> op_pos e) \<subseteq>\<^sub>m M" using Cons.prems(4) e(2) by (auto simp: map_le_def)
    ultimately obtain t' N' where "reinsert old t (i # is) = Some t'" "table_rep k' t' N'" "N(op_obj e \<mapsto> op_pos e) \<subseteq>\<^sub>m N'"
      "N' \<subseteq>\<^sub>m M" "\<forall>i\<in>set is. present_at old i \<longrightarrow> N' (op_obj (the (entry_at old i))) \<noteq> None"
      using Cons.IH[OF t1(3)] Cons.prems(2,3,5) by fastforce
    moreover from this have "N' (op_obj e) \<noteq> None" "N \<subseteq>\<^sub>m N'" using map_le_updD[of N "op_obj e"] new by auto
    ultimately show ?thesis using e(1) by (intro exI[of _ t'] exI[of _ N']) simp
  qed
qed auto

lemma reinsert_all:
  assumes old: "table_rep k old M" and card: "card (dom M) < 2 ^ k'" and k': "6 \<le> k'" "k' \<le> 60"
  shows "\<exists>t'. reinsert old (empty_table (64 - k') (2 ^ k')) [0..<2 ^ k] = Some t' \<and> table_rep k' t' M"
proof -
  have "table_rep k' (empty_table (64 - k') (2 ^ k')) Map.empty"
    using empty_table_dims[OF k'] by (simp add: table_rep_def)
  then obtain t' N' where t': "reinsert old (empty_table (64 - k') (2 ^ k')) [0..<2 ^ k] = Some t'" "table_rep k' t' N'"
    "N' \<subseteq>\<^sub>m M" "\<forall>i\<in>set [0..<2 ^ k]. present_at old i \<longrightarrow> N' (op_obj (the (entry_at old i))) \<noteq> None"
    using reinsert_rep[OF old card, of "empty_table (64 - k') (2 ^ k')" Map.empty "[0..<2 ^ k]"] by (auto simp: subset_iff)
  have "dom M \<subseteq> dom N'"
  proof
    fix obj assume "obj \<in> dom M"
    then obtain p where p: "M obj = Some p" by blast
    obtain d where "present_at old (slot k obj d)" "entry_at old (slot k obj d) = Some \<lparr>op_obj = obj, op_pos = p\<rparr>"
      using table_rep_chain[OF old p] by blast
    moreover have "slot k obj d \<in> set [0..<2 ^ k]" by simp
    ultimately show "obj \<in> dom N'" using t'(4) by fastforce
  qed
  then have "N' = M" using t'(3) map_le_implies_dom_le[OF t'(3)] by (intro map_le_antisym) (auto simp: map_le_def)
  then show ?thesis using t'(1,2) by blast
qed

lemma unat_Threshold: "k \<le> 60 \<Longrightarrow> unat (Threshold (2 ^ k)) = 2 * 2 ^ k div 3"
proof -
  assume k: "k \<le> 60"
  have "2 ^ k \<le> (2 ^ 60 :: nat)" using k by (intro power_increasing) auto
  then have "unat (2 ^ k * 2 :: uintnat) = 2 * 2 ^ k" using unat_exp[OF k] by (simp add: unat_word_ariths mult.commute)
  then show ?thesis by (simp add: Threshold_def unat_div)
qed

lemma resize_rep:
  assumes old: "table_rep k old M"
  shows "\<exists>r. extern_resize_position_table alloc_ok old = Some r \<and>
    (case r of Inl e \<Rightarrow> e = Out_of_memory | Inr t' \<Rightarrow> \<exists>k'>k. table_rep k' t' M)"
proof -
  have dims: "6 \<le> k" "k \<le> 60" "pt_size old = 2 ^ k" "pt_shift old = 64 - k" using old by (simp_all add: table_rep_def table_dims_def)
  define j where "j = (if pt_size old < 1000000 then 3 else 1 :: nat)"
  have j: "1 \<le> j" "j \<le> 3" by (simp_all add: j_def)
  have "2 ^ (k + j) < (2 ^ 64 :: nat)" using dims j by (intro power_strict_increasing) auto
  then have u: "unat (2 ^ (k + j) :: uintnat) = 2 ^ (k + j)"
  proof -
    assume *: "2 ^ (k + j) < (2 ^ 64 :: nat)"
    have "unat (of_nat (2 ^ (k + j)) :: uintnat) = 2 ^ (k + j)" by (subst unat_of_nat) (use * in simp)
    then show ?thesis by simp
  qed
  have new: "(if pt_size old < 1000000 then 8 * pt_size old else 2 * pt_size old) = 2 ^ (k + j)"
    "(if pt_size old < 1000000 then pt_shift old - 3 else pt_shift old - 1) = 64 - (k + j)"
    using dims by (auto simp: j_def power_add)
  let ?n = "2 ^ (k + j) :: uintnat"
  define oom where "oom \<longleftrightarrow> ?n = 0 \<or> unat ?n * 16 \<ge> 2 ^ 64 \<or> \<not> alloc_ok (unat ?n * 16) \<or> \<not> alloc_ok (unat (Bitvect_size ?n) * 8)"
  have "unat (pt_size old) = 2 ^ k" using dims unat_exp by simp
  then have eq: "extern_resize_position_table alloc_ok old =
      (if oom then Some (Inl Out_of_memory) else map_option Inr (reinsert old (empty_table (64 - (k + j)) ?n) [0..<2 ^ k]))"
    unfolding extern_resize_position_table_def Let_def new oom_def by (simp only:)
  show ?thesis
  proof (cases oom)
    case True
    then show ?thesis unfolding eq by simp
  next
    case False
    then have "2 ^ (k + j + 4) < (2 ^ 64 :: nat)" unfolding oom_def u by (simp add: power_add)
    then have "k + j + 4 < 64" by (rule power_less_imp_less_exp[rotated]) simp
    then have k': "k + j \<le> 60" by simp
    have "card (dom M) < 2 ^ k" using old by (simp add: table_rep_def)
    also have "(2 ^ k :: nat) \<le> 2 ^ (k + j)" by (intro power_increasing) auto
    finally obtain t' where "reinsert old (empty_table (64 - (k + j)) ?n) [0..<2 ^ k] = Some t'" "table_rep (k + j) t' M"
      using reinsert_all[OF old _ _ k'] dims by auto
    then show ?thesis using False j(1) unfolding eq by (intro exI[of _ "Inr t'"]) (auto intro!: exI[of _ "k + j"])
  qed
qed

section \<open>The table as a recorder of positions\<close>

text \<open>The table and the counter of objects: the counter is the number of entries, below the threshold.\<close>

definition recorded :: "position_table \<times> uintnat \<Rightarrow> (mlvalue \<rightharpoonup> uintnat) \<Rightarrow> bool" where
  "recorded tc M \<longleftrightarrow> (\<exists>k. table_rep k (fst tc) M \<and> card (dom M) = unat (snd tc) \<and> unat (snd tc) < 2 * 2 ^ k div 3)"

lemma recorded_init: "recorded (extern_init_position_table, 0) Map.empty"
proof -
  have "table_rep 8 (empty_table (64 - 8) (2 ^ 8)) Map.empty" using empty_table_dims[of 8] by (simp add: table_rep_def)
  then show ?thesis
    unfolding recorded_def extern_init_position_table_def POS_TABLE_INIT_SIZE_def by (intro exI[of _ 8]) simp
qed

lemma recorded_lookup:
  assumes "recorded tc M"
  shows "\<exists>h. extern_lookup_position (fst tc) obj = Some (M obj, h)"
  using assms extern_lookup_position_rep unfolding recorded_def by metis

text \<open>What recording an object that a search did not find does to the arrays.\<close>

lemma recorded_occupy:
  assumes k: "table_rep k t M" "card (dom M) = unat n" "unat n < 2 * 2 ^ k div 3"
    and look: "extern_lookup_position t obj = Some (None, h)"
  shows "\<exists>t'. occupy t h \<lparr>op_obj = obj, op_pos = p\<rparr> = Some t' \<and> table_rep k t' (M(obj \<mapsto> p)) \<and>
    card (dom (M(obj \<mapsto> p))) = unat n + 1 \<and> unat (n + 1) = unat n + 1 \<and>
    (n + 1 \<ge> pt_threshold t' \<longleftrightarrow> 2 * 2 ^ k div 3 \<le> unat n + 1)"
proof -
  have dims: "k \<le> 60" "6 \<le> k" using k(1) by (simp_all add: table_rep_def table_dims_def)
  obtain d where d: "extern_lookup_position t obj = Some (M obj, of_nat (slot k obj d))"
    "M obj = None \<Longrightarrow> \<not> present_at t (slot k obj d)" "\<And>d'. M obj = None \<Longrightarrow> d' < d \<Longrightarrow> present_at t (slot k obj d')"
    using extern_lookup_position_rep[OF k(1), of obj] by metis
  have new: "M obj = None" "h = of_nat (slot k obj d)" using look d(1) by simp_all
  have room: "card (dom M) + 1 < 2 ^ k"
  proof -
    have "64 \<le> (2 ^ k :: nat)" using power_increasing[OF dims(2), of "2::nat"] by simp
    then show ?thesis using k(2,3) by linarith
  qed
  obtain t' where t': "occupy t h \<lparr>op_obj = obj, op_pos = p\<rparr> = Some t'" "table_rep k t' (M(obj \<mapsto> p))"
    using occupy_rep[OF k(1) new(1) room d(2)[OF new(1)] d(3)[OF new(1)]] unfolding new(2) by blast
  have "finite (dom M)" using k(1) by (simp add: table_rep_def)
  then have card: "card (dom (M(obj \<mapsto> p))) = unat n + 1" using k(2) new(1) by (simp add: card_insert_if domIff)
  have "2 ^ k \<le> (2 ^ 60 :: nat)" using dims by (intro power_increasing) auto
  then have n1: "unat (n + 1) = unat n + 1" using k(3) by (simp add: unat_word_ariths)
  have thr: "n + 1 \<ge> pt_threshold t' \<longleftrightarrow> 2 * 2 ^ k div 3 \<le> unat n + 1"
    using t'(2) unat_Threshold[OF dims(1)] n1 by (simp add: table_rep_def table_dims_def word_le_nat_alt)
  show ?thesis using t' card n1 thr by blast
qed

lemma recorded_record:
  assumes "recorded tc M" and look: "extern_lookup_position (fst tc) obj = Some (None, h)"
  shows "\<exists>r. record_entry alloc_ok tc obj h p = Some r \<and>
    (case r of Inl e \<Rightarrow> e = Out_of_memory | Inr tc' \<Rightarrow> recorded tc' (M(obj \<mapsto> p)) \<and> snd tc' = snd tc + 1)"
proof -
  obtain t n where tc: "tc = (t, n)" by (cases tc)
  obtain k where k: "table_rep k t M" "card (dom M) = unat n" "unat n < 2 * 2 ^ k div 3"
    using assms(1) by (auto simp: recorded_def tc)
  obtain t' where t': "occupy t h \<lparr>op_obj = obj, op_pos = p\<rparr> = Some t'" "table_rep k t' (M(obj \<mapsto> p))"
    and card: "card (dom (M(obj \<mapsto> p))) = unat n + 1" and n1: "unat (n + 1) = unat n + 1"
    and thr: "n + 1 \<ge> pt_threshold t' \<longleftrightarrow> 2 * 2 ^ k div 3 \<le> unat n + 1"
    using recorded_occupy[OF k look[unfolded tc fst_conv], of p] by blast
  show ?thesis
  proof (cases "n + 1 \<ge> pt_threshold t'")
    case False
    then show ?thesis using t' card n1 thr by (auto simp: record_entry_def tc recorded_def intro!: exI[of _ k])
  next
    case True
    obtain r where r: "extern_resize_position_table alloc_ok t' = Some r"
      "case r of Inl e \<Rightarrow> e = Out_of_memory | Inr t'' \<Rightarrow> \<exists>k'>k. table_rep k' t'' (M(obj \<mapsto> p))"
      using resize_rep[OF t'(2)] by blast
    have "unat n + 1 < 2 * 2 ^ k' div 3" if "k < k'" for k'
    proof -
      have "(2::nat) ^ Suc k \<le> 2 ^ k'" using that by (intro power_increasing) auto
      moreover have "64 \<le> (2 ^ k :: nat)"
        using k(1) power_increasing[of 6 k "2::nat"] by (simp add: table_rep_def table_dims_def)
      ultimately show ?thesis using k(3) by simp
    qed
    then show ?thesis
      using True t'(1) r card n1 by (cases r) (auto simp: record_entry_def tc recorded_def)
  qed
qed

text \<open>When every allocation succeeds, only the size of the address space bounds the table.\<close>

lemma resize_not_oom:
  assumes "table_rep k old M" "k \<le> 56" "\<forall>n. alloc_ok n"
  shows "extern_resize_position_table alloc_ok old \<noteq> Some (Inl e)"
proof -
  have d: "pt_size old = 2 ^ k" using assms(1) by (simp add: table_rep_def table_dims_def)
  define j where "j = (if pt_size old < 1000000 then 3 else 1 :: nat)"
  have new: "(if pt_size old < 1000000 then 8 * pt_size old else 2 * pt_size old) = 2 ^ (k + j)"
    by (simp add: j_def d power_add)
  have "j \<le> 3" by (simp add: j_def)
  have le: "(2 :: nat) ^ (k + j) \<le> 2 ^ 59" using assms(2) \<open>j \<le> 3\<close> by (intro power_increasing) auto
  have u: "unat (2 ^ (k + j) :: uintnat) = 2 ^ (k + j)" using unat_exp[of "k + j"] assms(2) \<open>j \<le> 3\<close> by simp
  then have "(2 ^ (k + j) :: uintnat) \<noteq> 0" by (metis unat_0 power_not_zero zero_neq_numeral)
  then show ?thesis
    unfolding extern_resize_position_table_def Let_def new using le assms(3) by (simp add: u)
qed

lemma recorded_record_not_oom:
  assumes "recorded tc M" "extern_lookup_position (fst tc) obj = Some (None, h)"
    and "\<forall>n. alloc_ok n" "unat (snd tc) < 2 ^ 55"
  shows "record_entry alloc_ok tc obj h p \<noteq> Some (Inl e)"
proof
  assume e: "record_entry alloc_ok tc obj h p = Some (Inl e)"
  obtain t n where tc: "tc = (t, n)" by (cases tc)
  obtain k where k: "table_rep k t M" "card (dom M) = unat n" "unat n < 2 * 2 ^ k div 3"
    using assms(1) by (auto simp: recorded_def tc)
  obtain t' where t': "occupy t h \<lparr>op_obj = obj, op_pos = p\<rparr> = Some t'" "table_rep k t' (M(obj \<mapsto> p))"
    using recorded_occupy[OF k assms(2)[unfolded tc fst_conv]] by blast
  have dims: "k \<le> 60" using k(1) by (simp add: table_rep_def table_dims_def)
  have n1: "unat (n + 1) = unat n + 1" using assms(4) by (simp add: tc unat_word_ariths)
  have thr: "n + 1 \<ge> pt_threshold t'" using e t'(1) by (auto simp: record_entry_def tc Let_def split: if_splits)
  obtain z where "extern_resize_position_table alloc_ok t' = Some z" "map_result (\<lambda>t''. (t'', n + 1)) z = Inl e"
    using e t'(1) thr by (auto simp: record_entry_def tc Let_def)
  then have oom: "extern_resize_position_table alloc_ok t' = Some (Inl e)" by (cases z) simp_all
  have "2 * 2 ^ k div 3 \<le> unat n + 1"
    using thr t'(2) unat_Threshold[OF dims] n1 by (simp add: table_rep_def table_dims_def word_le_nat_alt)
  then have "(2 :: nat) ^ k < 2 ^ 57" using assms(4) by (simp add: tc)
  then have "k \<le> 56" using power_less_imp_less_exp[of "2::nat" k 57] by simp
  then show False using resize_not_oom[OF t'(2) _ assms(3)] oom by blast
qed

section \<open>Numbering\<close>

text \<open>The map that numbers the elements of a list.\<close>

definition index_of :: "'k list \<Rightarrow> 'k \<rightharpoonup> uintnat" where
  "index_of objs = map_of (zip objs (map of_nat [0..<length objs]))"

lemma index_of_None: "index_of objs x = None \<longleftrightarrow> x \<notin> set objs"
  by (simp add: index_of_def)

lemma index_of_Some: "index_of objs x = Some p \<Longrightarrow> \<exists>i<length objs. objs ! i = x \<and> p = of_nat i"
  by (auto simp: index_of_def set_zip dest!: map_of_SomeD) blast

lemma index_of_snoc: "x \<notin> set objs \<Longrightarrow> index_of (objs @ [x]) = (index_of objs)(x \<mapsto> of_nat (length objs))"
proof -
  assume x: "x \<notin> set objs"
  have "index_of (objs @ [x]) = [x \<mapsto> of_nat (length objs)] ++ index_of objs" by (simp add: index_of_def)
  also have "\<dots> = index_of objs ++ [x \<mapsto> of_nat (length objs)]"
    using x index_of_None[of objs x] by (intro map_add_comm) auto
  finally show ?thesis by simp
qed

text \<open>What marshalling needs of the table: a search, and the recording of what a search did not find.\<close>

locale recorder =
  fixes ok :: "'t \<Rightarrow> ('k \<rightharpoonup> uintnat) \<Rightarrow> bool"
    and lookup :: "'t \<Rightarrow> 'k \<Rightarrow> (uintnat option \<times> uintnat) option"
    and record_new :: "'t \<Rightarrow> 'k \<Rightarrow> uintnat \<Rightarrow> uintnat \<Rightarrow> 't result option"
  assumes lookup_ok: "ok t M \<Longrightarrow> \<exists>h. lookup t x = Some (M x, h)"
    and record_ok: "ok t M \<Longrightarrow> lookup t x = Some (None, h) \<Longrightarrow>
      \<exists>r. record_new t x h p = Some r \<and> (case r of Inl e \<Rightarrow> e = Out_of_memory | Inr t' \<Rightarrow> ok t' (M(x \<mapsto> p)))"
begin

lemma lookup_numbered:
  assumes "ok t (index_of objs)"
  obtains (seen) i h where "i < length objs" "objs ! i = x" "lookup t x = Some (Some (of_nat i), h)"
    | (unseen) h where "x \<notin> set objs" "lookup t x = Some (None, h)"
proof (cases "index_of objs x")
  case None
  then show ?thesis using lookup_ok[OF assms, of x] unseen by (auto simp: index_of_None)
next
  case (Some p)
  then show ?thesis using lookup_ok[OF assms, of x] index_of_Some[OF Some] seen by auto
qed

lemma record_numbered:
  assumes "ok t (index_of objs)" "lookup t x = Some (None, h)"
  shows "\<exists>r. record_new t x h (of_nat (length objs)) = Some r \<and>
    (case r of Inl e \<Rightarrow> e = Out_of_memory | Inr t' \<Rightarrow> ok t' (index_of (objs @ [x])))"
proof -
  have x: "x \<notin> set objs" using lookup_ok[OF assms(1), of x] assms(2) index_of_None[of objs x] by auto
  show ?thesis unfolding index_of_snoc[OF x] by (rule record_ok[OF assms])
qed

end

interpretation position: recorder recorded "\<lambda>tc. extern_lookup_position (fst tc)" "record_entry alloc_ok" for alloc_ok
proof unfold_locales
  show "\<exists>h. extern_lookup_position (fst tc) x = Some (M x, h)" if "recorded tc M" for tc M x
    using recorded_lookup[OF that] .
  show "\<exists>r. record_entry alloc_ok tc x h p = Some r \<and>
      (case r of Inl e \<Rightarrow> e = Out_of_memory | Inr tc' \<Rightarrow> recorded tc' (M(x \<mapsto> p)))"
    if "recorded tc M" "extern_lookup_position (fst tc) x = Some (None, h)" for tc M x h p
    using recorded_record[OF that, of alloc_ok p] by (auto split: sum.splits)
qed

section \<open>Recording a sequence of objects\<close>

text \<open>The objects met by a traversal: \<open>extern_record_location\<close>, whose position is the counter, for each that
  the search does not find.\<close>

fun record_objects ::
  "(nat \<Rightarrow> bool) \<Rightarrow> position_table \<times> uintnat \<Rightarrow> mlvalue list \<Rightarrow> (position_table \<times> uintnat) result option" where
  "record_objects alloc_ok tc [] = Some (Inr tc)"
| "record_objects alloc_ok tc (x # xs) =
     Option.bind (extern_lookup_position (fst tc) x) (\<lambda>(pos, h).
       case pos of
         Some p \<Rightarrow> record_objects alloc_ok tc xs
       | None \<Rightarrow>
           Option.bind (record_entry alloc_ok tc x h (snd tc)) (\<lambda>r.
             case r of Inl e \<Rightarrow> Some (Inl e) | Inr tc' \<Rightarrow> record_objects alloc_ok tc' xs))"

text \<open>The objects in the order of their first occurrence.\<close>

definition add_new :: "'k list \<Rightarrow> 'k \<Rightarrow> 'k list" where
  "add_new ds x = (if x \<in> set ds then ds else ds @ [x])"

lemma record_objects_numbered:
  assumes "recorded tc (index_of ds)" "snd tc = of_nat (length ds)"
  shows "\<exists>r. record_objects alloc_ok tc objs = Some r \<and>
    (case r of Inl e \<Rightarrow> e = Out_of_memory \<and> ((\<forall>n. alloc_ok n) \<longrightarrow> 2 ^ 55 \<le> length ds + length objs)
     | Inr tc' \<Rightarrow> recorded tc' (index_of (foldl add_new ds objs)))"
  using assms
proof (induction objs arbitrary: tc ds)
  case Nil
  then show ?case by simp
next
  case (Cons x xs)
  from Cons.prems(1) show ?case
  proof (cases rule: position.lookup_numbered[of tc ds x])
    case (seen i h)
    then have "x \<in> set ds" by auto
    then show ?thesis using seen(3) Cons.IH[OF Cons.prems] by (auto simp: add_new_def split: sum.splits)
  next
    case (unseen h)
    obtain r where r: "record_entry alloc_ok tc x h (snd tc) = Some r"
      "case r of Inl e \<Rightarrow> e = Out_of_memory
       | Inr tc' \<Rightarrow> recorded tc' ((index_of ds)(x \<mapsto> snd tc)) \<and> snd tc' = snd tc + 1"
      using recorded_record[OF Cons.prems(1) unseen(2), of alloc_ok "snd tc"] by blast
    show ?thesis
    proof (cases r)
      case (Inl e)
      have "2 ^ 55 \<le> length ds + length (x # xs)" if "\<forall>n. alloc_ok n"
      proof (rule ccontr)
        assume "\<not> ?thesis"
        then have "unat (snd tc) < 2 ^ 55" using Cons.prems(2) by (simp add: unat_of_nat)
        then show False
          using recorded_record_not_oom[OF Cons.prems(1) unseen(2) that, of "snd tc" e] r(1) Inl by simp
      qed
      then show ?thesis using unseen r Inl by auto
    next
      case (Inr tc')
      have "recorded tc' (index_of (ds @ [x]))" "snd tc' = of_nat (length (ds @ [x]))"
        using r(2) Inr Cons.prems(2) unseen(1) by (simp_all add: index_of_snoc)
      from Cons.IH[OF this] show ?thesis
        using unseen r(1) Inr by (auto simp: add_new_def split: sum.splits)
    qed
  qed
qed

text \<open>C0: Whatever sequence of objects is recorded, the table answers: every search ends, an object that was
  recorded is found at the position it received at its first occurrence, and no other is
  found, through all growths of the table.  Recording fails only for lack of memory, and then
  an allocation failed or more than \<open>2 ^ 55\<close> objects were met.\<close>

theorem position_table_correct:
  "\<exists>r. record_objects alloc_ok (extern_init_position_table, 0) objs = Some r \<and>
     (case r of
        Inl e \<Rightarrow> e = Out_of_memory \<and> \<not> ((\<forall>n. alloc_ok n) \<and> length objs < 2 ^ 55)
      | Inr tc \<Rightarrow> \<forall>x. \<exists>h. extern_lookup_position (fst tc) x = Some (index_of (foldl add_new [] objs) x, h))"
proof -
  have "recorded (extern_init_position_table, 0) (index_of [])" using recorded_init by (simp add: index_of_def)
  from record_objects_numbered[OF this, of alloc_ok objs]
  obtain r where r: "record_objects alloc_ok (extern_init_position_table, 0) objs = Some r"
    "case r of Inl e \<Rightarrow> e = Out_of_memory \<and> ((\<forall>n. alloc_ok n) \<longrightarrow> 2 ^ 55 \<le> length ([] :: mlvalue list) + length objs)
     | Inr tc' \<Rightarrow> recorded tc' (index_of (foldl add_new [] objs))"
    by force
  show ?thesis
  proof (cases r)
    case (Inl e)
    then show ?thesis using r by auto
  next
    case (Inr tc)
    then show ?thesis using r recorded_lookup by auto
  qed
qed

end
