(* ===== verification/Intext.thy ===== *)
theory Intext
  imports Mlvalues
begin

text \<open>
  The format of marshalled data, \<open>runtime/caml/intext.h\<close>: magic numbers, the codes of the items on
  a little-endian machine, and results of operations that may also leave the model.
\<close>

section \<open>Codes\<close>

definition Intext_magic_number_small :: "32 word" where "Intext_magic_number_small = 0x8495A6BE"
definition Intext_magic_number_big :: "32 word" where "Intext_magic_number_big = 0x8495A6BF"
definition Intext_magic_number_compressed :: "32 word" where "Intext_magic_number_compressed = 0x8495A6BD"

abbreviation PREFIX_SMALL_BLOCK :: byte where "PREFIX_SMALL_BLOCK \<equiv> 0x80"
abbreviation PREFIX_SMALL_INT :: byte where "PREFIX_SMALL_INT \<equiv> 0x40"
abbreviation PREFIX_SMALL_STRING :: byte where "PREFIX_SMALL_STRING \<equiv> 0x20"
abbreviation CODE_INT8 :: byte where "CODE_INT8 \<equiv> 0x0"
abbreviation CODE_INT16 :: byte where "CODE_INT16 \<equiv> 0x1"
abbreviation CODE_INT32 :: byte where "CODE_INT32 \<equiv> 0x2"
abbreviation CODE_INT64 :: byte where "CODE_INT64 \<equiv> 0x3"
abbreviation CODE_SHARED8 :: byte where "CODE_SHARED8 \<equiv> 0x4"
abbreviation CODE_SHARED16 :: byte where "CODE_SHARED16 \<equiv> 0x5"
abbreviation CODE_SHARED32 :: byte where "CODE_SHARED32 \<equiv> 0x6"
abbreviation CODE_SHARED64 :: byte where "CODE_SHARED64 \<equiv> 0x14"
abbreviation CODE_BLOCK32 :: byte where "CODE_BLOCK32 \<equiv> 0x8"
abbreviation CODE_BLOCK64 :: byte where "CODE_BLOCK64 \<equiv> 0x13"
abbreviation CODE_STRING8 :: byte where "CODE_STRING8 \<equiv> 0x9"
abbreviation CODE_STRING32 :: byte where "CODE_STRING32 \<equiv> 0xA"
abbreviation CODE_STRING64 :: byte where "CODE_STRING64 \<equiv> 0x15"
abbreviation CODE_DOUBLE_BIG :: byte where "CODE_DOUBLE_BIG \<equiv> 0xB"
abbreviation CODE_DOUBLE_LITTLE :: byte where "CODE_DOUBLE_LITTLE \<equiv> 0xC"
abbreviation CODE_DOUBLE_ARRAY8_BIG :: byte where "CODE_DOUBLE_ARRAY8_BIG \<equiv> 0xD"
abbreviation CODE_DOUBLE_ARRAY8_LITTLE :: byte where "CODE_DOUBLE_ARRAY8_LITTLE \<equiv> 0xE"
abbreviation CODE_DOUBLE_ARRAY32_BIG :: byte where "CODE_DOUBLE_ARRAY32_BIG \<equiv> 0xF"
abbreviation CODE_DOUBLE_ARRAY32_LITTLE :: byte where "CODE_DOUBLE_ARRAY32_LITTLE \<equiv> 0x7"
abbreviation CODE_DOUBLE_ARRAY64_BIG :: byte where "CODE_DOUBLE_ARRAY64_BIG \<equiv> 0x16"
abbreviation CODE_DOUBLE_ARRAY64_LITTLE :: byte where "CODE_DOUBLE_ARRAY64_LITTLE \<equiv> 0x17"
abbreviation CODE_CODEPOINTER :: byte where "CODE_CODEPOINTER \<equiv> 0x10"
abbreviation CODE_INFIXPOINTER :: byte where "CODE_INFIXPOINTER \<equiv> 0x11"
abbreviation OLD_CODE_CUSTOM :: byte where "OLD_CODE_CUSTOM \<equiv> 0x12"
abbreviation CODE_CUSTOM_LEN :: byte where "CODE_CUSTOM_LEN \<equiv> 0x18"
abbreviation CODE_CUSTOM_FIXED :: byte where "CODE_CUSTOM_FIXED \<equiv> 0x19"
abbreviation CODE_UNBOXED_INT64 :: byte where "CODE_UNBOXED_INT64 \<equiv> 0x1a"

abbreviation SIZE_EXTERN_OUTPUT_BLOCK :: nat where "SIZE_EXTERN_OUTPUT_BLOCK \<equiv> 8100"

text \<open>Code fragments, \<open>runtime/caml/codefrag.h\<close>; a private fragment has no digest.\<close>

record code_fragment =
  code_start :: "64 word"
  code_end :: "64 word"
  code_digest :: "bytes option"

section \<open>Results\<close>

text \<open>Outside the model, an exception, or a value.\<close>

definition bind_partial :: "'a result option \<Rightarrow> ('a \<Rightarrow> 'b result option) \<Rightarrow> 'b result option" where
  "bind_partial r f = (case r of None \<Rightarrow> None | Some q \<Rightarrow> (case q of Inl e \<Rightarrow> Some (Inl e) | Inr x \<Rightarrow> f x))"

lemma bind_partial_simps [simp]:
  "bind_partial None f = None"
  "bind_partial (Some (Inl e)) f = Some (Inl e)"
  "bind_partial (Some (Inr x)) f = f x"
  by (simp_all add: bind_partial_def)

lemma bind_partial_cong [fundef_cong]:
  "r = r' \<Longrightarrow> (\<And>x. r' = Some (Inr x) \<Longrightarrow> f x = g x) \<Longrightarrow> bind_partial r f = bind_partial r' g"
  by (auto simp: bind_partial_def split: option.split sum.split)

end
