(* ===== verification/Extern.thy ===== *)
theory Extern
  imports Array Marshal_Prims Postable Intext
begin

text \<open>
  Marshalling, \<open>runtime/extern.c\<close> without compression: the output buffer, the traversal of an
  object graph with an explicit stack and the position table, and the header.  Operations of
  custom blocks, the table of code fragments and the outcome of allocations are parameters.
  \<open>None\<close> is a traversal that does not end, or that leaves the position table.
\<close>

unbundle bit_operations_syntax

section \<open>State\<close>

definition NO_SHARING :: int32 where "NO_SHARING = 1"
definition CLOSURES :: int32 where "CLOSURES = 2"
definition COMPAT_32 :: int32 where "COMPAT_32 = 4"
definition COMPRESSED :: int32 where "COMPRESSED = 8"

definition EXTERN_STACK_INIT_SIZE :: nat where "EXTERN_STACK_INIT_SIZE = 256"
definition EXTERN_STACK_MAX_SIZE :: nat where "EXTERN_STACK_MAX_SIZE = 1024 * 1024 * 100"

text \<open>An item of the stack is the address of the next field and the number of fields left.\<close>

type_synonym extern_item = "64 word \<times> uintnat"

text \<open>The stack is a list, its top first.  The output is the contents of the blocks that are full and of
  the current one, with the room of the latter; a buffer provided by the user is one block.\<close>

record extern_st =
  extern_flags :: int32
  positions :: "position_table \<times> uintnat"
  size_32 :: uintnat
  size_64 :: uintnat
  extern_stack :: "extern_item list"
  extern_stack_limit :: nat
  extern_userprovided_output :: bool
  full_blocks :: "bytes list"
  output_block :: bytes
  extern_limit :: int

definition obj_counter :: "extern_st \<Rightarrow> uintnat" where
  "obj_counter s = snd (positions s)"

definition flag_set :: "extern_st \<Rightarrow> int32 \<Rightarrow> bool" where
  "flag_set s f \<longleftrightarrow> extern_flags s AND f \<noteq> 0"

text \<open>What the code uses of custom operations, of code fragments and of the C allocator, which is given by
  the sizes of the allocations that succeed.\<close>

record custom_serializer =
  cs_ident :: bytes
  cs_serialize :: "(mem \<Rightarrow> mlvalue \<Rightarrow> bytes list \<times> uintnat \<times> uintnat) option"
  cs_fixed_length :: "(uintnat \<times> uintnat) option"

record extern_env =
  c_alloc_ok :: "nat \<Rightarrow> bool"
  custom_ops_at :: "64 word \<Rightarrow> custom_serializer"
  find_code_fragment_by_pc :: "64 word \<Rightarrow> code_fragment option"

section \<open>The output buffer\<close>

definition init_extern_output :: "extern_env \<Rightarrow> extern_st \<Rightarrow> extern_st result" where
  "init_extern_output env s =
     (if c_alloc_ok env (SIZE_EXTERN_OUTPUT_BLOCK + 20)
      then Inr (s\<lparr>extern_userprovided_output := False, full_blocks := [], output_block := [],
                  extern_limit := int SIZE_EXTERN_OUTPUT_BLOCK\<rparr>)
      else Inl Out_of_memory)"

definition grow_extern_output :: "extern_env \<Rightarrow> extern_st \<Rightarrow> nat \<Rightarrow> extern_st result" where
  "grow_extern_output env s required =
     (if extern_userprovided_output s then Inl (Failure ''Marshal.to_buffer: buffer overflow'')
      else
        (let extra = (if required \<le> SIZE_EXTERN_OUTPUT_BLOCK div 2 then 0 else required)
         in if \<not> c_alloc_ok env (SIZE_EXTERN_OUTPUT_BLOCK + 20 + extra) then Inl Out_of_memory
            else Inr (s\<lparr>full_blocks := full_blocks s @ [output_block s], output_block := [],
                        extern_limit := int (SIZE_EXTERN_OUTPUT_BLOCK + extra)\<rparr>)))"

definition extern_out :: "extern_st \<Rightarrow> bytes" where
  "extern_out s = concat (full_blocks s) @ output_block s"

definition extern_output_length :: "extern_st \<Rightarrow> intnat" where
  "extern_output_length s = of_nat (length (extern_out s))"

text \<open>Room for some bytes, and writing them: the common part of \<open>writebyte\<close>, \<open>writeblock\<close> and
  \<open>writecode8\<close> to \<open>writecode64\<close>, whose bytes are those that \<open>Marshal_Prims\<close> gives.\<close>

definition ensure_room :: "extern_env \<Rightarrow> extern_st \<Rightarrow> nat \<Rightarrow> extern_st result" where
  "ensure_room env s n =
     (if int (length (output_block s)) + int n > extern_limit s then grow_extern_output env s n else Inr s)"

definition emit :: "extern_env \<Rightarrow> bytes \<Rightarrow> extern_st \<Rightarrow> extern_st result" where
  "emit env data s = map_result (\<lambda>s. s\<lparr>output_block := output_block s @ data\<rparr>) (ensure_room env s (length data))"

fun emit_all :: "extern_env \<Rightarrow> bytes list \<Rightarrow> extern_st \<Rightarrow> extern_st result" where
  "emit_all env [] s = Inr s"
| "emit_all env (data # ds) s = bind_result (emit env data s) (emit_all env ds)"

section \<open>The stack\<close>

definition extern_free_stack :: "extern_st \<Rightarrow> extern_st" where
  "extern_free_stack s = s\<lparr>extern_stack := [], extern_stack_limit := EXTERN_STACK_INIT_SIZE\<rparr>"

definition extern_resize_stack :: "extern_env \<Rightarrow> extern_st \<Rightarrow> extern_st result" where
  "extern_resize_stack env s =
     (let newsize = 2 * extern_stack_limit s
      in if newsize \<ge> EXTERN_STACK_MAX_SIZE \<or> \<not> c_alloc_ok env (newsize * 16) then Inl Out_of_memory
         else Inr (s\<lparr>extern_stack_limit := newsize\<rparr>))"

text \<open>Slot 0 of the stack is not used.\<close>

definition push_item :: "extern_env \<Rightarrow> extern_st \<Rightarrow> extern_item \<Rightarrow> extern_st result" where
  "push_item env s item =
     map_result (\<lambda>s. s\<lparr>extern_stack := item # extern_stack s\<rparr>)
       (if length (extern_stack s) + 1 \<ge> extern_stack_limit s then extern_resize_stack env s else Inr s)"

section \<open>Positions\<close>

definition extern_record_location_with_data ::
  "extern_env \<Rightarrow> extern_st \<Rightarrow> mlvalue \<Rightarrow> uintnat \<Rightarrow> uintnat \<Rightarrow> extern_st result option" where
  "extern_record_location_with_data env s obj h data =
     (if flag_set s NO_SHARING then Some (Inr s)
      else map_option (map_result (\<lambda>p. s\<lparr>positions := p\<rparr>)) (record_entry (c_alloc_ok env) (positions s) obj h data))"

definition extern_record_location ::
  "extern_env \<Rightarrow> extern_st \<Rightarrow> mlvalue \<Rightarrow> uintnat \<Rightarrow> extern_st result option" where
  "extern_record_location env s obj h = extern_record_location_with_data env s obj h (obj_counter s)"

section \<open>Scalars, headers and strings\<close>

definition extern_int :: "extern_env \<Rightarrow> extern_st \<Rightarrow> intnat \<Rightarrow> extern_st result" where
  "extern_int env s n =
     (if 0 \<le> sint n \<and> sint n < 0x40 then emit env (writebyte [] (PREFIX_SMALL_INT + ucast n)) s
      else if - (2 ^ 7) \<le> sint n \<and> sint n < 2 ^ 7 then emit env (writecode8 [] CODE_INT8 n) s
      else if - (2 ^ 15) \<le> sint n \<and> sint n < 2 ^ 15 then emit env (writecode16 [] CODE_INT16 n) s
      else if sint n < - (2 ^ 30) \<or> 2 ^ 30 \<le> sint n then
        (if flag_set s COMPAT_32 then Inl (Failure ''output_value: integer cannot be read back on 32-bit platform'')
         else emit env (writecode64 [] CODE_INT64 n) s)
      else emit env (writecode32 [] CODE_INT32 n) s)"

definition extern_unboxed_int :: "extern_env \<Rightarrow> extern_st \<Rightarrow> intnat \<Rightarrow> extern_st result" where
  "extern_unboxed_int env s n =
     (if flag_set s COMPAT_32 then Inl (Failure ''output_value: cannot marshal unboxed values on 32 bit'')
      else emit env (writecode64 [] CODE_UNBOXED_INT64 n) s)"

definition extern_shared_reference :: "extern_env \<Rightarrow> extern_st \<Rightarrow> uintnat \<Rightarrow> extern_st result" where
  "extern_shared_reference env s d =
     (if d < 0x100 then emit env (writecode8 [] CODE_SHARED8 d) s
      else if d < 0x10000 then emit env (writecode16 [] CODE_SHARED16 d) s
      else if d \<ge> push_bit 32 1 then emit env (writecode64 [] CODE_SHARED64 d) s
      else emit env (writecode32 [] CODE_SHARED32 d) s)"

definition extern_header :: "extern_env \<Rightarrow> extern_st \<Rightarrow> uintnat \<Rightarrow> byte \<Rightarrow> extern_st result" where
  "extern_header env s sz tag =
     (if tag < 16 \<and> sz < 8 then emit env (writebyte [] (PREFIX_SMALL_BLOCK + tag + ucast (push_bit 4 sz))) s
      else
        (let hd = Make_header sz tag NOT_MARKABLE
         in if sz > 0x3FFFFF \<and> flag_set s COMPAT_32
            then Inl (Failure ''output_value: array cannot be read back on 32-bit platform'')
            else if hd < push_bit 32 1 then emit env (writecode32 [] CODE_BLOCK32 hd) s
            else emit env (writecode64 [] CODE_BLOCK64 hd) s))"

definition extern_string :: "extern_env \<Rightarrow> mem \<Rightarrow> extern_st \<Rightarrow> mlvalue \<Rightarrow> uintnat \<Rightarrow> extern_st result" where
  "extern_string env m s v len =
     bind_result
       (if len < 0x20 then emit env (writebyte [] (PREFIX_SMALL_STRING + ucast len)) s
        else if len < 0x100 then emit env (writecode8 [] CODE_STRING8 len) s
        else if len > 0xFFFFFB \<and> flag_set s COMPAT_32
          then Inl (Failure ''output_value: string cannot be read back on 32-bit platform'')
        else if len < push_bit 32 1 then emit env (writecode32 [] CODE_STRING32 len) s
        else emit env (writecode64 [] CODE_STRING64 len) s)
       (emit env (writeblock [] (load_bytes m v (unat len))))"

text \<open>Floating-point numbers are written as they are in memory.\<close>

definition extern_double :: "extern_env \<Rightarrow> mem \<Rightarrow> extern_st \<Rightarrow> mlvalue \<Rightarrow> extern_st result" where
  "extern_double env m s v =
     bind_result (emit env (writebyte [] CODE_DOUBLE_LITTLE) s) (emit env (writeblock [] (load_bytes m v 8)))"

definition extern_double_array ::
  "extern_env \<Rightarrow> mem \<Rightarrow> extern_st \<Rightarrow> mlvalue \<Rightarrow> uintnat \<Rightarrow> extern_st result" where
  "extern_double_array env m s v nfloats =
     bind_result
       (if nfloats < 0x100 then emit env (writecode8 [] CODE_DOUBLE_ARRAY8_LITTLE nfloats) s
        else if nfloats > 0x1FFFFF \<and> flag_set s COMPAT_32
          then Inl (Failure ''output_value: float array cannot be read back on 32-bit platform'')
        else if nfloats < push_bit 32 1 then emit env (writecode32 [] CODE_DOUBLE_ARRAY32_LITTLE nfloats) s
        else emit env (writecode64 [] CODE_DOUBLE_ARRAY64_LITTLE nfloats) s)
       (emit env (writeblock [] (load_bytes m v (unat nfloats * 8))))"

section \<open>Custom blocks and closures\<close>

text \<open>The state and the two sizes of the data; the lengths are stored in the 12 bytes reserved before
  the data is written.\<close>

definition extern_custom ::
  "extern_env \<Rightarrow> mem \<Rightarrow> extern_st \<Rightarrow> mlvalue \<Rightarrow> (extern_st \<times> uintnat \<times> uintnat) result" where
  "extern_custom env m s v =
     (let ops = custom_ops_at env (Field m v 0)
      in case cs_serialize ops of
           None \<Rightarrow> Inl (Invalid_argument ''output_value: abstract value (Custom)'')
         | Some serialize \<Rightarrow>
             (let (data, sz_32, sz_64) = serialize m v;
                  code = (if cs_fixed_length ops = None then CODE_CUSTOM_LEN else CODE_CUSTOM_FIXED)
              in bind_result (emit env (writebyte [] code) s) (\<lambda>s.
                 bind_result (emit env (writeblock [] (cs_ident ops @ [0])) s) (\<lambda>s.
                 case cs_fixed_length ops of
                   None \<Rightarrow>
                     bind_result (if int (length (output_block s)) + 12 \<ge> extern_limit s then grow_extern_output env s 12 else Inr s) (\<lambda>s.
                     map_result (\<lambda>s. (s, sz_32, sz_64))
                       (emit_all env data (s\<lparr>output_block := output_block s @ store32 sz_32 @ store64 sz_64\<rparr>)))
                 | Some (bsize_32, bsize_64) \<Rightarrow>
                     bind_result (emit_all env data s) (\<lambda>s.
                     if sz_32 \<noteq> bsize_32 \<or> sz_64 \<noteq> bsize_64
                     then Inl (Fatal_error ''output_value: incorrect fixed sizes specified'')
                     else Inr (s, sz_32, sz_64))))))"

definition extern_code_pointer :: "extern_env \<Rightarrow> extern_st \<Rightarrow> 64 word \<Rightarrow> extern_st result" where
  "extern_code_pointer env s codeptr =
     (case find_code_fragment_by_pc env codeptr of
        None \<Rightarrow> Inl (Invalid_argument ''output_value: abstract value (outside heap)'')
      | Some cf \<Rightarrow>
          (if \<not> flag_set s CLOSURES then Inl (Invalid_argument ''output_value: functional value'')
           else
             (case code_digest cf of
                None \<Rightarrow> Inl (Invalid_argument ''output_value: private function'')
              | Some digest \<Rightarrow>
                  bind_result (emit env (writecode32 [] CODE_CODEPOINTER (codeptr - code_start cf)) s)
                    (emit env (writeblock [] (take 16 digest))))))"

text \<open>The padding before an infix header.\<close>

partial_function (option) closure_padding ::
  "extern_env \<Rightarrow> mem \<Rightarrow> extern_st \<Rightarrow> mlvalue \<Rightarrow> nat \<Rightarrow> (nat \<times> extern_st) result option" where
  "closure_padding env m s v i =
     (if Field m v i = Val_long 0 then
        (case extern_int env s 0 of
           Inl e \<Rightarrow> Some (Inl e)
         | Inr s' \<Rightarrow> closure_padding env m s' v (i + 1))
      else Some (Inr (i, s)))"

text \<open>One function of a closure, from its infix header on if it has one; the information word says
  whether it is the last.\<close>

definition closure_function ::
  "extern_env \<Rightarrow> mem \<Rightarrow> extern_st \<Rightarrow> mlvalue \<Rightarrow> nat \<Rightarrow> (nat \<times> mlvalue \<times> extern_st) result option" where
  "closure_function env m s v i =
     bind_partial
       (if i > 0 then
          bind_partial (closure_padding env m s v i) (\<lambda>(i, s).
            Some (map_result (\<lambda>s. (i + 1, s)) (extern_int env s (Long_val (Field m v i)))))
        else Some (Inr (i, s))) (\<lambda>(i, s).
     Some (bind_result (extern_code_pointer env s (Field m v i)) (\<lambda>s.
       (let info = Field m v (i + 1)
        in bind_result (extern_int env s (Long_val info)) (\<lambda>s.
             if Arity_closinfo info \<noteq> 0 \<and> Arity_closinfo info \<noteq> 1
             then map_result (\<lambda>s. (i + 3, info, s)) (extern_code_pointer env s (Field m v (i + 2)))
             else Inr (i + 2, info, s))))))"

partial_function (option) closure_functions ::
  "extern_env \<Rightarrow> mem \<Rightarrow> extern_st \<Rightarrow> mlvalue \<Rightarrow> nat \<Rightarrow> (nat \<times> extern_st) result option" where
  "closure_functions env m s v i =
     (case closure_function env m s v i of
        None \<Rightarrow> None
      | Some r \<Rightarrow>
          (case r of
             Inl e \<Rightarrow> Some (Inl e)
           | Inr q \<Rightarrow>
               (if Is_last_closinfo (fst (snd q)) \<noteq> 0 then Some (Inr (fst q, snd (snd q)))
                else closure_functions env m (snd (snd q)) v (fst q))))"

fun unboxed_env :: "extern_env \<Rightarrow> mem \<Rightarrow> extern_st \<Rightarrow> mlvalue \<Rightarrow> nat list \<Rightarrow> extern_st result" where
  "unboxed_env env m s v [] = Inr s"
| "unboxed_env env m s v (i # is) =
     bind_result (extern_unboxed_int env s (Field m v i)) (\<lambda>s'. unboxed_env env m s' v is)"

definition extern_closure_up_to_env ::
  "extern_env \<Rightarrow> mem \<Rightarrow> extern_st \<Rightarrow> mlvalue \<Rightarrow> (uintnat \<times> extern_st) result option" where
  "extern_closure_up_to_env env m s v =
     (let startenv = Start_env_closinfo (Closinfo_val m v)
      in bind_partial (closure_functions env m s v 0) (\<lambda>(i, s).
           Some (map_result (\<lambda>s. (startenv, s)) (unboxed_env env m s v [i..<unat startenv]))))"

section \<open>The traversal\<close>

text \<open>The step for one value tells which value to continue with; without one, the next item of the
  stack is due.\<close>

type_synonym extern_next = "(mlvalue option \<times> extern_st) result option"

definition add_sizes :: "extern_st \<Rightarrow> uintnat \<Rightarrow> uintnat \<Rightarrow> extern_st" where
  "add_sizes s n32 n64 = s\<lparr>size_32 := size_32 s + n32, size_64 := size_64 s + n64\<rparr>"

text \<open>A block written without its fields.\<close>

definition leaf_done :: "extern_env \<Rightarrow> extern_st \<Rightarrow> mlvalue \<Rightarrow> uintnat \<Rightarrow> extern_next" where
  "leaf_done env s v h = map_option (map_result (\<lambda>s. (None, s))) (extern_record_location env s v h)"

text \<open>Continuing with field \<open>i\<close> of a block, with the fields after it on the stack.\<close>

definition visit_fields :: "extern_env \<Rightarrow> mem \<Rightarrow> extern_st \<Rightarrow> mlvalue \<Rightarrow> uintnat \<Rightarrow> uintnat \<Rightarrow> extern_next" where
  "visit_fields env m s v i sz =
     Some (map_result (\<lambda>s. (Some (mem_load64 m (v + 8 * i)), s))
       (if i < sz - 1 then push_item env s (v + 8 * (i + 1), sz - i - 1) else Inr s))"

definition extern_contents ::
  "extern_env \<Rightarrow> mem \<Rightarrow> extern_st \<Rightarrow> mlvalue \<Rightarrow> uintnat \<Rightarrow> extern_next" where
  "extern_contents env m s v h =
     (let hd = Hd_val m v; tag = Tag_hd hd; sz = Allocated_wosize_hd hd
      in if tag = String_tag then
           (let len = caml_string_length m v
            in bind_partial (Some (extern_string env m s v len)) (\<lambda>s.
                 leaf_done env (add_sizes s (1 + (len + 4) div 4) (1 + (len + 8) div 8)) v h))
         else if tag = Double_tag then
           bind_partial (Some (extern_double env m s v)) (\<lambda>s. leaf_done env (add_sizes s (1 + 2) (1 + 1)) v h)
         else if tag = Double_array_tag then
           (let nfloats = sz div 1
            in bind_partial (Some (extern_double_array env m s v nfloats)) (\<lambda>s.
                 leaf_done env (add_sizes s (1 + nfloats * 2) (1 + nfloats)) v h))
         else if tag = Abstract_tag then Some (Inl (Invalid_argument ''output_value: abstract value (Abstract)''))
         else if tag = Infix_tag then
           bind_partial (Some (emit env (writecode32 [] CODE_INFIXPOINTER (Infix_offset_hd hd)) s)) (\<lambda>s.
             Some (Inr (Some (v - Infix_offset_hd hd), s)))
         else if tag = Custom_tag then
           bind_partial (Some (extern_custom env m s v)) (\<lambda>(s, sz_32, sz_64).
             leaf_done env (add_sizes s (2 + drop_bit 2 (sz_32 + 3)) (2 + drop_bit 3 (sz_64 + 7))) v h)
         else if tag = Cont_tag then Some (Inl (Invalid_argument ''output_value: continuation value''))
         else
           bind_partial (Some (extern_header env s sz tag)) (\<lambda>s.
           bind_partial (extern_record_location env (add_sizes s (1 + sz) (1 + sz)) v h) (\<lambda>s.
             if tag = Closure_tag then
               bind_partial (extern_closure_up_to_env env m s v) (\<lambda>(i, s).
                 if i \<ge> sz then Some (Inr (None, s)) else visit_fields env m s v i sz)
             else visit_fields env m s v 0 sz)))"

text \<open>A forwarding block that may be short-circuited.\<close>

definition short_circuit :: "mem \<Rightarrow> mlvalue \<Rightarrow> bool" where
  "short_circuit m v \<longleftrightarrow>
     Tag_hd (Hd_val m v) = Forward_tag \<and>
     (let f = Forward_val m v
      in \<not> (Is_block f \<and> (Tag_val m f = Forward_tag \<or> Tag_val m f = Lazy_tag \<or> Tag_val m f = Forcing_tag \<or>
             Tag_val m f = Double_tag)))"

definition extern_one :: "extern_env \<Rightarrow> mem \<Rightarrow> extern_st \<Rightarrow> mlvalue \<Rightarrow> extern_next" where
  "extern_one env m s v =
     (if Is_long v then Some (map_result (\<lambda>s. (None, s)) (extern_int env s (Long_val v)))
      else
        (let hd = Hd_val m v; tag = Tag_hd hd; sz = Allocated_wosize_hd hd
         in if Is_mixed_block_reserved (Reserved_hd hd) then Some (Inl (Invalid_argument ''output_value: mixed block''))
            else if short_circuit m v then Some (Inr (Some (Forward_val m v), s))
            else if sz = 0 then Some (map_result (\<lambda>s. (None, s)) (extern_header env s 0 tag))
            else if flag_set s NO_SHARING then extern_contents env m s v 0
            else
              Option.bind (extern_lookup_position (fst (positions s)) v) (\<lambda>(pos, h).
                case pos of
                  Some p \<Rightarrow>
                    (let d = (if flag_set s COMPRESSED then p else obj_counter s - p)
                     in Some (map_result (\<lambda>s. (None, s)) (extern_shared_reference env s d)))
                | None \<Rightarrow> extern_contents env m s v h)))"

partial_function (option) extern_loop ::
  "extern_env \<Rightarrow> mem \<Rightarrow> extern_st \<Rightarrow> mlvalue \<Rightarrow> extern_st result option" where
  "extern_loop env m s v =
     (case extern_one env m s v of
        None \<Rightarrow> None
      | Some r \<Rightarrow>
          (case r of
             Inl e \<Rightarrow> Some (Inl e)
           | Inr q \<Rightarrow>
               (case fst q of
                  Some v' \<Rightarrow> extern_loop env m (snd q) v'
                | None \<Rightarrow>
                    (case extern_stack (snd q) of
                       [] \<Rightarrow> Some (Inr (extern_free_stack (snd q)))
                     | item # items \<Rightarrow>
                         extern_loop env m
                           ((snd q)\<lparr>extern_stack :=
                              (if snd item - 1 = 0 then items else (fst item + 8, snd item - 1) # items)\<rparr>)
                           (mem_load64 m (fst item))))))"

definition extern_rec :: "extern_env \<Rightarrow> mem \<Rightarrow> extern_st \<Rightarrow> mlvalue \<Rightarrow> extern_st result option" where
  "extern_rec env m s v =
     extern_loop env m
       (if flag_set s NO_SHARING then s\<lparr>extern_stack := []\<rparr>
        else s\<lparr>extern_stack := [], positions := (extern_init_position_table, snd (positions s))\<rparr>) v"

section \<open>Values with their header\<close>

definition extern_flag_values :: "int32 list" where
  "extern_flag_values = [NO_SHARING, CLOSURES, COMPAT_32, COMPRESSED]"

text \<open>The list of flags in memory; a constructor outside the table is not a flag.\<close>

partial_function (option) convert_flags :: "mem \<Rightarrow> mlvalue \<Rightarrow> int32 list \<Rightarrow> int32 \<Rightarrow> int32 option" where
  "convert_flags m list flags res =
     (if list = Val_emptylist then Some res
      else if unat (Int_val (Field m list 0)) < length flags
      then convert_flags m (Field m list 1) flags (res OR flags ! unat (Int_val (Field m list 0)))
      else None)"

definition caml_convert_flag_list :: "mem \<Rightarrow> mlvalue \<Rightarrow> int32 list \<Rightarrow> int32 option" where
  "caml_convert_flag_list m list flags = convert_flags m list flags 0"

text \<open>The header, for the length of the data and the counts of the final state.\<close>

definition extern_header_bytes :: "extern_st \<Rightarrow> intnat \<Rightarrow> bytes result" where
  "extern_header_bytes s res_len =
     (if sint res_len \<ge> 2 ^ 32 \<or> size_32 s \<ge> push_bit 32 1 \<or> size_64 s \<ge> push_bit 32 1 then
        (if flag_set s COMPAT_32
         then Inl (Failure ''output_value: object too big to be read back on 32-bit platform'')
         else Inr (store32 (ucast Intext_magic_number_big) @ store32 0 @ store64 res_len @
                   store64 (obj_counter s) @ store64 (size_64 s)))
      else Inr (store32 (ucast Intext_magic_number_small) @ store32 res_len @ store32 (obj_counter s) @
                store32 (size_32 s) @ store32 (size_64 s)))"

definition extern_value :: "extern_env \<Rightarrow> mem \<Rightarrow> extern_st \<Rightarrow> mlvalue \<Rightarrow> mlvalue \<Rightarrow> (bytes \<times> extern_st) result option" where
  "extern_value env m s v flags =
     Option.bind (caml_convert_flag_list m flags extern_flag_values) (\<lambda>fl.
     bind_partial
       (extern_rec env m (s\<lparr>extern_flags := fl AND NOT COMPRESSED, positions := (fst (positions s), 0),
                            size_32 := 0, size_64 := 0\<rparr>) v) (\<lambda>s.
     Some (map_result (\<lambda>header. (header, s)) (extern_header_bytes s (extern_output_length s)))))"

definition caml_output_value_to_malloc ::
  "extern_env \<Rightarrow> mem \<Rightarrow> extern_st \<Rightarrow> mlvalue \<Rightarrow> mlvalue \<Rightarrow> bytes result option" where
  "caml_output_value_to_malloc env m s v flags =
     bind_partial (Some (init_extern_output env s)) (\<lambda>s.
     bind_partial (extern_value env m s v flags) (\<lambda>(header, s).
     Some (if c_alloc_ok env (length header + length (extern_out s)) then Inr (header @ extern_out s)
           else Inl Out_of_memory)))"

text \<open>In an OCaml string; \<open>None\<close> also when the string needs the major heap.\<close>

definition caml_output_value_to_bytes ::
  "extern_env \<Rightarrow> dom_st \<Rightarrow> extern_st \<Rightarrow> mlvalue \<Rightarrow> mlvalue \<Rightarrow> (mlvalue \<times> dom_st) result option" where
  "caml_output_value_to_bytes env st s v flags =
     bind_partial (Some (init_extern_output env s)) (\<lambda>s.
     bind_partial (extern_value env (heap st) s v flags) (\<lambda>(header, s).
     let data = extern_out s
     in Option.bind (caml_alloc_string st (of_nat (length header + length data))) (\<lambda>(res, st).
        Some (Inr (res, st\<lparr>heap := store_bytes (store_bytes (heap st) res header) (res + of_nat (length header)) data\<rparr>)))))"

definition caml_output_value_to_string ::
  "extern_env \<Rightarrow> dom_st \<Rightarrow> extern_st \<Rightarrow> mlvalue \<Rightarrow> mlvalue \<Rightarrow> (mlvalue \<times> dom_st) result option" where
  "caml_output_value_to_string env st s v flags = caml_output_value_to_bytes env st s v flags"

text \<open>In a buffer of \<open>len\<close> bytes, which is not part of the value: the bytes stored from its start on.\<close>

definition caml_output_value_to_block ::
  "extern_env \<Rightarrow> mem \<Rightarrow> extern_st \<Rightarrow> mlvalue \<Rightarrow> mlvalue \<Rightarrow> intnat \<Rightarrow> bytes result option" where
  "caml_output_value_to_block env m s v flags len =
     bind_partial (extern_value env m
       (s\<lparr>extern_userprovided_output := True, full_blocks := [], output_block := [], extern_limit := sint len - 20\<rparr>) v flags)
       (\<lambda>(header, s).
     let data = extern_out s
     in Some (if length header \<noteq> 20 \<and> int (length header + length data) > sint len
              then Inl (Failure ''Marshal.to_buffer: buffer overflow'') else Inr (header @ data)))"

definition caml_output_value_to_buffer ::
  "extern_env \<Rightarrow> mem \<Rightarrow> extern_st \<Rightarrow> mlvalue \<Rightarrow> mlvalue \<Rightarrow> mlvalue \<Rightarrow> mlvalue \<Rightarrow> mlvalue \<Rightarrow> (mlvalue \<times> mem) result option" where
  "caml_output_value_to_buffer env m s buf ofs len v flags =
     map_option (map_result (\<lambda>data. (Val_long (of_nat (length data)), store_bytes m (buf + Long_val ofs) data)))
       (caml_output_value_to_block env m s v flags (Long_val len))"

end
