(* ===== verification/Intern.thy ===== *)
theory Intern
  imports Array Marshal_Prims Intext
begin

text \<open>
  Unmarshalling, \<open>runtime/intern.c\<close> without compression: the stack of pending reads, allocation
  of the blocks in one chunk of the minor heap or one by one in the major heap, the interpretation
  of the codes, and the header.  The input pointer is the list of bytes still to be read; the C
  code does not check its end, nor the indices of the table of objects, and \<open>None\<close> is a read
  or a store outside them.  Operations of custom blocks, code fragments and the outcome
  of allocations are parameters.
\<close>

unbundle bit_operations_syntax

section \<open>State\<close>

datatype intern_op = OReadItems | OFreshOID | OShift

record intern_item =
  it_dest :: "64 word"
  it_arg :: uintnat
  it_op :: intern_op

definition INTERN_STACK_INIT_SIZE :: nat where "INTERN_STACK_INIT_SIZE = 256"
definition INTERN_STACK_MAX_SIZE :: nat where "INTERN_STACK_MAX_SIZE = 1024 * 1024 * 100"

text \<open>Besides the C structure, the state has the machine, the number of blocks allocated so far in the
  major heap, the table of custom blocks with finalisers and the identifiers of objects.\<close>

record intern_st =
  intern_src :: bytes
  objs_seen :: uintnat
  intern_obj_table :: "mlvalue option list option"
  intern_stack :: "intern_item list"
  intern_stack_limit :: nat
  intern_dest :: "64 word option"
  compressed :: bool
  machine :: gc_st
  shared_allocs :: nat
  custom_table :: "mlvalue list"
  oo_next_id_local :: uintnat
  oo_next_id :: uintnat

text \<open>Custom operations: a deserializer returns the size it has read, the bytes it has stored and the rest
  of the input.\<close>

record custom_deserializer =
  cd_ops :: "64 word"
  cd_fixed_length :: "(uintnat \<times> uintnat) option"
  cd_deserialize :: "bytes \<Rightarrow> (uintnat \<times> bytes \<times> bytes) result option"
  cd_finalize :: bool

text \<open>The results of \<open>caml_shared_try_alloc\<close> are a function of the number of the call.\<close>

record intern_env =
  c_malloc_ok :: "nat \<Rightarrow> bool"
  shared_try_alloc :: "nat \<Rightarrow> uintnat \<Rightarrow> byte \<Rightarrow> 64 word option"
  caml_allocation_status :: "64 word"
  caml_find_custom_operations :: "bytes \<Rightarrow> custom_deserializer option"
  caml_find_code_fragment_by_digest :: "bytes \<Rightarrow> code_fragment option"
  function_placeholder :: "mlvalue option"

type_synonym 'a intern = "('a \<times> intern_st) result option"

definition reading :: "'a reader \<Rightarrow> intern_st \<Rightarrow> ('a \<Rightarrow> intern_st \<Rightarrow> 'b option) \<Rightarrow> 'b option" where
  "reading r s f = Option.bind (r (intern_src s)) (\<lambda>(x, src). f x (s\<lparr>intern_src := src\<rparr>))"

definition readblock :: "nat \<Rightarrow> bytes reader" where
  "readblock len src = (if length src < len then None else Some (take len src, drop len src))"

definition put_word :: "intern_st \<Rightarrow> 64 word \<Rightarrow> 64 word \<Rightarrow> intern_st" where
  "put_word s a w = s\<lparr>machine := store_word (machine s) a w\<rparr>"

definition put_bytes :: "intern_st \<Rightarrow> 64 word \<Rightarrow> bytes \<Rightarrow> intern_st" where
  "put_bytes s a bs = s\<lparr>machine := set_mem (machine s) (store_bytes (mem_of (machine s)) a bs)\<rparr>"

section \<open>The stack\<close>

definition intern_free_stack :: "intern_st \<Rightarrow> intern_st" where
  "intern_free_stack s = s\<lparr>intern_stack := [], intern_stack_limit := INTERN_STACK_INIT_SIZE\<rparr>"

definition intern_cleanup :: "intern_st \<Rightarrow> intern_st" where
  "intern_cleanup s = intern_free_stack (s\<lparr>intern_obj_table := None, intern_dest := None\<rparr>)"

definition intern_resize_stack :: "intern_env \<Rightarrow> intern_st \<Rightarrow> intern_st result" where
  "intern_resize_stack env s =
     (let newsize = 2 * intern_stack_limit s
      in if newsize \<ge> INTERN_STACK_MAX_SIZE \<or> \<not> c_malloc_ok env (newsize * 24) then Inl Out_of_memory
         else Inr (s\<lparr>intern_stack_limit := newsize\<rparr>))"

definition PushItem :: "intern_env \<Rightarrow> intern_st \<Rightarrow> intern_item \<Rightarrow> intern_st result" where
  "PushItem env s item =
     map_result (\<lambda>s. s\<lparr>intern_stack := item # intern_stack s\<rparr>)
       (if length (intern_stack s) + 1 \<ge> intern_stack_limit s then intern_resize_stack env s else Inr s)"

definition ReadItems :: "intern_env \<Rightarrow> intern_st \<Rightarrow> 64 word \<Rightarrow> uintnat \<Rightarrow> intern_st result" where
  "ReadItems env s dest n =
     (if n > 0 then PushItem env s \<lparr>it_dest = dest, it_arg = n, it_op = OReadItems\<rparr> else Inr s)"

section \<open>Allocation\<close>

text \<open>The table of objects has as many entries as bytes were allocated for it.\<close>

definition intern_alloc_storage :: "intern_env \<Rightarrow> intern_st \<Rightarrow> uintnat \<Rightarrow> uintnat \<Rightarrow> intern_st result option" where
  "intern_alloc_storage env s whsize num_objects =
     (if whsize = 0 then Some (Inr s)
      else
        (let wosize = whsize - 1
         in Option.bind
              (if wosize \<le> Max_young_wosize \<and> wosize \<noteq> 0 then
                 map_option (\<lambda>(v, d). s\<lparr>machine := (machine s)\<lparr>dstate := d\<rparr>, intern_dest := Some (v - 8)\<rparr>)
                   (Alloc_small (dstate (machine s)) wosize String_tag)
               else Some s) (\<lambda>s.
            let s = s\<lparr>objs_seen := 0\<rparr>; sz = unat (num_objects * 8)
            in Some (if num_objects > 0 then
                       (if c_malloc_ok env sz
                        then Inr (s\<lparr>intern_obj_table := Some (replicate (sz div 8) None)\<rparr>)
                        else Inl Out_of_memory)
                     else Inr s))))"

definition intern_alloc_obj :: "intern_env \<Rightarrow> intern_st \<Rightarrow> uintnat \<Rightarrow> byte \<Rightarrow> (mlvalue \<times> intern_st) result" where
  "intern_alloc_obj env s wosize tag =
     (case intern_dest s of
        Some p \<Rightarrow> Inr (p + 8, (put_word s p (Make_header wosize tag 0))\<lparr>intern_dest := Some (p + 8 * (1 + wosize))\<rparr>)
      | None \<Rightarrow>
          (case shared_try_alloc env (shared_allocs s) wosize tag of
             None \<Rightarrow> Inl Out_of_memory
           | Some p \<Rightarrow>
               Inr (p + 8, (put_word s p (Make_header wosize tag (caml_allocation_status env)))\<lparr>shared_allocs := shared_allocs s + 1\<rparr>)))"

definition record_object :: "intern_st \<Rightarrow> mlvalue \<Rightarrow> intern_st option" where
  "record_object s v =
     (case intern_obj_table s of
        None \<Rightarrow> Some s
      | Some tbl \<Rightarrow>
          if unat (objs_seen s) < length tbl
          then Some (s\<lparr>intern_obj_table := Some (tbl[unat (objs_seen s) := Some v]), objs_seen := objs_seen s + 1\<rparr>)
          else None)"

definition new_object :: "intern_env \<Rightarrow> intern_st \<Rightarrow> uintnat \<Rightarrow> byte \<Rightarrow> mlvalue intern" where
  "new_object env s wosize tag =
     bind_partial (Some (intern_alloc_obj env s wosize tag)) (\<lambda>(v, s).
       map_option (\<lambda>s. Inr (v, s)) (record_object s v))"

section \<open>Object identifiers\<close>

definition Id_chunk :: uintnat where "Id_chunk = 1024"

definition caml_fresh_oo_id :: "intern_st \<Rightarrow> mlvalue \<times> intern_st" where
  "caml_fresh_oo_id s =
     (let s = (if oo_next_id_local s mod Id_chunk = 0
               then s\<lparr>oo_next_id_local := oo_next_id s, oo_next_id := oo_next_id s + Id_chunk\<rparr> else s)
      in (Val_long (oo_next_id_local s), s\<lparr>oo_next_id_local := oo_next_id_local s + 1\<rparr>))"

definition caml_set_oo_id :: "intern_st \<Rightarrow> mlvalue \<Rightarrow> intern_st" where
  "caml_set_oo_id s obj = (case caml_fresh_oo_id s of (v, s) \<Rightarrow> put_word s (obj + 8) v)"

section \<open>Reading a value\<close>

text \<open>The value read, \<open>None\<close> for the code of an infix pointer: its value is read by items pushed on the
  stack.\<close>

type_synonym read_value = "mlvalue option intern"

definition value_read :: "mlvalue \<Rightarrow> intern_st \<Rightarrow> read_value" where
  "value_read v s = Some (Inr (Some v, s))"

definition read_block :: "intern_env \<Rightarrow> intern_st \<Rightarrow> uintnat \<Rightarrow> byte \<Rightarrow> read_value" where
  "read_block env s sz tag =
     (if sz = 0 then value_read (caml_atom (dstate (machine s)) tag) s
      else
        bind_partial (new_object env s sz tag) (\<lambda>(v, s).
          bind_partial
            (Some (if tag = Object_tag then
                     bind_result (ReadItems env s (v + 16) (sz - 2)) (\<lambda>s.
                     bind_result (PushItem env s \<lparr>it_dest = v, it_arg = 1, it_op = OFreshOID\<rparr>) (\<lambda>s.
                     ReadItems env s v 2))
                   else ReadItems env s v sz))
            (value_read v)))"

definition read_string :: "intern_env \<Rightarrow> intern_st \<Rightarrow> uintnat \<Rightarrow> read_value" where
  "read_string env s len =
     (let sz = (len + 8) div 8
      in bind_partial (new_object env s sz String_tag) (\<lambda>(v, s).
           let s = put_word s (v + 8 * (sz - 1)) 0;
               ofs_ind = Bsize_wsize sz - 1;
               s = put_bytes s (v + ofs_ind) [ucast (ofs_ind - len)]
           in reading (readblock (unat len)) s (\<lambda>data s. value_read v (put_bytes s v data))))"

definition read_shared :: "intern_st \<Rightarrow> uintnat \<Rightarrow> read_value" where
  "read_shared s ofs =
     (let ofs = (if compressed s then ofs else objs_seen s - ofs)
      in case intern_obj_table s of
           None \<Rightarrow> None
         | Some tbl \<Rightarrow>
             if unat ofs < length tbl then Option.bind (tbl ! unat ofs) (\<lambda>v. value_read v s) else None)"

text \<open>Floating-point numbers, and the order of their bytes.\<close>

definition readfloat :: "intern_st \<Rightarrow> mlvalue \<Rightarrow> byte \<Rightarrow> intern_st option" where
  "readfloat s dest code =
     reading (readblock 8) s (\<lambda>data s. Some (put_bytes s dest (if code \<noteq> CODE_DOUBLE_LITTLE then rev data else data)))"

definition readfloats :: "intern_st \<Rightarrow> mlvalue \<Rightarrow> uintnat \<Rightarrow> byte \<Rightarrow> intern_st option" where
  "readfloats s dest len code =
     reading (readblock (unat len * 8)) s (\<lambda>data s.
       Some (put_bytes s dest
         (if code \<noteq> CODE_DOUBLE_ARRAY8_LITTLE \<and> code \<noteq> CODE_DOUBLE_ARRAY32_LITTLE
          then reverse_chunks 8 (unat len) data else data)))"

definition read_double :: "intern_env \<Rightarrow> intern_st \<Rightarrow> byte \<Rightarrow> read_value" where
  "read_double env s code =
     bind_partial (new_object env s Double_wosize Double_tag) (\<lambda>(v, s).
       Option.bind (readfloat s v code) (value_read v))"

definition read_double_array :: "intern_env \<Rightarrow> intern_st \<Rightarrow> uintnat \<Rightarrow> byte \<Rightarrow> read_value" where
  "read_double_array env s len code =
     (let sz = len * Double_wosize
      in bind_partial (new_object env s sz Double_array_tag) (\<lambda>(v, s).
           Option.bind (readfloats s v len code) (value_read v)))"

definition hex_digit :: "nat \<Rightarrow> char" where
  "hex_digit n = ''0123456789ABCDEF'' ! n"

definition intern_bad_code_pointer :: "bytes \<Rightarrow> exn" where
  "intern_bad_code_pointer digest =
     Failure (''input_value: unknown code module '' @
       concat (map (\<lambda>b. [hex_digit (unat b div 16), hex_digit (unat b mod 16)]) (take 16 digest)))"

definition intern_resolve_code_pointer :: "intern_env \<Rightarrow> bytes \<Rightarrow> uintnat \<Rightarrow> 64 word option" where
  "intern_resolve_code_pointer env digest offset =
     (case caml_find_code_fragment_by_digest env digest of
        None \<Rightarrow> None
      | Some cf \<Rightarrow> if code_start cf + offset < code_end cf then Some (code_start cf + offset) else None)"

definition read_code_pointer :: "intern_env \<Rightarrow> intern_st \<Rightarrow> read_value" where
  "read_code_pointer env s =
     reading read32u s (\<lambda>ofs s. reading (readblock 16) s (\<lambda>digest s.
       case intern_resolve_code_pointer env digest (ucast ofs) of
         Some codeptr \<Rightarrow> value_read codeptr s
       | None \<Rightarrow>
           (case function_placeholder env of
              Some f \<Rightarrow> value_read (Field (mem_of (machine s)) f 0) s
            | None \<Rightarrow> Some (Inl (intern_bad_code_pointer digest)))))"

definition read_infix :: "intern_env \<Rightarrow> intern_st \<Rightarrow> 64 word \<Rightarrow> read_value" where
  "read_infix env s dest =
     reading read32u s (\<lambda>ofs s.
       Some (bind_result (PushItem env s \<lparr>it_dest = dest, it_arg = ucast ofs, it_op = OShift\<rparr>) (\<lambda>s.
         map_result (\<lambda>s. (None, s)) (ReadItems env s dest 1))))"

text \<open>A C string in the input.\<close>

definition read_ident :: "bytes reader" where
  "read_ident src =
     (if 0 \<in> set src then Some (takeWhile (\<lambda>b. b \<noteq> 0) src, tl (dropWhile (\<lambda>b. b \<noteq> 0) src)) else None)"

definition read_custom :: "intern_env \<Rightarrow> intern_st \<Rightarrow> byte \<Rightarrow> read_value" where
  "read_custom env s code =
     reading read_ident s (\<lambda>ident s.
       case caml_find_custom_operations env ident of
         None \<Rightarrow> Some (Inl (Failure ''input_value: unknown custom block identifier''))
       | Some ops \<Rightarrow>
           if code = CODE_CUSTOM_FIXED \<and> cd_fixed_length ops = None
           then Some (Inl (Failure ''input_value: expected a fixed-sz custom block''))
           else
             Option.bind
               (if code = CODE_CUSTOM_FIXED then map_option (\<lambda>(_, bsize_64). (bsize_64, s)) (cd_fixed_length ops)
                else reading (readblock 4) s (\<lambda>_ s. reading read64u s (\<lambda>n s. Some (n, s))))
               (\<lambda>(expected_size, s).
             bind_partial (Some (intern_alloc_obj env s (1 + (expected_size + 8 - 1) div 8) Custom_tag)) (\<lambda>(v, s).
             bind_partial (cd_deserialize ops (intern_src s)) (\<lambda>(sz, data, src).
             let s = put_bytes (put_word s v (cd_ops ops)) (v + 8) data; s = s\<lparr>intern_src := src\<rparr>
             in if sz \<noteq> expected_size
                then Some (Inl (Failure ''input_value: incorrect length of serialized custom block''))
                else
                  Option.bind (record_object s v) (\<lambda>s.
                    value_read v (if cd_finalize ops \<and> Is_young_v (machine s) v
                                  then s\<lparr>custom_table := custom_table s @ [v]\<rparr> else s))))))"

definition read_long_code :: "intern_env \<Rightarrow> intern_st \<Rightarrow> 64 word \<Rightarrow> byte \<Rightarrow> read_value" where
  "read_long_code env s dest code =
     (if code = CODE_INT8 then reading read8s s (\<lambda>n. value_read (Val_long (scast n)))
      else if code = CODE_INT16 then reading read16s s (\<lambda>n. value_read (Val_long (scast n)))
      else if code = CODE_INT32 then reading read32s s (\<lambda>n. value_read (Val_long (scast n)))
      else if code = CODE_INT64 then reading read64u s (\<lambda>n. value_read (Val_long n))
      else if code = CODE_UNBOXED_INT64 then reading read64u s value_read
      else if code = CODE_SHARED8 then reading read8u s (\<lambda>ofs s. read_shared s (ucast ofs))
      else if code = CODE_SHARED16 then reading read16u s (\<lambda>ofs s. read_shared s (ucast ofs))
      else if code = CODE_SHARED32 then reading read32u s (\<lambda>ofs s. read_shared s (ucast ofs))
      else if code = CODE_SHARED64 then reading read64u s (\<lambda>ofs s. read_shared s ofs)
      else if code = CODE_BLOCK32 then
        reading read32u s (\<lambda>header s. read_block env s (Allocated_wosize_hd (ucast header)) (Tag_hd (ucast header)))
      else if code = CODE_BLOCK64 then
        reading read64u s (\<lambda>header s. read_block env s (Allocated_wosize_hd header) (Tag_hd header))
      else if code = CODE_STRING8 then reading read8u s (\<lambda>len s. read_string env s (ucast len))
      else if code = CODE_STRING32 then reading read32u s (\<lambda>len s. read_string env s (ucast len))
      else if code = CODE_STRING64 then reading read64u s (\<lambda>len s. read_string env s len)
      else if code = CODE_DOUBLE_LITTLE \<or> code = CODE_DOUBLE_BIG then read_double env s code
      else if code = CODE_DOUBLE_ARRAY8_LITTLE \<or> code = CODE_DOUBLE_ARRAY8_BIG then
        reading read8u s (\<lambda>len s. read_double_array env s (ucast len) code)
      else if code = CODE_DOUBLE_ARRAY32_LITTLE \<or> code = CODE_DOUBLE_ARRAY32_BIG then
        reading read32u s (\<lambda>len s. read_double_array env s (ucast len) code)
      else if code = CODE_DOUBLE_ARRAY64_LITTLE \<or> code = CODE_DOUBLE_ARRAY64_BIG then
        reading read64u s (\<lambda>len s. read_double_array env s len code)
      else if code = CODE_CODEPOINTER then read_code_pointer env s
      else if code = CODE_INFIXPOINTER then read_infix env s dest
      else if code = OLD_CODE_CUSTOM then
        Some (Inl (Failure ''input_value: custom blocks serialized with OCaml 4.08.0 (or prior) are no longer supported''))
      else if code = CODE_CUSTOM_LEN \<or> code = CODE_CUSTOM_FIXED then read_custom env s code
      else Some (Inl (Failure ''input_value: ill-formed message'')))"

definition read_value_code :: "intern_env \<Rightarrow> intern_st \<Rightarrow> 64 word \<Rightarrow> byte \<Rightarrow> read_value" where
  "read_value_code env s dest code =
     (if code \<ge> PREFIX_SMALL_INT then
        (if code \<ge> PREFIX_SMALL_BLOCK
         then read_block env s (ucast (drop_bit 4 code AND 0x7)) (code AND 0xF)
         else value_read (Val_int (ucast (code AND 0x3F))) s)
      else if code \<ge> PREFIX_SMALL_STRING then read_string env s (ucast (code AND 0x1F))
      else read_long_code env s dest code)"

section \<open>The loop\<close>

definition pop_item :: "intern_st \<Rightarrow> intern_st" where
  "pop_item s = s\<lparr>intern_stack := tl (intern_stack s)\<rparr>"

text \<open>The item with its destination advanced, dropped when nothing is left to read.\<close>

definition next_read :: "intern_st \<Rightarrow> intern_item \<Rightarrow> intern_item list \<Rightarrow> intern_st" where
  "next_read s item items =
     (let item' = item\<lparr>it_dest := it_dest item + 8, it_arg := it_arg item - 1\<rparr>
      in s\<lparr>intern_stack := (if it_arg item' = 0 then items else item' # items)\<rparr>)"

definition intern_item_step :: "intern_env \<Rightarrow> intern_st \<Rightarrow> intern_item \<Rightarrow> intern_item list \<Rightarrow> intern_st result option" where
  "intern_item_step env s item items =
     (let dest = it_dest item
      in case it_op item of
           OFreshOID \<Rightarrow>
             Some (Inr (pop_item (if 0 \<le> sint (Long_val (Field (mem_of (machine s)) dest 1)) then caml_set_oo_id s dest else s)))
         | OShift \<Rightarrow>
             Some (Inr (pop_item (put_word s dest (load_word (machine s) dest + it_arg item))))
         | OReadItems \<Rightarrow>
             reading read8u (next_read s item items) (\<lambda>code s.
               bind_partial (read_value_code env s dest code) (\<lambda>(v, s).
                 Some (Inr (case v of None \<Rightarrow> s | Some v \<Rightarrow> put_word s dest v)))))"

partial_function (option) intern_loop :: "intern_env \<Rightarrow> intern_st \<Rightarrow> intern_st result option" where
  "intern_loop env s =
     (case intern_stack s of
        [] \<Rightarrow> Some (Inr (intern_free_stack s))
      | item # items \<Rightarrow>
          (case intern_item_step env s item items of
             None \<Rightarrow> None
           | Some r \<Rightarrow> (case r of Inl e \<Rightarrow> Some (Inl e) | Inr s' \<Rightarrow> intern_loop env s')))"

definition intern_rec :: "intern_env \<Rightarrow> intern_st \<Rightarrow> 64 word \<Rightarrow> intern_st result option" where
  "intern_rec env s dest =
     bind_partial (Some (ReadItems env (s\<lparr>intern_stack := []\<rparr>) dest 1)) (intern_loop env)"

section \<open>The header\<close>

record marshal_header =
  mh_magic :: "32 word"
  header_len :: uintnat
  data_len :: uintnat
  uncompressed_data_len :: uintnat
  num_objects :: uintnat
  mh_whsize :: uintnat
  mh_compressed :: bool

definition intern_failwith2 :: "string \<Rightarrow> string \<Rightarrow> exn" where
  "intern_failwith2 fun_name msg = Failure (take 98 (fun_name @ '': '' @ msg))"

definition parse_small :: "intern_st \<Rightarrow> marshal_header intern" where
  "parse_small s =
     reading read32u s (\<lambda>len s. reading read32u s (\<lambda>num s. reading read32u s (\<lambda>_ s. reading read32u s (\<lambda>wh s.
       Some (Inr (\<lparr>mh_magic = Intext_magic_number_small, header_len = 20, data_len = ucast len,
                   uncompressed_data_len = ucast len, num_objects = ucast num, mh_whsize = ucast wh,
                   mh_compressed = False\<rparr>, s))))))"

definition parse_big :: "intern_st \<Rightarrow> marshal_header intern" where
  "parse_big s =
     reading read32u s (\<lambda>_ s. reading read64u s (\<lambda>len s. reading read64u s (\<lambda>num s. reading read64u s (\<lambda>wh s.
       Some (Inr (\<lparr>mh_magic = Intext_magic_number_big, header_len = 32, data_len = len,
                   uncompressed_data_len = len, num_objects = num, mh_whsize = wh, mh_compressed = False\<rparr>, s))))))"

definition parse_compressed :: "string \<Rightarrow> intern_st \<Rightarrow> marshal_header intern" where
  "parse_compressed fun_name s =
     reading read8u s (\<lambda>hl s. reading readvlq s (\<lambda>(len, o1) s. reading readvlq s (\<lambda>(ulen, o2) s.
     reading readvlq s (\<lambda>(num, o3) s. reading readvlq s (\<lambda>_ s. reading readvlq s (\<lambda>(wh, o4) s.
       Some (if o1 \<noteq> 0 \<or> o2 \<noteq> 0 \<or> o3 \<noteq> 0 \<or> o4 \<noteq> 0
             then Inl (intern_failwith2 fun_name ''object too large to be read back on this platform'')
             else Inr (\<lparr>mh_magic = Intext_magic_number_compressed, header_len = ucast (hl AND 0x3F), data_len = len,
                        uncompressed_data_len = ulen, num_objects = num, mh_whsize = wh, mh_compressed = True\<rparr>, s))))))))"

definition caml_parse_header :: "string \<Rightarrow> intern_st \<Rightarrow> marshal_header intern" where
  "caml_parse_header fun_name s =
     reading read32u s (\<lambda>magic s.
       if magic = Intext_magic_number_small then parse_small s
       else if magic = Intext_magic_number_big then parse_big s
       else if magic = Intext_magic_number_compressed then parse_compressed fun_name s
       else Some (Inl (intern_failwith2 fun_name ''bad object'')))"

definition intern_decompress_input :: "string \<Rightarrow> intern_st \<Rightarrow> marshal_header \<Rightarrow> intern_st result" where
  "intern_decompress_input fun_name s h =
     (if \<not> mh_compressed h then Inr (s\<lparr>compressed := False\<rparr>)
      else Inl (intern_failwith2 fun_name ''compressed object, cannot decompress''))"

section \<open>Entry points\<close>

text \<open>The result is the contents of the local variable whose address is given.  Polling for pending
  actions at the end is not modelled.\<close>

definition intern_end :: "intern_st \<Rightarrow> 64 word \<Rightarrow> mlvalue \<times> intern_st" where
  "intern_end s obj = (load_word (machine s) obj, intern_cleanup s)"

definition input_val_from_block :: "intern_env \<Rightarrow> intern_st \<Rightarrow> marshal_header \<Rightarrow> 64 word \<Rightarrow> mlvalue intern" where
  "input_val_from_block env s h obj =
     bind_partial (Some (intern_decompress_input ''input_val_from_block'' s h)) (\<lambda>s.
     bind_partial (intern_alloc_storage env s (mh_whsize h) (num_objects h)) (\<lambda>s.
     bind_partial (intern_rec env s obj) (\<lambda>s. Some (Inr (intern_end s obj)))))"

definition caml_input_value_from_malloc :: "intern_env \<Rightarrow> intern_st \<Rightarrow> bytes \<Rightarrow> nat \<Rightarrow> 64 word \<Rightarrow> mlvalue intern" where
  "caml_input_value_from_malloc env s data ofs obj =
     bind_partial (caml_parse_header ''input_value_from_malloc'' (s\<lparr>intern_src := drop ofs data\<rparr>)) (\<lambda>(h, s).
     input_val_from_block env s h obj)"

definition caml_input_value_from_block :: "intern_env \<Rightarrow> intern_st \<Rightarrow> bytes \<Rightarrow> intnat \<Rightarrow> 64 word \<Rightarrow> mlvalue intern" where
  "caml_input_value_from_block env s data len obj =
     bind_partial (caml_parse_header ''input_value_from_block'' (s\<lparr>intern_src := data\<rparr>)) (\<lambda>(h, s).
     if header_len h + data_len h > len then Some (Inl (Failure ''input_val_from_block: bad length''))
     else input_val_from_block env s h obj)"

text \<open>From an OCaml string, whose bytes from the offset on are the input.\<close>

definition caml_input_val_from_bytes :: "intern_env \<Rightarrow> intern_st \<Rightarrow> mlvalue \<Rightarrow> intnat \<Rightarrow> 64 word \<Rightarrow> mlvalue intern" where
  "caml_input_val_from_bytes env s str ofs obj =
     (let m = mem_of (machine s); len = caml_string_length m str; fun_name = ''input_val_from_string'';
          data = load_bytes m (str + ofs) (unat len - unat ofs)
      in bind_partial (caml_parse_header fun_name (s\<lparr>intern_src := data\<rparr>)) (\<lambda>(h, s).
         if ofs + header_len h + data_len h > len then Some (Inl (Failure ''input_val_from_string: bad length''))
         else
           bind_partial (intern_alloc_storage env s (mh_whsize h) (num_objects h)) (\<lambda>s.
           bind_partial (Some (intern_decompress_input fun_name (s\<lparr>intern_src := drop (unat (header_len h)) data\<rparr>) h)) (\<lambda>s.
           bind_partial (intern_rec env s obj) (\<lambda>s. Some (Inr (intern_end s obj)))))))"

definition caml_input_value_from_bytes :: "intern_env \<Rightarrow> intern_st \<Rightarrow> mlvalue \<Rightarrow> mlvalue \<Rightarrow> 64 word \<Rightarrow> mlvalue intern" where
  "caml_input_value_from_bytes env s str ofs obj = caml_input_val_from_bytes env s str (Long_val ofs) obj"

definition caml_marshal_data_size :: "bytes \<Rightarrow> mlvalue result option" where
  "caml_marshal_data_size src =
     Option.bind (read32u src) (\<lambda>(magic, src).
       let sz = (\<lambda>header_len data_len. Some (Inr (Val_long (header_len - 16 + data_len))))
       in if magic = Intext_magic_number_small then
            Option.bind (read32u src) (\<lambda>(data_len, _). sz 20 (ucast data_len))
          else if magic = Intext_magic_number_big then
            Option.bind (read32u src) (\<lambda>(_, src). Option.bind (read64u src) (\<lambda>(data_len, _). sz 32 data_len))
          else if magic = Intext_magic_number_compressed then
            Option.bind (read8u src) (\<lambda>(hl, src). Option.bind (readvlq src) (\<lambda>((data_len, overflow), _).
              if overflow \<noteq> 0
              then Some (Inl (Failure ''Marshal.data_size: object too large to be read back on this platform''))
              else sz (ucast (hl AND 0x3F)) data_len))
          else Some (Inl (Failure ''Marshal.data_size: bad object'')))"

end
