(* ===== verification/Marshal_Codes.thy ===== *)
theory Marshal_Codes
  imports Extern Intern
begin

text \<open>
  The items of the marshalling format: what \<open>extern.c\<close> writes for a scalar, a header, a string or a
  reference is what \<open>intern.c\<close> reads back, and what each writer does to the state.
\<close>

unbundle bit_operations_syntax

section \<open>Narrowing and widening\<close>

lemma scast_ucast_fits:
  fixes n :: "64 word"
  assumes "- (2 ^ (LENGTH('b::len) - 1)) \<le> sint n" "sint n < 2 ^ (LENGTH('b) - 1)" "LENGTH('b) \<le> 64"
  shows "scast (ucast n :: 'b word) = n"
proof -
  have "(ucast n :: 'b word) = word_of_int (sint n)"
    using assms(3) by (intro bit_word_eqI) (simp add: bit_simps bit_sint_iff)
  then have "sint (ucast n :: 'b word) = sint n" using signed_take_bit_in_range[OF assms(1,2)] by simp
  then show ?thesis by (simp add: scast_eq)
qed

lemma ucast_ucast_fits:
  fixes n :: "64 word"
  assumes "unat n < 2 ^ LENGTH('b::len)" "LENGTH('b) \<le> 64"
  shows "ucast (ucast n :: 'b word) = n"
  using bit_small_word[OF assms(1)] by (intro bit_word_eqI) (auto simp: bit_simps)

lemma ucast_ucast_down: "LENGTH('c::len) \<le> LENGTH('b::len) \<Longrightarrow> ucast (ucast (n :: 'a::len word) :: 'b word) = (ucast n :: 'c word)"
  by (rule bit_word_eqI) (auto simp: bit_simps)

lemma unat_and_mask: "unat (x AND mask n) = unat (x :: 'a::len word) mod 2 ^ n"
  unfolding take_bit_eq_mask[symmetric] unsigned_take_bit_eq by (simp only: take_bit_eq_mod)

lemma ucast_of_nat_byte: "ucast (of_nat n :: 64 word) = (of_nat n :: byte)"
  by (simp add: unsigned_of_nat word_of_nat_eq_iff)

section \<open>Reading what was written\<close>

text \<open>Bytes that the reader takes for the item whose effect is given.\<close>

definition reads_as :: "bytes \<Rightarrow> (intern_env \<Rightarrow> intern_st \<Rightarrow> read_value) \<Rightarrow> bool" where
  "reads_as bs act \<longleftrightarrow>
     (\<exists>code bs'. bs = code # bs' \<and>
        (\<forall>env rs dest rest. intern_src rs = bs' @ rest \<longrightarrow>
           read_value_code env rs dest code = act env (rs\<lparr>intern_src := rest\<rparr>)))"

lemma reads_asI:
  assumes "\<And>env rs dest rest. intern_src rs = bs' @ rest \<Longrightarrow>
    read_value_code env rs dest code = act env (rs\<lparr>intern_src := rest\<rparr>)"
  shows "reads_as (code # bs') act"
  using assms by (simp add: reads_as_def)

lemma reads_as_code:
  assumes "\<And>env rs dest. read_value_code env rs dest code = act env rs"
  shows "reads_as [code] act"
proof (rule reads_asI)
  show "read_value_code env rs dest code = act env (rs\<lparr>intern_src := rest\<rparr>)"
    if "intern_src rs = [] @ rest" for env rs dest rest
  proof -
    have "rs\<lparr>intern_src := rest\<rparr> = rs" using that by (cases rs) simp
    then show ?thesis by (simp add: assms)
  qed
qed

lemma reads_as_long_code:
  assumes "code < PREFIX_SMALL_STRING"
    and "\<And>env rs dest rest. intern_src rs = bs' @ rest \<Longrightarrow>
      read_long_code env rs dest code = act env (rs\<lparr>intern_src := rest\<rparr>)"
  shows "reads_as (code # bs') act"
  using assms by (intro reads_asI) (auto simp: read_value_code_def word_le_nat_alt word_less_nat_alt)

lemma reading_Some: "r (intern_src s) = Some (x, src) \<Longrightarrow> reading r s f = f x (s\<lparr>intern_src := src\<rparr>)"
  by (simp add: reading_def)

lemma read_codes:
  "intern_src s = ucast n # rest \<Longrightarrow> reading read8u s f = f (ucast n) (s\<lparr>intern_src := rest\<rparr>)"
  "intern_src s = ucast n # rest \<Longrightarrow> reading read8s s f = f (ucast n) (s\<lparr>intern_src := rest\<rparr>)"
  "intern_src s = store16 k @ rest \<Longrightarrow> reading read16u s g = g (ucast k) (s\<lparr>intern_src := rest\<rparr>)"
  "intern_src s = store16 k @ rest \<Longrightarrow> reading read16s s g = g (ucast k) (s\<lparr>intern_src := rest\<rparr>)"
  "intern_src s = store32 w @ rest \<Longrightarrow> reading read32u s h = h (ucast w) (s\<lparr>intern_src := rest\<rparr>)"
  "intern_src s = store32 w @ rest \<Longrightarrow> reading read32s s h = h (ucast w) (s\<lparr>intern_src := rest\<rparr>)"
  "intern_src s = store64 w @ rest \<Longrightarrow> reading read64u s i = i w (s\<lparr>intern_src := rest\<rparr>)"
  by (simp_all add: reading_def read8s_def read16s_def read32s_def)

lemma small_int_code:
  fixes n :: intnat
  assumes "0 \<le> sint n" "sint n < 0x40"
  shows "PREFIX_SMALL_INT \<le> PREFIX_SMALL_INT + (ucast n :: byte)"
    and "\<not> PREFIX_SMALL_BLOCK \<le> PREFIX_SMALL_INT + (ucast n :: byte)"
    and "Val_int (ucast ((PREFIX_SMALL_INT + ucast n :: byte) AND 0x3F)) = Val_long n"
proof -
  define k where "k = nat (sint n)"
  have k: "k < 64" "n = of_nat k"
    using assms by (simp_all add: k_def)
  have u: "unat (ucast n :: byte) = k" using k by (simp add: unsigned_of_nat take_bit_eq_mod unat_of_nat)
  then have c: "unat (PREFIX_SMALL_INT + ucast n :: byte) = 64 + k" using k(1) by (simp add: unat_word_ariths)
  show "PREFIX_SMALL_INT \<le> PREFIX_SMALL_INT + (ucast n :: byte)"
    "\<not> PREFIX_SMALL_BLOCK \<le> PREFIX_SMALL_INT + (ucast n :: byte)"
    unfolding word_le_nat_alt c using k(1) by simp_all
  have "(0x3F :: byte) = mask 6" by (simp add: mask_eq_exp_minus_1)
  then have "unat ((PREFIX_SMALL_INT + ucast n :: byte) AND 0x3F) = (64 + k) mod 2 ^ 6"
    by (simp only: c unat_and_mask)
  then have "unat ((PREFIX_SMALL_INT + ucast n :: byte) AND 0x3F) = k" using k(1) by simp
  then have i: "ucast ((PREFIX_SMALL_INT + ucast n :: byte) AND 0x3F) = (of_nat k :: int32)"
    by (metis of_nat_unat)
  have "sint (of_nat k :: int32) = int k"
    using signed_take_bit_in_range[of "int k", where ?'a = 32] k(1) by simp
  then have "scast (of_nat k :: int32) = n" using k(2) by (simp add: scast_eq)
  then show "Val_int (ucast ((PREFIX_SMALL_INT + ucast n :: byte) AND 0x3F)) = Val_long n"
    unfolding i Val_int_def by simp
qed

lemma reads_small_int:
  "0 \<le> sint n \<Longrightarrow> sint n < 0x40 \<Longrightarrow>
     reads_as [PREFIX_SMALL_INT + ucast n] (\<lambda>env. value_read (Val_long n))"
  using small_int_code[of n] by (intro reads_as_code) (simp add: read_value_code_def)

lemma reads_int8:
  assumes "- (2 ^ 7) \<le> sint n" "sint n < 2 ^ 7"
  shows "reads_as (writecode8 [] CODE_INT8 n) (\<lambda>env. value_read (Val_long n))"
  using scast_ucast_fits[of n, where ?'b = 8] assms
  by (auto simp: writecode8_def read_long_code_def read_codes intro!: reads_as_long_code)

lemma reads_int16:
  assumes "- (2 ^ 15) \<le> sint n" "sint n < 2 ^ 15"
  shows "reads_as (writecode16 [] CODE_INT16 n) (\<lambda>env. value_read (Val_long n))"
  using scast_ucast_fits[of n, where ?'b = 16] assms
  by (auto simp: writecode16_def read_long_code_def read_codes ucast_ucast_down intro!: reads_as_long_code)

lemma reads_int32:
  assumes "- (2 ^ 31) \<le> sint n" "sint n < 2 ^ 31"
  shows "reads_as (writecode32 [] CODE_INT32 n) (\<lambda>env. value_read (Val_long n))"
  using scast_ucast_fits[of n, where ?'b = 32] assms
  by (auto simp: writecode32_def read_long_code_def read_codes intro!: reads_as_long_code)

lemma reads_int64: "reads_as (writecode64 [] CODE_INT64 n) (\<lambda>env. value_read (Val_long n))"
  by (auto simp: writecode64_def read_long_code_def read_codes intro!: reads_as_long_code)

text \<open>Back references.\<close>

lemma reads_shared:
  "unat d < 2 ^ 8 \<Longrightarrow> reads_as (writecode8 [] CODE_SHARED8 d) (\<lambda>env s. read_shared s d)"
  "unat d < 2 ^ 16 \<Longrightarrow> reads_as (writecode16 [] CODE_SHARED16 d) (\<lambda>env s. read_shared s d)"
  "unat d < 2 ^ 32 \<Longrightarrow> reads_as (writecode32 [] CODE_SHARED32 d) (\<lambda>env s. read_shared s d)"
  "reads_as (writecode64 [] CODE_SHARED64 d) (\<lambda>env s. read_shared s d)"
  using ucast_ucast_fits[of d, where ?'b = 8] ucast_ucast_fits[of d, where ?'b = 16] ucast_ucast_fits[of d, where ?'b = 32]
  by (auto simp: writecode8_def writecode16_def writecode32_def writecode64_def read_long_code_def read_codes
      ucast_ucast_down intro!: reads_as_long_code)

text \<open>Headers.\<close>

lemma small_block_code:
  assumes "tag < 16" "sz < (8 :: uintnat)"
  defines "code \<equiv> PREFIX_SMALL_BLOCK + tag + ucast (push_bit 4 sz) :: byte"
  shows "PREFIX_SMALL_BLOCK \<le> code" "code AND 0xF = tag" "ucast (drop_bit 4 code AND 0x7) = sz"
proof -
  define k where "k = unat sz"
  have k: "k < 8" "sz = of_nat k" using assms(2) by (simp_all add: k_def word_less_nat_alt)
  have t: "unat tag < 16" using assms(1) by (simp add: word_less_nat_alt)
  have "ucast (push_bit 4 sz) = (of_nat (k * 16) :: byte)"
    unfolding k(2) push_bit_of_nat ucast_of_nat_byte push_bit_eq_mult[where ?'a = nat] by simp
  then have "unat (ucast (push_bit 4 sz) :: byte) = k * 16"
    using k(1) by (simp only: unat_of_nat) simp
  then have c: "unat code = 128 + unat tag + k * 16"
    using t k(1) by (simp add: code_def unat_word_ariths)
  show "PREFIX_SMALL_BLOCK \<le> code" unfolding word_le_nat_alt c by simp
  have m: "(0xF :: byte) = mask 4" "(0x7 :: byte) = mask 3" by (simp_all add: mask_eq_exp_minus_1)
  have "unat (code AND 0xF) = (128 + unat tag + k * 16) mod 2 ^ 4"
    unfolding m by (simp only: c unat_and_mask)
  also have "\<dots> = (unat tag + 16 * (8 + k)) mod 16" by (simp add: algebra_simps)
  also have "\<dots> = unat tag" using t by (simp only: mod_mult_self2 mod_less)
  finally show "code AND 0xF = tag" by (rule unsigned_word_eqI)
  have "unat (drop_bit 4 code AND 0x7) = (128 + unat tag + k * 16) div 2 ^ 4 mod 2 ^ 3"
    unfolding m
    by (simp only: c unat_and_mask unat_drop_bit_eq drop_bit_eq_div[where ?'a = nat])
  also have "\<dots> = (unat tag + 16 * (8 + k)) div 16 mod 8" by (simp add: algebra_simps)
  also have "\<dots> = k" using t k(1) by (simp only: div_mult_self2) simp
  finally show "ucast (drop_bit 4 code AND 0x7) = sz" using k(2) by (metis of_nat_unat)
qed

lemma reads_small_header:
  "tag < 16 \<Longrightarrow> sz < 8 \<Longrightarrow>
     reads_as [PREFIX_SMALL_BLOCK + tag + ucast (push_bit 4 sz)] (\<lambda>env s. read_block env s sz tag)"
proof (rule reads_as_code)
  assume a: "tag < 16" "sz < 8"
  note c = small_block_code[OF a]
  have "PREFIX_SMALL_INT \<le> PREFIX_SMALL_BLOCK + tag + (ucast (push_bit 4 sz) :: byte)"
    using order_trans[OF _ c(1), of PREFIX_SMALL_INT] by simp
  then show "read_value_code env rs dest (PREFIX_SMALL_BLOCK + tag + ucast (push_bit 4 sz)) =
      read_block env rs sz tag" for env rs dest
    using c by (simp add: read_value_code_def)
qed

lemma reads_header:
  fixes tag :: byte
  assumes "unat sz < 2 ^ 46"
  defines "hdr \<equiv> Make_header sz tag NOT_MARKABLE"
  shows "unat hdr < 2 ^ 32 \<Longrightarrow> reads_as (writecode32 [] CODE_BLOCK32 hdr) (\<lambda>env s. read_block env s sz tag)"
    and "reads_as (writecode64 [] CODE_BLOCK64 hdr) (\<lambda>env s. read_block env s sz tag)"
proof -
  have h: "Tag_hd hdr = tag" "Allocated_wosize_hd hdr = sz" using Make_header_local(1,2)[OF assms(1), of tag] by (simp_all add: hdr_def)
  show "reads_as (writecode64 [] CODE_BLOCK64 hdr) (\<lambda>env s. read_block env s sz tag)"
    using h by (auto simp: writecode64_def read_long_code_def read_codes intro!: reads_as_long_code)
  assume "unat hdr < 2 ^ 32"
  then have "ucast (ucast hdr :: 32 word) = hdr" by (intro ucast_ucast_fits) simp_all
  then show "reads_as (writecode32 [] CODE_BLOCK32 hdr) (\<lambda>env s. read_block env s sz tag)"
    using h by (auto simp: writecode32_def read_long_code_def read_codes intro!: reads_as_long_code)
qed

text \<open>Lengths of strings and of float arrays.\<close>

lemma small_string_code:
  fixes len :: uintnat
  assumes "len < 0x20"
  defines "code \<equiv> PREFIX_SMALL_STRING + ucast len :: byte"
  shows "PREFIX_SMALL_STRING \<le> code" "\<not> PREFIX_SMALL_INT \<le> code" "ucast (code AND 0x1F) = len"
proof -
  define k where "k = unat len"
  have k: "k < 32" "len = of_nat k" using assms(1) by (simp_all add: k_def word_less_nat_alt)
  have "unat (ucast len :: byte) = k" using k by (simp add: unsigned_of_nat take_bit_eq_mod unat_of_nat)
  then have c: "unat code = 32 + k" using k(1) by (simp add: code_def unat_word_ariths)
  show "PREFIX_SMALL_STRING \<le> code" "\<not> PREFIX_SMALL_INT \<le> code"
    unfolding word_le_nat_alt word_less_nat_alt c using k(1) by simp_all
  have "(0x1F :: byte) = mask 5" by (simp add: mask_eq_exp_minus_1)
  then have "unat (code AND 0x1F) = (32 + k) mod 2 ^ 5"
    by (simp only: c unat_and_mask)
  then have "unat (code AND 0x1F) = k" using k(1) by simp
  then show "ucast (code AND 0x1F) = len" using k(2) by (metis of_nat_unat)
qed

lemma reads_small_string:
  "len < 0x20 \<Longrightarrow> reads_as [PREFIX_SMALL_STRING + ucast len] (\<lambda>env s. read_string env s len)"
  using small_string_code[of len] by (intro reads_as_code) (simp add: read_value_code_def)

lemma reads_string:
  "unat len < 2 ^ 8 \<Longrightarrow> reads_as (writecode8 [] CODE_STRING8 len) (\<lambda>env s. read_string env s len)"
  "unat len < 2 ^ 32 \<Longrightarrow> reads_as (writecode32 [] CODE_STRING32 len) (\<lambda>env s. read_string env s len)"
  "reads_as (writecode64 [] CODE_STRING64 len) (\<lambda>env s. read_string env s len)"
  using ucast_ucast_fits[of len, where ?'b = 8] ucast_ucast_fits[of len, where ?'b = 32]
  by (auto simp: writecode8_def writecode32_def writecode64_def read_long_code_def read_codes
      intro!: reads_as_long_code)

lemma reads_double: "reads_as [CODE_DOUBLE_LITTLE] (\<lambda>env s. read_double env s CODE_DOUBLE_LITTLE)"
  by (auto simp: read_long_code_def intro!: reads_as_long_code)

lemma reads_double_array:
  "unat n < 2 ^ 8 \<Longrightarrow> reads_as (writecode8 [] CODE_DOUBLE_ARRAY8_LITTLE n)
     (\<lambda>env s. read_double_array env s n CODE_DOUBLE_ARRAY8_LITTLE)"
  "unat n < 2 ^ 32 \<Longrightarrow> reads_as (writecode32 [] CODE_DOUBLE_ARRAY32_LITTLE n)
     (\<lambda>env s. read_double_array env s n CODE_DOUBLE_ARRAY32_LITTLE)"
  "reads_as (writecode64 [] CODE_DOUBLE_ARRAY64_LITTLE n)
     (\<lambda>env s. read_double_array env s n CODE_DOUBLE_ARRAY64_LITTLE)"
  using ucast_ucast_fits[of n, where ?'b = 8] ucast_ucast_fits[of n, where ?'b = 32]
  by (auto simp: writecode8_def writecode32_def writecode64_def read_long_code_def read_codes
      intro!: reads_as_long_code)

end
