(* ===== verification/Marshal_Write.thy ===== *)
theory Marshal_Write
  imports Marshal_Codes
begin

text \<open>
  What the traversal of \<open>extern.c\<close> writes for a finite graph of data: every step writes one item
  that the reader understands, and keeps the table of positions, the sizes and the stack of
  pending fields in step with the list of objects written.
\<close>

section \<open>Graphs of data\<close>

text \<open>The blocks whose fields are values that marshalling follows.\<close>

definition scannable :: "byte \<Rightarrow> bool" where
  "scannable tag \<longleftrightarrow> tag < Cont_tag \<or> tag = Lazy_tag"

abbreviation wosize_nat :: "mem \<Rightarrow> mlvalue \<Rightarrow> nat" where
  "wosize_nat m x \<equiv> unat (Allocated_wosize_val m x)"

text \<open>An atom, which is not a block of the graph.\<close>

definition is_atom :: "mem \<Rightarrow> mlvalue \<Rightarrow> bool" where
  "is_atom m v \<longleftrightarrow> Is_block v \<and> Reserved_val m v = 0 \<and> Allocated_wosize_val m v = 0 \<and> scannable (Tag_val m v)"

definition value_in :: "mem \<Rightarrow> mlvalue set \<Rightarrow> mlvalue \<Rightarrow> bool" where
  "value_in m G v \<longleftrightarrow> Is_long v \<or> is_atom m v \<or> v \<in> G"

definition data_block :: "mem \<Rightarrow> mlvalue set \<Rightarrow> mlvalue \<Rightarrow> bool" where
  "data_block m G x \<longleftrightarrow>
     Is_block x \<and> Reserved_val m x = 0 \<and> Allocated_wosize_val m x \<noteq> 0 \<and>
     (scannable (Tag_val m x) \<and> (\<forall>j<wosize_nat m x. value_in m G (Field m x j)) \<or>
      Tag_val m x = String_tag \<and> (\<exists>bs. string_block m x bs) \<or>
      Tag_val m x = Double_tag \<and> Allocated_wosize_val m x = 1 \<or>
      Tag_val m x = Double_array_tag \<and> wosize_nat m x < 2 ^ 32)"

definition words :: "mem \<Rightarrow> mlvalue list \<Rightarrow> nat" where
  "words m objs = (\<Sum>x\<leftarrow>objs. 1 + wosize_nat m x)"

definition data_graph :: "mem \<Rightarrow> mlvalue set \<Rightarrow> bool" where
  "data_graph m G \<longleftrightarrow> finite G \<and> (\<forall>x\<in>G. data_block m G x) \<and> (\<Sum>x\<in>G. 1 + wosize_nat m x) < 2 ^ 55"

lemma data_graphD: "data_graph m G \<Longrightarrow> x \<in> G \<Longrightarrow> data_block m G x"
  by (simp add: data_graph_def)

lemma words_snoc [simp]: "words m (objs @ [x]) = words m objs + (1 + wosize_nat m x)"
  by (simp add: words_def)

lemma words_bound:
  assumes "data_graph m G" "distinct objs" "set objs \<subseteq> G"
  shows "words m objs < 2 ^ 55"
proof -
  have "words m objs = (\<Sum>x\<in>set objs. 1 + wosize_nat m x)"
    unfolding words_def using assms(2) by (rule sum_list_distinct_conv_sum_set)
  also have "\<dots> \<le> (\<Sum>x\<in>G. 1 + wosize_nat m x)"
    using assms by (intro sum_mono2) (auto simp: data_graph_def)
  finally show ?thesis using assms(1) by (simp add: data_graph_def)
qed

lemma length_le_words: "length objs \<le> words m objs"
  by (induction objs) (simp_all add: words_def)

section \<open>Writers\<close>

text \<open>How marshalling of data can fail: without memory, or when a 32-bit platform could not read the
  result.\<close>

definition may_fail :: "extern_st \<Rightarrow> exn \<Rightarrow> bool" where
  "may_fail s e \<longleftrightarrow> e = Out_of_memory \<or> flag_set s COMPAT_32 \<and> (\<exists>msg. e = Failure msg)"

text \<open>Only the output differs.\<close>

definition same_traversal :: "extern_st \<Rightarrow> extern_st \<Rightarrow> bool" where
  "same_traversal s s' \<longleftrightarrow>
     extern_flags s' = extern_flags s \<and> positions s' = positions s \<and> size_32 s' = size_32 s \<and> size_64 s' = size_64 s \<and>
     extern_stack s' = extern_stack s \<and> extern_stack_limit s' = extern_stack_limit s \<and>
     extern_userprovided_output s' = extern_userprovided_output s"

lemma same_traversal_refl [simp]: "same_traversal s s"
  by (simp add: same_traversal_def)

lemma same_traversal_trans: "same_traversal s s' \<Longrightarrow> same_traversal s' s'' \<Longrightarrow> same_traversal s s''"
  by (simp add: same_traversal_def)

lemma same_traversal_select:
  assumes "same_traversal s s'"
  shows "extern_flags s' = extern_flags s" "positions s' = positions s" "size_64 s' = size_64 s"
    "extern_stack s' = extern_stack s" "extern_userprovided_output s' = extern_userprovided_output s"
    "flag_set s' f = flag_set s f" "may_fail s' e = may_fail s e"
  using assms by (auto simp: same_traversal_def flag_set_def may_fail_def)

definition wrote :: "extern_st \<Rightarrow> bytes \<Rightarrow> extern_st result \<Rightarrow> bool" where
  "wrote s data r \<longleftrightarrow>
     (case r of Inl e \<Rightarrow> may_fail s e | Inr s' \<Rightarrow> same_traversal s s' \<and> extern_out s' = extern_out s @ data)"

lemma wrote_emit: "\<not> extern_userprovided_output s \<Longrightarrow> wrote s data (emit env data s)"
  by (auto simp: wrote_def emit_def ensure_room_def grow_extern_output_def Let_def may_fail_def
      same_traversal_def extern_out_def split: sum.splits)

lemma wrote_bind:
  assumes "wrote s d1 r" "\<And>s'. same_traversal s s' \<Longrightarrow> wrote s' d2 (f s')"
  shows "wrote s (d1 @ d2) (bind_result r f)"
proof (cases r)
  case (Inl e)
  then show ?thesis using assms(1) by (simp add: wrote_def)
next
  case (Inr s1)
  then have s1: "same_traversal s s1" "extern_out s1 = extern_out s @ d1" using assms(1) by (simp_all add: wrote_def)
  show ?thesis
    using assms(2)[OF s1(1)] s1 same_traversal_select(7)[OF s1(1)] same_traversal_trans[OF s1(1)] Inr
    by (auto simp: wrote_def split: sum.splits)
qed

lemma wrote_failure: "flag_set s COMPAT_32 \<Longrightarrow> wrote s data (Inl (Failure msg))"
  by (simp add: wrote_def may_fail_def)

lemmas emit_codes = writebyte_def writeblock_def writecode8_def writecode16_def writecode32_def writecode64_def
  store16_def store32_def store64_def

text \<open>An item: its bytes are written, they read back, and there are at most nine of them.\<close>

definition writes_item :: "extern_st \<Rightarrow> extern_st result \<Rightarrow> (intern_env \<Rightarrow> intern_st \<Rightarrow> read_value) \<Rightarrow> bool" where
  "writes_item s r act \<longleftrightarrow> (\<exists>data. wrote s data r \<and> reads_as data act \<and> length data \<le> 9)"

lemma writes_itemI:
  "wrote s data r \<Longrightarrow> reads_as data act \<Longrightarrow> length data \<le> 9 \<Longrightarrow> writes_item s r act"
  by (auto simp: writes_item_def)

lemma writes_item_emit:
  "\<not> extern_userprovided_output s \<Longrightarrow> reads_as data act \<Longrightarrow> length data \<le> 9 \<Longrightarrow> writes_item s (emit env data s) act"
  by (rule writes_itemI[OF wrote_emit])

lemma writes_item_failure:
  "flag_set s COMPAT_32 \<Longrightarrow> reads_as data act \<Longrightarrow> length data \<le> 9 \<Longrightarrow> writes_item s (Inl (Failure msg)) act"
  by (rule writes_itemI[OF wrote_failure])

lemma length_codes [simp]:
  "length (writebyte [] c) = 1" "length (writecode8 [] c n) = 2" "length (writecode16 [] c n) = 3"
  "length (writecode32 [] c n) = 5" "length (writecode64 [] c n) = 9"
  by (simp_all add: emit_codes)

lemma writebyte_Nil: "writebyte [] c = [c]"
  by (simp add: writebyte_def)

lemma extern_int_writes:
  assumes "\<not> extern_userprovided_output s"
  shows "writes_item s (extern_int env s n) (\<lambda>env. value_read (Val_long n))"
  unfolding extern_int_def
  by (auto intro!: writes_item_emit[OF assms] writes_item_failure[where data = "writecode64 [] CODE_INT64 n"]
      reads_small_int reads_int8 reads_int16 reads_int32 reads_int64 simp: writebyte_Nil)

lemma word_bounds:
  "n < 0x100 \<longleftrightarrow> unat n < 2 ^ 8" "n < 0x10000 \<longleftrightarrow> unat n < 2 ^ 16" "n < push_bit 32 1 \<longleftrightarrow> unat n < 2 ^ 32"
  "n \<ge> push_bit 32 1 \<longleftrightarrow> \<not> unat n < 2 ^ 32" for n :: "64 word"
  by (auto simp: word_less_nat_alt word_le_nat_alt)

lemma extern_shared_writes:
  assumes "\<not> extern_userprovided_output s"
  shows "writes_item s (extern_shared_reference env s d) (\<lambda>env rs. read_shared rs d)"
  unfolding extern_shared_reference_def word_bounds
  by (auto intro!: writes_item_emit[OF assms] reads_shared simp del: power_numeral)

lemma extern_header_writes:
  assumes "\<not> extern_userprovided_output s" "unat sz < 2 ^ 46"
  shows "writes_item s (extern_header env s sz tag) (\<lambda>env rs. read_block env rs sz tag)"
  unfolding extern_header_def Let_def word_bounds
  by (auto intro!: writes_item_emit[OF assms(1)] reads_small_header reads_header[OF assms(2)]
      writes_item_failure[OF _ reads_header(2)[OF assms(2)]] simp: writebyte_Nil simp del: power_numeral)

text \<open>Items with contents: a header that reads back, followed by the bytes of the block.\<close>

definition writes_contents ::
  "extern_st \<Rightarrow> extern_st result \<Rightarrow> (intern_env \<Rightarrow> intern_st \<Rightarrow> read_value) \<Rightarrow> bytes \<Rightarrow> bool" where
  "writes_contents s r act contents \<longleftrightarrow>
     (\<exists>hdr. wrote s (hdr @ contents) r \<and> reads_as hdr act \<and> length hdr \<le> 9)"

lemma writes_contentsI:
  assumes "writes_item s r act" "\<not> extern_userprovided_output s"
  shows "writes_contents s (bind_result r (emit env contents)) act contents"
proof -
  obtain hdr where hdr: "wrote s hdr r" "reads_as hdr act" "length hdr \<le> 9"
    using assms(1) by (auto simp: writes_item_def)
  have "wrote s (hdr @ contents) (bind_result r (emit env contents))"
    using assms(2) by (intro wrote_bind[OF hdr(1)] wrote_emit) (simp add: same_traversal_def)
  then show ?thesis using hdr by (auto simp: writes_contents_def)
qed

lemma extern_string_writes:
  assumes "\<not> extern_userprovided_output s"
  shows "writes_contents s (extern_string env m s v len) (\<lambda>env rs. read_string env rs len) (load_bytes m v (unat len))"
proof -
  let ?r = "if len < 0x20 then emit env (writebyte [] (PREFIX_SMALL_STRING + ucast len)) s
    else if len < 0x100 then emit env (writecode8 [] CODE_STRING8 len) s
    else if len > 0xFFFFFB \<and> flag_set s COMPAT_32
      then Inl (Failure ''output_value: string cannot be read back on 32-bit platform'')
    else if len < push_bit 32 1 then emit env (writecode32 [] CODE_STRING32 len) s
    else emit env (writecode64 [] CODE_STRING64 len) s"
  have "writes_item s ?r (\<lambda>env rs. read_string env rs len)"
    unfolding word_bounds
    by (auto intro!: writes_item_emit[OF assms] reads_small_string reads_string writes_item_failure[OF _ reads_string(3)]
        simp: writebyte_Nil simp del: power_numeral)
  then show ?thesis unfolding extern_string_def writeblock_def append_Nil by (rule writes_contentsI) (rule assms)
qed

lemma extern_double_writes:
  assumes "\<not> extern_userprovided_output s"
  shows "writes_contents s (extern_double env m s v) (\<lambda>env rs. read_double env rs CODE_DOUBLE_LITTLE) (load_bytes m v 8)"
proof -
  have "writes_item s (emit env (writebyte [] CODE_DOUBLE_LITTLE) s) (\<lambda>env rs. read_double env rs CODE_DOUBLE_LITTLE)"
    using reads_double by (intro writes_item_emit[OF assms]) (simp_all add: writebyte_Nil)
  then show ?thesis unfolding extern_double_def writeblock_def append_Nil by (rule writes_contentsI) (rule assms)
qed

definition little_array_code :: "byte \<Rightarrow> bool" where
  "little_array_code code \<longleftrightarrow> code = CODE_DOUBLE_ARRAY8_LITTLE \<or> code = CODE_DOUBLE_ARRAY32_LITTLE"

lemma extern_double_array_writes:
  assumes "\<not> extern_userprovided_output s" "unat n < 2 ^ 32"
  shows "\<exists>code. little_array_code code \<and>
    writes_contents s (extern_double_array env m s v n) (\<lambda>env rs. read_double_array env rs n code) (load_bytes m v (unat n * 8))"
proof -
  let ?r = "if n < 0x100 then emit env (writecode8 [] CODE_DOUBLE_ARRAY8_LITTLE n) s
    else if n > 0x1FFFFF \<and> flag_set s COMPAT_32
      then Inl (Failure ''output_value: float array cannot be read back on 32-bit platform'')
    else if n < push_bit 32 1 then emit env (writecode32 [] CODE_DOUBLE_ARRAY32_LITTLE n) s
    else emit env (writecode64 [] CODE_DOUBLE_ARRAY64_LITTLE n) s"
  define code where "code = (if unat n < 2 ^ 8 then CODE_DOUBLE_ARRAY8_LITTLE else CODE_DOUBLE_ARRAY32_LITTLE)"
  have "writes_item s ?r (\<lambda>env rs. read_double_array env rs n code)"
    unfolding word_bounds code_def using assms(2)
    by (auto intro!: writes_item_emit[OF assms(1)] reads_double_array writes_item_failure[OF _ reads_double_array(2)]
        simp del: power_numeral)
  then have "writes_contents s (extern_double_array env m s v n) (\<lambda>env rs. read_double_array env rs n code) (load_bytes m v (unat n * 8))"
    unfolding extern_double_array_def writeblock_def append_Nil by (rule writes_contentsI) (rule assms(1))
  moreover have "little_array_code code" by (simp add: code_def little_array_code_def)
  ultimately show ?thesis by blast
qed

section \<open>The traversal\<close>

text \<open>The state of the traversal after writing a list of objects, in the order of their numbers.\<close>

definition marshalling :: "mem \<Rightarrow> mlvalue set \<Rightarrow> extern_st \<Rightarrow> mlvalue list \<Rightarrow> bool" where
  "marshalling m G s objs \<longleftrightarrow>
     \<not> extern_userprovided_output s \<and> \<not> flag_set s NO_SHARING \<and> \<not> flag_set s COMPRESSED \<and>
     recorded (positions s) (index_of objs) \<and> obj_counter s = of_nat (length objs) \<and>
     distinct objs \<and> set objs \<subseteq> G \<and> size_64 s = of_nat (words m objs) \<and>
     (\<forall>item\<in>set (extern_stack s). snd item \<noteq> 0)"

text \<open>The values still to be written: those that remain of the items of the stack, after the current one.\<close>

fun fields_left :: "mem \<Rightarrow> extern_item \<Rightarrow> mlvalue list" where
  "fields_left m (a, n) = map (\<lambda>j. mem_load64 m (a + 8 * of_nat j)) [0..<unat n]"

definition todo :: "mem \<Rightarrow> mlvalue option \<Rightarrow> extern_item list \<Rightarrow> mlvalue list" where
  "todo m current items = (case current of None \<Rightarrow> [] | Some v \<Rightarrow> [v]) @ concat (map (fields_left m) items)"

definition kids :: "mem \<Rightarrow> mlvalue \<Rightarrow> mlvalue list" where
  "kids m x = (if scannable (Tag_val m x) then map (Field m x) [0..<wosize_nat m x] else [])"

text \<open>The objects written and the values to be written after one more value.\<close>

definition expand :: "mem \<Rightarrow> mlvalue list \<Rightarrow> mlvalue \<Rightarrow> mlvalue list \<times> mlvalue list" where
  "expand m objs w =
     (if Is_long w \<or> Allocated_wosize_val m w = 0 \<or> w \<in> set objs then (objs, []) else (objs @ [w], kids m w))"

text \<open>What is written for a value.\<close>

definition encodes :: "mem \<Rightarrow> mlvalue list \<Rightarrow> mlvalue \<Rightarrow> bytes \<Rightarrow> bool" where
  "encodes m objs w data \<longleftrightarrow>
     (if Is_long w then reads_as data (\<lambda>env. value_read w)
      else if Allocated_wosize_val m w = 0 then reads_as data (\<lambda>env rs. read_block env rs 0 (Tag_val m w))
      else if w \<in> set objs then
        \<exists>i<length objs. objs ! i = w \<and> reads_as data (\<lambda>env rs. read_shared rs (of_nat (length objs) - of_nat i))
      else if Tag_val m w = String_tag then
        \<exists>hdr bs. string_block m w bs \<and> data = hdr @ bs \<and> reads_as hdr (\<lambda>env rs. read_string env rs (of_nat (length bs)))
      else if Tag_val m w = Double_tag then
        \<exists>hdr. data = hdr @ load_bytes m w 8 \<and> reads_as hdr (\<lambda>env rs. read_double env rs CODE_DOUBLE_LITTLE)
      else if Tag_val m w = Double_array_tag then
        \<exists>hdr code. little_array_code code \<and> data = hdr @ load_bytes m w (wosize_nat m w * 8) \<and>
          reads_as hdr (\<lambda>env rs. read_double_array env rs (Allocated_wosize_val m w) code)
      else reads_as data (\<lambda>env rs. read_block env rs (Allocated_wosize_val m w) (Tag_val m w)))"

text \<open>The outcome of one step: a permitted failure, or one item more.\<close>

definition step_ok ::
  "mem \<Rightarrow> mlvalue set \<Rightarrow> mlvalue list \<Rightarrow> mlvalue \<Rightarrow> extern_st \<Rightarrow> (mlvalue option \<times> extern_st) result \<Rightarrow> bool" where
  "step_ok m G objs w s r \<longleftrightarrow>
     (case r of
        Inl e \<Rightarrow> may_fail s e
      | Inr (current, s') \<Rightarrow>
          (\<exists>data. encodes m objs w data \<and> extern_out s' = extern_out s @ data \<and>
             length data + 9 * words m objs \<le> 9 + 9 * words m (fst (expand m objs w)) \<and>
             extern_flags s' = extern_flags s \<and> marshalling m G s' (fst (expand m objs w)) \<and>
             todo m current (extern_stack s') = snd (expand m objs w) @ todo m None (extern_stack s)))"

lemma marshalling_same_traversal:
  "marshalling m G s objs \<Longrightarrow> same_traversal s s' \<Longrightarrow> marshalling m G s' objs"
  by (simp add: marshalling_def same_traversal_def flag_set_def obj_counter_def)

text \<open>Values that are not new objects.\<close>

lemma step_item:
  assumes "marshalling m G s objs" "expand m objs w = (objs, [])"
    and "writes_item s r act" "\<And>data. reads_as data act \<Longrightarrow> encodes m objs w data"
  shows "step_ok m G objs w s (map_result (\<lambda>s. (None, s)) r)"
proof (cases r)
  case (Inl e)
  then show ?thesis using assms(3) by (auto simp: step_ok_def writes_item_def wrote_def)
next
  case (Inr s')
  obtain data where d: "wrote s data r" "reads_as data act" "length data \<le> 9"
    using assms(3) by (auto simp: writes_item_def)
  have s': "same_traversal s s'" "extern_out s' = extern_out s @ data" using d(1) Inr by (simp_all add: wrote_def)
  show ?thesis
    using Inr assms(2) d(3) s' assms(4)[OF d(2)] marshalling_same_traversal[OF assms(1) s'(1)]
    by (auto simp: step_ok_def same_traversal_def intro!: exI[of _ data])
qed

text \<open>Recording a new object.\<close>

lemma record_new:
  assumes s: "marshalling m G s objs" and w: "w \<in> G"
    and look: "extern_lookup_position (fst (positions s)) w = Some (None, h)"
    and n64: "n64 = 1 + Allocated_wosize_val m w"
  shows "\<exists>r. extern_record_location env (add_sizes s n32 n64) w h = Some r \<and>
    (case r of
       Inl e \<Rightarrow> e = Out_of_memory
     | Inr s' \<Rightarrow> marshalling m G s' (objs @ [w]) \<and> extern_out s' = extern_out s \<and> extern_flags s' = extern_flags s \<and>
         extern_stack s' = extern_stack s \<and> extern_stack_limit s' = extern_stack_limit s)"
proof -
  have rec: "recorded (positions s) (index_of objs)" and cnt: "obj_counter s = of_nat (length objs)"
    using s by (simp_all add: marshalling_def)
  have new: "w \<notin> set objs" using recorded_lookup[OF rec, of w] look by (auto simp: index_of_None[of objs w, symmetric])
  obtain r where r: "record_entry (c_alloc_ok env) (positions s) w h (obj_counter s) = Some r"
    "case r of Inl e \<Rightarrow> e = Out_of_memory
     | Inr tc \<Rightarrow> recorded tc ((index_of objs)(w \<mapsto> obj_counter s)) \<and> snd tc = snd (positions s) + 1"
    using recorded_record[OF rec look, of "c_alloc_ok env" "obj_counter s"] by blast
  have eq: "extern_record_location env (add_sizes s n32 n64) w h =
      Some (map_result (\<lambda>p. (add_sizes s n32 n64)\<lparr>positions := p\<rparr>) r)"
    using s r(1) by (simp add: extern_record_location_def extern_record_location_with_data_def add_sizes_def
        marshalling_def flag_set_def obj_counter_def)
  show ?thesis
  proof (cases r)
    case (Inl e)
    then show ?thesis using r(2) eq by simp
  next
    case (Inr tc)
    have "marshalling m G ((add_sizes s n32 n64)\<lparr>positions := tc\<rparr>) (objs @ [w])"
      using s w r(2) Inr cnt new n64
      by (simp add: marshalling_def add_sizes_def flag_set_def obj_counter_def index_of_snoc algebra_simps)
    then show ?thesis using eq Inr by (simp add: add_sizes_def extern_out_def)
  qed
qed

lemma expand_new:
  "\<not> Is_long w \<Longrightarrow> Allocated_wosize_val m w \<noteq> 0 \<Longrightarrow> w \<notin> set objs \<Longrightarrow> expand m objs w = (objs @ [w], kids m w)"
  by (simp add: expand_def)

text \<open>A new object without fields to follow.\<close>

lemma step_leaf:
  assumes s: "marshalling m G s objs" and w: "w \<in> G" "expand m objs w = (objs @ [w], [])"
    and look: "extern_lookup_position (fst (positions s)) w = Some (None, h)"
    and wr: "writes_contents s r act contents" and len: "length contents \<le> 8 * wosize_nat m w"
    and enc: "\<And>hdr. reads_as hdr act \<Longrightarrow> encodes m objs w (hdr @ contents)"
    and n64: "n64 = 1 + Allocated_wosize_val m w"
  shows "\<exists>q. bind_partial (Some r) (\<lambda>s. leaf_done env (add_sizes s n32 n64) w h) = Some q \<and> step_ok m G objs w s q"
proof -
  obtain hdr where hdr: "wrote s (hdr @ contents) r" "reads_as hdr act" "length hdr \<le> 9"
    using wr by (auto simp: writes_contents_def)
  show ?thesis
  proof (cases r)
    case (Inl e)
    then show ?thesis using hdr(1) by (auto simp: wrote_def step_ok_def)
  next
    case (Inr s1)
    have s1: "same_traversal s s1" "extern_out s1 = extern_out s @ hdr @ contents"
      using hdr(1) Inr by (simp_all add: wrote_def)
    have look1: "extern_lookup_position (fst (positions s1)) w = Some (None, h)"
      using look same_traversal_select(2)[OF s1(1)] by simp
    obtain q where q: "extern_record_location env (add_sizes s1 n32 n64) w h = Some q"
      "case q of Inl e \<Rightarrow> e = Out_of_memory
       | Inr s' \<Rightarrow> marshalling m G s' (objs @ [w]) \<and> extern_out s' = extern_out s1 \<and> extern_flags s' = extern_flags s1 \<and>
           extern_stack s' = extern_stack s1 \<and> extern_stack_limit s' = extern_stack_limit s1"
      using record_new[OF marshalling_same_traversal[OF s s1(1)] w(1) look1 n64, of env n32] by blast
    have "step_ok m G objs w s (map_result (\<lambda>s. (None, s)) q)"
    proof (cases q)
      case (Inl e)
      then show ?thesis using q(2) by (simp add: step_ok_def may_fail_def)
    next
      case (Inr s')
      then show ?thesis
        using q(2) w(2) s1 enc[OF hdr(2)] hdr(3) len
        by (auto simp: step_ok_def same_traversal_def intro!: exI[of _ "hdr @ contents"])
    qed
    then show ?thesis using Inr q(1) by (simp add: leaf_done_def)
  qed
qed

lemma fields_left_append:
  assumes "i < sz"
  shows "mem_load64 m (v + 8 * i) # (if i < sz - 1 then fields_left m (v + 8 * (i + 1), sz - i - 1) else []) =
    fields_left m (v + 8 * i, sz - i)"
proof -
  obtain k where k: "unat (sz - i) = Suc k"
    using assms by (metis not0_implies_Suc right_minus_eq unat_eq_zero less_irrefl)
  have "unat (sz - i - 1) = k"
    using k by (subst unat_sub) (simp_all add: word_le_nat_alt)
  moreover have "i < sz - 1 \<longleftrightarrow> k \<noteq> 0"
    using assms k by (simp add: unat_sub_if' word_less_nat_alt split: if_splits) linarith
  moreover have "[0..<Suc k] = 0 # map Suc [0..<k]" by (simp add: upt_conv_Cons map_Suc_upt del: upt_Suc)
  ultimately show ?thesis by (simp add: k algebra_simps comp_def del: upt_Suc)
qed

text \<open>A new object whose fields are written next.\<close>

lemma push_item_ok:
  "case push_item env s item of
     Inl e \<Rightarrow> e = Out_of_memory
   | Inr s' \<Rightarrow> extern_stack s' = item # extern_stack s \<and> extern_out s' = extern_out s \<and> extern_flags s' = extern_flags s \<and>
       (snd item \<noteq> 0 \<longrightarrow> marshalling m G s objs \<longrightarrow> marshalling m G s' objs)"
  by (auto simp: push_item_def extern_resize_stack_def Let_def extern_out_def marshalling_def flag_set_def obj_counter_def)

lemma visit_fields_ok:
  assumes s: "marshalling m G s objs" and sz: "sz \<noteq> 0"
  shows "\<exists>q. visit_fields env m s v 0 sz = Some q \<and>
    (case q of
       Inl e \<Rightarrow> e = Out_of_memory
     | Inr (current, s') \<Rightarrow>
         marshalling m G s' objs \<and> extern_out s' = extern_out s \<and> extern_flags s' = extern_flags s \<and>
         todo m current (extern_stack s') = fields_left m (v, sz) @ todo m None (extern_stack s))"
proof (cases "0 < sz - 1")
  case False
  then have "fields_left m (v, sz) = [mem_load64 m v]" using fields_left_append[of 0 sz m v] sz by (simp add: word_neq_0_conv)
  then show ?thesis using False s by (simp add: visit_fields_def todo_def)
next
  case True
  then have fl: "fields_left m (v, sz) = mem_load64 m v # fields_left m (v + 8, sz - 1)"
    using fields_left_append[of 0 sz m v] sz by (simp add: word_neq_0_conv)
  have n1: "sz - 1 \<noteq> 0" using True by auto
  show ?thesis
  proof (cases "push_item env s (v + 8, sz - 1)")
    case (Inl e)
    then show ?thesis using True push_item_ok[where env = env and s = s and item = "(v + 8, sz - 1)" and m = m and G = G and objs = objs] by (simp add: visit_fields_def)
  next
    case (Inr s')
    then show ?thesis
      using True fl n1 s push_item_ok[where env = env and s = s and item = "(v + 8, sz - 1)" and m = m and G = G and objs = objs] by (simp add: visit_fields_def todo_def)
  qed
qed

lemma fields_left_block: "fields_left m (v, sz) = map (Field m v) [0..<unat sz]"
  by (simp add: Field_def)

lemma step_fields:
  assumes s: "marshalling m G s objs" and w: "w \<in> G" "expand m objs w = (objs @ [w], kids m w)"
    and sc: "scannable (Tag_val m w)" and sz: "Allocated_wosize_val m w \<noteq> 0"
    and look: "extern_lookup_position (fst (positions s)) w = Some (None, h)"
    and enc: "\<And>data. reads_as data (\<lambda>env rs. read_block env rs (Allocated_wosize_val m w) (Tag_val m w)) \<Longrightarrow> encodes m objs w data"
  shows "\<exists>q. bind_partial (Some (extern_header env s (Allocated_wosize_val m w) (Tag_val m w))) (\<lambda>s.
      bind_partial (extern_record_location env (add_sizes s n32 (1 + Allocated_wosize_val m w)) w h) (\<lambda>s.
        visit_fields env m s w 0 (Allocated_wosize_val m w))) = Some q \<and> step_ok m G objs w s q"
proof -
  let ?n = "Allocated_wosize_val m w" and ?r = "extern_header env s (Allocated_wosize_val m w) (Tag_val m w)"
  have up: "\<not> extern_userprovided_output s" using s by (simp add: marshalling_def)
  obtain data where d: "wrote s data ?r" "reads_as data (\<lambda>env rs. read_block env rs ?n (Tag_val m w))" "length data \<le> 9"
    using extern_header_writes[OF up wosize_bound, of env m w "Tag_val m w"] by (auto simp: writes_item_def)
  show ?thesis
  proof (cases ?r)
    case (Inl e)
    then show ?thesis using d(1) by (auto simp: wrote_def step_ok_def)
  next
    case (Inr s1)
    have s1: "same_traversal s s1" "extern_out s1 = extern_out s @ data" using d(1) Inr by (simp_all add: wrote_def)
    have look1: "extern_lookup_position (fst (positions s1)) w = Some (None, h)"
      using look same_traversal_select(2)[OF s1(1)] by simp
    obtain q where q: "extern_record_location env (add_sizes s1 n32 (1 + ?n)) w h = Some q"
      "case q of Inl e \<Rightarrow> e = Out_of_memory
       | Inr s' \<Rightarrow> marshalling m G s' (objs @ [w]) \<and> extern_out s' = extern_out s1 \<and> extern_flags s' = extern_flags s1 \<and>
           extern_stack s' = extern_stack s1 \<and> extern_stack_limit s' = extern_stack_limit s1"
      using record_new[OF marshalling_same_traversal[OF s s1(1)] w(1) look1 refl, of env n32] by blast
    show ?thesis
    proof (cases q)
      case (Inl e)
      then show ?thesis using \<open>?r = Inr s1\<close> q by (simp add: step_ok_def may_fail_def)
    next
      case q_Inr: (Inr s2)
      have s2: "marshalling m G s2 (objs @ [w])" "extern_out s2 = extern_out s1" "extern_flags s2 = extern_flags s1"
        "extern_stack s2 = extern_stack s1"
        using q(2) q_Inr by simp_all
      obtain p where p: "visit_fields env m s2 w 0 ?n = Some p"
        "case p of
           Inl e \<Rightarrow> e = Out_of_memory
         | Inr (current, s') \<Rightarrow>
             marshalling m G s' (objs @ [w]) \<and> extern_out s' = extern_out s2 \<and> extern_flags s' = extern_flags s2 \<and>
             todo m current (extern_stack s') = fields_left m (w, ?n) @ todo m None (extern_stack s2)"
        using visit_fields_ok[OF s2(1) sz, of env w] by blast
      have "step_ok m G objs w s p"
        using p(2) s2 s1 w(2) sc d(3) enc[OF d(2)]
        by (auto simp: step_ok_def may_fail_def same_traversal_def fields_left_block kids_def simp del: fields_left.simps
            split: sum.splits intro!: exI[of _ data])
      then show ?thesis using p(1) q(1) q_Inr Inr by simp
    qed
  qed
qed

text \<open>One step of the traversal, for any value of a graph of data.\<close>

lemma scannable_tags:
  assumes "scannable t"
  shows "t \<noteq> String_tag" "t \<noteq> Double_tag" "t \<noteq> Double_array_tag" "t \<noteq> Abstract_tag" "t \<noteq> Infix_tag" "t \<noteq> Custom_tag"
    "t \<noteq> Cont_tag" "t \<noteq> Closure_tag" "t \<noteq> Forward_tag" "t \<noteq> Object_tag"
  using assms by (auto simp: scannable_def)

lemma new_object_step:
  assumes s: "marshalling m G s objs" and g: "data_graph m G" and wG: "w \<in> G"
    and look: "extern_lookup_position (fst (positions s)) w = Some (None, h)"
    and ex: "expand m objs w = (objs @ [w], kids m w)"
  shows "\<exists>r. extern_contents env m s w h = Some r \<and> step_ok m G objs w s r"
proof -
  note hd = Tag_val_Hd_val[of m w, symmetric] Allocated_wosize_val_def[of m w, symmetric]
  have up: "\<not> extern_userprovided_output s" using s by (simp add: marshalling_def)
  have blk: "\<not> Is_long w" "Allocated_wosize_val m w \<noteq> 0" using data_graphD[OF g wG] by (auto simp: data_block_def)
  have new: "w \<notin> set objs" using ex blk by (auto simp: expand_def split: if_splits)
  note enc = encodes_def blk new
  from data_graphD[OF g wG] consider (fields) "scannable (Tag_val m w)"
    | (string) bs where "Tag_val m w = String_tag" "string_block m w bs"
    | (double) "Tag_val m w = Double_tag" "Allocated_wosize_val m w = 1"
    | (array) "Tag_val m w = Double_array_tag" "wosize_nat m w < 2 ^ 32"
    by (auto simp: data_block_def)
  then show ?thesis
  proof cases
    case fields
    note t = scannable_tags[OF fields]
    show ?thesis
      using step_fields[OF s wG ex fields blk(2) look, of env "1 + Allocated_wosize_val m w"] t
      by (simp add: extern_contents_def hd Let_def enc)
  next
    case string
    have len: "caml_string_length m w = of_nat (length bs)" by (rule caml_string_length_block[OF string(2)])
    have u: "unat (caml_string_length m w) = length bs"
      using string_block_length[OF string(2)] by (simp add: len unat_of_nat)
    have c: "load_bytes m w (unat (caml_string_length m w)) = bs"
      using string_block_load[OF string(2), of 0 "length bs"] by (simp add: u)
    have sz: "length bs \<le> 8 * wosize_nat m w" "(caml_string_length m w + 8) div 8 = Allocated_wosize_val m w"
    proof -
      have w8: "wosize_nat m w = length bs div 8 + 1" using string(2) by (simp add: string_block_def string_words_def)
      then show "length bs \<le> 8 * wosize_nat m w" by simp
      have "unat ((of_nat (length bs) + 8 :: 64 word) div 8) = length bs div 8 + 1"
        using string_block_length[OF string(2)] by (simp add: unat_div unat_word_ariths unat_of_nat)
      then show "(caml_string_length m w + 8) div 8 = Allocated_wosize_val m w"
        using w8 len by (metis unsigned_word_eqI)
    qed
    have wr: "writes_contents s (extern_string env m s w (caml_string_length m w))
        (\<lambda>env rs. read_string env rs (caml_string_length m w)) bs"
      using extern_string_writes[OF up, of env m w "caml_string_length m w"] unfolding c .
    have leaf: "expand m objs w = (objs @ [w], [])" using ex string(1) by (simp add: kids_def scannable_def)
    show ?thesis
      using step_leaf[OF s wG leaf look wr sz(1), of "1 + (caml_string_length m w + 8) div 8" env "1 + (caml_string_length m w + 4) div 4"]
        string len sz(2)
      by (auto simp: extern_contents_def hd Let_def enc)
  next
    case double
    have leaf: "expand m objs w = (objs @ [w], [])" using ex double(1) by (simp add: kids_def scannable_def)
    show ?thesis
      using step_leaf[OF s wG leaf look extern_double_writes[OF up, of env m w], of "1 + 1" env "1 + 2"] double
      by (auto simp: extern_contents_def hd Let_def enc)
  next
    case array
    have leaf: "expand m objs w = (objs @ [w], [])" using ex array(1) by (simp add: kids_def scannable_def)
    obtain code where code: "little_array_code code"
      "writes_contents s (extern_double_array env m s w (Allocated_wosize_val m w))
        (\<lambda>env rs. read_double_array env rs (Allocated_wosize_val m w) code) (load_bytes m w (wosize_nat m w * 8))"
      using extern_double_array_writes[OF up array(2), of env m w] by blast
    show ?thesis
      using step_leaf[OF s wG leaf look code(2), of "1 + Allocated_wosize_val m w" env "1 + Allocated_wosize_val m w * 2"] array code(1)
      by (auto simp: extern_contents_def hd Let_def enc)
  qed
qed

lemma extern_one_step:
  assumes s: "marshalling m G s objs" and g: "data_graph m G" and w: "value_in m G w"
  shows "\<exists>r. extern_one env m s w = Some r \<and> step_ok m G objs w s r"
proof -
  have up: "\<not> extern_userprovided_output s" and rec: "recorded (positions s) (index_of objs)"
    and ns: "\<not> flag_set s NO_SHARING" "\<not> flag_set s COMPRESSED" and cnt: "obj_counter s = of_nat (length objs)"
    using s by (simp_all add: marshalling_def)
  note hd = Tag_val_Hd_val[of m w, symmetric] Allocated_wosize_val_def[of m w, symmetric] Reserved_val_def[of m w, symmetric]
  show ?thesis
  proof (cases "Is_long w")
    case True
    have "step_ok m G objs w s (map_result (\<lambda>s. (None, s)) (extern_int env s (Long_val w)))"
      using True by (intro step_item[OF s _ extern_int_writes[OF up]])
        (simp_all add: expand_def encodes_def Val_long_Long_val)
    then show ?thesis using True by (simp add: extern_one_def)
  next
    case blk: False
    have fwd: "\<not> scannable Forward_tag" by (simp add: scannable_def)
    have plain: "\<not> Is_mixed_block_reserved (Reserved_val m w)" "\<not> short_circuit m w"
    proof -
      have "Reserved_val m w = 0" "Tag_val m w \<noteq> Forward_tag"
        using w blk data_graphD[OF g, of w] fwd
        by (auto simp: value_in_def is_atom_def data_block_def)
      then show "\<not> Is_mixed_block_reserved (Reserved_val m w)" "\<not> short_circuit m w"
        by (simp_all add: Is_mixed_block_reserved_def short_circuit_def hd)
    qed
    show ?thesis
    proof (cases "Allocated_wosize_val m w = 0")
      case True
      have "step_ok m G objs w s (map_result (\<lambda>s. (None, s)) (extern_header env s 0 (Tag_val m w)))"
        using True blk by (intro step_item[OF s _ extern_header_writes[OF up]]) (simp_all add: expand_def encodes_def)
      then show ?thesis using True blk plain by (simp add: extern_one_def hd)
    next
      case sz: False
      have wG: "w \<in> G" using w blk sz by (auto simp: value_in_def is_atom_def)
      show ?thesis
      proof (cases rule: position.lookup_numbered[OF rec, of w])
        case (1 i h)
        have "step_ok m G objs w s (map_result (\<lambda>s. (None, s)) (extern_shared_reference env s (obj_counter s - of_nat i)))"
          using 1 sz blk cnt
          by (intro step_item[OF s _ extern_shared_writes[OF up]]) (auto simp: expand_def encodes_def)
        then show ?thesis using 1(3) sz blk plain ns by (simp add: extern_one_def hd)
      next
        case (2 h)
        have one: "extern_one env m s w = extern_contents env m s w h"
          using 2(2) sz blk plain ns by (simp add: extern_one_def hd)
        have ex: "expand m objs w = (objs @ [w], kids m w)" using 2(1) sz blk by (rule_tac expand_new)
        show ?thesis unfolding one using new_object_step[OF s g wG 2(2) ex] .
      qed
    qed
  qed
qed

end
