(* ===== verification/Marshal_Image.thy ===== *)
theory Marshal_Image
  imports Marshal_Write
begin

text \<open>
  The heap that unmarshalling builds, seen as a partial image of the graph that was marshalled:
  blocks in separate cells of memory, slots that already hold the image of their value, and
  slots that are still to be filled.
\<close>

section \<open>Cells\<close>

text \<open>The words of a block, from its header on.\<close>

definition cells :: "mlvalue \<Rightarrow> nat \<Rightarrow> 64 word set" where
  "cells v n = (\<lambda>k. v - 8 + 8 * of_nat k) ` {..n}"

lemma header_in_cells [simp]: "v - 8 \<in> cells v n"
  by (auto simp: cells_def intro!: image_eqI[of _ _ 0])

lemma field_in_cells: "j < n \<Longrightarrow> v + 8 * of_nat j \<in> cells v n"
  by (auto simp: cells_def intro!: image_eqI[of _ _ "Suc j"])

lemma word_addr_mult8 [simp]: "word_addr (8 * w)"
proof -
  have "unat (8 * w) = 8 * unat w mod 2 ^ 64" by (simp add: unat_word_ariths)
  moreover have "8 * unat w mod 2 ^ 64 mod 8 = 8 * unat w mod 8" by (rule mod_mod_cancel) simp
  ultimately show ?thesis by (simp add: word_addr_def)
qed

lemma word_addr_plus: "word_addr a \<Longrightarrow> word_addr b \<Longrightarrow> word_addr (a + b)"
proof -
  assume "word_addr a" "word_addr b"
  then have "(unat a + unat b) mod 8 = 0" by (simp add: word_addr_def mod_add_eq[symmetric])
  moreover have "(unat a + unat b) mod 2 ^ 64 mod 8 = (unat a + unat b) mod 8" by (rule mod_mod_cancel) simp
  ultimately show ?thesis by (simp add: word_addr_def unat_word_ariths)
qed

lemma word_addr_offset [simp]: "word_addr v \<Longrightarrow> word_addr (v + 8 * w)"
  by (simp add: word_addr_plus)

lemma word_addr_offset8 [simp]: "word_addr v \<Longrightarrow> word_addr (v + 8)" "word_addr v \<Longrightarrow> word_addr (v - 8)"
  using word_addr_offset[of v 1] word_addr_offset[of v "- 1"] by simp_all

lemma word_addr_cells: "word_addr v \<Longrightarrow> a \<in> cells v n \<Longrightarrow> word_addr a"
  by (auto simp: cells_def)

lemma load64_store64:
  "word_addr a \<Longrightarrow> word_addr b \<Longrightarrow> mem_load64 (mem_store64 m a w) b = (if b = a then w else mem_load64 m b)"
  using word_addr_apart[of a b] word_addr_apart[of b a] by (simp add: mem_load64_store64_other)

lemma offset_eq_iff: "i < 2 ^ 60 \<Longrightarrow> j < 2 ^ 60 \<Longrightarrow> v + 8 * of_nat i = v + (8 * of_nat j :: 64 word) \<longleftrightarrow> i = j"
proof -
  assume "i < 2 ^ 60" "j < 2 ^ 60"
  then have u: "unat (8 * of_nat i :: 64 word) = 8 * i" "unat (8 * of_nat j :: 64 word) = 8 * j" by (simp_all only: unat_mult8)
  have "v + 8 * of_nat i = v + 8 * of_nat j \<longleftrightarrow> (8 * of_nat i :: 64 word) = 8 * of_nat j" by (rule add_left_cancel)
  also have "\<dots> \<longleftrightarrow> unat (8 * of_nat i :: 64 word) = unat (8 * of_nat j :: 64 word)" by (simp only: unsigned_word_eqI word_eq_iff_unsigned)
  finally show ?thesis unfolding u by simp
qed

text \<open>A store of bytes inside a block leaves the other aligned words alone.\<close>

lemma load64_outside:
  assumes "word_addr v" "word_addr b" "b \<notin> cells v n" "n < 2 ^ 50" and out: "same_outside v (8 * n) m m'"
  shows "mem_load64 m' b = mem_load64 m b"
proof -
  define d where "d = b - v"
  have "word_addr d"
    using word_addr_plus[OF assms(2), of "- v"] assms(1) unat_uminus[of v]
    by (cases "v = 0") (auto simp: d_def word_addr_def)
  then obtain k where k: "unat d = 8 * k" by (auto simp: word_addr_def elim!: dvdE)
  have k64: "k < 2 ^ 61" using unsigned_less[of d, where ?'a = nat] k by simp
  have "b = v + 8 * of_nat k"
  proof -
    have "d = of_nat (8 * k)" using k by (metis of_nat_unat ucast_id)
    then show ?thesis by (simp add: d_def algebra_simps)
  qed
  then have "n \<le> k" using assms(3) field_in_cells[of k n v] by (meson not_le)
  have "8 * n \<le> unat (b + of_nat i - v)" if "i < 8" for i
  proof -
    have e: "b + of_nat i - v = d + of_nat i" by (simp add: d_def)
    have u: "unat (d + of_nat i) = 8 * k + i"
      using that k k64 by (simp add: unat_word_ariths unat_of_nat)
    show ?thesis unfolding e u using \<open>n \<le> k\<close> by simp
  qed
  then show ?thesis
    unfolding mem_load64_def using load_bytes_same_outside[OF out, of 8 b] by simp
qed

section \<open>Images\<close>

text \<open>A pair is an object of the source with its copy.\<close>

type_synonym copy = "mlvalue \<times> mlvalue"

abbreviation copy_cells :: "mem \<Rightarrow> copy \<Rightarrow> 64 word set" where
  "copy_cells m p \<equiv> cells (snd p) (wosize_nat m (fst p))"

definition value_image :: "mem \<Rightarrow> 64 word \<Rightarrow> copy list \<Rightarrow> mlvalue \<Rightarrow> mlvalue \<Rightarrow> bool" where
  "value_image m atoms L x y \<longleftrightarrow>
     (if Is_long x then y = x
      else if Allocated_wosize_val m x = 0 then y = atoms + 8 * ucast (Tag_val m x) + 8
      else (x, y) \<in> set L)"

text \<open>The slots to be filled with the values of the fields of an object, and all slots.\<close>

definition slots :: "mem \<Rightarrow> copy \<Rightarrow> (mlvalue \<times> 64 word) list" where
  "slots m p = (if scannable (Tag_val m (fst p))
     then map (\<lambda>j. (Field m (fst p) j, snd p + 8 * of_nat j)) [0..<wosize_nat m (fst p)] else [])"

definition all_slots :: "mem \<Rightarrow> mlvalue \<Rightarrow> 64 word \<Rightarrow> copy list \<Rightarrow> (mlvalue \<times> 64 word) set" where
  "all_slots m v0 root L = insert (v0, root) (\<Union>p\<in>set L. set (slots m p))"

definition copied_shape :: "mem \<Rightarrow> mem \<Rightarrow> copy \<Rightarrow> bool" where
  "copied_shape m h p \<longleftrightarrow>
     (let hd = mem_load64 h (snd p - 8)
      in Tag_hd hd = Tag_val m (fst p) \<and> Allocated_wosize_hd hd = Allocated_wosize_val m (fst p) \<and> Reserved_hd hd = 0) \<and>
     (scannable (Tag_val m (fst p)) \<or>
      (\<forall>j<wosize_nat m (fst p). mem_load64 h (snd p + 8 * of_nat j) = Field m (fst p) j))"

definition separate :: "mem \<Rightarrow> 64 word \<Rightarrow> copy list \<Rightarrow> bool" where
  "separate m root L \<longleftrightarrow>
     word_addr root \<and> (\<forall>p\<in>set L. word_addr (snd p) \<and> root \<notin> copy_cells m p) \<and>
     sorted_wrt (\<lambda>p q. copy_cells m p \<inter> copy_cells m q = {}) L"

definition heap_image ::
  "mem \<Rightarrow> mlvalue \<Rightarrow> 64 word \<Rightarrow> 64 word \<Rightarrow> copy list \<Rightarrow> (mlvalue \<times> 64 word) list \<Rightarrow> mem \<Rightarrow> bool" where
  "heap_image m v0 root atoms L P h \<longleftrightarrow>
     separate m root L \<and> distinct (map snd P) \<and> set P \<subseteq> all_slots m v0 root L \<and>
     (\<forall>e\<in>all_slots m v0 root L. e \<in> set P \<or> value_image m atoms L (fst e) (mem_load64 h (snd e))) \<and>
     (\<forall>p\<in>set L. copied_shape m h p)"

definition used_cells :: "mem \<Rightarrow> 64 word \<Rightarrow> copy list \<Rightarrow> 64 word set" where
  "used_cells m root L = insert root (\<Union>p\<in>set L. copy_cells m p)"

lemma in_slots: "e \<in> set (slots m p) \<longleftrightarrow>
    scannable (Tag_val m (fst p)) \<and> (\<exists>j<wosize_nat m (fst p). e = (Field m (fst p) j, snd p + 8 * of_nat j))"
  by (auto simp: slots_def)

lemma slots_kids: "map fst (slots m p) = kids m (fst p)"
  by (simp add: slots_def kids_def)

lemma slots_cells: "e \<in> set (slots m p) \<Longrightarrow> snd e \<in> copy_cells m p \<and> snd e \<noteq> snd p - 8"
proof -
  assume "e \<in> set (slots m p)"
  then obtain j where j: "j < wosize_nat m (fst p)" "snd e = snd p + 8 * of_nat j" by (auto simp: in_slots)
  have "j < 2 ^ 46" using j(1) wosize_bound[of m "fst p"] by simp
  then have "snd p + 8 * of_nat j \<noteq> snd p - 8"
    using offset_eq_iff[of "Suc j" 0 "snd p - 8"] by (simp add: algebra_simps)
  then show ?thesis using j field_in_cells by simp
qed

lemma separate_disjoint:
  assumes "separate m root L" "p \<in> set L" "q \<in> set L" "a \<in> copy_cells m p" "a \<in> copy_cells m q"
  shows "p = q"
proof -
  obtain i j where ij: "i < length L" "j < length L" "p = L ! i" "q = L ! j"
    using assms(2,3) by (auto simp: in_set_conv_nth)
  have "copy_cells m (L ! i) \<inter> copy_cells m (L ! j) = {}" if "i \<noteq> j"
    using that assms(1) ij unfolding separate_def sorted_wrt_iff_nth_less
    by (metis inf_commute linorder_neqE_nat)
  then show ?thesis using ij assms(4,5) by blast
qed

lemma slot_aligned: "separate m root L \<Longrightarrow> e \<in> all_slots m v0 root L \<Longrightarrow> word_addr (snd e)"
  by (auto simp: separate_def all_slots_def dest: slots_cells word_addr_cells)

text \<open>Each slot has one source value.\<close>

lemma slot_unique:
  assumes "separate m root L" "e \<in> all_slots m v0 root L" "e' \<in> all_slots m v0 root L" "snd e = snd e'"
  shows "e = e'"
proof -
  have root: "snd e \<noteq> root" if "p \<in> set L" "e \<in> set (slots m p)" for p e
    using assms(1) that slots_cells[OF that(2)] by (auto simp: separate_def)
  have inner: "e = e'" if pq: "p \<in> set L" "q \<in> set L" "e \<in> set (slots m p)" "e' \<in> set (slots m q)" for p q
  proof -
    have "p = q" using separate_disjoint[OF assms(1) pq(1,2)] slots_cells pq(3,4) assms(4) by metis
    obtain i j where i: "i < wosize_nat m (fst p)" "e = (Field m (fst p) i, snd p + 8 * of_nat i)"
      and j: "j < wosize_nat m (fst p)" "e' = (Field m (fst p) j, snd p + 8 * of_nat j)"
      using pq(3,4) \<open>p = q\<close> by (auto simp: in_slots)
    have "i = j" using offset_eq_iff[of i j "snd p"] i j assms(4) wosize_bound[of m "fst p"] by simp
    then show ?thesis using i j by simp
  qed
  show ?thesis using assms(2,3,4) inner root unfolding all_slots_def by fastforce
qed

text \<open>A slot in the cells of an object is a slot of the object.\<close>

lemma slot_in_cells:
  assumes "separate m root L" "p \<in> set L" "e \<in> all_slots m v0 root L" "snd e \<in> copy_cells m p"
  shows "e \<in> set (slots m p)"
proof -
  have "e \<noteq> (v0, root)" using assms(1,2,4) by (auto simp: separate_def)
  then obtain q where q: "q \<in> set L" "e \<in> set (slots m q)" using assms(3) by (auto simp: all_slots_def)
  have "p = q" using separate_disjoint[OF assms(1,2) q(1) assms(4)] slots_cells[OF q(2)] by simp
  then show ?thesis using q by simp
qed

text \<open>Filling a slot.\<close>

lemma heap_image_store:
  assumes h: "heap_image m v0 root atoms L ((w, a) # P) h" and y: "value_image m atoms L w y"
  shows "heap_image m v0 root atoms L P (mem_store64 h a y)"
proof -
  have sep: "separate m root L" and wa: "(w, a) \<in> all_slots m v0 root L" and new: "a \<notin> snd ` set P"
    using h by (auto simp: heap_image_def)
  have al: "word_addr a" using slot_aligned[OF sep wa] by simp
  have filled: "e \<in> set P \<or> value_image m atoms L (fst e) (mem_load64 (mem_store64 h a y) (snd e))"
    if e: "e \<in> all_slots m v0 root L" for e
  proof (cases "snd e = a")
    case True
    then have "e = (w, a)" using slot_unique[OF sep e wa] by simp
    then show ?thesis using y al by simp
  next
    case False
    then show ?thesis using h e al slot_aligned[OF sep e] by (auto simp: heap_image_def load64_store64)
  qed
  have shape: "copied_shape m (mem_store64 h a y) p" if p: "p \<in> set L" for p
  proof -
    have alp: "word_addr (snd p)" using sep p by (simp add: separate_def)
    have sl: "(w, a) \<in> set (slots m p)" if "a \<in> copy_cells m p" using slot_in_cells[OF sep p wa] that by simp
    have hd: "a \<noteq> snd p - 8" using sl slots_cells[of "(w, a)" m p] by fastforce
    have leaf: "a \<noteq> snd p + 8 * of_nat j" if "\<not> scannable (Tag_val m (fst p))" "j < wosize_nat m (fst p)" for j
      using that sl field_in_cells[OF that(2), of "snd p"] by (auto simp: in_slots)
    show ?thesis using h p hd leaf al alp by (auto simp: heap_image_def copied_shape_def load64_store64 Let_def)
  qed
  show ?thesis using h filled shape by (auto simp: heap_image_def)
qed

text \<open>A new block.\<close>

lemma all_slots_snoc: "all_slots m v0 root (L @ [p]) = all_slots m v0 root L \<union> set (slots m p)"
  by (auto simp: all_slots_def)

lemma all_slots_used: "e \<in> all_slots m v0 root L \<Longrightarrow> snd e \<in> used_cells m root L"
proof -
  assume e: "e \<in> all_slots m v0 root L"
  show ?thesis
  proof (cases "e = (v0, root)")
    case False
    then obtain p where p: "p \<in> set L" "e \<in> set (slots m p)" using e by (auto simp: all_slots_def)
    then show ?thesis using slots_cells[OF p(2)] by (auto simp: used_cells_def)
  qed (simp add: used_cells_def)
qed

lemma distinct_slots: "distinct (map snd (slots m p))"
proof -
  have "inj_on (\<lambda>j. snd p + 8 * of_nat j) {0..<wosize_nat m (fst p)}"
  proof (rule inj_onI)
    fix i j assume "i \<in> {0..<wosize_nat m (fst p)}" "j \<in> {0..<wosize_nat m (fst p)}"
      "snd p + 8 * of_nat i = snd p + 8 * of_nat j"
    then show "i = j" using offset_eq_iff[of i j "snd p"] wosize_bound[of m "fst p"] by simp
  qed
  then have "distinct (map (\<lambda>j. snd p + 8 * of_nat j) [0..<wosize_nat m (fst p)])" by (simp add: distinct_map)
  then show ?thesis by (simp add: slots_def comp_def)
qed

lemma value_image_mono: "value_image m atoms L x y \<Longrightarrow> value_image m atoms (L @ L') x y"
  by (auto simp: value_image_def split: if_splits)

lemma heap_image_new:
  assumes h: "heap_image m v0 root atoms L P h"
    and fresh: "word_addr y" "cells y (wosize_nat m x) \<inter> used_cells m root L = {}"
    and frame: "\<And>b. b \<in> used_cells m root L \<Longrightarrow> mem_load64 h' b = mem_load64 h b"
    and shape: "copied_shape m h' (x, y)"
  shows "heap_image m v0 root atoms (L @ [(x, y)]) (slots m (x, y) @ P) h'"
proof -
  let ?P = "slots m (x, y) @ P"
  have sep: "separate m root L" using h by (simp add: heap_image_def)
  have sep': "separate m root (L @ [(x, y)])"
    using sep fresh by (auto simp: separate_def used_cells_def sorted_wrt_append)
  have "distinct (map snd ?P)"
  proof -
    have "snd e \<noteq> snd e'" if "e \<in> set (slots m (x, y))" "e' \<in> set P" for e e'
    proof -
      have "e' \<in> all_slots m v0 root L" using that(2) h by (auto simp: heap_image_def)
      then have "snd e' \<in> used_cells m root L" by (rule all_slots_used)
      then show ?thesis using slots_cells[OF that(1)] fresh(2) by auto
    qed
    then show ?thesis using distinct_slots[of m "(x, y)"] h by (auto simp: heap_image_def)
  qed
  moreover have "set ?P \<subseteq> all_slots m v0 root (L @ [(x, y)])"
    using h by (auto simp: all_slots_snoc heap_image_def)
  moreover have "e \<in> set ?P \<or> value_image m atoms (L @ [(x, y)]) (fst e) (mem_load64 h' (snd e))"
    if "e \<in> all_slots m v0 root (L @ [(x, y)])" for e
    using that h frame[OF all_slots_used[of e m v0 root L]] value_image_mono
    unfolding all_slots_snoc heap_image_def by fastforce
  moreover have "copied_shape m h' p" if "p \<in> set (L @ [(x, y)])" for p
  proof (cases "p = (x, y)")
    case False
    then have p: "p \<in> set L" using that by simp
    then have "copy_cells m p \<subseteq> used_cells m root L" by (auto simp: used_cells_def)
    then have eq: "mem_load64 h' b = mem_load64 h b" if "b \<in> copy_cells m p" for b using frame that by blast
    have "copied_shape m h p" using h p by (simp add: heap_image_def)
    then show ?thesis using eq field_in_cells by (simp add: copied_shape_def)
  qed (simp add: shape)
  ultimately show ?thesis using sep' by (simp add: heap_image_def)
qed

lemma heap_image_perm:
  "heap_image m v0 root atoms L P h \<Longrightarrow> set P' = set P \<Longrightarrow> distinct (map snd P') \<Longrightarrow> heap_image m v0 root atoms L P' h"
  by (simp add: heap_image_def)

text \<open>The empty image.\<close>

lemma heap_image_start: "word_addr root \<Longrightarrow> heap_image m v0 root atoms [] [(v0, root)] h"
  by (simp add: heap_image_def separate_def all_slots_def)

end
