(* ===== verification/Marshal_Read.thy ===== *)
theory Marshal_Read
  imports Marshal_Image
begin

text \<open>
  What \<open>intern.c\<close> does with the items that \<open>extern.c\<close> writes for a graph of data: every item extends
  the image of the graph, blocks are allocated in free cells, and nothing is read or stored
  outside the input, the table of objects and the memory reserved.
\<close>

section \<open>Free memory\<close>

text \<open>The major heap gives out blocks that overlap neither each other nor memory in use.\<close>

definition supply_ok :: "intern_env \<Rightarrow> nat \<Rightarrow> 64 word set \<Rightarrow> bool" where
  "supply_ok env k U \<longleftrightarrow>
     (\<forall>i sz tag p. k \<le> i \<longrightarrow> shared_try_alloc env i sz tag = Some p \<longrightarrow>
        word_addr p \<and> cells (p + 8) (unat sz) \<inter> U = {} \<and>
        (\<forall>j sz' tag' p'. i < j \<longrightarrow> shared_try_alloc env j sz' tag' = Some p' \<longrightarrow>
           cells (p + 8) (unat sz) \<inter> cells (p' + 8) (unat sz') = {}))"

text \<open>Room for some words: in the chunk reserved in the minor heap, or in the major heap.\<close>

definition room :: "intern_env \<Rightarrow> intern_st \<Rightarrow> 64 word set \<Rightarrow> nat \<Rightarrow> bool" where
  "room env rs U n \<longleftrightarrow>
     caml_allocation_status env AND NOT HEADER_COLOR_MASK = 0 \<and>
     (case intern_dest rs of
        Some p \<Rightarrow> word_addr p \<and> n < 2 ^ 55 \<and> (\<forall>k<n. p + 8 * of_nat k \<notin> U)
      | None \<Rightarrow> supply_ok env (shared_allocs rs) U)"

lemma room_cong:
  "intern_dest rs' = intern_dest rs \<Longrightarrow> shared_allocs rs' = shared_allocs rs \<Longrightarrow> room env rs' U n = room env rs U n"
  by (simp add: room_def split: option.split)

lemma supply_ok_next:
  assumes "supply_ok env k U" "shared_try_alloc env k sz tag = Some p"
  shows "supply_ok env (k + 1) (U \<union> cells (p + 8) (unat sz))"
  unfolding supply_ok_def
proof (intro allI impI)
  fix i sz' tag' p' assume i: "k + 1 \<le> i" and p': "shared_try_alloc env i sz' tag' = Some p'"
  have a: "word_addr p' \<and> cells (p' + 8) (unat sz') \<inter> U = {} \<and>
      (\<forall>j sz'' tag'' p''. i < j \<longrightarrow> shared_try_alloc env j sz'' tag'' = Some p'' \<longrightarrow>
         cells (p' + 8) (unat sz') \<inter> cells (p'' + 8) (unat sz'') = {})"
    using assms(1) i p' unfolding supply_ok_def by (metis add_leD1)
  have "cells (p + 8) (unat sz) \<inter> cells (p' + 8) (unat sz') = {}"
    using assms i p' unfolding supply_ok_def by (metis Suc_eq_plus1 Suc_le_lessD order_refl)
  then have "cells (p' + 8) (unat sz') \<inter> (U \<union> cells (p + 8) (unat sz)) = {}" using a by blast
  then show "word_addr p' \<and> cells (p' + 8) (unat sz') \<inter> (U \<union> cells (p + 8) (unat sz)) = {} \<and>
      (\<forall>j sz'' tag'' p''. i < j \<longrightarrow> shared_try_alloc env j sz'' tag'' = Some p'' \<longrightarrow>
         cells (p' + 8) (unat sz') \<inter> cells (p'' + 8) (unat sz'') = {})"
    using a by blast
qed

text \<open>Headers of new blocks, whatever their colour.\<close>

lemma Make_header_coloured:
  assumes w: "unat sz < 2 ^ 46" and c: "color AND NOT HEADER_COLOR_MASK = 0"
  shows "Tag_hd (Make_header sz tag color) = tag" "Allocated_wosize_hd (Make_header sz tag color) = sz"
    "Reserved_hd (Make_header sz tag color) = 0"
proof -
  have cb: "n = 8 \<or> n = 9" if "bit color n" for n
  proof -
    have "n < 64" using bit_imp_le_length[OF that] by simp
    have "\<not> bit (color AND NOT HEADER_COLOR_MASK) n" unfolding c by simp
    then have "bit HEADER_COLOR_MASK n" using that \<open>n < 64\<close> unfolding bit_and_iff bit_not_iff by simp
    then show ?thesis unfolding bit_push_bit_iff bit_mask_iff by auto
  qed
  have "Make_header sz tag color = Make_header_with_reserved sz tag 0 0 + color"
    by (simp add: Make_header_def Make_header_with_reserved_def)
  also have "\<dots> = Make_header_with_reserved sz tag 0 0 OR color"
    by (rule disjunctive_add) (auto simp: bit_Make_header_with_reserved[OF w] dest: cb)
  finally have b: "bit (Make_header sz tag color) n \<longleftrightarrow> bit (Make_header_with_reserved sz tag 0 0) n \<or> bit color n" for n
    by (simp add: bit_or_iff)
  note bh = b bit_Make_header_with_reserved[OF w]
  show "Tag_hd (Make_header sz tag color) = tag"
    by (rule bit_word_eqI) (auto simp: Tag_hd_def bit_ucast_iff bit_and_iff bit_mask_iff bh dest: cb)
  show "Allocated_wosize_hd (Make_header sz tag color) = sz"
    using bit_small_word[OF w]
    by (intro bit_word_eqI)
      (auto simp: Allocated_wosize_hd_def bit_drop_bit_eq bit_and_iff bit_push_bit_iff bit_mask_iff bh dest: cb)
  show "Reserved_hd (Make_header sz tag color) = 0"
    by (rule bit_word_eqI) (auto simp: Reserved_hd_def bit_drop_bit_eq bh dest: cb)
qed

section \<open>Allocation\<close>

text \<open>The parts of the reader that allocation leaves alone.\<close>

definition same_input :: "intern_st \<Rightarrow> intern_st \<Rightarrow> bool" where
  "same_input rs rs' \<longleftrightarrow>
     intern_src rs' = intern_src rs \<and> intern_stack rs' = intern_stack rs \<and> intern_stack_limit rs' = intern_stack_limit rs \<and>
     compressed rs' = compressed rs \<and> atom_table (dstate (machine rs')) = atom_table (dstate (machine rs))"

abbreviation heap_of :: "intern_st \<Rightarrow> mem" where
  "heap_of rs \<equiv> mem_of (machine rs)"

lemma put_word_select [simp]:
  "intern_src (put_word rs a w) = intern_src rs" "intern_stack (put_word rs a w) = intern_stack rs"
  "intern_stack_limit (put_word rs a w) = intern_stack_limit rs" "compressed (put_word rs a w) = compressed rs"
  "intern_obj_table (put_word rs a w) = intern_obj_table rs" "objs_seen (put_word rs a w) = objs_seen rs"
  "intern_dest (put_word rs a w) = intern_dest rs" "shared_allocs (put_word rs a w) = shared_allocs rs"
  "heap_of (put_word rs a w) = mem_store64 (heap_of rs) a w"
  "atom_table (dstate (machine (put_word rs a w))) = atom_table (dstate (machine rs))"
  by (simp_all add: put_word_def store_word_def set_mem_def)

lemma put_bytes_select [simp]:
  "intern_src (put_bytes rs a bs) = intern_src rs" "intern_stack (put_bytes rs a bs) = intern_stack rs"
  "intern_stack_limit (put_bytes rs a bs) = intern_stack_limit rs" "compressed (put_bytes rs a bs) = compressed rs"
  "intern_obj_table (put_bytes rs a bs) = intern_obj_table rs" "objs_seen (put_bytes rs a bs) = objs_seen rs"
  "intern_dest (put_bytes rs a bs) = intern_dest rs" "shared_allocs (put_bytes rs a bs) = shared_allocs rs"
  "heap_of (put_bytes rs a bs) = store_bytes (heap_of rs) a bs"
  "atom_table (dstate (machine (put_bytes rs a bs))) = atom_table (dstate (machine rs))"
  by (simp_all add: put_bytes_def set_mem_def)

definition allocated :: "intern_env \<Rightarrow> intern_st \<Rightarrow> 64 word set \<Rightarrow> nat \<Rightarrow> uintnat \<Rightarrow> byte \<Rightarrow> mlvalue \<Rightarrow> intern_st \<Rightarrow> bool" where
  "allocated env rs U n sz tag v rs' \<longleftrightarrow>
     same_input rs rs' \<and> word_addr v \<and> cells v (unat sz) \<inter> U = {} \<and>
     room env rs' (U \<union> cells v (unat sz)) (n - (1 + unat sz)) \<and>
     (\<exists>hdr. heap_of rs' = mem_store64 (heap_of rs) (v - 8) hdr \<and> Tag_hd hdr = tag \<and> Allocated_wosize_hd hdr = sz \<and>
        Reserved_hd hdr = 0)"

lemma intern_alloc_obj_ok:
  assumes room: "room env rs U n" and sz: "1 + unat sz \<le> n" "unat sz < 2 ^ 46"
  shows "case intern_alloc_obj env rs sz tag of
      Inl e \<Rightarrow> e = Out_of_memory
    | Inr (v, rs') \<Rightarrow> allocated env rs U n sz tag v rs' \<and> intern_obj_table rs' = intern_obj_table rs \<and> objs_seen rs' = objs_seen rs"
proof (cases "intern_dest rs")
  case None
  show ?thesis
  proof (cases "shared_try_alloc env (shared_allocs rs) sz tag")
    case None
    then show ?thesis using \<open>intern_dest rs = None\<close> by (simp add: intern_alloc_obj_def)
  next
    case (Some p)
    have sup: "supply_ok env (shared_allocs rs) U" and c: "caml_allocation_status env AND NOT HEADER_COLOR_MASK = 0"
      using room None by (simp_all add: room_def)
    have p: "word_addr p" "cells (p + 8) (unat sz) \<inter> U = {}"
      using sup Some unfolding supply_ok_def by blast+
    show ?thesis
      using None Some p supply_ok_next[OF sup Some] c Make_header_coloured[OF sz(2) c]
      by (auto simp: intern_alloc_obj_def allocated_def same_input_def room_def)
  qed
next
  case (Some p)
  have p: "word_addr p" "n < 2 ^ 55" "\<And>k. k < n \<Longrightarrow> p + 8 * of_nat k \<notin> U"
    and c: "caml_allocation_status env AND NOT HEADER_COLOR_MASK = 0"
    using room Some by (simp_all add: room_def)
  have cells: "cells (p + 8) (unat sz) = (\<lambda>k. p + 8 * of_nat k) ` {..unat sz}" by (simp add: cells_def)
  have "cells (p + 8) (unat sz) \<inter> U = {}" unfolding cells using p(3) sz(1) by auto
  moreover have "p + 8 * (1 + sz) + 8 * of_nat k \<notin> U \<union> cells (p + 8) (unat sz)" if "k < n - (1 + unat sz)" for k
  proof -
    have eq: "p + 8 * (1 + sz) + 8 * of_nat k = p + 8 * of_nat (1 + unat sz + k)" by (simp add: algebra_simps)
    have "p + 8 * of_nat (1 + unat sz + k) \<noteq> p + 8 * of_nat i" if "i \<le> unat sz" for i
      using that \<open>k < _\<close> p(2) by (subst offset_eq_iff) auto
    then show ?thesis unfolding eq cells using p(3)[of "1 + unat sz + k"] that by auto
  qed
  moreover have "n - (1 + unat sz) < 2 ^ 55" using p(2) by simp
  moreover have "word_addr (p + 8 * (1 + sz))" using p(1) by (rule word_addr_offset)
  ultimately show ?thesis
    using Some p(1) c Make_header_coloured[OF sz(2), of 0 tag]
    by (auto simp: intern_alloc_obj_def allocated_def same_input_def room_def)
qed

section \<open>The reader\<close>

text \<open>The slots that the items of the stack will fill.\<close>

definition item_dests :: "intern_item \<Rightarrow> 64 word list" where
  "item_dests item = map (\<lambda>j. it_dest item + 8 * of_nat j) [0..<unat (it_arg item)]"

definition pending_dests :: "intern_item list \<Rightarrow> 64 word list" where
  "pending_dests items = concat (map item_dests items)"

text \<open>The reader in the middle of its work: an image with some slots to be filled, and the slots that the
  stack will fill.  The table of objects has a fixed capacity; there is none for a graph without
  objects.\<close>

definition reader_ok ::
  "mem \<Rightarrow> mlvalue \<Rightarrow> 64 word \<Rightarrow> 64 word \<Rightarrow> intern_env \<Rightarrow> nat \<Rightarrow> intern_st \<Rightarrow> copy list \<Rightarrow>
   (mlvalue \<times> 64 word) list \<Rightarrow> (mlvalue \<times> 64 word) list \<Rightarrow> nat \<Rightarrow> bool" where
  "reader_ok m v0 root atoms env cap rs L Q P n \<longleftrightarrow>
     heap_image m v0 root atoms L Q (heap_of rs) \<and> atom_table (dstate (machine rs)) = atoms \<and>
     (\<forall>item\<in>set (intern_stack rs). it_op item = OReadItems \<and> it_arg item \<noteq> 0) \<and>
     pending_dests (intern_stack rs) = map snd P \<and>
     (cap \<noteq> 0 \<longrightarrow>
        intern_obj_table rs = Some (map (\<lambda>p. Some (snd p)) L @ replicate (cap - length L) None) \<and>
        objs_seen rs = of_nat (length L)) \<and>
     length L \<le> cap \<and> cap < 2 ^ 60 \<and> \<not> compressed rs \<and>
     room env rs (used_cells m root L) n"

lemma used_cells_snoc: "used_cells m root (L @ [p]) = used_cells m root L \<union> copy_cells m p"
  by (auto simp: used_cells_def)

text \<open>A block allocated and entered in the table, before its contents are written.\<close>

lemma new_object_ok:
  assumes r: "reader_ok m v0 root atoms env cap rs L Q P n"
    and sz: "1 + wosize_nat m x \<le> n" "sz = Allocated_wosize_val m x" and cap: "length L < cap"
  shows "\<exists>r. new_object env rs sz tag = Some r \<and>
    (case r of
       Inl e \<Rightarrow> e = Out_of_memory
     | Inr (v, rs') \<Rightarrow> allocated env rs (used_cells m root L) n sz tag v rs' \<and>
         intern_obj_table rs' = Some (map (\<lambda>p. Some (snd p)) (L @ [(x, v)]) @ replicate (cap - length (L @ [(x, v)])) None) \<and>
         objs_seen rs' = of_nat (length (L @ [(x, v)])))"
proof (cases "intern_alloc_obj env rs sz tag")
  case (Inl e)
  then show ?thesis
    using intern_alloc_obj_ok[of env rs "used_cells m root L" n sz tag] r sz wosize_bound[of m x]
    by (simp add: new_object_def reader_ok_def)
next
  case (Inr q)
  obtain v rs1 where q: "q = (v, rs1)" by (cases q)
  have a: "allocated env rs (used_cells m root L) n sz tag v rs1" "intern_obj_table rs1 = intern_obj_table rs"
    "objs_seen rs1 = objs_seen rs"
    using intern_alloc_obj_ok[of env rs "used_cells m root L" n sz tag] r sz wosize_bound[of m x] Inr q
    by (simp_all add: reader_ok_def)
  define tbl where "tbl = map (\<lambda>p. Some (snd p)) L @ replicate (cap - length L) None"
  have t: "intern_obj_table rs1 = Some tbl" "objs_seen rs1 = of_nat (length L)" "unat (objs_seen rs1) = length L"
    using r a cap by (simp_all add: reader_ok_def tbl_def unat_of_nat)
  have "tbl[length L := Some v] = map (\<lambda>p. Some (snd p)) (L @ [(x, v)]) @ replicate (cap - length (L @ [(x, v)])) None"
    using cap by (cases "cap - length L") (auto simp: tbl_def list_update_append)
  moreover have "length L < length tbl" using cap by (simp add: tbl_def)
  moreover have "allocated env rs (used_cells m root L) n sz tag v
      (rs1\<lparr>intern_obj_table := Some (tbl[length L := Some v]), objs_seen := objs_seen rs1 + 1\<rparr>)"
    using a(1) room_cong[of "rs1\<lparr>intern_obj_table := _, objs_seen := _\<rparr>" rs1 env]
    by (simp add: allocated_def same_input_def)
  ultimately show ?thesis using t Inr q by (simp add: new_object_def record_object_def)
qed

text \<open>The image after the contents of a new block are written.\<close>

lemma new_block_image:
  assumes r: "reader_ok m v0 root atoms env cap rs L Q P n" and a: "allocated env rs (used_cells m root L) n sz tag v rs1"
    and x: "sz = Allocated_wosize_val m x" "tag = Tag_val m x"
    and out: "same_outside v (8 * wosize_nat m x) (heap_of rs1) h"
    and leaf: "scannable (Tag_val m x) \<or> load_bytes h v (8 * wosize_nat m x) = load_bytes m x (8 * wosize_nat m x)"
  shows "heap_image m v0 root atoms (L @ [(x, v)]) (slots m (x, v) @ Q) h"
proof (rule heap_image_new)
  show "heap_image m v0 root atoms L Q (heap_of rs)" using r by (simp add: reader_ok_def)
  have v: "word_addr v" "cells v (wosize_nat m x) \<inter> used_cells m root L = {}" using a x by (simp_all add: allocated_def)
  then show "word_addr v" "cells v (wosize_nat m x) \<inter> used_cells m root L = {}" by simp_all
  obtain hdr where h1: "heap_of rs1 = mem_store64 (heap_of rs) (v - 8) hdr" "Tag_hd hdr = tag" "Allocated_wosize_hd hdr = sz"
    "Reserved_hd hdr = 0"
    using a by (auto simp: allocated_def)
  have sep: "separate m root L" using r by (simp add: reader_ok_def heap_image_def)
  have w: "wosize_nat m x < 2 ^ 50" using wosize_bound[of m x] by simp
  show "mem_load64 h b = mem_load64 (heap_of rs) b" if "b \<in> used_cells m root L" for b
  proof -
    have b: "word_addr b" using that sep word_addr_cells by (auto simp: used_cells_def separate_def)
    have "b \<notin> cells v (wosize_nat m x)" using that v(2) by blast
    then have "mem_load64 h b = mem_load64 (heap_of rs1) b" by (rule load64_outside[OF v(1) b _ w out])
    moreover have "b \<noteq> v - 8" using that v(2) header_in_cells by blast
    ultimately show ?thesis using h1(1) v(1) b by (simp add: load64_store64)
  qed
  have "Hd_val h v = Hd_val (heap_of rs1) v" using w by (intro Hd_val_same_outside[OF out]) simp
  then have hd: "mem_load64 h (v - 8) = hdr" using h1(1) v(1) by (simp add: Hd_val_def load64_store64)
  have "mem_load64 h (v + 8 * of_nat j) = Field m x j"
    if l: "load_bytes h v (8 * wosize_nat m x) = load_bytes m x (8 * wosize_nat m x)" and j: "j < wosize_nat m x" for j
  proof -
    have "load_bytes h (v + of_nat (8 * j)) 8 = load_bytes m (x + of_nat (8 * j)) 8"
      using l j load_bytes_slice[of "8 * j" 8 "8 * wosize_nat m x"] by simp
    then show ?thesis by (simp add: Field_def mem_load64_def)
  qed
  then show "copied_shape m h (x, v)"
    using hd h1 x leaf by (auto simp: copied_shape_def)
qed

lemma reader_ok_new:
  assumes r: "reader_ok m v0 root atoms env cap rs L Q P n" and a: "allocated env rs (used_cells m root L) n sz tag v rs1"
    and x: "sz = Allocated_wosize_val m x" "tag = Tag_val m x" and cap: "length L < cap"
    and tbl: "intern_obj_table rs1 = Some (map (\<lambda>p. Some (snd p)) (L @ [(x, v)]) @ replicate (cap - length (L @ [(x, v)])) None)"
      "objs_seen rs1 = of_nat (length (L @ [(x, v)]))"
    and same: "intern_obj_table rs2 = intern_obj_table rs1" "objs_seen rs2 = objs_seen rs1" "compressed rs2 = compressed rs1"
      "intern_dest rs2 = intern_dest rs1" "shared_allocs rs2 = shared_allocs rs1"
      "atom_table (dstate (machine rs2)) = atom_table (dstate (machine rs1))"
    and out: "same_outside v (8 * wosize_nat m x) (heap_of rs1) (heap_of rs2)"
    and leaf: "scannable (Tag_val m x) \<or> load_bytes (heap_of rs2) v (8 * wosize_nat m x) = load_bytes m x (8 * wosize_nat m x)"
    and stack: "\<forall>item\<in>set (intern_stack rs2). it_op item = OReadItems \<and> it_arg item \<noteq> 0"
      "pending_dests (intern_stack rs2) = map snd (slots m (x, v)) @ map snd P"
  shows "reader_ok m v0 root atoms env cap rs2 (L @ [(x, v)]) (slots m (x, v) @ Q) (slots m (x, v) @ P) (n - (1 + wosize_nat m x))"
proof -
  have "heap_image m v0 root atoms (L @ [(x, v)]) (slots m (x, v) @ Q) (heap_of rs2)"
    by (rule new_block_image[OF r a x out leaf])
  moreover have "room env rs2 (used_cells m root (L @ [(x, v)])) (n - (1 + wosize_nat m x))"
    using a x room_cong[OF same(4,5), of env] by (simp add: allocated_def used_cells_snoc)
  ultimately show ?thesis
    using r a cap tbl same stack by (simp add: reader_ok_def allocated_def same_input_def)
qed

lemma stack_after_alloc:
  "reader_ok m v0 root atoms env cap rs L Q P n \<Longrightarrow> allocated env rs U n sz tag v rs1 \<Longrightarrow>
     (\<forall>item\<in>set (intern_stack rs1). it_op item = OReadItems \<and> it_arg item \<noteq> 0) \<and>
     pending_dests (intern_stack rs1) = map snd P"
  by (simp add: reader_ok_def allocated_def same_input_def)

lemma PushItem_ok:
  "case PushItem env rs item of
     Inl e \<Rightarrow> e = Out_of_memory
   | Inr rs' \<Rightarrow> \<exists>l. rs' = rs\<lparr>intern_stack := item # intern_stack rs, intern_stack_limit := l\<rparr>"
proof (cases "PushItem env rs item")
  case (Inr rs')
  then show ?thesis
    by (auto simp: PushItem_def intern_resize_stack_def Let_def split: if_splits
        intro!: exI[of _ "intern_stack_limit rs'"])
qed (auto simp: PushItem_def intern_resize_stack_def Let_def split: if_splits)

section \<open>Items\<close>

text \<open>The outcome of reading the item of a new object: no memory, or one copy more.\<close>

definition extends ::
  "mem \<Rightarrow> mlvalue \<Rightarrow> 64 word \<Rightarrow> 64 word \<Rightarrow> intern_env \<Rightarrow> nat \<Rightarrow> copy list \<Rightarrow> (mlvalue \<times> 64 word) list \<Rightarrow>
   (mlvalue \<times> 64 word) list \<Rightarrow> nat \<Rightarrow> mlvalue \<Rightarrow> bytes \<Rightarrow> (mlvalue option \<times> intern_st) result \<Rightarrow> bool" where
  "extends m v0 root atoms env cap L Q P n x rest r \<longleftrightarrow>
     (case r of
        Inl e \<Rightarrow> e = Out_of_memory
      | Inr (y, rs') \<Rightarrow>
          \<exists>v. y = Some v \<and> intern_src rs' = rest \<and>
            reader_ok m v0 root atoms env cap rs' (L @ [(x, v)]) (slots m (x, v) @ Q) (slots m (x, v) @ P)
              (n - (1 + wosize_nat m x)))"

lemma read_block_ok:
  assumes r: "reader_ok m v0 root atoms env cap rs L Q P n"
    and x: "scannable (Tag_val m x)" "Allocated_wosize_val m x \<noteq> 0" and n: "1 + wosize_nat m x \<le> n" "length L < cap"
  shows "\<exists>r. read_block env rs (Allocated_wosize_val m x) (Tag_val m x) = Some r \<and>
    extends m v0 root atoms env cap L Q P n x (intern_src rs) r"
proof -
  let ?sz = "Allocated_wosize_val m x" and ?tag = "Tag_val m x"
  have t: "?tag \<noteq> Object_tag" by (rule scannable_tags(10)[OF x(1)])
  obtain q where q: "new_object env rs ?sz ?tag = Some q"
    "case q of
       Inl e \<Rightarrow> e = Out_of_memory
     | Inr (v, rs') \<Rightarrow> allocated env rs (used_cells m root L) n ?sz ?tag v rs' \<and>
         intern_obj_table rs' = Some (map (\<lambda>p. Some (snd p)) (L @ [(x, v)]) @ replicate (cap - length (L @ [(x, v)])) None) \<and>
         objs_seen rs' = of_nat (length (L @ [(x, v)]))"
    using new_object_ok[OF r n(1) refl n(2), of ?tag] by blast
  show ?thesis
  proof (cases q)
    case (Inl e)
    then show ?thesis using q x t by (simp add: read_block_def extends_def)
  next
    case (Inr p)
    obtain v rs1 where p: "p = (v, rs1)" by (cases p)
    have a: "allocated env rs (used_cells m root L) n ?sz ?tag v rs1"
      "intern_obj_table rs1 = Some (map (\<lambda>p. Some (snd p)) (L @ [(x, v)]) @ replicate (cap - length (L @ [(x, v)])) None)"
      "objs_seen rs1 = of_nat (length (L @ [(x, v)]))"
      using q(2) Inr p by simp_all
    let ?item = "\<lparr>it_dest = v, it_arg = ?sz, it_op = OReadItems\<rparr>"
    have rb: "read_block env rs ?sz ?tag = bind_partial (Some (PushItem env rs1 ?item)) (value_read v)"
    proof -
      have "0 < ?sz" using x(2) by (simp only: word_neq_0_conv)
      then show ?thesis using q(1) Inr p x(2) t by (simp add: read_block_def ReadItems_def)
    qed
    show ?thesis
    proof (cases "PushItem env rs1 ?item")
      case (Inl e)
      then show ?thesis using rb PushItem_ok[where env = env and rs = rs1 and item = ?item] by (simp add: extends_def)
    next
      case push: (Inr rs2)
      obtain l where rs2: "rs2 = rs1\<lparr>intern_stack := ?item # intern_stack rs1, intern_stack_limit := l\<rparr>"
        using PushItem_ok[where env = env and rs = rs1 and item = ?item] push by auto
      have dests: "item_dests ?item = map snd (slots m (x, v))" using x(1) by (simp add: item_dests_def slots_def)
      have "reader_ok m v0 root atoms env cap rs2 (L @ [(x, v)]) (slots m (x, v) @ Q) (slots m (x, v) @ P) (n - (1 + wosize_nat m x))"
        using stack_after_alloc[OF r a(1)] x dests
        by (intro reader_ok_new[OF r a(1) refl refl n(2) a(2,3)]) (simp_all add: rs2 pending_dests_def)
      then show ?thesis
        using rb push a(1) by (simp add: extends_def value_read_def rs2 allocated_def same_input_def)
    qed
  qed
qed

text \<open>Blocks whose contents follow in the input.\<close>

lemma leaf_extends:
  assumes r: "reader_ok m v0 root atoms env cap rs L Q P n" and a: "allocated env rs (used_cells m root L) n sz tag v rs1"
    and x: "sz = Allocated_wosize_val m x" "tag = Tag_val m x" "\<not> scannable tag" and cap: "length L < cap"
    and tbl: "intern_obj_table rs1 = Some (map (\<lambda>p. Some (snd p)) (L @ [(x, v)]) @ replicate (cap - length (L @ [(x, v)])) None)"
      "objs_seen rs1 = of_nat (length (L @ [(x, v)]))"
    and rs2: "rs2 = rs1\<lparr>intern_src := rest, machine := set_mem (machine rs1) h\<rparr>"
    and out: "same_outside v (8 * wosize_nat m x) (heap_of rs1) h"
    and leaf: "load_bytes h v (8 * wosize_nat m x) = load_bytes m x (8 * wosize_nat m x)"
  shows "extends m v0 root atoms env cap L Q P n x rest (Inr (Some v, rs2))"
proof -
  have sl: "slots m (x, v) = []" using x by (simp add: slots_def)
  have "reader_ok m v0 root atoms env cap rs2 (L @ [(x, v)]) (slots m (x, v) @ Q) (slots m (x, v) @ P) (n - (1 + wosize_nat m x))"
    using stack_after_alloc[OF r a] out leaf
    by (intro reader_ok_new[OF r a x(1,2) cap tbl]) (simp_all add: rs2 sl set_mem_def)
  then show ?thesis by (simp add: extends_def rs2)
qed

lemma readblock_append: "readblock (length data) (data @ rest) = Some (data, rest)"
  by (simp add: readblock_def)

text \<open>The end of a new string block, before its bytes are read.\<close>

lemma string_filled:
  assumes len: "length bs < 2 ^ 50"
  defines "k \<equiv> length bs div 8"
  shows "load_bytes (store_bytes (store_bytes (mem_store64 h (v + 8 * of_nat k) 0) (v + of_nat (8 * k + 7))
      [of_nat (8 * k + 7 - length bs)]) v bs) v (8 * (k + 1)) = string_image bs"
    and "same_outside v (8 * (k + 1)) h (store_bytes (store_bytes (mem_store64 h (v + 8 * of_nat k) 0) (v + of_nat (8 * k + 7))
      [of_nat (8 * k + 7 - length bs)]) v bs)"
proof -
  let ?b = "of_nat (8 * k + 7 - length bs) :: byte"
  let ?h1 = "mem_store64 h (v + 8 * of_nat k) 0"
  let ?h2 = "store_bytes ?h1 (v + of_nat (8 * k + 7)) [?b]"
  have k: "8 * k \<le> length bs" "length bs \<le> 8 * k + 7" "k < 2 ^ 50"
    using len le_less_trans[OF div_le_dividend len, of 8] unfolding k_def by (presburger, presburger, simp)
  have h2: "?h2 = ?h1(v + of_nat (8 * k + 7) := ?b)"
    using set_byte_store[of ?h1 v "of_nat (8 * k + 7)" ?b] by (simp add: set_byte_def)
  have tail: "load_bytes ?h2 v (8 * (k + 1)) = load_bytes h v (8 * k) @ replicate 7 0 @ [?b]"
    unfolding h2 using k(3) by (intro string_tail_load) simp
  have "load_bytes (store_bytes ?h2 v bs) v (8 * (k + 1)) = bs @ drop (length bs) (load_bytes ?h2 v (8 * (k + 1)))"
    using load_bytes_store_bytes_inside[of 0 bs "8 * (k + 1)" ?h2 v] k by (simp add: Let_def del: of_nat_add of_nat_mult)
  also have "drop (length bs) (load_bytes ?h2 v (8 * (k + 1))) = replicate (7 - (length bs - 8 * k)) 0 @ [?b]"
    unfolding tail using k by simp
  also have "bs @ replicate (7 - (length bs - 8 * k)) 0 @ [?b] = string_image bs"
  proof -
    have md: "length bs mod 8 = length bs - 8 * k" unfolding k_def by (rule minus_mult_div_eq_mod[symmetric])
    have "string_pad bs = 7 - (length bs - 8 * k)" "8 * k + 7 - length bs = string_pad bs"
      using k(1) unfolding string_pad_def md by arith+
    then show ?thesis by (simp add: string_image_def)
  qed
  finally show "load_bytes (store_bytes ?h2 v bs) v (8 * (k + 1)) = string_image bs" .
  have "same_outside v (8 * (k + 1)) h ?h1"
    using same_outside_store64[of "8 * k" "8 * (k + 1)" v h 0] k by simp
  moreover have "same_outside v (8 * (k + 1)) ?h1 ?h2"
    using same_outside_store_bytes[of "8 * k + 7" "[?b]" "8 * (k + 1)" v ?h1] k by (simp del: of_nat_add of_nat_mult)
  moreover have "same_outside v (8 * (k + 1)) ?h2 (store_bytes ?h2 v bs)"
    using same_outside_store_bytes[of 0 bs "8 * (k + 1)" v ?h2] k by (simp del: of_nat_add of_nat_mult)
  ultimately show "same_outside v (8 * (k + 1)) h (store_bytes ?h2 v bs)" by (blast intro: same_outside_trans)
qed

lemma read_string_ok:
  assumes r: "reader_ok m v0 root atoms env cap rs L Q P n" and x: "string_block m x bs"
    and n: "1 + wosize_nat m x \<le> n" "length L < cap" and src: "intern_src rs = bs @ rest"
  shows "\<exists>r. read_string env rs (of_nat (length bs)) = Some r \<and> extends m v0 root atoms env cap L Q P n x rest r"
proof -
  define k where "k = length bs div 8"
  have len: "length bs < 2 ^ 50" by (rule string_block_length[OF x])
  have k: "k < 2 ^ 50" "length bs \<le> 8 * k + 7" "8 * k + 7 - length bs < 8" 
    using len le_less_trans[OF div_le_dividend len, of 8] unfolding k_def by (simp, presburger, presburger)
  have wk: "wosize_nat m x = k + 1" using x by (simp add: string_block_def string_words_def k_def)
  have sz: "(of_nat (length bs) + 8 :: 64 word) div 8 = Allocated_wosize_val m x"
  proof -
    have "length bs < 2 ^ 60" using len by simp
    then have "(of_nat (length bs) + 8 :: 64 word) div 8 = of_nat (k + 1)" unfolding k_def by (rule string_words_word)
    then show ?thesis using wk by (metis of_nat_unat ucast_id)
  qed
  have tag: "Tag_val m x = String_tag" "\<not> scannable String_tag" using x by (simp_all add: string_block_def scannable_def)
  obtain q where q: "new_object env rs (Allocated_wosize_val m x) String_tag = Some q"
    "case q of
       Inl e \<Rightarrow> e = Out_of_memory
     | Inr (v, rs') \<Rightarrow> allocated env rs (used_cells m root L) n (Allocated_wosize_val m x) String_tag v rs' \<and>
         intern_obj_table rs' = Some (map (\<lambda>p. Some (snd p)) (L @ [(x, v)]) @ replicate (cap - length (L @ [(x, v)])) None) \<and>
         objs_seen rs' = of_nat (length (L @ [(x, v)]))"
    using new_object_ok[OF r n(1) refl n(2), of String_tag] by blast
  show ?thesis
  proof (cases q)
    case (Inl e)
    then show ?thesis using q by (simp add: read_string_def sz extends_def)
  next
    case (Inr p)
    obtain v rs1 where p: "p = (v, rs1)" by (cases p)
    have a: "allocated env rs (used_cells m root L) n (Allocated_wosize_val m x) String_tag v rs1"
      "intern_obj_table rs1 = Some (map (\<lambda>p. Some (snd p)) (L @ [(x, v)]) @ replicate (cap - length (L @ [(x, v)])) None)"
      "objs_seen rs1 = of_nat (length (L @ [(x, v)]))"
      using q(2) Inr p by simp_all
    have szk: "Allocated_wosize_val m x = of_nat (k + 1)" using wk by (metis of_nat_unat ucast_id)
    have words: "8 * Allocated_wosize_val m x - 8 = 8 * of_nat k" "Allocated_wosize_val m x - 1 = of_nat k" "Bsize_wsize (Allocated_wosize_val m x) - 1 = of_nat (8 * k + 7)"
      by (simp_all add: szk Bsize_wsize_def)
    have pad: "ucast (of_nat (8 * k + 7) - of_nat (length bs) :: 64 word) = (of_nat (8 * k + 7 - length bs) :: byte)"
      using k(2) ucast_of_nat_byte[of "8 * k + 7 - length bs"] by (simp only: of_nat_diff)
    have ulen: "unat (of_nat (length bs) :: 64 word) = length bs" using len by (simp add: unat_of_nat)
    let ?h = "store_bytes (store_bytes (mem_store64 (heap_of rs1) (v + 8 * of_nat k) 0) (v + of_nat (8 * k + 7))
      [of_nat (8 * k + 7 - length bs)]) v bs"
    let ?rs2 = "rs1\<lparr>intern_src := rest, machine := set_mem (machine rs1) ?h\<rparr>"
    have src1: "intern_src rs1 = bs @ rest" using a(1) src by (simp add: allocated_def same_input_def)
    have "read_string env rs (of_nat (length bs)) = value_read v ?rs2"
      using q(1) Inr p src1
      by (simp add: read_string_def sz words pad ulen Let_def reading_def readblock_append put_word_def put_bytes_def
          set_mem_def store_word_def del: of_nat_add of_nat_mult of_nat_diff)
    moreover have "extends m v0 root atoms env cap L Q P n x rest (Inr (Some v, ?rs2))"
      using string_filled[OF len, where h = "heap_of rs1" and v = v, folded k_def] x tag
      by (intro leaf_extends[OF r a(1) refl _ _ n(2) a(2,3) refl]) (simp_all add: wk string_block_def string_words_def k_def)
    ultimately show ?thesis by (simp add: value_read_def)
  qed
qed

text \<open>Floating-point numbers in the byte order of the machine.\<close>

lemma read_floats_ok:
  assumes r: "reader_ok m v0 root atoms env cap rs L Q P n" and x: "\<not> scannable (Tag_val m x)"
    and n: "1 + wosize_nat m x \<le> n" "length L < cap"
    and src: "intern_src rs = load_bytes m x (8 * wosize_nat m x) @ rest"
    and f: "\<And>rs v. intern_src rs = load_bytes m x (8 * wosize_nat m x) @ rest \<Longrightarrow>
      f rs v = Some (put_bytes (rs\<lparr>intern_src := rest\<rparr>) v (load_bytes m x (8 * wosize_nat m x)))"
  shows "\<exists>r. bind_partial (new_object env rs (Allocated_wosize_val m x) (Tag_val m x)) (\<lambda>(v, rs). Option.bind (f rs v) (value_read v)) = Some r \<and>
    extends m v0 root atoms env cap L Q P n x rest r"
proof -
  let ?data = "load_bytes m x (8 * wosize_nat m x)"
  obtain q where q: "new_object env rs (Allocated_wosize_val m x) (Tag_val m x) = Some q"
    "case q of
       Inl e \<Rightarrow> e = Out_of_memory
     | Inr (v, rs') \<Rightarrow> allocated env rs (used_cells m root L) n (Allocated_wosize_val m x) (Tag_val m x) v rs' \<and>
         intern_obj_table rs' = Some (map (\<lambda>p. Some (snd p)) (L @ [(x, v)]) @ replicate (cap - length (L @ [(x, v)])) None) \<and>
         objs_seen rs' = of_nat (length (L @ [(x, v)]))"
    using new_object_ok[OF r n(1) refl n(2), of "Tag_val m x"] by blast
  show ?thesis
  proof (cases q)
    case (Inl e)
    then show ?thesis using q by (simp add: extends_def)
  next
    case (Inr p)
    obtain v rs1 where p: "p = (v, rs1)" by (cases p)
    have a: "allocated env rs (used_cells m root L) n (Allocated_wosize_val m x) (Tag_val m x) v rs1"
      "intern_obj_table rs1 = Some (map (\<lambda>p. Some (snd p)) (L @ [(x, v)]) @ replicate (cap - length (L @ [(x, v)])) None)"
      "objs_seen rs1 = of_nat (length (L @ [(x, v)]))"
      using q(2) Inr p by simp_all
    have src1: "intern_src rs1 = ?data @ rest" using a(1) src by (simp add: allocated_def same_input_def)
    let ?rs2 = "rs1\<lparr>intern_src := rest, machine := set_mem (machine rs1) (store_bytes (heap_of rs1) v ?data)\<rparr>"
    have w: "wosize_nat m x < 2 ^ 46" by (rule wosize_bound)
    have "extends m v0 root atoms env cap L Q P n x rest (Inr (Some v, ?rs2))"
      using x w load_bytes_store_bytes_same[of ?data "heap_of rs1" v]
        same_outside_store_bytes[of 0 ?data "8 * wosize_nat m x" v "heap_of rs1"]
      by (intro leaf_extends[OF r a(1) refl _ _ n(2) a(2,3) refl]) simp_all
    then show ?thesis using q(1) Inr p f[OF src1, of v] by (simp add: value_read_def put_bytes_def)
  qed
qed

lemma read_double_ok:
  assumes r: "reader_ok m v0 root atoms env cap rs L Q P n" and x: "Tag_val m x = Double_tag" "Allocated_wosize_val m x = 1"
    and n: "1 + wosize_nat m x \<le> n" "length L < cap" and src: "intern_src rs = load_bytes m x 8 @ rest"
  shows "\<exists>r. read_double env rs CODE_DOUBLE_LITTLE = Some r \<and> extends m v0 root atoms env cap L Q P n x rest r"
proof -
  have f: "readfloat rs v CODE_DOUBLE_LITTLE = Some (put_bytes (rs\<lparr>intern_src := rest\<rparr>) v (load_bytes m x (8 * wosize_nat m x)))"
    if "intern_src rs = load_bytes m x (8 * wosize_nat m x) @ rest" for rs v
    using that readblock_append[of "load_bytes m x 8" rest] x(2) by (simp add: readfloat_def reading_def)
  show ?thesis
    using read_floats_ok[OF r _ n, of rest "\<lambda>rs v. readfloat rs v CODE_DOUBLE_LITTLE"] f src x
    by (simp add: read_double_def scannable_def)
qed

lemma read_double_array_ok:
  assumes r: "reader_ok m v0 root atoms env cap rs L Q P n" and x: "Tag_val m x = Double_array_tag" "little_array_code code"
    and n: "1 + wosize_nat m x \<le> n" "length L < cap" and src: "intern_src rs = load_bytes m x (wosize_nat m x * 8) @ rest"
  shows "\<exists>r. read_double_array env rs (Allocated_wosize_val m x) code = Some r \<and> extends m v0 root atoms env cap L Q P n x rest r"
proof -
  have f: "readfloats rs v (Allocated_wosize_val m x) code =
      Some (put_bytes (rs\<lparr>intern_src := rest\<rparr>) v (load_bytes m x (8 * wosize_nat m x)))"
    if "intern_src rs = load_bytes m x (8 * wosize_nat m x) @ rest" for rs v
    using that readblock_append[of "load_bytes m x (8 * wosize_nat m x)" rest] x(2)
    by (auto simp: readfloats_def reading_def little_array_code_def mult.commute)
  show ?thesis
    using read_floats_ok[OF r _ n, of rest "\<lambda>rs v. readfloats rs v (Allocated_wosize_val m x) code"] f src x
    by (simp add: read_double_array_def scannable_def mult.commute)
qed

end
