(* ===== verification/Marshal_Correct.thy ===== *)
theory Marshal_Correct
  imports Marshal_Read
begin

text \<open>
  Marshalling and unmarshalling in step: on every finite graph of data the writer ends, and from
  what it writes the reader builds an isomorphic graph, with sharing and cycles.
\<close>

section \<open>One item\<close>

lemma reader_ok_src [simp]:
  "reader_ok m v0 root atoms env cap (rs\<lparr>intern_src := src\<rparr>) L Q P n = reader_ok m v0 root atoms env cap rs L Q P n"
  by (simp add: reader_ok_def room_def split: option.split)

lemma expand_words:
  "words m (fst (expand m objs w)) = words m objs + (if fst (expand m objs w) = objs then 0 else 1 + wosize_nat m w)"
  by (simp add: expand_def)

text \<open>The outcome of reading the code of a value.\<close>

definition value_outcome ::
  "mem \<Rightarrow> mlvalue \<Rightarrow> 64 word \<Rightarrow> 64 word \<Rightarrow> intern_env \<Rightarrow> nat \<Rightarrow> copy list \<Rightarrow> (mlvalue \<times> 64 word) list \<Rightarrow>
   (mlvalue \<times> 64 word) list \<Rightarrow> nat \<Rightarrow> mlvalue \<Rightarrow> bytes \<Rightarrow> (mlvalue option \<times> intern_st) result \<Rightarrow> bool" where
  "value_outcome m v0 root atoms env cap L Q P n w rest r \<longleftrightarrow>
     (case r of
        Inl e \<Rightarrow> e = Out_of_memory
      | Inr (y, rs') \<Rightarrow>
          \<exists>y' L' new. y = Some y' \<and> intern_src rs' = rest \<and> map fst L' = fst (expand m (map fst L) w) \<and>
            map fst new = snd (expand m (map fst L) w) \<and> value_image m atoms L' w y' \<and>
            reader_ok m v0 root atoms env cap rs' L' (new @ Q) (new @ P)
              (n - (words m (map fst L') - words m (map fst L))))"

lemma outcome_same:
  assumes "reader_ok m v0 root atoms env cap rs L Q P n" "expand m (map fst L) w = (map fst L, [])"
    and "value_image m atoms L w y"
  shows "value_outcome m v0 root atoms env cap L Q P n w (intern_src rs) (Inr (Some y, rs))"
  unfolding value_outcome_def sum.case prod.case
  by (intro exI[of _ y] exI[of _ L] exI[of _ "[]"]) (use assms in simp)

lemma outcome_new:
  assumes "extends m v0 root atoms env cap L Q P n w rest r" "expand m (map fst L) w = (map fst L @ [w], kids m w)"
    and "\<not> Is_long w" "Allocated_wosize_val m w \<noteq> 0"
  shows "value_outcome m v0 root atoms env cap L Q P n w rest r"
proof (cases r)
  case (Inl e)
  then show ?thesis using assms(1) by (simp add: extends_def value_outcome_def)
next
  case (Inr q)
  obtain y rs' where q: "q = (y, rs')" by (cases q)
  obtain v where v: "y = Some v" "intern_src rs' = rest"
    "reader_ok m v0 root atoms env cap rs' (L @ [(w, v)]) (slots m (w, v) @ Q) (slots m (w, v) @ P) (n - (1 + wosize_nat m w))"
    using assms(1) Inr q by (auto simp: extends_def)
  have img: "value_image m atoms (L @ [(w, v)]) w v" using assms(3,4) by (simp add: value_image_def)
  have wd: "words m (map fst (L @ [(w, v)])) - words m (map fst L) = 1 + wosize_nat m w" by simp
  show ?thesis
    unfolding value_outcome_def Inr q sum.case prod.case
    by (intro exI[of _ v] exI[of _ "L @ [(w, v)]"] exI[of _ "slots m (w, v)"])
      (use v img assms(2) wd in \<open>simp add: slots_kids\<close>)
qed

lemma shared_entry:
  assumes r: "reader_ok m v0 root atoms env cap rs L Q P n" and i: "i < length L"
  shows "read_shared rs (of_nat (length L) - of_nat i) = value_read (snd (L ! i)) rs"
proof -
  have "length L < 2 ^ 60" using r by (simp add: reader_ok_def)
  then have "unat (of_nat i :: 64 word) = i" using i by (simp add: unat_of_nat)
  then show ?thesis
    using r i by (simp add: read_shared_def reader_ok_def nth_append)
qed

lemma read_value_ok:
  assumes enc: "encodes m (map fst L) w data" and g: "data_graph m G" and w: "value_in m G w"
    and n: "words m (fst (expand m (map fst L) w)) - words m (map fst L) \<le> n" "length (fst (expand m (map fst L) w)) \<le> cap"
  shows "\<exists>code bs. data = code # bs \<and>
    (\<forall>rs dest rest. intern_src rs = bs @ rest \<longrightarrow> reader_ok m v0 root atoms env cap rs L Q P n \<longrightarrow>
       (\<exists>r. read_value_code env rs dest code = Some r \<and> value_outcome m v0 root atoms env cap L Q P n w rest r))"
proof -
  let ?objs = "map fst L"
  have reads: ?thesis
    if dt: "data = hdr @ contents" and ra: "reads_as hdr act"
      and ok: "\<And>rs rest. intern_src rs = contents @ rest \<Longrightarrow> reader_ok m v0 root atoms env cap rs L Q P n \<Longrightarrow>
         \<exists>r. act env rs = Some r \<and> value_outcome m v0 root atoms env cap L Q P n w rest r"
    for hdr contents act
  proof -
    obtain code bs where hdr: "hdr = code # bs"
      "\<And>env rs dest rest. intern_src rs = bs @ rest \<Longrightarrow> read_value_code env rs dest code = act env (rs\<lparr>intern_src := rest\<rparr>)"
      using ra by (auto simp: reads_as_def)
    have "\<exists>r. read_value_code env rs dest code = Some r \<and> value_outcome m v0 root atoms env cap L Q P n w rest r"
      if "intern_src rs = (bs @ contents) @ rest" "reader_ok m v0 root atoms env cap rs L Q P n" for rs dest rest
      using that hdr(2)[of rs "contents @ rest" env dest] ok[of "rs\<lparr>intern_src := contents @ rest\<rparr>" rest] by simp
    then show ?thesis using dt hdr(1) by auto
  qed
  show ?thesis
  proof (cases "Is_long w")
    case True
    have ex: "expand m ?objs w = (?objs, [])" "value_image m atoms L w w" using True by (simp_all add: expand_def value_image_def)
    show ?thesis
      using enc True outcome_same[OF _ ex] 
      by (intro reads[of data "[]" "\<lambda>env. value_read w"]) (auto simp: encodes_def value_read_def)
  next
    case long: False
    show ?thesis
    proof (cases "Allocated_wosize_val m w = 0")
      case True
      have ex: "expand m ?objs w = (?objs, [])" using True by (simp add: expand_def)
      have img: "value_image m atoms L w (caml_atom (dstate (machine rs)) (Tag_val m w))"
        if "reader_ok m v0 root atoms env cap rs L Q P n" for rs
        using that True long by (simp add: reader_ok_def value_image_def caml_atom_def)
      show ?thesis
        using enc True long outcome_same[OF _ ex img]
        by (intro reads[of data "[]" "\<lambda>env rs. read_block env rs 0 (Tag_val m w)"])
          (auto simp: encodes_def value_read_def read_block_def)
    next
      case sz: False
      have wG: "w \<in> G" using w long sz by (auto simp: value_in_def is_atom_def)
      show ?thesis
      proof (cases "w \<in> set ?objs")
        case True
        have ex: "expand m ?objs w = (?objs, [])" using True by (simp add: expand_def)
        obtain i where i: "i < length L" "fst (L ! i) = w" "reads_as data (\<lambda>env rs. read_shared rs (of_nat (length L) - of_nat i))"
          using enc True long sz by (auto simp: encodes_def)
        have img: "value_image m atoms L w (snd (L ! i))"
          using i long sz nth_mem[OF i(1)] by (auto simp: value_image_def)
        show ?thesis
          using i(3) outcome_same[OF _ ex img] shared_entry[OF _ i(1)]
          by (intro reads[of data "[]" "\<lambda>env rs. read_shared rs (of_nat (length L) - of_nat i)"]) (auto simp: value_read_def)
      next
        case new: False
        have ex: "expand m ?objs w = (?objs @ [w], kids m w)" using new long sz by (simp add: expand_def)
        have room: "1 + wosize_nat m w \<le> n" "length L < cap" using n by (simp_all add: ex)
        note out = outcome_new[OF _ ex long sz]
        from data_graphD[OF g wG] consider (fields) "scannable (Tag_val m w)"
          | (string) "Tag_val m w = String_tag" "\<exists>bs. string_block m w bs"
          | (double) "Tag_val m w = Double_tag" "Allocated_wosize_val m w = 1"
          | (array) "Tag_val m w = Double_array_tag" "wosize_nat m w < 2 ^ 32"
          by (auto simp: data_block_def)
        then show ?thesis
        proof cases
          case fields
          show ?thesis
          proof (rule reads[of data "[]" "\<lambda>env rs. read_block env rs (Allocated_wosize_val m w) (Tag_val m w)"])
            show "reads_as data (\<lambda>env rs. read_block env rs (Allocated_wosize_val m w) (Tag_val m w))"
              using enc new long sz scannable_tags[OF fields] by (simp add: encodes_def)
            show "\<exists>r. read_block env rs (Allocated_wosize_val m w) (Tag_val m w) = Some r \<and>
                value_outcome m v0 root atoms env cap L Q P n w rest r"
              if "intern_src rs = [] @ rest" "reader_ok m v0 root atoms env cap rs L Q P n" for rs rest
              using read_block_ok[OF that(2) fields sz room] out that(1) by auto
          qed simp
        next
          case string
          obtain hdr bs where s: "string_block m w bs" "data = hdr @ bs"
            "reads_as hdr (\<lambda>env rs. read_string env rs (of_nat (length bs)))"
            using enc new long sz string by (auto simp: encodes_def)
          show ?thesis
            by (rule reads[OF s(2,3)]) (use read_string_ok[OF _ s(1) room] out in blast)
        next
          case double
          obtain hdr where s: "data = hdr @ load_bytes m w 8" "reads_as hdr (\<lambda>env rs. read_double env rs CODE_DOUBLE_LITTLE)"
            using enc new long sz double by (auto simp: encodes_def)
          show ?thesis
            by (rule reads[OF s]) (use read_double_ok[OF _ double room] out in blast)
        next
          case array
          obtain hdr code where s: "little_array_code code" "data = hdr @ load_bytes m w (wosize_nat m w * 8)"
            "reads_as hdr (\<lambda>env rs. read_double_array env rs (Allocated_wosize_val m w) code)"
            using enc new long sz array by (auto simp: encodes_def)
          show ?thesis
            by (rule reads[OF s(2,3)]) (use read_double_array_ok[OF _ array(1) s(1) room] out in blast)
        qed
      qed
    qed
  qed
qed

section \<open>The reader in step with the writer\<close>

text \<open>The reader has a copy of the objects that the writer has written, and waits for the values that the
  writer is still to write.\<close>

definition linked ::
  "mem \<Rightarrow> mlvalue \<Rightarrow> 64 word \<Rightarrow> 64 word \<Rightarrow> intern_env \<Rightarrow> nat \<Rightarrow> intern_st \<Rightarrow> mlvalue list \<Rightarrow> mlvalue list \<Rightarrow> nat \<Rightarrow> bool" where
  "linked m v0 root atoms env cap rs objs W n \<longleftrightarrow>
     (\<exists>L P. reader_ok m v0 root atoms env cap rs L P P n \<and> map fst L = objs \<and> map fst P = W)"

lemma item_dests_next:
  assumes "it_arg item \<noteq> 0"
  shows "item_dests item = it_dest item #
    item_dests (item\<lparr>it_dest := it_dest item + 8, it_arg := it_arg item - 1\<rparr>)"
proof -
  obtain k where k: "unat (it_arg item) = Suc k" using assms by (metis not0_implies_Suc unat_eq_zero)
  then have "unat (it_arg item - 1) = k" by (subst unat_sub) (simp_all add: word_le_nat_alt)
  moreover have "[0..<Suc k] = 0 # map Suc [0..<k]" by (simp add: upt_conv_Cons map_Suc_upt del: upt_Suc)
  ultimately show ?thesis using k by (simp add: item_dests_def algebra_simps comp_def del: upt_Suc)
qed

lemma next_read_ok:
  assumes r: "reader_ok m v0 root atoms env cap rs L Q ((w, a) # P) n" and st: "intern_stack rs = item # items"
  shows "it_op item = OReadItems" "it_dest item = a"
    "reader_ok m v0 root atoms env cap (next_read rs item items) L Q P n" "intern_src (next_read rs item items) = intern_src rs"
proof -
  let ?item = "item\<lparr>it_dest := it_dest item + 8, it_arg := it_arg item - 1\<rparr>"
  have i: "it_op item = OReadItems" "it_arg item \<noteq> 0" and items: "\<forall>item\<in>set items. it_op item = OReadItems \<and> it_arg item \<noteq> 0"
    and d: "item_dests item @ pending_dests items = a # map snd P"
    using r st by (simp_all add: reader_ok_def pending_dests_def)
  have d': "it_dest item = a" "item_dests ?item @ pending_dests items = map snd P"
    using d unfolding item_dests_next[OF i(2)] append_Cons list.inject by blast+
  show "it_op item = OReadItems" "it_dest item = a" "intern_src (next_read rs item items) = intern_src rs"
    using i(1) d'(1) by (simp_all add: next_read_def)
  have "pending_dests (if it_arg ?item = 0 then items else ?item # items) = map snd P"
    using d'(2) by (auto simp: pending_dests_def item_dests_def)
  then show "reader_ok m v0 root atoms env cap (next_read rs item items) L Q P n"
    using r i items by (auto simp: reader_ok_def next_read_def Let_def room_def split: option.split)
qed

lemma store_value_ok:
  assumes r: "reader_ok m v0 root atoms env cap rs L ((w, a) # P) P n" and y: "value_image m atoms L w y"
  shows "reader_ok m v0 root atoms env cap (put_word rs a y) L P P n"
proof -
  have "heap_image m v0 root atoms L P (heap_of (put_word rs a y))"
    using heap_image_store[OF _ y, of v0 root a P "heap_of rs"] r by (simp add: reader_ok_def)
  then show ?thesis using r room_cong[of "put_word rs a y" rs env] by (simp add: reader_ok_def)
qed

lemma intern_item_step_ok:
  assumes l: "linked m v0 root atoms env cap rs objs (w # W) n" and enc: "encodes m objs w data"
    and g: "data_graph m G" and w: "value_in m G w" and src: "intern_src rs = data @ rest"
    and n: "words m (fst (expand m objs w)) - words m objs \<le> n" "length (fst (expand m objs w)) \<le> cap"
  shows "\<exists>item items r. intern_stack rs = item # items \<and> intern_item_step env rs item items = Some r \<and>
    (case r of
       Inl e \<Rightarrow> e = Out_of_memory
     | Inr rs' \<Rightarrow> intern_src rs' = rest \<and>
         linked m v0 root atoms env cap rs' (fst (expand m objs w)) (snd (expand m objs w) @ W)
           (n - (words m (fst (expand m objs w)) - words m objs)))"
proof -
  obtain L P0 where LP: "reader_ok m v0 root atoms env cap rs L P0 P0 n" "map fst L = objs" "map fst P0 = w # W"
    using l by (auto simp: linked_def)
  obtain a P where P: "P0 = (w, a) # P" "map fst P = W" using LP(3) by (cases P0) auto
  note r = LP(1)[unfolded P(1)]
  have "pending_dests (intern_stack rs) = a # map snd P" using r by (simp add: reader_ok_def)
  then obtain item items where st: "intern_stack rs = item # items"
    by (cases "intern_stack rs") (auto simp: pending_dests_def)
  note nr = next_read_ok[OF r st]
  obtain code bs where data: "data = code # bs"
    and rd: "\<And>rs dest rest. intern_src rs = bs @ rest \<Longrightarrow> reader_ok m v0 root atoms env cap rs L ((w, a) # P) P n \<Longrightarrow>
       \<exists>r. read_value_code env rs dest code = Some r \<and> value_outcome m v0 root atoms env cap L ((w, a) # P) P n w rest r"
    using read_value_ok[of m L w data G n cap v0 root atoms env "(w, a) # P" P] enc g w n LP(2) by auto
  let ?rs = "(next_read rs item items)\<lparr>intern_src := bs @ rest\<rparr>"
  obtain q where q: "read_value_code env ?rs a code = Some q"
    "value_outcome m v0 root atoms env cap L ((w, a) # P) P n w rest q"
    using rd[of ?rs rest a] nr(3) by auto
  have step: "intern_item_step env rs item items =
      bind_partial (Some q) (\<lambda>(v, s). Some (Inr (case v of None \<Rightarrow> s | Some v \<Rightarrow> put_word s a v)))"
    using nr src data q(1) by (simp add: intern_item_step_def reading_def)
  show ?thesis
  proof (cases q)
    case (Inl e)
    then show ?thesis using st step q(2) by (simp add: value_outcome_def)
  next
    case (Inr p)
    obtain y rs1 where p: "p = (y, rs1)" by (cases p)
    obtain y' L' new where o: "y = Some y'" "intern_src rs1 = rest" "map fst L' = fst (expand m objs w)"
      "map fst new = snd (expand m objs w)" "value_image m atoms L' w y'"
      "reader_ok m v0 root atoms env cap rs1 L' (new @ (w, a) # P) (new @ P) (n - (words m (map fst L') - words m objs))"
      using q(2) Inr p LP(2) by (auto simp: value_outcome_def)
    let ?n = "n - (words m (map fst L') - words m objs)"
    have "heap_image m v0 root atoms L' ((w, a) # new @ P) (heap_of rs1)"
      by (rule heap_image_perm[where P = "new @ (w, a) # P"]) (use o(6) in \<open>auto simp: reader_ok_def heap_image_def\<close>)
    then have "reader_ok m v0 root atoms env cap rs1 L' ((w, a) # new @ P) (new @ P) ?n" using o(6) by (simp add: reader_ok_def)
    from store_value_ok[OF this o(5)] have "reader_ok m v0 root atoms env cap (put_word rs1 a y') L' (new @ P) (new @ P) ?n" .
    then have "linked m v0 root atoms env cap (put_word rs1 a y') (fst (expand m objs w)) (snd (expand m objs w) @ W)
        (n - (words m (fst (expand m objs w)) - words m objs))"
      using o(3,4) P(2) unfolding linked_def by (intro exI[of _ L'] exI[of _ "new @ P"]) simp
    then show ?thesis using st step Inr p o(1,2) by simp
  qed
qed

lemma linked_done:
  assumes "linked m v0 root atoms env cap rs objs [] n"
  shows "intern_loop env rs = Some (Inr (intern_free_stack rs))"
    and "linked m v0 root atoms env cap (intern_free_stack rs) objs [] n"
proof -
  obtain L where L: "reader_ok m v0 root atoms env cap rs L [] [] n" "map fst L = objs"
    using assms by (auto simp: linked_def)
  have "intern_stack rs = []"
  proof (cases "intern_stack rs")
    case (Cons item items)
    then have "it_arg item \<noteq> 0" "item_dests item = []" using L(1) by (simp_all add: reader_ok_def pending_dests_def)
    then show ?thesis using item_dests_next[of item] by simp
  qed simp
  then show "intern_loop env rs = Some (Inr (intern_free_stack rs))" by (simp add: intern_loop.simps)
  have "reader_ok m v0 root atoms env cap (intern_free_stack rs) L [] [] n"
    using L(1) room_cong[of "intern_free_stack rs" rs env] by (simp add: reader_ok_def intern_free_stack_def pending_dests_def)
  then show "linked m v0 root atoms env cap (intern_free_stack rs) objs [] n" using L(2) by (auto simp: linked_def)
qed

section \<open>The loops\<close>

text \<open>What is left of the graph.\<close>

definition unwritten :: "mem \<Rightarrow> mlvalue set \<Rightarrow> mlvalue list \<Rightarrow> nat" where
  "unwritten m G objs = (\<Sum>x\<in>G - set objs. 1 + wosize_nat m x)"

lemma expand_measure:
  assumes "finite G" "value_in m G w"
  shows "unwritten m G (fst (expand m objs w)) + length (snd (expand m objs w) @ W) < unwritten m G objs + length (w # W)"
proof (cases "Is_long w \<or> Allocated_wosize_val m w = 0 \<or> w \<in> set objs")
  case True
  then show ?thesis by (simp add: expand_def)
next
  case False
  then have w: "w \<in> G - set objs" using assms(2) by (auto simp: value_in_def is_atom_def)
  have "unwritten m G objs = (1 + wosize_nat m w) + (\<Sum>x\<in>G - set objs - {w}. 1 + wosize_nat m x)"
    unfolding unwritten_def using assms(1) w by (intro sum.remove) auto
  also have "G - set objs - {w} = G - set (objs @ [w])" by auto
  finally have "unwritten m G objs = (1 + wosize_nat m w) + unwritten m G (objs @ [w])" by (simp add: unwritten_def)
  then show ?thesis using False by (simp add: expand_def kids_def)
qed

lemma kids_in:
  assumes "data_graph m G" "value_in m G w" "x \<in> set (snd (expand m objs w))"
  shows "value_in m G x"
proof -
  have x: "x \<in> set (kids m w)" "\<not> Is_long w" "Allocated_wosize_val m w \<noteq> 0"
    using assms(3) by (auto simp: expand_def split: if_splits)
  then have "w \<in> G" using assms(2) by (auto simp: value_in_def is_atom_def)
  then have "data_block m G w" using assms(1) by (simp add: data_graph_def)
  then show ?thesis using x(1) by (auto simp: kids_def data_block_def scannable_def split: if_splits)
qed

lemma kids_length: "length (snd (expand m objs w)) \<le> words m (fst (expand m objs w)) - words m objs"
  by (simp add: expand_def kids_def)

text \<open>The next step of the writer.\<close>

lemma extern_loop_next:
  assumes "extern_one env m s v = Some (Inr (current, s'))" "\<forall>item\<in>set (extern_stack s'). snd item \<noteq> 0"
  shows "case todo m current (extern_stack s') of
      [] \<Rightarrow> extern_loop env m s v = Some (Inr (extern_free_stack s'))
    | w # W \<Rightarrow> \<exists>items. extern_loop env m s v = extern_loop env m (s'\<lparr>extern_stack := items\<rparr>) w \<and>
        todo m None items = W \<and> (\<forall>item\<in>set items. snd item \<noteq> 0)"
proof (cases current)
  case (Some v')
  have "s'\<lparr>extern_stack := extern_stack s'\<rparr> = s'" by simp
  then show ?thesis
    using assms Some by (auto simp: todo_def extern_loop.simps[of env m s v] intro!: exI[of _ "extern_stack s'"])
next
  case None
  show ?thesis
  proof (cases "extern_stack s'")
    case Nil
    then show ?thesis using assms None by (simp add: todo_def extern_loop.simps[of env m s v])
  next
    case (Cons item items)
    obtain a n where item: "item = (a, n)" by (cases item)
    have n: "n \<noteq> 0" using assms(2) Cons item by simp
    let ?items = "if n - 1 = 0 then items else (a + 8, n - 1) # items"
    have fl: "fields_left m (a, n) = mem_load64 m a # (if n - 1 = 0 then [] else fields_left m (a + 8, n - 1))"
    proof -
      have "0 < n" using n by (simp only: word_neq_0_conv)
      moreover have "0 < n - 1 \<longleftrightarrow> n - 1 \<noteq> 0" by (simp only: word_neq_0_conv)
      ultimately show ?thesis using fields_left_append[of 0 n m a] by (auto simp del: fields_left.simps split: if_splits)
    qed
    have "extern_loop env m s v = extern_loop env m (s'\<lparr>extern_stack := ?items\<rparr>) (mem_load64 m a)"
      using assms(1) None Cons item by (simp add: extern_loop.simps[of env m s v])
    moreover have "todo m current (extern_stack s') = mem_load64 m a # todo m None ?items"
      using fl None Cons item by (simp add: todo_def)
    moreover have "\<forall>item\<in>set ?items. snd item \<noteq> 0" using assms(2) Cons by auto
    ultimately show ?thesis by (simp only: list.case) blast
  qed
qed

lemma marshalling_stack:
  "marshalling m G s objs \<Longrightarrow> \<forall>item\<in>set items. snd item \<noteq> 0 \<Longrightarrow> marshalling m G (s\<lparr>extern_stack := items\<rparr>) objs"
  "marshalling m G s objs \<Longrightarrow> marshalling m G (extern_free_stack s) objs"
  by (simp_all add: marshalling_def flag_set_def obj_counter_def extern_free_stack_def)

text \<open>The reader, waiting for some values, gets from some bytes to a complete copy, or runs out of memory.\<close>

definition read_back ::
  "mem \<Rightarrow> mlvalue \<Rightarrow> 64 word \<Rightarrow> 64 word \<Rightarrow> mlvalue list \<Rightarrow> mlvalue list \<Rightarrow> bytes \<Rightarrow> mlvalue list \<Rightarrow> bool" where
  "read_back m v0 root atoms objs W data final \<longleftrightarrow>
     (\<forall>env cap rs n rest.
        linked m v0 root atoms env cap rs objs W n \<longrightarrow> intern_src rs = data @ rest \<longrightarrow>
        words m final - words m objs \<le> n \<longrightarrow> length final \<le> cap \<longrightarrow>
        (\<exists>r. intern_loop env rs = Some r \<and>
           (case r of
              Inl e \<Rightarrow> e = Out_of_memory
            | Inr rf \<Rightarrow> linked m v0 root atoms env cap rf final [] (n - (words m final - words m objs)))))"

lemma read_back_done: "read_back m v0 root atoms objs [] [] objs"
  using linked_done unfolding read_back_def by fastforce

lemma expand_mono:
  "words m objs \<le> words m (fst (expand m objs w))" "length objs \<le> length (fst (expand m objs w))"
  by (simp_all add: expand_def)

lemma read_back_step:
  assumes enc: "encodes m objs w data1" and g: "data_graph m G" and w: "value_in m G w"
    and rest: "read_back m v0 root atoms (fst (expand m objs w)) (snd (expand m objs w) @ W) data2 final"
    and mono: "words m (fst (expand m objs w)) \<le> words m final" "length (fst (expand m objs w)) \<le> length final"
  shows "read_back m v0 root atoms objs (w # W) (data1 @ data2) final"
  unfolding read_back_def
proof (intro allI impI)
  fix env cap rs n tail
  assume l: "linked m v0 root atoms env cap rs objs (w # W) n" and src: "intern_src rs = (data1 @ data2) @ tail"
    and n: "words m final - words m objs \<le> n" and cap: "length final \<le> cap"
  let ?objs = "fst (expand m objs w)"
  let ?n = "n - (words m ?objs - words m objs)"
  have src': "intern_src rs = data1 @ (data2 @ tail)" using src by simp
  have fits: "words m ?objs - words m objs \<le> n" "length ?objs \<le> cap" using n cap mono by linarith+
  obtain item items q where q: "intern_stack rs = item # items" "intern_item_step env rs item items = Some q"
    "case q of
       Inl e \<Rightarrow> e = Out_of_memory
     | Inr rs' \<Rightarrow> intern_src rs' = data2 @ tail \<and> linked m v0 root atoms env cap rs' ?objs (snd (expand m objs w) @ W) ?n"
    using intern_item_step_ok[OF l enc g w src' fits] by blast
  show "\<exists>r. intern_loop env rs = Some r \<and>
      (case r of
         Inl e \<Rightarrow> e = Out_of_memory
       | Inr rf \<Rightarrow> linked m v0 root atoms env cap rf final [] (n - (words m final - words m objs)))"
  proof (cases q)
    case (Inl e)
    then show ?thesis using q by (simp add: intern_loop.simps[of env rs])
  next
    case (Inr rs')
    have sum: "?n - (words m final - words m ?objs) = n - (words m final - words m objs)"
      "words m final - words m ?objs \<le> ?n"
      using n mono(1) expand_mono(1)[of m objs w] by arith+
    have loop: "intern_loop env rs = intern_loop env rs'" using q(1,2) Inr by (simp add: intern_loop.simps[of env rs])
    have rs': "linked m v0 root atoms env cap rs' ?objs (snd (expand m objs w) @ W) ?n" "intern_src rs' = data2 @ tail"
      using q(3) Inr by simp_all
    show ?thesis
      using rest[unfolded read_back_def, rule_format, OF rs' sum(2) cap] unfolding sum(1) loop .
  qed
qed

lemma may_fail_flags: "extern_flags s' = extern_flags s \<Longrightarrow> may_fail s' e = may_fail s e"
  by (simp add: may_fail_def flag_set_def)

text \<open>The outcome of the traversal from a state in which some values are to be written.\<close>

definition traversal_ok ::
  "mem \<Rightarrow> mlvalue set \<Rightarrow> mlvalue \<Rightarrow> 64 word \<Rightarrow> 64 word \<Rightarrow> extern_st \<Rightarrow> mlvalue list \<Rightarrow> mlvalue list \<Rightarrow> extern_st result \<Rightarrow> bool" where
  "traversal_ok m G v0 root atoms s objs W r \<longleftrightarrow>
     (case r of
        Inl e \<Rightarrow> may_fail s e
      | Inr sf \<Rightarrow>
          (\<exists>data final. marshalling m G sf final \<and> extern_out sf = extern_out s @ data \<and> extern_flags sf = extern_flags s \<and>
             words m objs \<le> words m final \<and> length objs \<le> length final \<and>
             length data + 18 * words m objs \<le> 9 * length W + 18 * words m final \<and>
             read_back m v0 root atoms objs W data final))"

lemma traversal_step:
  assumes enc: "encodes m objs w data" and g: "data_graph m G" and w: "value_in m G w"
    and out: "extern_out s1 = extern_out s @ data" "extern_flags s1 = extern_flags s"
    and len: "length data + 9 * words m objs \<le> 9 + 9 * words m (fst (expand m objs w))"
    and rest: "traversal_ok m G v0 root atoms s1 (fst (expand m objs w)) (snd (expand m objs w) @ W) r"
  shows "traversal_ok m G v0 root atoms s objs (w # W) r"
proof (cases r)
  case (Inl e)
  then show ?thesis using rest may_fail_flags[OF out(2)] by (simp add: traversal_ok_def)
next
  case (Inr sf)
  let ?objs = "fst (expand m objs w)"
  obtain data2 final where f: "marshalling m G sf final" "extern_out sf = extern_out s1 @ data2" "extern_flags sf = extern_flags s1"
    "words m ?objs \<le> words m final" "length ?objs \<le> length final"
    "length data2 + 18 * words m ?objs \<le> 9 * length (snd (expand m objs w) @ W) + 18 * words m final"
    "read_back m v0 root atoms ?objs (snd (expand m objs w) @ W) data2 final"
    using rest Inr by (auto simp: traversal_ok_def)
  have "length (data @ data2) + 18 * words m objs \<le> 9 * length (w # W) + 18 * words m final"
    using f(6) len kids_length[of m objs w] expand_mono(1)[of m objs w] by simp
  moreover have "words m objs \<le> words m final" "length objs \<le> length final"
    using f(4,5) expand_mono(1)[of m objs w] expand_mono(2)[where m = m and objs = objs and w = w] by linarith+
  moreover have "read_back m v0 root atoms objs (w # W) (data @ data2) final"
    by (rule read_back_step[OF enc g w f(7,4,5)])
  ultimately show ?thesis using f(1-3) out Inr unfolding traversal_ok_def by auto
qed

lemma traversal_correct:
  assumes g: "data_graph m G" and s: "marshalling m G s objs" and W: "\<forall>x\<in>set (v # todo m None (extern_stack s)). value_in m G x"
  shows "\<exists>r. extern_loop env m s v = Some r \<and> traversal_ok m G v0 root atoms s objs (v # todo m None (extern_stack s)) r"
  using s W
proof (induction "unwritten m G objs + length (v # todo m None (extern_stack s))" arbitrary: s objs v rule: less_induct)
  case less
  let ?W = "todo m None (extern_stack s)"
  let ?objs = "fst (expand m objs v)" and ?ks = "snd (expand m objs v)"
  have v: "value_in m G v" using less.prems(2) by simp
  obtain q where q: "extern_one env m s v = Some q" "step_ok m G objs v s q"
    using extern_one_step[OF less.prems(1) g v, of env] by blast
  show ?case
  proof (cases q)
    case (Inl e)
    then show ?thesis using q by (simp add: extern_loop.simps[of env m s v] step_ok_def traversal_ok_def)
  next
    case (Inr p)
    obtain current s1 where p: "p = (current, s1)" by (cases p)
    obtain data where d: "encodes m objs v data" "extern_out s1 = extern_out s @ data"
      "length data + 9 * words m objs \<le> 9 + 9 * words m ?objs" "extern_flags s1 = extern_flags s" "marshalling m G s1 ?objs"
      "todo m current (extern_stack s1) = ?ks @ ?W"
      using q(2) Inr p by (auto simp: step_ok_def)
    have ne: "\<forall>item\<in>set (extern_stack s1). snd item \<noteq> 0" using d(5) by (simp add: marshalling_def)
    note nx = extern_loop_next[OF q(1)[unfolded Inr p] ne, unfolded d(6)]
    note compose = traversal_step[OF d(1) g v d(2,4,3)]
    show ?thesis
    proof (cases "?ks @ ?W")
      case Nil
      have "traversal_ok m G v0 root atoms s1 ?objs (?ks @ ?W) (Inr (extern_free_stack s1))"
        unfolding Nil using marshalling_stack(2)[OF d(5)] read_back_done
        by (auto simp: traversal_ok_def extern_free_stack_def extern_out_def)
      from compose[OF this] show ?thesis using nx Nil by simp
    next
      case (Cons w' W')
      obtain items where items: "extern_loop env m s v = extern_loop env m (s1\<lparr>extern_stack := items\<rparr>) w'"
        "todo m None items = W'" "\<forall>item\<in>set items. snd item \<noteq> 0"
        using nx Cons by auto
      let ?s2 = "s1\<lparr>extern_stack := items\<rparr>"
      have all: "\<forall>x\<in>set (w' # todo m None (extern_stack ?s2)). value_in m G x"
      proof
        fix x assume "x \<in> set (w' # todo m None (extern_stack ?s2))"
        then have "x \<in> set (?ks @ ?W)" unfolding Cons using items(2) by simp
        then show "value_in m G x" using kids_in[OF g v, of x objs] less.prems(2) by auto
      qed
      have "unwritten m G ?objs + length (w' # todo m None (extern_stack ?s2)) < unwritten m G objs + length (v # ?W)"
        using expand_measure[of G m v objs ?W] g v Cons items(2) by (simp add: data_graph_def)
      from less.hyps[OF this marshalling_stack(1)[OF d(5) items(3)] all]
      obtain r where r: "extern_loop env m ?s2 w' = Some r" "traversal_ok m G v0 root atoms ?s2 ?objs (?ks @ ?W) r"
        using Cons items(2) by auto
      have "traversal_ok m G v0 root atoms s1 ?objs (?ks @ ?W) r"
        using r(2) by (cases r) (simp_all add: traversal_ok_def extern_out_def may_fail_def flag_set_def)
      from compose[OF this] show ?thesis using r(1) items(1) by simp
    qed
  qed
qed

end
