(* ===== verification/Marshal_Roundtrip.thy ===== *)
theory Marshal_Roundtrip
  imports Marshal_Correct
begin

text \<open>
  The round trip: what \<open>caml_output_value_to_malloc\<close> returns for a graph of data,
  \<open>caml_input_value_from_block\<close> turns into an isomorphic graph.
\<close>

unbundle bit_operations_syntax

section \<open>Isomorphic graphs\<close>

text \<open>Corresponding values, for a relation between blocks; atoms correspond to the atoms of the reader.\<close>

definition value_match :: "(mlvalue \<times> mlvalue) set \<Rightarrow> mem \<Rightarrow> 64 word \<Rightarrow> mlvalue \<Rightarrow> mlvalue \<Rightarrow> bool" where
  "value_match R m atoms x y \<longleftrightarrow>
     (if Is_long x then y = x
      else if Allocated_wosize_val m x = 0 then y = atoms + 8 * ucast (Tag_val m x) + 8
      else (x, y) \<in> R)"

definition block_match :: "(mlvalue \<times> mlvalue) set \<Rightarrow> mem \<Rightarrow> 64 word \<Rightarrow> mem \<Rightarrow> mlvalue \<Rightarrow> mlvalue \<Rightarrow> bool" where
  "block_match R m atoms h x y \<longleftrightarrow>
     Is_block y \<and> Tag_val h y = Tag_val m x \<and> Allocated_wosize_val h y = Allocated_wosize_val m x \<and> Reserved_val h y = 0 \<and>
     (\<forall>j<wosize_nat m x.
        if scannable (Tag_val m x) then value_match R m atoms (Field m x j) (Field h y j)
        else Field h y j = Field m x j)"

text \<open>The relation is one to one: sharing and cycles are the same.\<close>

definition isomorphic :: "mem \<Rightarrow> mlvalue \<Rightarrow> 64 word \<Rightarrow> mem \<Rightarrow> mlvalue \<Rightarrow> bool" where
  "isomorphic m v atoms h y \<longleftrightarrow>
     (\<exists>R. single_valued R \<and> single_valued (R\<inverse>) \<and> value_match R m atoms v y \<and>
        (\<forall>(x, x')\<in>R. block_match R m atoms h x x'))"

lemma heap_image_isomorphic:
  assumes h: "heap_image m v root atoms L [] h" and d: "distinct (map fst L)"
  shows "isomorphic m v atoms h (mem_load64 h root)"
proof -
  have sep: "separate m root L" using h by (simp add: heap_image_def)
  have vm: "value_match (set L) m atoms x y \<longleftrightarrow> value_image m atoms L x y" for x y
    by (simp add: value_match_def value_image_def)
  have "single_valued (set L)"
    using d by (auto intro!: single_valuedI simp: eq_key_imp_eq_value)
  moreover have "single_valued ((set L)\<inverse>)"
  proof (rule single_valuedI, unfold converse_iff)
    fix y x x' assume xy: "(x, y) \<in> set L" "(x', y) \<in> set L"
    then have "(x, y) = (x', y)"
      by (intro separate_disjoint[OF sep xy, of "y - 8"]) simp_all
    then show "x = x'" by simp
  qed
  moreover have "value_match (set L) m atoms v (mem_load64 h root)"
    using h by (simp add: vm heap_image_def all_slots_def)
  moreover have "block_match (set L) m atoms h x y" if xy: "(x, y) \<in> set L" for x y
  proof -
    have sh: "copied_shape m h (x, y)" using h xy by (simp add: heap_image_def)
    have "word_addr y" using sep xy by (auto simp: separate_def)
    then have "Is_block y" by (rule word_addr_block)
    moreover have "value_match (set L) m atoms (Field m x j) (Field h y j)"
      if "scannable (Tag_val m x)" "j < wosize_nat m x" for j
    proof -
      have "(Field m x j, y + 8 * of_nat j) \<in> all_slots m v root L"
        using that xy by (force simp: all_slots_def in_slots)
      then show ?thesis using h by (auto simp: vm heap_image_def Field_def)
    qed
    ultimately show ?thesis
      using sh by (auto simp: block_match_def copied_shape_def Let_def Tag_val_Hd_val Allocated_wosize_val_def
          Reserved_val_def Hd_val_def Field_def)
  qed
  ultimately show ?thesis unfolding isomorphic_def by blast
qed

section \<open>The writer\<close>

lemma extern_rec_data:
  assumes g: "data_graph m G" and v: "value_in m G v" and up: "\<not> extern_userprovided_output s"
    and fl: "\<not> flag_set s NO_SHARING" "\<not> flag_set s COMPRESSED"
    and s: "snd (positions s) = 0" "size_64 s = 0" "extern_out s = []"
  shows "\<exists>r. extern_rec env m s v = Some r \<and>
    (case r of
       Inl e \<Rightarrow> may_fail s e
     | Inr sf \<Rightarrow> \<forall>root atoms. \<exists>final.
         marshalling m G sf final \<and> extern_flags sf = extern_flags s \<and> length (extern_out sf) \<le> 9 + 18 * words m final \<and>
         read_back m v root atoms [] [v] (extern_out sf) final)"
proof -
  let ?s = "s\<lparr>extern_stack := [], positions := (extern_init_position_table, snd (positions s))\<rparr>"
  have eq: "extern_rec env m s v = extern_loop env m ?s v" using fl by (simp add: extern_rec_def)
  have "recorded (extern_init_position_table, 0) (index_of [])" using recorded_init by (simp add: index_of_def)
  then have ms: "marshalling m G ?s []"
    using up fl s by (simp add: marshalling_def obj_counter_def flag_set_def words_def)
  have td: "todo m None (extern_stack ?s) = []" by (simp add: todo_def)
  have ok: "\<exists>r. extern_loop env m ?s v = Some r \<and> traversal_ok m G v root atoms ?s [] [v] r" for root atoms
    using traversal_correct[OF g ms, of v env v root atoms] v unfolding td by simp
  obtain r where r: "extern_loop env m ?s v = Some r" using ok by blast
  have t: "traversal_ok m G v root atoms ?s [] [v] r" for root atoms using ok[of root atoms] r by simp
  show ?thesis
  proof (cases r)
    case (Inl e)
    then show ?thesis using t[of 0 0] eq r by (simp add: traversal_ok_def may_fail_def flag_set_def)
  next
    case (Inr sf)
    have out: "extern_out ?s = []" using s(3) by (simp add: extern_out_def)
    have "\<exists>final. marshalling m G sf final \<and> extern_flags sf = extern_flags s \<and> length (extern_out sf) \<le> 9 + 18 * words m final \<and>
        read_back m v root atoms [] [v] (extern_out sf) final" for root atoms
      using t[of root atoms] Inr out by (auto simp: traversal_ok_def words_def)
    then show ?thesis using Inr eq r by auto
  qed
qed

section \<open>The header\<close>

lemma parse_header_small:
  "caml_parse_header f (rs\<lparr>intern_src := store32 (ucast Intext_magic_number_small) @ store32 len @ store32 n @ store32 w32 @ store32 w64 @ data\<rparr>) =
     Some (Inr (\<lparr>mh_magic = Intext_magic_number_small, header_len = 20, data_len = ucast (ucast len :: 32 word),
        uncompressed_data_len = ucast (ucast len :: 32 word), num_objects = ucast (ucast n :: 32 word),
        mh_whsize = ucast (ucast w64 :: 32 word), mh_compressed = False\<rparr>, rs\<lparr>intern_src := data\<rparr>))"
  by (simp add: caml_parse_header_def parse_small_def reading_Some Intext_magic_number_small_def)

lemma parse_header_big:
  "caml_parse_header f (rs\<lparr>intern_src := store32 (ucast Intext_magic_number_big) @ store32 z @ store64 len @ store64 n @ store64 w64 @ data\<rparr>) =
     Some (Inr (\<lparr>mh_magic = Intext_magic_number_big, header_len = 32, data_len = len,
        uncompressed_data_len = len, num_objects = n, mh_whsize = w64, mh_compressed = False\<rparr>, rs\<lparr>intern_src := data\<rparr>))"
  by (simp add: caml_parse_header_def parse_big_def reading_Some Intext_magic_number_big_def Intext_magic_number_small_def)

text \<open>The header carries the counts of the writer, in both formats.\<close>

lemma header_roundtrip:
  assumes hd: "extern_header_bytes s len = Inr header" and len: "unat len < 2 ^ 62" and cnt: "obj_counter s \<le> size_64 s"
  shows "\<exists>h. (\<forall>f rs data. caml_parse_header f (rs\<lparr>intern_src := header @ data\<rparr>) = Some (Inr (h, rs\<lparr>intern_src := data\<rparr>))) \<and>
    header_len h = of_nat (length header) \<and> length header \<le> 32 \<and> data_len h = len \<and> num_objects h = obj_counter s \<and>
    mh_whsize h = size_64 s \<and> \<not> mh_compressed h"
proof (cases "sint len \<ge> 2 ^ 32 \<or> size_32 s \<ge> push_bit 32 1 \<or> size_64 s \<ge> push_bit 32 1")
  case True
  then have h: "header = store32 (ucast Intext_magic_number_big) @ store32 0 @ store64 len @ store64 (obj_counter s) @ store64 (size_64 s)"
    using hd by (auto simp: extern_header_bytes_def split: if_splits)
  show ?thesis unfolding h append_assoc parse_header_big
    by (intro exI[of _ "\<lparr>mh_magic = Intext_magic_number_big, header_len = 32, data_len = len, uncompressed_data_len = len,
          num_objects = obj_counter s, mh_whsize = size_64 s, mh_compressed = False\<rparr>"])
      (simp add: store32_def store64_def)
next
  case False
  then have h: "header = store32 (ucast Intext_magic_number_small) @ store32 len @ store32 (obj_counter s) @
      store32 (size_32 s) @ store32 (size_64 s)"
    using hd by (simp add: extern_header_bytes_def)
  have fits: "ucast (ucast x :: 32 word) = x" if "unat x < 2 ^ 32" for x :: "64 word"
    using that by (intro ucast_ucast_fits) simp_all
  have s64: "unat (size_64 s) < 2 ^ 32" using False by (simp add: word_less_nat_alt not_le)
  have obj: "unat (obj_counter s) < 2 ^ 32" using cnt s64 by (simp add: word_le_nat_alt)
  have "sint len = int (unat len)" using len sint_diff_nat[of 0 "unat len"] by simp
  moreover have "\<not> 2 ^ 32 \<le> sint len" using False by blast
  ultimately have "int (unat len) < int (2 ^ 32)" by simp
  then have "unat len < 2 ^ 32" unfolding of_nat_less_iff .
  then show ?thesis unfolding h append_assoc parse_header_small
    by (intro exI[of _ "\<lparr>mh_magic = Intext_magic_number_small, header_len = 20, data_len = len, uncompressed_data_len = len,
          num_objects = obj_counter s, mh_whsize = size_64 s, mh_compressed = False\<rparr>"])
      (use s64 obj in \<open>simp add: store32_def fits\<close>)
qed

section \<open>The reader\<close>

text \<open>A reader that can start: nothing left of an earlier read, aligned free space in the minor heap for
  the largest chunk, a local variable for the result outside it, and a major heap that gives out free
  blocks.\<close>

definition reader_ready :: "intern_env \<Rightarrow> intern_st \<Rightarrow> 64 word \<Rightarrow> bool" where
  "reader_ready env rs obj \<longleftrightarrow>
     intern_dest rs = None \<and> intern_obj_table rs = None \<and> word_addr obj \<and>
     wf_dom (dstate (machine rs)) \<and> word_addr (young_ptr (dstate (machine rs))) \<and>
     unat (young_limit (dstate (machine rs))) + 8 * 257 \<le> unat (young_ptr (dstate (machine rs))) \<and>
     \<not> (young_limit (dstate (machine rs)) \<le> obj \<and> obj < young_ptr (dstate (machine rs))) \<and>
     caml_allocation_status env AND NOT HEADER_COLOR_MASK = 0 \<and> supply_ok env (shared_allocs rs) {obj}"

lemma chunk_room:
  assumes r: "reader_ready env rs obj" and n: "2 \<le> n" "n \<le> 257"
  shows "\<exists>v d. Alloc_small (dstate (machine rs)) (of_nat n - 1) String_tag = Some (v, d) \<and> atom_table d = atom_table (dstate (machine rs)) \<and>
    room env (rs\<lparr>machine := (machine rs)\<lparr>dstate := d\<rparr>, intern_dest := Some (v - 8)\<rparr>) {obj} n"
proof -
  let ?st = "dstate (machine rs)"
  have wf: "wf_dom ?st" and young: "unat (young_limit ?st) + 8 * 257 \<le> unat (young_ptr ?st)"
    using r unfolding reader_ready_def by blast+
  have u: "unat (of_nat n - 1 :: 64 word) = n - 1" using n by (subst unat_sub) (simp_all add: word_le_nat_alt unat_of_nat)
  have sz: "Bsize_wsize (Whsize_wosize (of_nat n - 1)) = 8 * of_nat n" by (simp add: Bsize_wsize_def Whsize_wosize_def)
  have u8: "unat (8 * of_nat n :: 64 word) = 8 * n" using n by (intro unat_mult8) simp
  have up: "unat (young_ptr ?st - 8 * of_nat n) = unat (young_ptr ?st) - 8 * n"
    using young n u8 by (subst unat_sub) (simp_all add: word_le_nat_alt)
  have lim: "\<not> young_ptr ?st - 8 * of_nat n < young_limit ?st"
    unfolding word_less_nat_alt up using young n by linarith
  obtain v d where vd: "Alloc_small ?st (of_nat n - 1) String_tag = Some (v, d)"
    using lim by (auto simp: Alloc_small_def Alloc_small_with_reserved_def caml_check_gc_interrupt_def Let_def sz)
  have c: "carved ?st v (n - 1) d"
    using Alloc_small_carved(1)[OF wf, of "of_nat n - 1" String_tag 0 v d] vd n u by (simp add: Alloc_small_def)
  have p: "v - 8 = young_ptr d" "unat (young_ptr d) + 8 * n = unat (young_ptr ?st)" "young_limit d = young_limit ?st"
    "atom_table d = atom_table ?st" "wf_dom d"
    using c n by (simp_all add: carved_def)
  have pd: "young_ptr d = young_ptr ?st + 8 * (- of_nat n)"
  proof -
    have "unat (young_ptr d) = unat (young_ptr ?st - 8 * of_nat n)" using p(2) up by linarith
    then have "young_ptr d = young_ptr ?st - 8 * of_nat n" by (rule unsigned_word_eqI)
    then show ?thesis by simp
  qed
  have al: "word_addr (young_ptr d)" unfolding pd using r by (intro word_addr_offset) (simp add: reader_ready_def)
  have free: "young_ptr d + 8 * of_nat k \<noteq> obj" if k: "k < n" for k
  proof
    assume e: "young_ptr d + 8 * of_nat k = obj"
    have "unat (8 * of_nat k :: 64 word) = 8 * k" using k n by (intro unat_mult8) simp
    then have "unat obj = unat (young_ptr d) + 8 * k"
      using e k p(2) unsigned_less[of "young_ptr ?st", where ?'a = nat] by (auto simp: unat_word_ariths)
    then have "young_limit ?st \<le> obj" "obj < young_ptr ?st"
      using k p(2,3,5) by (simp_all add: word_le_nat_alt word_less_nat_alt wf_dom_def)
    then show False using r by (simp add: reader_ready_def)
  qed
  have "room env (rs\<lparr>machine := (machine rs)\<lparr>dstate := d\<rparr>, intern_dest := Some (v - 8)\<rparr>) {obj} n"
    using r n al free by (simp add: room_def p(1) reader_ready_def)
  then show ?thesis using vd p(4) by blast
qed

lemma reader_ready_src [simp]:
  "reader_ready env (rs\<lparr>intern_src := src\<rparr>) obj = reader_ready env rs obj"
  "reader_ready env (rs\<lparr>compressed := b\<rparr>) obj = reader_ready env rs obj"
  by (simp_all add: reader_ready_def)

text \<open>Reserving the memory for some words and the table of some objects.\<close>

lemma storage_ready:
  assumes r: "reader_ready env rs obj" and n: "n < 2 ^ 55" "k \<le> n" "k = 0 \<longleftrightarrow> n = 0" "n \<noteq> 1"
  shows "\<exists>r. intern_alloc_storage env rs (of_nat n) (of_nat k) = Some r \<and>
    (case r of
       Inl e \<Rightarrow> e = Out_of_memory
     | Inr rs' \<Rightarrow> intern_src rs' = intern_src rs \<and> compressed rs' = compressed rs \<and>
         atom_table (dstate (machine rs')) = atom_table (dstate (machine rs)) \<and> room env rs' {obj} n \<and>
         (k \<noteq> 0 \<longrightarrow> intern_obj_table rs' = Some (replicate k None) \<and> objs_seen rs' = 0))"
proof (cases "n = 0")
  case True
  then show ?thesis using r n by (auto simp: intern_alloc_storage_def room_def reader_ready_def)
next
  case False
  have k: "0 < k" using n False by simp
  let ?wo = "of_nat n - 1 :: 64 word"
  have un: "unat (of_nat n :: 64 word) = n" using n(1) by (simp add: unat_of_nat)
  have n0: "(of_nat n :: 64 word) \<noteq> 0" using False un by auto
  have wo: "unat ?wo = n - 1" using False n(1) un by (subst unat_sub) (simp_all add: word_le_nat_alt)
  have wo0: "?wo \<noteq> 0" using wo n(4) False by auto
  have small: "?wo \<le> Max_young_wosize \<longleftrightarrow> n \<le> 257" using wo by (auto simp: word_le_nat_alt Max_young_wosize_def)
  have sz: "unat (of_nat k * 8 :: 64 word) div 8 = k"
    using n unat_mult8[of k] by (simp add: mult.commute)
  have pos: "of_nat k > (0 :: 64 word)"
    using k n by (simp add: word_less_nat_alt unat_of_nat)
  have cond: "?wo \<le> Max_young_wosize \<and> ?wo \<noteq> 0 \<longleftrightarrow> n \<le> 257" using small wo0 by blast
  obtain rs1 where rs1: "(if ?wo \<le> Max_young_wosize \<and> ?wo \<noteq> 0
      then map_option (\<lambda>(v, d). rs\<lparr>machine := (machine rs)\<lparr>dstate := d\<rparr>, intern_dest := Some (v - 8)\<rparr>)
             (Alloc_small (dstate (machine rs)) ?wo String_tag) else Some rs) = Some rs1"
    "intern_src rs1 = intern_src rs" "compressed rs1 = compressed rs"
    "atom_table (dstate (machine rs1)) = atom_table (dstate (machine rs))" "room env rs1 {obj} n"
  proof (cases "n \<le> 257")
    case True
    have "2 \<le> n" using False n(4) by arith
    from chunk_room[OF r this True] show ?thesis using True cond by (auto intro!: that)
  next
    case False
    have "room env rs {obj} n" using r by (simp add: room_def reader_ready_def)
    then show ?thesis using False cond by (intro that[of rs]) auto
  qed
  have "intern_alloc_storage env rs (of_nat n) (of_nat k) = Some
      (if c_malloc_ok env (unat (of_nat k * 8 :: 64 word))
       then Inr (rs1\<lparr>objs_seen := 0, intern_obj_table := Some (replicate k None)\<rparr>) else Inl Out_of_memory)"
    using n0 rs1(1) pos sz by (simp add: intern_alloc_storage_def Let_def)
  moreover have "room env (rs1\<lparr>objs_seen := 0, intern_obj_table := Some (replicate k None)\<rparr>) {obj} n"
    using rs1(5) room_cong[of "rs1\<lparr>objs_seen := 0, intern_obj_table := Some (replicate k None)\<rparr>" rs1] by simp
  ultimately show ?thesis using rs1 by auto
qed

text \<open>Reading the data of a graph, after its header.\<close>

definition outcome_isomorphic :: "mem \<Rightarrow> mlvalue \<Rightarrow> 64 word \<Rightarrow> (mlvalue \<times> intern_st) result \<Rightarrow> bool" where
  "outcome_isomorphic m v atoms r \<longleftrightarrow>
     (case r of Inl e \<Rightarrow> e = Out_of_memory | Inr (y, rs) \<Rightarrow> isomorphic m v atoms (heap_of rs) y)"

lemma intern_rec_data:
  assumes room: "room env rs {obj} n" and obj: "word_addr obj" and c: "\<not> compressed rs"
    and tbl: "k \<noteq> 0 \<longrightarrow> intern_obj_table rs = Some (replicate k None) \<and> objs_seen rs = 0" "k < 2 ^ 60"
    and src: "intern_src rs = data"
    and rb: "read_back m v obj (atom_table (dstate (machine rs))) [] [v] data final" "words m final = n" "length final = k" "distinct final"
  shows "\<exists>r. bind_partial (intern_rec env rs obj) (\<lambda>s. Some (Inr (intern_end s obj))) = Some r \<and>
    outcome_isomorphic m v (atom_table (dstate (machine rs))) r"
proof -
  let ?atoms = "atom_table (dstate (machine rs))" and ?item = "\<lparr>it_dest = obj, it_arg = 1, it_op = OReadItems\<rparr>"
  let ?rs = "rs\<lparr>intern_stack := []\<rparr>"
  have items: "ReadItems env ?rs obj 1 = PushItem env ?rs ?item" by (simp add: ReadItems_def)
  show ?thesis
  proof (cases "PushItem env ?rs ?item")
    case (Inl e)
    then show ?thesis using PushItem_ok[where env = env and rs = ?rs and item = ?item] by (simp add: intern_rec_def items outcome_isomorphic_def)
  next
    case (Inr rs1)
    obtain l where rs1: "rs1 = rs\<lparr>intern_stack := [?item], intern_stack_limit := l\<rparr>"
      using PushItem_ok[where env = env and rs = ?rs and item = ?item] Inr by auto
    have "room env rs1 (used_cells m obj []) n" using room room_cong[of rs1 rs env] by (simp add: rs1 used_cells_def)
    then have "reader_ok m v obj ?atoms env k rs1 [] [(v, obj)] [(v, obj)] n"
      using heap_image_start[OF obj] c tbl by (simp add: reader_ok_def rs1 pending_dests_def item_dests_def)
    then have lk: "linked m v obj ?atoms env k rs1 [] [v] n" by (force simp: linked_def)
    obtain r where r: "intern_loop env rs1 = Some r"
      "case r of Inl e \<Rightarrow> e = Out_of_memory | Inr rf \<Rightarrow> linked m v obj ?atoms env k rf final [] (n - (words m final - words m []))"
      using rb(1)[unfolded read_back_def, rule_format, OF lk, of "[]"] src rb(2,3) by (auto simp: rs1)
    show ?thesis
    proof (cases r)
      case (Inl e)
      then show ?thesis using r Inr by (simp add: intern_rec_def items outcome_isomorphic_def)
    next
      case r_Inr: (Inr rf)
      obtain L where L: "reader_ok m v obj ?atoms env k rf L [] [] (n - (words m final - words m []))" "map fst L = final"
        using r(2) r_Inr by (auto simp: linked_def)
      have "heap_image m v obj ?atoms L [] (heap_of rf)" using L(1) by (simp add: reader_ok_def)
      then have "isomorphic m v ?atoms (heap_of rf) (mem_load64 (heap_of rf) obj)"
        by (rule heap_image_isomorphic) (simp add: L(2) rb(4))
      then show ?thesis using r(1) r_Inr Inr
        by (simp add: intern_rec_def items outcome_isomorphic_def intern_end_def intern_cleanup_def intern_free_stack_def)
    qed
  qed
qed

lemma words_two:
  assumes g: "data_graph m G" and sub: "set objs \<subseteq> G"
  shows "2 * length objs \<le> words m objs"
  using sub
proof (induction objs)
  case (Cons x objs)
  have "Allocated_wosize_val m x \<noteq> 0" using data_graphD[OF g, of x] Cons.prems by (simp add: data_block_def)
  then have "0 < wosize_nat m x" by (simp add: unat_gt_0)
  then show ?case using Cons by (simp add: words_def)
qed simp

text \<open>What the writer leaves: the counts and the data of some list of objects.\<close>

definition written :: "mem \<Rightarrow> mlvalue \<Rightarrow> 64 word \<Rightarrow> 64 word \<Rightarrow> nat \<Rightarrow> nat \<Rightarrow> bytes \<Rightarrow> bool" where
  "written m v root atoms n k data \<longleftrightarrow>
     (\<exists>final. read_back m v root atoms [] [v] data final \<and> words m final = n \<and> length final = k \<and> distinct final)"

lemma marshalling_counts:
  assumes g: "data_graph m G" and ms: "marshalling m G s final"
  shows "unat (size_64 s) = words m final" "unat (obj_counter s) = length final" "words m final < 2 ^ 55"
    "2 * length final \<le> words m final" "length final = 0 \<longleftrightarrow> words m final = 0" "distinct final"
proof -
  have d: "distinct final" "set final \<subseteq> G" using ms by (simp_all add: marshalling_def)
  show w: "words m final < 2 ^ 55" by (rule words_bound[OF g d])
  show two: "2 * length final \<le> words m final" by (rule words_two[OF g d(2)])
  show "unat (size_64 s) = words m final" "unat (obj_counter s) = length final"
    using ms w two by (simp_all add: marshalling_def unat_of_nat)
  show "length final = 0 \<longleftrightarrow> words m final = 0" using two by (auto simp: words_def)
  show "distinct final" by (rule d(1))
qed

lemma input_value_data:
  assumes h: "\<And>f rs data. caml_parse_header f (rs\<lparr>intern_src := header @ data\<rparr>) = Some (Inr (h, rs\<lparr>intern_src := data\<rparr>))"
    "header_len h = of_nat (length header)" "data_len h = of_nat (length body)" "num_objects h = of_nat k" "mh_whsize h = of_nat n"
    "\<not> mh_compressed h"
    and n: "n < 2 ^ 55" "k \<le> n" "k = 0 \<longleftrightarrow> n = 0" "n \<noteq> 1"
    and w: "written m v obj (atom_table (dstate (machine rs))) n k body" and r: "reader_ready env rs obj"
  shows "\<exists>q. caml_input_value_from_block env rs (header @ body) (of_nat (length (header @ body))) obj = Some q \<and>
    outcome_isomorphic m v (atom_table (dstate (machine rs))) q"
proof -
  let ?rs = "rs\<lparr>intern_src := body, compressed := False\<rparr>"
  obtain final where f: "read_back m v obj (atom_table (dstate (machine rs))) [] [v] body final" "words m final = n" "length final = k"
    "distinct final"
    using w by (auto simp: written_def)
  have k60: "k < 2 ^ 60" using n by simp
  have ready: "reader_ready env ?rs obj" using r by simp
  have obj: "word_addr obj" using r by (simp add: reader_ready_def)
  have parse: "caml_input_value_from_block env rs (header @ body) (of_nat (length (header @ body))) obj =
      bind_partial (intern_alloc_storage env ?rs (of_nat n) (of_nat k)) (\<lambda>s.
        bind_partial (intern_rec env s obj) (\<lambda>s. Some (Inr (intern_end s obj))))"
    using h by (simp add: caml_input_value_from_block_def input_val_from_block_def intern_decompress_input_def)
  obtain q where q: "intern_alloc_storage env ?rs (of_nat n) (of_nat k) = Some q"
    "case q of
       Inl e \<Rightarrow> e = Out_of_memory
     | Inr rs' \<Rightarrow> intern_src rs' = intern_src ?rs \<and> compressed rs' = compressed ?rs \<and>
         atom_table (dstate (machine rs')) = atom_table (dstate (machine ?rs)) \<and> room env rs' {obj} n \<and>
         (k \<noteq> 0 \<longrightarrow> intern_obj_table rs' = Some (replicate k None) \<and> objs_seen rs' = 0)"
    using storage_ready[OF ready n] by blast
  show ?thesis
  proof (cases q)
    case (Inl e)
    then show ?thesis using q parse by (simp add: outcome_isomorphic_def)
  next
    case (Inr rs')
    have rs': "room env rs' {obj} n" "\<not> compressed rs'" "k \<noteq> 0 \<longrightarrow> intern_obj_table rs' = Some (replicate k None) \<and> objs_seen rs' = 0"
      "intern_src rs' = body" and at: "atom_table (dstate (machine rs')) = atom_table (dstate (machine rs))"
      using q(2) Inr by simp_all
    have f1: "read_back m v obj (atom_table (dstate (machine rs'))) [] [v] body final" using f(1) at by simp
    show ?thesis
      using intern_rec_data[OF rs'(1) obj rs'(2,3) k60 rs'(4) f1 f(2-4)] q(1) parse Inr at by simp
  qed
qed

lemma output_value_data:
  assumes g: "data_graph m G" and v: "value_in m G v"
    and fl: "caml_convert_flag_list m flags extern_flag_values = Some fl" "fl AND NO_SHARING = 0"
  shows "\<exists>r. caml_output_value_to_malloc env m s v flags = Some r \<and>
    (case r of
       Inl e \<Rightarrow> e = Out_of_memory \<or> fl AND COMPAT_32 \<noteq> 0 \<and> (\<exists>msg. e = Failure msg)
     | Inr data \<Rightarrow> \<exists>sf header. data = header @ extern_out sf \<and> extern_header_bytes sf (of_nat (length (extern_out sf))) = Inr header \<and>
         (\<forall>root atoms. \<exists>final. marshalling m G sf final \<and> length (extern_out sf) \<le> 9 + 18 * words m final \<and>
            read_back m v root atoms [] [v] (extern_out sf) final))"
proof (cases "init_extern_output env s")
  case (Inl e)
  then show ?thesis by (simp add: caml_output_value_to_malloc_def init_extern_output_def split: if_splits)
next
  case (Inr s1)
  let ?s = "s1\<lparr>extern_flags := fl AND NOT COMPRESSED, positions := (fst (positions s1), 0), size_32 := 0, size_64 := 0\<rparr>"
  have s1: "\<not> extern_userprovided_output s1" "extern_out s1 = []"
    using Inr by (auto simp: init_extern_output_def extern_out_def split: if_splits)
  have flags: "\<not> flag_set ?s NO_SHARING" "\<not> flag_set ?s COMPRESSED" "flag_set ?s COMPAT_32 \<longleftrightarrow> fl AND COMPAT_32 \<noteq> 0"
    using fl(2) by (simp_all add: flag_set_def and.assoc and.left_commute[of fl] NO_SHARING_def COMPRESSED_def COMPAT_32_def)
  have s: "\<not> extern_userprovided_output ?s" "snd (positions ?s) = 0" "size_64 ?s = 0" "extern_out ?s = []"
    using s1 by (simp_all add: extern_out_def)
  obtain r where r: "extern_rec env m ?s v = Some r"
    "case r of
       Inl e \<Rightarrow> may_fail ?s e
     | Inr sf \<Rightarrow> \<forall>root atoms. \<exists>final.
         marshalling m G sf final \<and> extern_flags sf = extern_flags ?s \<and> length (extern_out sf) \<le> 9 + 18 * words m final \<and>
         read_back m v root atoms [] [v] (extern_out sf) final"
    using extern_rec_data[OF g v s(1) flags(1,2) s(2-4), of env] by blast
  show ?thesis
  proof (cases r)
    case (Inl e)
    then show ?thesis using r flags(3) \<open>init_extern_output env s = Inr s1\<close> fl(1)
      by (simp add: caml_output_value_to_malloc_def extern_value_def may_fail_def)
  next
    case r_Inr: (Inr sf)
    have sf: "extern_flags sf = fl AND NOT COMPRESSED" using r(2) r_Inr by auto
    have ok: "\<forall>root atoms. \<exists>final. marshalling m G sf final \<and> length (extern_out sf) \<le> 9 + 18 * words m final \<and>
            read_back m v root atoms [] [v] (extern_out sf) final"
      using r(2) r_Inr by auto
    show ?thesis
    proof (cases "extern_header_bytes sf (of_nat (length (extern_out sf)))")
      case (Inl e)
      then have "flag_set sf COMPAT_32 \<and> (\<exists>msg. e = Failure msg)" by (auto simp: extern_header_bytes_def split: if_splits)
      then show ?thesis using Inl r(1) r_Inr \<open>init_extern_output env s = Inr s1\<close> fl(1) sf flags(3)
        by (simp add: caml_output_value_to_malloc_def extern_value_def extern_output_length_def flag_set_def)
    next
      case header: (Inr header)
      show ?thesis using header r(1) r_Inr \<open>init_extern_output env s = Inr s1\<close> fl(1) ok
        by (auto simp: caml_output_value_to_malloc_def extern_value_def extern_output_length_def)
    qed
  qed
qed

section \<open>Arrays of more than four gigawords\<close>

text \<open>The graphs of data above have float arrays of less than \<open>2 ^ 32\<close> elements.  The code for larger
  arrays is written for the native order of bytes, but the reader takes it for the other order.\<close>

lemma readfloats_64_reverses:
  assumes "intern_src rs = data @ rest" "length data = 8"
  shows "readfloats rs dest 1 CODE_DOUBLE_ARRAY64_LITTLE = Some (put_bytes (rs\<lparr>intern_src := rest\<rparr>) dest (rev data))"
    "readfloats rs dest 1 CODE_DOUBLE_ARRAY32_LITTLE = Some (put_bytes (rs\<lparr>intern_src := rest\<rparr>) dest data)"
  using assms by (simp_all add: readfloats_def reading_def readblock_def)

lemma extern_double_array_64:
  assumes "2 ^ 32 \<le> unat n" "\<not> flag_set s COMPAT_32"
  shows "extern_double_array env m s v n =
    bind_result (emit env (writecode64 [] CODE_DOUBLE_ARRAY64_LITTLE n) s) (emit env (load_bytes m v (unat n * 8)))"
  using assms by (simp add: extern_double_array_def writeblock_def word_less_nat_alt)

section \<open>The round trip\<close>

text \<open>C1: marshalling a value whose blocks form a finite graph of data, with sharing and cycles and without
  the flag that turns sharing off, ends; it raises no exception but that memory is exhausted, or, when
  compatibility with 32-bit platforms is asked for, that there is none.  A reader that is given the
  bytes written ends too, within its input, its table of objects and the memory it has reserved,
  and returns an isomorphic graph unless memory is exhausted.\<close>

theorem marshal_roundtrip:
  assumes "data_graph m G" "value_in m G v"
    and "caml_convert_flag_list m flags extern_flag_values = Some fl" "fl AND NO_SHARING = 0"
  shows "\<exists>r. caml_output_value_to_malloc env m s v flags = Some r \<and>
    (case r of
       Inl e \<Rightarrow> e = Out_of_memory \<or> fl AND COMPAT_32 \<noteq> 0 \<and> (\<exists>msg. e = Failure msg)
     | Inr data \<Rightarrow> \<forall>env' rs obj. reader_ready env' rs obj \<longrightarrow>
         (\<exists>q. caml_input_value_from_block env' rs data (of_nat (length data)) obj = Some q \<and>
            outcome_isomorphic m v (atom_table (dstate (machine rs))) q))"
proof -
  obtain r where r: "caml_output_value_to_malloc env m s v flags = Some r"
    "case r of
       Inl e \<Rightarrow> e = Out_of_memory \<or> fl AND COMPAT_32 \<noteq> 0 \<and> (\<exists>msg. e = Failure msg)
     | Inr data \<Rightarrow> \<exists>sf header. data = header @ extern_out sf \<and> extern_header_bytes sf (of_nat (length (extern_out sf))) = Inr header \<and>
         (\<forall>root atoms. \<exists>final. marshalling m G sf final \<and> length (extern_out sf) \<le> 9 + 18 * words m final \<and>
            read_back m v root atoms [] [v] (extern_out sf) final)"
    using output_value_data[OF assms] by blast
  show ?thesis
  proof (cases r)
    case (Inl e)
    then show ?thesis using r by simp
  next
    case (Inr data)
    obtain sf header where d: "data = header @ extern_out sf" "extern_header_bytes sf (of_nat (length (extern_out sf))) = Inr header"
      "\<And>root atoms. \<exists>final. marshalling m G sf final \<and> length (extern_out sf) \<le> 9 + 18 * words m final \<and>
            read_back m v root atoms [] [v] (extern_out sf) final"
      using r(2) Inr by auto
    have "\<exists>q. caml_input_value_from_block env' rs data (of_nat (length data)) obj = Some q \<and>
        outcome_isomorphic m v (atom_table (dstate (machine rs))) q" if ready: "reader_ready env' rs obj" for env' rs obj
    proof -
      obtain final where f: "marshalling m G sf final" "length (extern_out sf) \<le> 9 + 18 * words m final"
        "read_back m v obj (atom_table (dstate (machine rs))) [] [v] (extern_out sf) final"
        using d(3)[of obj "atom_table (dstate (machine rs))"] by blast
      note c = marshalling_counts[OF assms(1) f(1)]
      have w: "written m v obj (atom_table (dstate (machine rs))) (words m final) (length final) (extern_out sf)"
        using f(3) c(6) by (auto simp: written_def)
      have len: "unat (of_nat (length (extern_out sf)) :: 64 word) < 2 ^ 62" using f(2) c(3) by (simp add: unat_of_nat)
      have le: "obj_counter sf \<le> size_64 sf" using c(1,2,4) by (simp add: word_le_nat_alt)
      have counts: "obj_counter sf = of_nat (length final)" "size_64 sf = of_nat (words m final)"
        using f(1) by (simp_all add: marshalling_def)
      obtain h where h: "\<And>f rs data. caml_parse_header f (rs\<lparr>intern_src := header @ data\<rparr>) = Some (Inr (h, rs\<lparr>intern_src := data\<rparr>))"
        "header_len h = of_nat (length header)" "data_len h = of_nat (length (extern_out sf))" "num_objects h = of_nat (length final)"
        "mh_whsize h = of_nat (words m final)" "\<not> mh_compressed h"
        using header_roundtrip[OF d(2) len le] counts by auto
      have "words m final \<noteq> 1" using c(4,5) by arith
      then show ?thesis unfolding d(1) using input_value_data[OF h c(3) _ c(5) _ w ready] c(4) by simp
    qed
    then show ?thesis using r(1) Inr by simp
  qed
qed

section \<open>An example\<close>

text \<open>A block whose first field is the block itself.\<close>

definition cyclic_memory :: mem where
  "cyclic_memory = mem_store64 (mem_store64 (mem_store64 (\<lambda>_. 0) 0xFF8 0x800) 0x1000 0x1000) 0x1008 11"

definition example_extern_env :: extern_env where
  "example_extern_env = \<lparr>c_alloc_ok = (\<lambda>_. True), custom_ops_at = (\<lambda>_. \<lparr>cs_ident = [], cs_serialize = None, cs_fixed_length = None\<rparr>),
     find_code_fragment_by_pc = (\<lambda>_. None)\<rparr>"

lemma cyclic_memory_words: "mem_load64 cyclic_memory 0xFF8 = 0x800" "mem_load64 cyclic_memory 0x1000 = 0x1000"
   "mem_load64 cyclic_memory 0x1008 = 11"
  by (simp_all add: cyclic_memory_def mem_load64_store64_other)
lemma cyclic_memory_header: "Hd_val cyclic_memory 0x1000 = 0x800"
  using cyclic_memory_words(1) by (simp add: Hd_val_def)

definition writer_at :: "position_table \<times> uintnat \<Rightarrow> uintnat \<Rightarrow> extern_item list \<Rightarrow> bytes \<Rightarrow> extern_st" where
  "writer_at p n stack data =
     \<lparr>extern_flags = 0, positions = p, size_32 = n, size_64 = n, extern_stack = stack, extern_stack_limit = 256,
      extern_userprovided_output = False, full_blocks = [], output_block = data, extern_limit = 8100\<rparr>"

lemma writer_at_stack:
  "extern_stack (writer_at p n stack data) = stack"
  "(writer_at p n stack data)\<lparr>extern_stack := stack'\<rparr> = writer_at p n stack' data"
  "extern_free_stack (writer_at p n stack data) = writer_at p n [] data"
  by (simp_all add: writer_at_def extern_free_stack_def EXTERN_STACK_INIT_SIZE_def)

definition example_table :: position_table where
  "example_table = extern_init_position_table\<lparr>pt_present := (replicate 4 0)[1 := push_bit 55 1],
     pt_entries := (replicate 256 None)[119 := Some \<lparr>op_obj = 0x1000, op_pos = 0\<rparr>]\<rparr>"

lemmas table_defs = extern_init_position_table_def empty_table_def Bitvect_size_def POS_TABLE_INIT_SIZE_def bitvect_test_def
  bitvect_set_def entry_set_def entry_get_def occupy_def Threshold_def example_table_def

lemma example_hash: "Hash_pos 0x1000 56 = 119"
  by (simp add: Hash_pos_def HASH_FACTOR_def)

lemma example_positions:
  "extern_lookup_position extern_init_position_table 0x1000 = Some (None, 119)"
  "extern_lookup_position example_table 0x1000 = Some (Some 0, 119)"
  "record_entry f (extern_init_position_table, 0) 0x1000 119 0 = Some (Inr (example_table, 1))"
proof -
  show "extern_lookup_position extern_init_position_table 0x1000 = Some (None, 119)"
    "extern_lookup_position example_table 0x1000 = Some (Some 0, 119)"
    by (simp_all add: extern_lookup_position_def example_hash probe.simps table_defs)
  have "\<not> (170 :: uintnat) \<le> 1" by (simp add: word_le_nat_alt)
  then show "record_entry f (extern_init_position_table, 0) 0x1000 119 0 = Some (Inr (example_table, 1))"
    by (simp add: record_entry_def table_defs)
qed

lemma example_header: "Tag_hd 0x800 = 0" "Allocated_wosize_hd 0x800 = 2" "Reserved_hd 0x800 = 0" "\<not> Is_mixed_block_reserved 0"
  by code_simp+

lemmas writer_defs = extern_one_def example_header Is_block_def Is_long_def
  flag_set_def NO_SHARING_def COMPRESSED_def COMPAT_32_def Let_def short_circuit_def
  extern_contents_def extern_header_def emit_def ensure_room_def writebyte_def extern_record_location_def extern_record_location_with_data_def
  add_sizes_def visit_fields_def push_item_def obj_counter_def extern_shared_reference_def writecode8_def extern_int_def
  Long_val_def writer_at_def example_extern_env_def

lemma example_steps:
  "extern_one example_extern_env cyclic_memory (writer_at (extern_init_position_table, 0) 0 [] []) 0x1000 =
     Some (Inr (Some 0x1000, writer_at (example_table, 1) 3 [(0x1008, 1)] [0xA0]))"
  "extern_one example_extern_env cyclic_memory (writer_at (example_table, 1) 3 [(0x1008, 1)] [0xA0]) 0x1000 =
     Some (Inr (None, writer_at (example_table, 1) 3 [(0x1008, 1)] [0xA0, 4, 1]))"
  "extern_one example_extern_env cyclic_memory (writer_at (example_table, 1) 3 [] [0xA0, 4, 1]) 11 =
     Some (Inr (None, writer_at (example_table, 1) 3 [] [0xA0, 4, 1, 0x45]))"
  by (simp_all add: writer_defs example_positions cyclic_memory_words cyclic_memory_header)

lemma example_loop: "extern_loop example_extern_env cyclic_memory (writer_at (extern_init_position_table, 0) 0 [] []) 0x1000 =
   Some (Inr (writer_at (example_table, 1) 3 [] [0xA0, 4, 1, 0x45]))"
  by (simp add: extern_loop.simps[of _ _ "writer_at _ _ _ _"] example_steps writer_at_stack cyclic_memory_words)

definition example_data :: bytes where "example_data = [0x84, 0x95, 0xA6, 0xBE, 0, 0, 0, 4, 0, 0, 0, 1, 0, 0, 0, 3, 0, 0, 0, 3, 0xA0, 4, 1, 0x45]"

definition example_extern :: extern_st where "example_extern = writer_at (extern_init_position_table, 0) 0 [] []"

lemma example_output: "caml_output_value_to_malloc example_extern_env cyclic_memory example_extern 0x1000 Val_emptylist = Some (Inr example_data)"
proof -
  have fl: "caml_convert_flag_list cyclic_memory Val_emptylist extern_flag_values = Some 0"
    by (subst caml_convert_flag_list_def, subst convert_flags.simps) simp
  have init: "init_extern_output example_extern_env example_extern = Inr example_extern"
    by (simp add: init_extern_output_def example_extern_env_def example_extern_def writer_at_def)
  have "extern_rec example_extern_env cyclic_memory
      (example_extern\<lparr>extern_flags := 0, positions := (fst (positions example_extern), 0), size_32 := 0, size_64 := 0\<rparr>) 0x1000 =
     Some (Inr (writer_at (example_table, 1) 3 [] [0xA0, 4, 1, 0x45]))"
    using example_loop by (simp add: extern_rec_def example_extern_def writer_at_def flag_set_def)
  then show ?thesis
    by (simp add: caml_output_value_to_malloc_def init extern_value_def fl)
      (simp add: extern_header_bytes_def writer_at_def extern_output_length_def extern_out_def word_le_nat_alt store32_def
        example_data_def example_extern_env_def obj_counter_def Intext_magic_number_small_def)
qed

definition example_intern :: intern_st where
  "example_intern = \<lparr>intern_src = [], objs_seen = 0, intern_obj_table = None, intern_stack = [], intern_stack_limit = 256,
     intern_dest = None, compressed = False, machine = example_gc, shared_allocs = 0, custom_table = [], oo_next_id_local = 0, oo_next_id = 0\<rparr>"

definition example_intern_env :: intern_env where
  "example_intern_env = \<lparr>c_malloc_ok = (\<lambda>_. True), shared_try_alloc = (\<lambda>_ _ _. None), caml_allocation_status = 0,
     caml_find_custom_operations = (\<lambda>_. None), caml_find_code_fragment_by_digest = (\<lambda>_. None), function_placeholder = None\<rparr>"
lemmas reader_defs = example_intern_def example_intern_env_def example_data_def caml_input_value_from_block_def reading_def
  caml_parse_header_def parse_small_def Intext_magic_number_small_def input_val_from_block_def intern_decompress_input_def
  intern_alloc_storage_def Let_def Max_young_wosize_def Alloc_small_def Alloc_small_with_reserved_def example_gc_def
  Bsize_wsize_def Whsize_wosize_def caml_check_gc_interrupt_def intern_rec_def ReadItems_def PushItem_def intern_loop.simps
  intern_item_step_def next_read_def read_value_code_def read_block_def new_object_def intern_alloc_obj_def record_object_def
  read_long_code_def read_shared_def value_read_def

lemma example_input:
  "\<exists>y rs. caml_input_value_from_block example_intern_env example_intern example_data 24 0x200 = Some (Inr (y, rs))"
  by (simp add: reader_defs intern_end_def)

lemma cyclic_graph: "data_graph cyclic_memory {0x1000}"
proof -
  have tag: "Tag_val cyclic_memory 0x1000 = 0" "Allocated_wosize_val cyclic_memory 0x1000 = 2" "Reserved_val cyclic_memory 0x1000 = 0"
    using example_header by (simp_all add: Tag_val_Hd_val Allocated_wosize_val_def Reserved_val_def cyclic_memory_header)
  have "value_in cyclic_memory {0x1000} (Field cyclic_memory 0x1000 j)" if "j < 2" for j
  proof -
    from that consider "j = 0" | "j = 1" by linarith
    then show ?thesis by cases (simp_all add: Field_def cyclic_memory_words value_in_def Is_long_def)
  qed
  then show ?thesis using tag by (simp add: data_graph_def data_block_def scannable_def Is_block_def Is_long_def)
qed

theorem marshal_roundtrip_witness:
  "\<exists>y rs. caml_output_value_to_malloc example_extern_env cyclic_memory example_extern 0x1000 Val_emptylist = Some (Inr example_data) \<and>
     caml_input_value_from_block example_intern_env example_intern example_data 24 0x200 = Some (Inr (y, rs)) \<and>
     isomorphic cyclic_memory 0x1000 0x100 (heap_of rs) y"
proof -
  have fl: "caml_convert_flag_list cyclic_memory Val_emptylist extern_flag_values = Some 0"
    by (subst caml_convert_flag_list_def, subst convert_flags.simps) simp
  have v: "value_in cyclic_memory {0x1000} 0x1000" by (simp add: value_in_def)
  have ready: "reader_ready example_intern_env example_intern 0x200"
    by (simp add: reader_ready_def example_intern_env_def example_intern_def example_gc_def word_addr_def wf_dom_def supply_ok_def)
  obtain y rs where i: "caml_input_value_from_block example_intern_env example_intern example_data 24 0x200 = Some (Inr (y, rs))"
    using example_input by blast
  have len: "of_nat (length example_data) = (24 :: 64 word)" by (simp add: example_data_def)
  have at: "atom_table (dstate (machine example_intern)) = 0x100" by (simp add: example_intern_def example_gc_def)
  have "outcome_isomorphic cyclic_memory 0x1000 0x100 (Inr (y, rs))"
    using marshal_roundtrip[OF cyclic_graph v fl, of example_extern_env example_extern] ready i
    unfolding example_output by (force simp: len at)
  then show ?thesis using example_output i by (auto simp: outcome_isomorphic_def)
qed

end
