(* ===== verification/Spec2Isabelle.thy ===== *)
theory Spec2Isabelle
  imports Ints Str Globroots Lexing Md5 Compare_Correct Array_Correct Parsing_Complete Marshal_Roundtrip
begin

text \<open>
  \<^bold>\<open>Verification of the C runtime of the flambda-backend OCaml compiler\<close>

  The program is the runtime system that every compiled OCaml program is linked with,
  \<open>ocaml/runtime\<close>, in C.  It represents values as tagged machine words over a heap of blocks
  (\<open>caml/mlvalues.h\<close>), allocates blocks (\<open>alloc.c\<close>, \<open>memory.c\<close>), maintains what the collectors
  need to know about mutations and roots (\<open>memory.c\<close>, \<open>globroots.c\<close>), and provides the primitives
  of the standard library: integers, strings, arrays, comparison, hashing, digests, marshalling, and
  the engines of generated lexers and parsers.  The configuration is a 64-bit little-endian
  machine, native code, flat float arrays and eight reserved header bits.

  \<^bold>\<open>Theories\<close>, in the order of the calls:

  \<^item> \<open>Runtime_Prelude\<close>: C integer types as words, exceptions as values, C division, byte encodings,
    and the lemmas that all components share.
  \<^item> \<open>Mlvalues\<close>: values, headers and accessors of \<open>caml/mlvalues.h\<close> over a byte-addressed memory.
  \<^item> \<open>Marshal_Prims\<close>: reading and writing of integers and variable-length quantities in \<open>extern.c\<close>
    and \<open>intern.c\<close>, with their round trips.
  \<^item> \<open>Ints\<close>: \<open>ints.c\<close>: comparison, arithmetic with the special cases of division, where the operators
    of C trap, parsing of literals with overflow detection, formats, custom operations of the boxed types.
  \<^item> \<open>Alloc\<close>: \<open>alloc.c\<close> on the minor heap: a fresh block is carved below the allocation pointer and
    nothing else is written.
  \<^item> \<open>Str\<close>: \<open>str.c\<close>: length encoding, access, comparison, searches and copies against lists of bytes.
  \<^item> \<open>Skiplist\<close>, \<open>Skiplist_Refine\<close>: \<open>skiplist.c\<close> on a store of cells, refined to finite maps through an
    interface locale.
  \<^item> \<open>Globroots\<close>: \<open>globroots.c\<close>: the lists of roots over the skip lists; the invariant of generational roots
    holds in every reachable state, where, other than the comment in that file says, every block
    outside the minor heap counts as old; static data is scanned as the headers of its blocks say.
  \<^item> \<open>Lexing\<close>: both engines of \<open>lexing.c\<close>: longest match, transparency of refills, agreement.
  \<^item> \<open>Parsing\<close>, \<open>Parsing_Refine\<close>, \<open>Parsing_Complete\<close>: the pushdown automaton of \<open>parsing.c\<close>, label by label,
    with the driver of \<open>stdlib/parsing.ml\<close>; the two decide exactly as an LR automaton over
    lists, given as a step relation, as long as what the engine reloads as a C \<open>int\<close> fits in one.
  \<^item> \<open>Postable\<close>: the hash table of \<open>extern.c\<close> that gives each object written its position; it refines a
    partial map through all growths.
  \<^item> \<open>Intext\<close>, \<open>Extern\<close>, \<open>Intern\<close>: the format of \<open>caml/intext.h\<close>, the writer of \<open>extern.c\<close> and the reader of
    \<open>intern.c\<close>, with their explicit stacks.
  \<^item> \<open>Marshal_Codes\<close>, \<open>Marshal_Write\<close>, \<open>Marshal_Image\<close>, \<open>Marshal_Read\<close>, \<open>Marshal_Correct\<close>, \<open>Marshal_Roundtrip\<close>: every
    code is read back; the steps of the writer over a finite graph of data; the heap built so
    far as a partial image of the graph; the steps of the reader; the two in step; headers,
    allocation and the isomorphism of the whole round trip.
  \<^item> \<open>Md5\<close>: \<open>md5.c\<close> against a definition of the digest of RFC 1321.
  \<^item> \<open>Hash\<close>: \<open>hash.c\<close>: the generic hash ends and depends only on the shape of the value; strings of a
    multiple of four bytes are hashed by MurmurHash3 and others by a variant of it; variant labels are hashed as in the type checker.
  \<^item> \<open>Compare\<close>, \<open>Compare_Correct\<close>: \<open>compare.c\<close> with its explicit stack refines a recursive comparison of
    trees, which is the lexicographic order of their traversals.
  \<^item> \<open>Memory\<close>: the write barrier, atomic operations and the local stack of \<open>memory.c\<close>; locales for word
    writes and for writes behind the barrier.
  \<^item> \<open>Array\<close>, \<open>Array_Correct\<close>: \<open>array.c\<close>: bounds, blit, fill, concatenation; over any sequence of
    mutations the remembered set is complete and no pointer of the marking snapshot is lost.

  \<^bold>\<open>Correspondence.\<close>  Every function, macro, struct and enum of the modelled parts is a definition with
  its own name; loops inside a function are separate recursive functions.  Machine integers are
  words of their width.  Memory is a function from addresses to bytes; structures private to C
  (skip-list cells, local arenas, parser environments) are records in explicit stores.  Every
  definition takes the state and returns the new one.  An OCaml exception is a value of type
  \<open>exn\<close> on the left of a sum; \<open>None\<close> is a behaviour outside the model: a garbage collection or
  an allocation in the major heap is needed, a table or a buffer is read out of range, or a
  structure is corrupt.  The theorems show either that \<open>None\<close> does not occur or, where it can,
  what holds of every run that returns.

  \<^bold>\<open>Termination.\<close>  Loops are total functions with a measure wherever one exists.  \<open>None\<close> is also the value of
  a loop that does not end, for the loops over linked structures, defined by
  \<open>partial_function\<close>; the properties of these loops prove that they return.  Fuel is used
  for the loop of \<open>yyparse\<close> only, whose semantic actions are arbitrary: the property states
  that some fuel suffices exactly when the automaton reaches a final configuration.

  \<^bold>\<open>Parameters.\<close>  Code that is not part of the runtime is an argument: operations of custom blocks,
  semantic actions, scanning actions, the pseudo-random bits of skip lists come from the code, the
  results of the C allocator from a supply of addresses or a predicate on sizes.  For marshalling
  also the table of code fragments and the blocks that the major heap gives out, which are
  assumed aligned, free and apart (\<open>supply_ok\<close>).

  \<^bold>\<open>Interfaces\<close> are locales: \<open>word_write\<close> and \<open>guarded_write\<close> (Memory, interpreted by the plain store,
  \<open>caml_modify\<close>, \<open>caml_initialize\<close> and the store of \<open>caml_array_fill\<close>), \<open>dictionary\<close>
  (Skiplist_Refine, which the global roots use), \<open>boxed_division\<close> and \<open>custom_type\<close> (Ints, for each boxed
  type) and \<open>recorder\<close> (Postable).

  \<^bold>\<open>Not modelled.\<close>  The collectors themselves (\<open>minor_gc.c\<close>, \<open>major_gc.c\<close>, \<open>shared_heap.c\<close>, \<open>memprof.c\<close>, \<open>finalise.c\<close>,
  \<open>weak.c\<close>): they run concurrently on all domains under the C11 memory model, which a sequential
  model would misrepresent; what they rely on from the mutator is stated and proved.
  Domains, fibers, signals and channels: behaviour of the operating system and of machine
  stacks.  Floating-point primitives and bigarrays: IEEE arithmetic of the C library
  (hashing and comparison of floats are modelled on their bits).  The bytecode
  interpreter, the runtime of OCaml 4 and \<open>ocamlyacc\<close>: other programs of the repository.  In
  marshalling: compression (the configuration is the one without \<open>zstd\<close>), channels and
  \<open>caml_obj_reachable_words\<close>; custom blocks, closures, objects and forwarding blocks are modelled
  but not among the graphs of the round trip, whose blocks are those of scannable tags, strings and
  floats.  The pool of \<open>caml_stat_alloc\<close>.
\<close>

end
